(* ===== verification/Prelude.thy ===== *)
theory Prelude
  imports Main "HOL-Library.Word" "HOL-Library.Signed_Division" "HOL-Library.Monad_Syntax"
    "HOL-Library.Multiset"
begin

text \<open>
  Shared material of the development: the machine types of the 32-bit x86
  target, the treatment of kernel panics, the arithmetic of the C language
  that the components use, and the generic lemmas on lists and words.

  A C operation that contains \<open>ASSERT\<close>, \<open>PANIC\<close>, \<open>NOT_REACHED\<close>, a null
  dereference or an access outside an array is modelled as a function into
  \<open>'a option\<close>: \<open>None\<close> means that the kernel stops there.  Error values that the
  C code returns to its caller (\<open>NULL\<close>, \<open>false\<close>, \<open>BITMAP_ERROR\<close>, \<open>TID_ERROR\<close>)
  are ordinary values of the model, never \<open>None\<close>.
\<close>

unbundle bit_operations_syntax

subsection \<open>Machine types\<close>

type_synonym u8 = "8 word"
type_synonym u16 = "16 word"
type_synonym u32 = "32 word"
type_synonym u64 = "64 word"

text \<open>Kernel pointers: addresses as naturals, the null pointer is address 0.\<close>

type_synonym ptr = nat

abbreviation (input) NULL :: ptr where
  "NULL \<equiv> 0"

subsection \<open>Collections of lemmas\<close>

named_theorems kdefs \<open>definitions of the kernel operations\<close>
named_theorems klaws \<open>laws of the kernel operations used by their clients\<close>

subsection \<open>Assertions\<close>

definition ASSERT :: "bool \<Rightarrow> unit option" where
  "ASSERT b = (if b then Some () else None)"

lemma ASSERT_True [simp]: "ASSERT True = Some ()"
  by (simp add: ASSERT_def)

lemma ASSERT_False [simp]: "ASSERT False = None"
  by (simp add: ASSERT_def)

lemma ASSERT_bind [simp]: "(ASSERT b \<bind> f) = (if b then f () else None)"
  by (simp add: ASSERT_def)

lemma ASSERT_eq_Some [simp]: "ASSERT b = Some u \<longleftrightarrow> b"
  by (simp add: ASSERT_def)

lemma bind_eq_SomeE:
  assumes "m \<bind> f = Some y"
  obtains x where "m = Some x" "f x = Some y"
  using assms by (cases m) auto

subsection \<open>Arithmetic of the C sources\<close>

text \<open>\<open>lib/round.h\<close>, for the nonnegative arguments it is documented for.\<close>

definition DIV_ROUND_UP :: "nat \<Rightarrow> nat \<Rightarrow> nat" where
  "DIV_ROUND_UP x step = (x + step - 1) div step"

definition ROUND_UP :: "nat \<Rightarrow> nat \<Rightarrow> nat" where
  "ROUND_UP x step = (x + step - 1) div step * step"

definition ROUND_DOWN :: "nat \<Rightarrow> nat \<Rightarrow> nat" where
  "ROUND_DOWN x step = x div step * step"

lemma DIV_ROUND_UP_ge:
  assumes "0 < step"
  shows "x \<le> DIV_ROUND_UP x step * step"
proof -
  have "x + step - 1 < ((x + step - 1) div step) * step + step"
    using assms by (metis div_mult_mod_eq mod_less_divisor add_less_cancel_left)
  then show ?thesis
    using assms by (simp add: DIV_ROUND_UP_def)
qed

lemma DIV_ROUND_UP_less:
  assumes "0 < step"
  shows "DIV_ROUND_UP x step * step < x + step"
proof -
  have "(x + step - 1) div step * step \<le> x + step - 1"
    by simp
  also have "\<dots> < x + step" using assms by simp
  finally show ?thesis by (simp add: DIV_ROUND_UP_def)
qed

lemma DIV_ROUND_UP_0 [simp]: "0 < step \<Longrightarrow> DIV_ROUND_UP 0 step = 0"
  by (simp add: DIV_ROUND_UP_def)

lemma less_DIV_ROUND_UP:
  assumes "0 < step" "i < x"
  shows "i div step < DIV_ROUND_UP x step"
proof -
  have "i < DIV_ROUND_UP x step * step"
    using assms DIV_ROUND_UP_ge [of step x] by linarith
  then show ?thesis
    by (simp add: less_mult_imp_div_less)
qed

text \<open>Signed readings of words.\<close>

lemma sint_of_int_32:
  assumes "- (2 ^ 31) \<le> x" "x < 2 ^ 31"
  shows "sint (word_of_int x :: 32 word) = x"
  using assms by (simp add: sint_sbintrunc' signed_take_bit_int_eq_self)

lemma sint_range_32: "- (2 ^ 31) \<le> sint (w :: 32 word)" "sint (w :: 32 word) < 2 ^ 31"
  using sint_ge [of w] sint_lt [of w] by simp_all

lemma word_eq_sint_32: "(a :: 32 word) = b \<longleftrightarrow> sint a = sint b"
  by (rule word_eq_iff_signed)

text \<open>Truncating division: the quotient lies within one of the exact one.\<close>

lemma sdiv_pos_bounds:
  fixes a b :: int
  assumes "0 < b"
  shows "\<bar>a - (a sdiv b) * b\<bar> < b"
proof -
  have "a - (a sdiv b) * b = a smod b"
    by (simp add: minus_sdiv_mult_eq_smod)
  moreover have "\<bar>a smod b\<bar> < b"
    using assms by (simp add: signed_modulo_int_def abs_mult sgn_if)
  ultimately show ?thesis by simp
qed

lemma sdiv_nonneg:
  fixes a b :: int
  assumes "0 \<le> a" "0 < b"
  shows "a sdiv b = a div b"
  using assms by (auto simp: signed_divide_int_def sgn_if)

end
