(* ===== verification/Fixed_Point.thy ===== *)
theory Fixed_Point
  imports Prelude
begin

text \<open>
  The 17.14 fixed-point arithmetic of \<open>threads/fixed-point.c\<close>.  An \<open>fp_float\<close>
  is an \<open>int32_t\<close>: a 32-bit word read by \<open>sint\<close>.  Additions, subtractions and
  multiplications wrap as the machine instructions do; a division by zero (and
  the one overflowing 32-bit quotient) traps, which is \<open>None\<close>.
\<close>

subsection \<open>Definitions\<close>

type_synonym fp_float = "32 word"

definition int_to_fp :: "32 word \<Rightarrow> fp_float" where
  "int_to_fp i = i * 16384"

definition fp_to_int :: "fp_float \<Rightarrow> 32 word" where
  "fp_to_int f =
     (if sint f > 0 then word_of_int (sint (f + 8192) sdiv 16384)
      else if sint f < 0 then word_of_int (sint (f - 8192) sdiv 16384)
      else 0)"

definition fp_add :: "fp_float \<Rightarrow> fp_float \<Rightarrow> fp_float" where
  "fp_add a b = a + b"

definition fp_sub :: "fp_float \<Rightarrow> fp_float \<Rightarrow> fp_float" where
  "fp_sub a b = a - b"

definition fp_add_int :: "fp_float \<Rightarrow> 32 word \<Rightarrow> fp_float" where
  "fp_add_int a i = fp_add a (int_to_fp i)"

definition fp_sub_int :: "fp_float \<Rightarrow> 32 word \<Rightarrow> fp_float" where
  "fp_sub_int a i = fp_sub a (int_to_fp i)"

text \<open>The product of two \<open>int32_t\<close> fits \<open>int64_t\<close>, so it is formed exactly.\<close>

definition fp_mul :: "fp_float \<Rightarrow> fp_float \<Rightarrow> fp_float" where
  "fp_mul a b = word_of_int ((sint a * sint b) sdiv 16384)"

definition fp_div :: "fp_float \<Rightarrow> fp_float \<Rightarrow> fp_float option" where
  "fp_div a b =
     (if b = 0 then None else Some (word_of_int ((sint a * 16384) sdiv sint b)))"

definition fp_mul_int :: "fp_float \<Rightarrow> 32 word \<Rightarrow> fp_float" where
  "fp_mul_int a i = a * i"

definition fp_div_int :: "fp_float \<Rightarrow> 32 word \<Rightarrow> fp_float option" where
  "fp_div_int a i =
     (if i = 0 \<or> (sint a = - (2 ^ 31) \<and> sint i = - 1) then None
      else Some (word_of_int (sint a sdiv sint i)))"

lemmas fp_defs [kdefs] = int_to_fp_def fp_to_int_def fp_add_def fp_sub_def fp_add_int_def
  fp_sub_int_def fp_mul_def fp_div_def fp_mul_int_def fp_div_int_def

subsection \<open>Exact readings inside the representable range\<close>

lemma sint_int_to_fp:
  assumes "\<bar>sint i\<bar> < 2 ^ 17"
  shows "sint (int_to_fp i) = sint i * 16384"
proof -
  have "int_to_fp i = word_of_int (sint i * 16384)"
    by (simp add: int_to_fp_def)
  moreover have "- (2 ^ 31) \<le> sint i * 16384" "sint i * 16384 < 2 ^ 31"
    using assms by auto
  ultimately show ?thesis by (metis sint_of_int_32)
qed

lemma sint_add_32:
  assumes "- (2 ^ 31) \<le> sint a + sint b" "sint a + sint b < 2 ^ 31"
  shows "sint (a + b :: 32 word) = sint a + sint b"
proof -
  have "a + b = word_of_int (sint a + sint b)" by simp
  then show ?thesis using assms by (metis sint_of_int_32)
qed

lemma sint_sub_32:
  assumes "- (2 ^ 31) \<le> sint a - sint b" "sint a - sint b < 2 ^ 31"
  shows "sint (a - b :: 32 word) = sint a - sint b"
proof -
  have "a - b = word_of_int (sint a - sint b)" by simp
  then show ?thesis using assms by (metis sint_of_int_32)
qed

lemma sint_8192 [simp]: "sint (8192 :: 32 word) = 8192"
  by simp

lemma sint_fp_to_int:
  assumes "\<bar>sint f\<bar> < 2 ^ 31 - 8192"
  shows "sint (fp_to_int f) = (if sint f > 0 then (sint f + 8192) sdiv 16384
     else if sint f < 0 then (sint f - 8192) sdiv 16384 else 0)"
proof -
  have rng: "- (2 ^ 31) \<le> x sdiv 16384 \<and> x sdiv 16384 < 2 ^ 31" if "\<bar>x\<bar> \<le> 2 ^ 31 - 1" for x :: int
    using that sdiv_int_range [of x 16384] by auto
  show ?thesis
    using assms rng [of "sint f + 8192"] rng [of "sint f - 8192"]
    by (auto simp: fp_to_int_def sint_add_32 sint_sub_32 sint_of_int_32)
qed

text \<open>
  C1. Converting an integer to fixed point and back gives the integer again, for
  every integer the 17.14 format can represent.
\<close>

theorem fp_int_roundtrip:
  assumes "\<bar>sint i\<bar> < 2 ^ 17"
  shows "fp_to_int (int_to_fp i) = i"
proof -
  have s: "sint (int_to_fp i) = sint i * 16384" using assms by (rule sint_int_to_fp)
  have pos: "(x * 16384 + 8192) sdiv 16384 = x" if "0 \<le> x" for x :: int
    using that by (simp add: sdiv_nonneg)
  have neg: "(x * 16384 - 8192) sdiv 16384 = x" if "x \<le> 0" for x :: int
    using pos [of "- x"] that minus_sdiv_eq [of "- x * 16384 + 8192" 16384] by simp
  have "\<bar>sint (int_to_fp i)\<bar> < 2 ^ 31 - 8192" using assms s by auto
  then have "sint (fp_to_int (int_to_fp i)) = sint i"
    by (simp add: sint_fp_to_int s pos neg)
  then show ?thesis by (simp add: word_eq_sint_32)
qed

theorem fp_int_roundtrip_witness:
  "\<bar>sint (-7 :: 32 word)\<bar> < 2 ^ 17 \<and> fp_to_int (int_to_fp (-7)) = -7"
  using fp_int_roundtrip [of "-7"] by simp

text \<open>
  C2. \<open>fp_to_int\<close> rounds to the nearest integer: scaled back, its result is at
  most half a unit away from the fixed-point number, for every number whose
  rounding does not overflow.
\<close>

theorem fp_to_int_nearest:
  assumes "\<bar>sint f\<bar> < 2 ^ 31 - 8192"
  shows "\<bar>sint (fp_to_int f) * 16384 - sint f\<bar> \<le> 8192"
proof -
  consider "sint f > 0" | "sint f < 0" | "sint f = 0" by linarith
  then show ?thesis
  proof cases
    case 1
    then have "(sint f + 8192) sdiv 16384 = (sint f + 8192) div 16384"
      by (simp add: sdiv_nonneg)
    with 1 assms show ?thesis by (simp add: sint_fp_to_int)
  next
    case 2
    have "(sint f - 8192) sdiv 16384 = - ((8192 - sint f) div 16384)"
      using 2 minus_sdiv_eq [of "8192 - sint f" 16384] by (simp add: sdiv_nonneg)
    with 2 assms show ?thesis by (simp add: sint_fp_to_int)
  next
    case 3
    with assms show ?thesis by (simp add: sint_fp_to_int)
  qed
qed

theorem fp_to_int_nearest_witness:
  "\<bar>sint (24576 :: 32 word)\<bar> < 2 ^ 31 - 8192
   \<and> \<bar>sint (fp_to_int 24576) * 16384 - sint (24576 :: 32 word)\<bar> \<le> 8192"
  using fp_to_int_nearest [of 24576] by simp

end
