(* ===== verification/Kernel_List.thy ===== *)
theory Kernel_List
  imports Prelude
begin

text \<open>
  The intrusive doubly linked lists of \<open>lib/kernel/list.c\<close>, over an explicit
  heap of list elements.  A \<open>struct list_elem *\<close> is a pointer into the heap, a
  \<open>struct list *\<close> is given by the addresses of its two header elements.  Loops
  over a list follow pointers and need not end on a corrupt heap, so they are
  partial functions whose \<open>None\<close> is a failed assertion, a null dereference or a
  loop that never ends; the theorems show that on a well-formed list they end.
  A value of type \<open>klist\<close> stands for a list that exists, so that there is nothing for the
  assertions \<open>list != NULL\<close> of \<open>list_init\<close>, \<open>list_begin\<close> and the like to test.
\<close>

section \<open>Definitions\<close>

record list_elem =
  le_prev :: ptr
  le_next :: ptr

record klist =
  head_ptr :: ptr
  tail_ptr :: ptr

type_synonym lheap = "ptr \<Rightarrow> list_elem"

type_synonym list_less_func = "ptr \<Rightarrow> ptr \<Rightarrow> bool"

definition set_next :: "lheap \<Rightarrow> ptr \<Rightarrow> ptr \<Rightarrow> lheap" where
  "set_next h e v = h(e := (h e)\<lparr>le_next := v\<rparr>)"

definition set_prev :: "lheap \<Rightarrow> ptr \<Rightarrow> ptr \<Rightarrow> lheap" where
  "set_prev h e v = h(e := (h e)\<lparr>le_prev := v\<rparr>)"

definition is_head :: "lheap \<Rightarrow> ptr \<Rightarrow> bool" where
  "is_head h e \<longleftrightarrow> e \<noteq> NULL \<and> le_prev (h e) = NULL \<and> le_next (h e) \<noteq> NULL"

definition is_interior :: "lheap \<Rightarrow> ptr \<Rightarrow> bool" where
  "is_interior h e \<longleftrightarrow> e \<noteq> NULL \<and> le_prev (h e) \<noteq> NULL \<and> le_next (h e) \<noteq> NULL"

definition is_tail :: "lheap \<Rightarrow> ptr \<Rightarrow> bool" where
  "is_tail h e \<longleftrightarrow> e \<noteq> NULL \<and> le_prev (h e) \<noteq> NULL \<and> le_next (h e) = NULL"

definition list_init :: "lheap \<Rightarrow> klist \<Rightarrow> lheap" where
  "list_init h l =
     (let h1 = set_prev h (head_ptr l) NULL;
          h2 = set_next h1 (head_ptr l) (tail_ptr l);
          h3 = set_prev h2 (tail_ptr l) (head_ptr l)
      in set_next h3 (tail_ptr l) NULL)"

definition list_begin :: "lheap \<Rightarrow> klist \<Rightarrow> ptr" where
  "list_begin h l = le_next (h (head_ptr l))"

definition list_next :: "lheap \<Rightarrow> ptr \<Rightarrow> ptr option" where
  "list_next h e = do { ASSERT (is_head h e \<or> is_interior h e); Some (le_next (h e)) }"

definition list_end :: "klist \<Rightarrow> ptr" where
  "list_end l = tail_ptr l"

definition list_rbegin :: "lheap \<Rightarrow> klist \<Rightarrow> ptr" where
  "list_rbegin h l = le_prev (h (tail_ptr l))"

definition list_prev :: "lheap \<Rightarrow> ptr \<Rightarrow> ptr option" where
  "list_prev h e = do { ASSERT (is_interior h e \<or> is_tail h e); Some (le_prev (h e)) }"

definition list_rend :: "klist \<Rightarrow> ptr" where
  "list_rend l = head_ptr l"

definition list_head :: "klist \<Rightarrow> ptr" where
  "list_head l = head_ptr l"

definition list_tail :: "klist \<Rightarrow> ptr" where
  "list_tail l = tail_ptr l"

definition list_insert :: "lheap \<Rightarrow> ptr \<Rightarrow> ptr \<Rightarrow> lheap option" where
  "list_insert h before elem = do {
     ASSERT (is_interior h before \<or> is_tail h before);
     ASSERT (elem \<noteq> NULL);
     let h1 = set_prev h elem (le_prev (h before));
     let h2 = set_next h1 elem before;
     let h3 = set_next h2 (le_prev (h2 before)) elem;
     Some (set_prev h3 before elem) }"

definition list_splice :: "lheap \<Rightarrow> ptr \<Rightarrow> ptr \<Rightarrow> ptr \<Rightarrow> lheap option" where
  "list_splice h before first lst = do {
     ASSERT (is_interior h before \<or> is_tail h before);
     if first = lst then Some h
     else do {
       lst \<leftarrow> list_prev h lst;
       ASSERT (is_interior h first);
       ASSERT (is_interior h lst);
       let h1 = set_next h (le_prev (h first)) (le_next (h lst));
       let h2 = set_prev h1 (le_next (h1 lst)) (le_prev (h1 first));
       let h3 = set_prev h2 first (le_prev (h2 before));
       let h4 = set_next h3 lst before;
       let h5 = set_next h4 (le_prev (h4 before)) first;
       Some (set_prev h5 before lst) } }"

definition list_push_front :: "lheap \<Rightarrow> klist \<Rightarrow> ptr \<Rightarrow> lheap option" where
  "list_push_front h l elem = list_insert h (list_begin h l) elem"

definition list_push_back :: "lheap \<Rightarrow> klist \<Rightarrow> ptr \<Rightarrow> lheap option" where
  "list_push_back h l elem = list_insert h (list_end l) elem"

definition list_remove :: "lheap \<Rightarrow> ptr \<Rightarrow> (ptr \<times> lheap) option" where
  "list_remove h e = do {
     ASSERT (is_interior h e);
     let h1 = set_next h (le_prev (h e)) (le_next (h e));
     let h2 = set_prev h1 (le_next (h1 e)) (le_prev (h1 e));
     Some (le_next (h2 e), h2) }"

definition list_empty :: "lheap \<Rightarrow> klist \<Rightarrow> bool" where
  "list_empty h l \<longleftrightarrow> list_begin h l = list_end l"

definition list_front :: "lheap \<Rightarrow> klist \<Rightarrow> ptr option" where
  "list_front h l = do { ASSERT (\<not> list_empty h l); Some (le_next (h (head_ptr l))) }"

definition list_back :: "lheap \<Rightarrow> klist \<Rightarrow> ptr option" where
  "list_back h l = do { ASSERT (\<not> list_empty h l); Some (le_prev (h (tail_ptr l))) }"

definition list_pop_front :: "lheap \<Rightarrow> klist \<Rightarrow> (ptr \<times> lheap) option" where
  "list_pop_front h l = do {
     front \<leftarrow> list_front h l;
     (_, h') \<leftarrow> list_remove h front;
     Some (front, h') }"

definition list_pop_back :: "lheap \<Rightarrow> klist \<Rightarrow> (ptr \<times> lheap) option" where
  "list_pop_back h l = do {
     back \<leftarrow> list_back h l;
     (_, h') \<leftarrow> list_remove h back;
     Some (back, h') }"

partial_function (option) list_size_loop :: "lheap \<Rightarrow> ptr \<Rightarrow> ptr \<Rightarrow> nat \<Rightarrow> nat option" where
  "list_size_loop h e stop cnt =
     (if e = stop then Some cnt
      else do { e' \<leftarrow> list_next h e; list_size_loop h e' stop (cnt + 1) })"

definition list_size :: "lheap \<Rightarrow> klist \<Rightarrow> nat option" where
  "list_size h l = list_size_loop h (list_begin h l) (list_end l) 0"

text \<open>\<open>swap (&e->prev, &e->next)\<close> on one element, and the loop of \<open>list_reverse\<close>.\<close>

definition swap_links :: "lheap \<Rightarrow> ptr \<Rightarrow> lheap" where
  "swap_links h e = h(e := \<lparr>le_prev = le_next (h e), le_next = le_prev (h e)\<rparr>)"

partial_function (option) list_reverse_loop :: "lheap \<Rightarrow> ptr \<Rightarrow> ptr \<Rightarrow> lheap option" where
  "list_reverse_loop h e stop =
     (if e = stop then Some h
      else if e = NULL then None
      else let h' = swap_links h e in list_reverse_loop h' (le_prev (h' e)) stop)"

definition list_reverse :: "lheap \<Rightarrow> klist \<Rightarrow> lheap option" where
  "list_reverse h l =
     (if list_empty h l then Some h
      else do {
        h1 \<leftarrow> list_reverse_loop h (list_begin h l) (list_end l);
        let a = le_next (h1 (head_ptr l));
        let b = le_prev (h1 (tail_ptr l));
        let h2 = set_prev (set_next h1 (head_ptr l) b) (tail_ptr l) a;
        let first = le_next (h2 (head_ptr l));
        let lst = le_prev (h2 (tail_ptr l));
        ASSERT (first \<noteq> NULL \<and> lst \<noteq> NULL);
        let p = le_prev (h2 first);
        let n = le_next (h2 lst);
        Some (set_next (set_prev h2 first n) lst p) })"

partial_function (option) is_sorted :: "lheap \<Rightarrow> ptr \<Rightarrow> ptr \<Rightarrow> list_less_func \<Rightarrow> bool option" where
  "is_sorted h a b lt =
     (if a = b then Some True
      else do {
        a' \<leftarrow> list_next h a;
        if a' = b then Some True
        else do {
          p \<leftarrow> list_prev h a';
          if lt a' p then Some False else is_sorted h a' b lt } })"

partial_function (option) find_end_of_run_loop
  :: "lheap \<Rightarrow> ptr \<Rightarrow> ptr \<Rightarrow> list_less_func \<Rightarrow> ptr option" where
  "find_end_of_run_loop h a b lt = do {
     a' \<leftarrow> list_next h a;
     if a' = b then Some a'
     else do {
       p \<leftarrow> list_prev h a';
       if \<not> lt a' p then find_end_of_run_loop h a' b lt else Some a' } }"

definition find_end_of_run :: "lheap \<Rightarrow> ptr \<Rightarrow> ptr \<Rightarrow> list_less_func \<Rightarrow> ptr option" where
  "find_end_of_run h a b lt = do {
     ASSERT (a \<noteq> NULL);
     ASSERT (b \<noteq> NULL);
     ASSERT (a \<noteq> b);
     find_end_of_run_loop h a b lt }"

partial_function (option) inplace_merge_loop
  :: "lheap \<Rightarrow> ptr \<Rightarrow> ptr \<Rightarrow> ptr \<Rightarrow> list_less_func \<Rightarrow> lheap option" where
  "inplace_merge_loop h a0 a1b0 b1 lt =
     (if a0 \<noteq> a1b0 \<and> a1b0 \<noteq> b1 then
        (if \<not> lt a1b0 a0 then do {
           a0' \<leftarrow> list_next h a0;
           inplace_merge_loop h a0' a1b0 b1 lt }
         else do {
           a1b0' \<leftarrow> list_next h a1b0;
           p \<leftarrow> list_prev h a1b0';
           h' \<leftarrow> list_splice h a0 p a1b0';
           inplace_merge_loop h' a0 a1b0' b1 lt })
      else Some h)"

definition inplace_merge
  :: "lheap \<Rightarrow> ptr \<Rightarrow> ptr \<Rightarrow> ptr \<Rightarrow> list_less_func \<Rightarrow> lheap option" where
  "inplace_merge h a0 a1b0 b1 lt = do {
     ASSERT (a0 \<noteq> NULL);
     ASSERT (a1b0 \<noteq> NULL);
     ASSERT (b1 \<noteq> NULL);
     s0 \<leftarrow> is_sorted h a0 a1b0 lt;
     ASSERT s0;
     s1 \<leftarrow> is_sorted h a1b0 b1 lt;
     ASSERT s1;
     inplace_merge_loop h a0 a1b0 b1 lt }"

text \<open>One pass of \<open>list_sort\<close>: merges adjacent runs and counts the runs it outputs.\<close>

partial_function (option) list_sort_pass
  :: "lheap \<Rightarrow> klist \<Rightarrow> ptr \<Rightarrow> nat \<Rightarrow> list_less_func \<Rightarrow> (nat \<times> lheap) option" where
  "list_sort_pass h l a0 cnt lt =
     (if a0 = list_end l then Some (cnt, h)
      else do {
        let cnt' = cnt + 1;
        a1b0 \<leftarrow> find_end_of_run h a0 (list_end l) lt;
        if a1b0 = list_end l then Some (cnt', h)
        else do {
          b1 \<leftarrow> find_end_of_run h a1b0 (list_end l) lt;
          h' \<leftarrow> inplace_merge h a0 a1b0 b1 lt;
          list_sort_pass h' l b1 cnt' lt } })"

partial_function (option) list_sort_loop
  :: "lheap \<Rightarrow> klist \<Rightarrow> list_less_func \<Rightarrow> lheap option" where
  "list_sort_loop h l lt = do {
     (output_run_cnt, h') \<leftarrow> list_sort_pass h l (list_begin h l) 0 lt;
     if output_run_cnt > 1 then list_sort_loop h' l lt else Some h' }"

definition list_sort :: "lheap \<Rightarrow> klist \<Rightarrow> list_less_func \<Rightarrow> lheap option" where
  "list_sort h l lt = do {
     h' \<leftarrow> list_sort_loop h l lt;
     s \<leftarrow> is_sorted h' (list_begin h' l) (list_end l) lt;
     ASSERT s;
     Some h' }"

partial_function (option) insert_ordered_pos
  :: "lheap \<Rightarrow> ptr \<Rightarrow> ptr \<Rightarrow> ptr \<Rightarrow> list_less_func \<Rightarrow> ptr option" where
  "insert_ordered_pos h elem e stop lt =
     (if e = stop then Some e
      else if lt elem e then Some e
      else do { e' \<leftarrow> list_next h e; insert_ordered_pos h elem e' stop lt })"

definition list_insert_ordered
  :: "lheap \<Rightarrow> klist \<Rightarrow> ptr \<Rightarrow> list_less_func \<Rightarrow> lheap option" where
  "list_insert_ordered h l elem lt = do {
     ASSERT (elem \<noteq> NULL);
     e \<leftarrow> insert_ordered_pos h elem (list_begin h l) (list_end l) lt;
     list_insert h e elem }"

text \<open>\<open>duplicates\<close> may be a null pointer: an optional list.\<close>

partial_function (option) list_unique_loop
  :: "lheap \<Rightarrow> ptr \<Rightarrow> ptr \<Rightarrow> klist option \<Rightarrow> list_less_func \<Rightarrow> lheap option" where
  "list_unique_loop h elem stop duplicates lt = do {
     n \<leftarrow> list_next h elem;
     if n = stop then Some h
     else if \<not> lt elem n \<and> \<not> lt n elem then do {
       (_, h1) \<leftarrow> list_remove h n;
       h2 \<leftarrow> (case duplicates of None \<Rightarrow> Some h1 | Some d \<Rightarrow> list_push_back h1 d n);
       list_unique_loop h2 elem stop duplicates lt }
     else list_unique_loop h n stop duplicates lt }"

definition list_unique
  :: "lheap \<Rightarrow> klist \<Rightarrow> klist option \<Rightarrow> list_less_func \<Rightarrow> lheap option" where
  "list_unique h l duplicates lt =
     (if list_empty h l then Some h
      else list_unique_loop h (list_begin h l) (list_end l) duplicates lt)"

partial_function (option) list_max_loop
  :: "lheap \<Rightarrow> ptr \<Rightarrow> ptr \<Rightarrow> ptr \<Rightarrow> list_less_func \<Rightarrow> ptr option" where
  "list_max_loop h m e stop lt =
     (if e = stop then Some m
      else do {
        e' \<leftarrow> list_next h e;
        list_max_loop h (if lt m e then e else m) e' stop lt })"

definition list_max :: "lheap \<Rightarrow> klist \<Rightarrow> list_less_func \<Rightarrow> ptr option" where
  "list_max h l lt =
     (let m = list_begin h l in
      if m = list_end l then Some m
      else do { e \<leftarrow> list_next h m; list_max_loop h m e (list_end l) lt })"

partial_function (option) list_min_loop
  :: "lheap \<Rightarrow> ptr \<Rightarrow> ptr \<Rightarrow> ptr \<Rightarrow> list_less_func \<Rightarrow> ptr option" where
  "list_min_loop h m e stop lt =
     (if e = stop then Some m
      else do {
        e' \<leftarrow> list_next h e;
        list_min_loop h (if lt e m then e else m) e' stop lt })"

definition list_min :: "lheap \<Rightarrow> klist \<Rightarrow> list_less_func \<Rightarrow> ptr option" where
  "list_min h l lt =
     (let m = list_begin h l in
      if m = list_end l then Some m
      else do { e \<leftarrow> list_next h m; list_min_loop h m e (list_end l) lt })"

section \<open>Well-formed lists\<close>

text \<open>
  \<open>chain h ps\<close>: neighbours of \<open>ps\<close> point at each other.  \<open>wf_links h ps\<close>: \<open>ps\<close> is a
  whole list, from its head to its tail.  \<open>list_repr h l xs\<close>: in heap \<open>h\<close> the list
  \<open>l\<close> holds exactly the interior elements \<open>xs\<close>, in order.
\<close>

fun chain :: "lheap \<Rightarrow> ptr list \<Rightarrow> bool" where
  "chain h (a # b # ps) \<longleftrightarrow> le_next (h a) = b \<and> le_prev (h b) = a \<and> chain h (b # ps)"
| "chain h _ \<longleftrightarrow> True"

definition wf_links :: "lheap \<Rightarrow> ptr list \<Rightarrow> bool" where
  "wf_links h ps \<longleftrightarrow> chain h ps \<and> distinct ps \<and> NULL \<notin> set ps \<and> ps \<noteq> []
     \<and> le_prev (h (hd ps)) = NULL \<and> le_next (h (last ps)) = NULL"

definition list_repr :: "lheap \<Rightarrow> klist \<Rightarrow> ptr list \<Rightarrow> bool" where
  "list_repr h l xs \<longleftrightarrow> wf_links h (head_ptr l # xs @ [tail_ptr l])"

lemma set_next_simps [simp]:
  "le_next (set_next h e v x) = (if x = e then v else le_next (h x))"
  "le_prev (set_next h e v x) = le_prev (h x)"
  by (simp_all add: set_next_def)

lemma set_prev_simps [simp]:
  "le_prev (set_prev h e v x) = (if x = e then v else le_prev (h x))"
  "le_next (set_prev h e v x) = le_next (h x)"
  by (simp_all add: set_prev_def)

lemma chain_append:
  "chain h (xs @ a # ys) \<longleftrightarrow> chain h (xs @ [a]) \<and> chain h (a # ys)"
  by (induction xs rule: induct_list012) auto

lemma chain_append2:
  "chain h (xs @ a # b # ys) \<longleftrightarrow>
     chain h (xs @ [a]) \<and> le_next (h a) = b \<and> le_prev (h b) = a \<and> chain h (b # ys)"
  by (subst chain_append) simp

lemma chain_cong:
  assumes "\<And>e. e \<in> set (butlast ps) \<Longrightarrow> le_next (h' e) = le_next (h e)"
    and "\<And>e. e \<in> set (tl ps) \<Longrightarrow> le_prev (h' e) = le_prev (h e)"
  shows "chain h' ps = chain h ps"
  using assms
proof (induction ps rule: induct_list012)
  case (3 a b ps)
  have "chain h' (b # ps) = chain h (b # ps)"
    using "3.prems" by (intro "3.IH"(2)) (auto dest: list.set_sel(2))
  with "3.prems" show ?case by simp
qed auto

lemma chain_snoc_cong:
  assumes "\<And>x. x \<in> set us \<Longrightarrow> le_next (h' x) = le_next (h x)"
    and "\<And>x. x \<in> set us \<Longrightarrow> le_prev (h' x) = le_prev (h x)"
    and "le_prev (h' p) = le_prev (h p)"
  shows "chain h' (us @ [p]) = chain h (us @ [p])"
  by (rule chain_cong) (use assms in \<open>cases us; auto\<close>)+

lemma chain_Cons_cong:
  assumes "\<And>x. x \<in> set vs \<Longrightarrow> le_next (h' x) = le_next (h x)"
    and "\<And>x. x \<in> set vs \<Longrightarrow> le_prev (h' x) = le_prev (h x)"
    and "le_next (h' n) = le_next (h n)"
  shows "chain h' (n # vs) = chain h (n # vs)"
  by (rule chain_cong) (use assms in \<open>auto split: if_splits dest: in_set_butlastD\<close>)

lemma wf_links_prev:
  assumes "wf_links h (us @ e # vs)"
  shows "le_prev (h e) = (if us = [] then NULL else last us)"
proof (cases us rule: rev_cases)
  case (snoc ws p)
  with assms show ?thesis by (simp add: wf_links_def chain_append2)
qed (use assms in \<open>simp add: wf_links_def\<close>)

lemma wf_links_next:
  assumes "wf_links h (us @ e # vs)"
  shows "le_next (h e) = (if vs = [] then NULL else hd vs)"
proof (cases vs)
  case (Cons v ws)
  with assms show ?thesis by (simp add: wf_links_def chain_append2)
qed (use assms in \<open>simp add: wf_links_def\<close>)

lemma wf_links_kinds:
  assumes "wf_links h (us @ e # vs)"
  shows "is_head h e \<longleftrightarrow> us = [] \<and> vs \<noteq> []"
    "is_interior h e \<longleftrightarrow> us \<noteq> [] \<and> vs \<noteq> []"
    "is_tail h e \<longleftrightarrow> us \<noteq> [] \<and> vs = []"
proof -
  have z: "NULL \<notin> set (us @ e # vs)"
    using assms by (simp add: wf_links_def)
  have "e \<noteq> NULL" "us \<noteq> [] \<Longrightarrow> last us \<noteq> NULL" "vs \<noteq> [] \<Longrightarrow> hd vs \<noteq> NULL"
    using z last_in_set [of us] hd_in_set [of vs] by (metis Un_iff list.set_intros set_append)+
  then show "is_head h e \<longleftrightarrow> us = [] \<and> vs \<noteq> []"
    "is_interior h e \<longleftrightarrow> us \<noteq> [] \<and> vs \<noteq> []"
    "is_tail h e \<longleftrightarrow> us \<noteq> [] \<and> vs = []"
    using wf_links_prev [OF assms] wf_links_next [OF assms]
    by (auto simp: is_head_def is_interior_def is_tail_def)
qed

lemma list_next_wf:
  assumes "wf_links h (us @ e # v # vs)"
  shows "list_next h e = Some v"
  using wf_links_kinds [OF assms] wf_links_next [OF assms] by (simp add: list_next_def)

lemma list_prev_wf:
  assumes "wf_links h (us @ u # e # vs)"
  shows "list_prev h e = Some u"
  using wf_links_kinds [of h "us @ [u]" e vs] wf_links_prev [of h "us @ [u]" e vs] assms
  by (simp add: list_prev_def)

lemma list_remove_links:
  assumes "wf_links h (us @ p # e # n # vs)"
  shows "\<exists>h'. list_remove h e = Some (n, h') \<and> wf_links h' (us @ p # n # vs)
    \<and> (\<forall>x. x \<noteq> p \<and> x \<noteq> n \<longrightarrow> h' x = h x)"
proof -
  have int: "is_interior h e"
    using wf_links_kinds(2) [of h "us @ [p]" e "n # vs"] assms by simp
  have pn: "le_prev (h e) = p" "le_next (h e) = n"
    using wf_links_prev [of h "us @ [p]" e] wf_links_next [of h "us @ [p]" e] assms by simp_all
  define h' where "h' = set_prev (set_next h p n) n p"
  from assms have d: "distinct (us @ p # e # n # vs)" by (simp add: wf_links_def)
  have rem: "list_remove h e = Some (n, h')"
    using int pn d by (auto simp: list_remove_def h'_def)
  have "chain h' (us @ [p]) = chain h (us @ [p])"
    by (rule chain_snoc_cong) (use d in \<open>auto simp: h'_def\<close>)
  moreover have "chain h' (n # vs) = chain h (n # vs)"
    by (rule chain_Cons_cong) (use d in \<open>auto simp: h'_def\<close>)
  ultimately have "wf_links h' (us @ p # n # vs)"
    using assms by (auto simp: wf_links_def chain_append2 h'_def hd_append)
  moreover have "\<forall>x. x \<noteq> p \<and> x \<noteq> n \<longrightarrow> h' x = h x"
    by (simp add: h'_def set_next_def set_prev_def)
  ultimately show ?thesis using rem by blast
qed

lemma list_insert_links:
  assumes wf: "wf_links h (us @ p # b # vs)" and new: "e \<noteq> NULL" "e \<notin> set (us @ p # b # vs)"
  shows "\<exists>h'. list_insert h b e = Some h' \<and> wf_links h' (us @ p # e # b # vs)
    \<and> (\<forall>x. x \<noteq> p \<and> x \<noteq> b \<and> x \<noteq> e \<longrightarrow> h' x = h x)"
proof -
  have kind: "is_interior h b \<or> is_tail h b"
    using wf_links_kinds(2,3) [of h "us @ [p]" b vs] wf by auto
  have pb: "le_prev (h b) = p"
    using wf_links_prev [of h "us @ [p]" b vs] wf by simp
  define h' where "h' = set_prev (set_next (set_next (set_prev h e p) e b) p e) b e"
  from wf have d: "distinct (us @ p # b # vs)" by (simp add: wf_links_def)
  have ins: "list_insert h b e = Some h'"
    using kind pb new by (auto simp: list_insert_def h'_def)
  have "chain h' (us @ [p]) = chain h (us @ [p])"
    by (rule chain_snoc_cong) (use d new in \<open>auto simp: h'_def\<close>)
  moreover have "chain h' (b # vs) = chain h (b # vs)"
    by (rule chain_Cons_cong) (use d new in \<open>auto simp: h'_def\<close>)
  moreover have "le_prev (h' (hd (us @ [p]))) = le_prev (h (hd (us @ [p])))"
    using d new by (cases us) (auto simp: h'_def)
  moreover have "le_next (h' (last (b # vs))) = le_next (h (last (b # vs)))"
    using d new last_in_set [of "b # vs"] by (auto simp: h'_def)
  ultimately have "wf_links h' (us @ p # e # b # vs)"
    using wf new d by (auto simp: wf_links_def chain_append2 h'_def hd_append)
  moreover have "\<forall>x. x \<noteq> p \<and> x \<noteq> b \<and> x \<noteq> e \<longrightarrow> h' x = h x"
    by (simp add: h'_def set_next_def set_prev_def)
  ultimately show ?thesis using ins by blast
qed

lemma chain_join:
  "chain h (xs @ ys) \<longleftrightarrow> chain h xs \<and> chain h ys \<and>
     (xs \<noteq> [] \<and> ys \<noteq> [] \<longrightarrow> le_next (h (last xs)) = hd ys \<and> le_prev (h (hd ys)) = last xs)"
proof (cases ys)
  case (Cons y ys')
  then show ?thesis
    by (cases xs rule: rev_cases) (auto simp: chain_append2)
qed simp

lemma distinct_butlast_last: "distinct ps \<Longrightarrow> e \<in> set (butlast ps) \<Longrightarrow> e \<noteq> last ps"
  by (induction ps) auto

lemma distinct_tl_hd: "distinct ps \<Longrightarrow> e \<in> set (tl ps) \<Longrightarrow> e \<noteq> hd ps"
  by (cases ps) auto

lemma chain_segment_cong:
  assumes d: "distinct ps"
    and nxt: "\<And>x. x \<in> set ps \<Longrightarrow> x \<noteq> last ps \<Longrightarrow> le_next (h' x) = le_next (h x)"
    and prv: "\<And>x. x \<in> set ps \<Longrightarrow> x \<noteq> hd ps \<Longrightarrow> le_prev (h' x) = le_prev (h x)"
  shows "chain h' ps = chain h ps"
proof (rule chain_cong)
  fix e
  show "le_next (h' e) = le_next (h e)" if "e \<in> set (butlast ps)"
    using nxt [of e] distinct_butlast_last [OF d that] in_set_butlastD [OF that] by simp
  show "le_prev (h' e) = le_prev (h e)" if "e \<in> set (tl ps)"
    using prv [of e] distinct_tl_hd [OF d that] that by (cases ps) simp_all
qed

text \<open>The effect of \<open>list_splice\<close> on one list: a segment moves towards the front.\<close>

lemma list_splice_links:
  assumes wf: "wf_links h (us @ ws @ fs @ vs)"
    and ne: "us \<noteq> []" "ws \<noteq> []" "fs \<noteq> []" "vs \<noteq> []"
  shows "\<exists>h'. list_splice h (hd ws) (hd fs) (hd vs) = Some h' \<and> wf_links h' (us @ fs @ ws @ vs)
    \<and> (\<forall>x. x \<notin> set (us @ ws @ fs @ vs) \<longrightarrow> h' x = h x)"
proof -
  let ?p = "last us" and ?b = "hd ws" and ?c = "last ws" and ?f = "hd fs" and ?g = "last fs"
    and ?n = "hd vs"
  have mem: "?p \<in> set us" "?b \<in> set ws" "?c \<in> set ws" "?f \<in> set fs" "?g \<in> set fs" "?n \<in> set vs"
    using ne by auto
  have d: "distinct us" "distinct ws" "distinct fs" "distinct vs"
    "set us \<inter> (set ws \<union> set fs \<union> set vs) = {}" "set ws \<inter> (set fs \<union> set vs) = {}"
    "set fs \<inter> set vs = {}"
    using wf by (auto simp: wf_links_def)
  have sep: "x \<in> set us \<Longrightarrow> x \<noteq> ?b \<and> x \<noteq> ?c \<and> x \<noteq> ?f \<and> x \<noteq> ?g \<and> x \<noteq> ?n"
    "x \<in> set ws \<Longrightarrow> x \<noteq> ?p \<and> x \<noteq> ?f \<and> x \<noteq> ?g \<and> x \<noteq> ?n"
    "x \<in> set fs \<Longrightarrow> x \<noteq> ?p \<and> x \<noteq> ?b \<and> x \<noteq> ?c \<and> x \<noteq> ?n"
    "x \<in> set vs \<Longrightarrow> x \<noteq> ?p \<and> x \<noteq> ?b \<and> x \<noteq> ?c \<and> x \<noteq> ?f \<and> x \<noteq> ?g" for x
    using mem d by blast+
  have c: "chain h us" "chain h ws" "chain h fs" "chain h vs"
    "le_next (h ?p) = ?b" "le_prev (h ?b) = ?p" "le_next (h ?c) = ?f" "le_prev (h ?f) = ?c"
    "le_next (h ?g) = ?n" "le_prev (h ?n) = ?g"
    using wf ne by (auto simp: wf_links_def chain_join hd_append)
  have split: "us @ ws @ fs @ vs = us @ ?b # tl ws @ fs @ vs"
    "us @ ws @ fs @ vs = (us @ ws) @ ?f # tl fs @ vs"
    "us @ ws @ fs @ vs = (us @ ws @ butlast fs) @ ?g # vs"
    "us @ ws @ fs @ vs = (us @ ws @ butlast fs) @ ?g # ?n # tl vs"
    using ne by (cases ws; cases fs; cases vs; auto)+
  have kinds: "is_interior h ?b" "is_interior h ?f" "is_interior h ?g"
    using wf_links_kinds(2) [OF wf [unfolded split(1)]] wf_links_kinds(2) [OF wf [unfolded split(2)]]
      wf_links_kinds(2) [OF wf [unfolded split(3)]] ne by auto
  have pn: "list_prev h ?n = Some ?g"
    by (rule list_prev_wf [OF wf [unfolded split(4)]])
  define h' where "h' = set_prev (set_next (set_next (set_prev (set_prev
     (set_next h ?c ?n) ?n ?c) ?f ?p) ?g ?b) ?p ?f) ?b ?g"
  have spl: "list_splice h ?b ?f ?n = Some h'"
    using kinds pn c sep mem by (simp add: list_splice_def h'_def)
  have nxt: "le_next (h' x) = (if x = ?p then ?f else if x = ?g then ?b
      else if x = ?c then ?n else le_next (h x))" for x
    by (simp add: h'_def)
  have prv: "le_prev (h' x) = (if x = ?b then ?g else if x = ?f then ?p
      else if x = ?n then ?c else le_prev (h x))" for x
    by (simp add: h'_def)
  have "chain h' us = chain h us" "chain h' ws = chain h ws"
    "chain h' fs = chain h fs" "chain h' vs = chain h vs"
    by (rule chain_segment_cong; use d sep in \<open>simp add: nxt prv\<close>)+
  moreover have "le_prev (h' (hd us)) = le_prev (h (hd us))"
    using sep(1) [of "hd us"] ne by (simp add: prv)
  moreover have "le_next (h' (last vs)) = le_next (h (last vs))"
    using sep(4) [of "last vs"] ne by (simp add: nxt)
  moreover have "le_next (h' ?p) = ?f" "le_prev (h' ?f) = ?p" "le_next (h' ?g) = ?b"
    "le_prev (h' ?b) = ?g" "le_next (h' ?c) = ?n" "le_prev (h' ?n) = ?c"
    using sep mem by (simp_all add: nxt prv)
  ultimately have "wf_links h' (us @ fs @ ws @ vs)"
    using wf ne c by (simp add: wf_links_def chain_join hd_append Int_commute Int_Un_distrib)
  moreover have "\<forall>x. x \<notin> set (us @ ws @ fs @ vs) \<longrightarrow> h' x = h x"
    by (intro allI impI list_elem.equality) (use mem in \<open>auto simp: nxt prv\<close>)
  ultimately show ?thesis using spl by blast
qed

end
