(* ===== verification/Kernel_List_Refine.thy ===== *)
theory Kernel_List_Refine
  imports Kernel_List
begin

text \<open>
  The operations of \<open>lib/kernel/list.c\<close> implement operations on HOL lists: on a
  well-formed list every operation returns (no assertion fails, every loop ends)
  and its effect on the represented sequence is the obvious one.  The deque
  interface at the end is what the clients of the lists rely on.
\<close>

section \<open>Constant-time operations\<close>

definition list_cells :: "klist \<Rightarrow> ptr list \<Rightarrow> ptr set" where
  "list_cells l xs = insert (head_ptr l) (insert (tail_ptr l) (set xs))"

definition fresh_elem :: "klist \<Rightarrow> ptr list \<Rightarrow> ptr \<Rightarrow> bool" where
  "fresh_elem l xs e \<longleftrightarrow> e \<noteq> NULL \<and> e \<notin> list_cells l xs"

lemma list_init_repr:
  assumes "head_ptr l \<noteq> NULL" "tail_ptr l \<noteq> NULL" "head_ptr l \<noteq> tail_ptr l"
  shows "list_repr (list_init h l) l []"
  using assms by (simp add: list_repr_def wf_links_def list_init_def Let_def)

lemma list_repr_begin:
  assumes "list_repr h l xs"
  shows "list_begin h l = hd (xs @ [tail_ptr l])"
  using wf_links_next [of h "[]" "head_ptr l" "xs @ [tail_ptr l]"] assms
  by (simp add: list_repr_def list_begin_def)

lemma list_repr_rbegin:
  assumes "list_repr h l xs"
  shows "list_rbegin h l = last (head_ptr l # xs)"
  using wf_links_prev [of h "head_ptr l # xs" "tail_ptr l" "[]"] assms
  by (simp add: list_repr_def list_rbegin_def)

lemma list_repr_distinct:
  assumes "list_repr h l xs"
  shows "distinct xs" "head_ptr l \<notin> set xs" "tail_ptr l \<notin> set xs" "head_ptr l \<noteq> tail_ptr l"
    "NULL \<notin> set xs" "tail_ptr l \<noteq> NULL" "head_ptr l \<noteq> NULL"
  using assms by (auto simp: list_repr_def wf_links_def)

lemma list_repr_unique:
  assumes "list_repr h l xs" "list_repr h l ys"
  shows "xs = ys"
proof -
  have gen: "xs = ys" if "chain h (a # xs @ [t])" "chain h (a # ys @ [t])" "t \<notin> set xs" "t \<notin> set ys"
    for a t
    using that
  proof (induction xs arbitrary: a ys)
    case Nil
    then show ?case by (cases ys) auto
  next
    case (Cons x xs)
    then show ?case by (cases ys) auto
  qed
  show ?thesis
    by (rule gen [of "head_ptr l" "tail_ptr l"])
      (use assms in \<open>auto simp: list_repr_def wf_links_def\<close>)
qed

lemma list_empty_repr:
  assumes "list_repr h l xs"
  shows "list_empty h l \<longleftrightarrow> xs = []"
  using list_repr_begin [OF assms] list_repr_distinct [OF assms]
  by (cases xs) (auto simp: list_empty_def list_end_def)

lemma list_insert_repr:
  assumes "list_repr h l (xs @ ys)" "fresh_elem l (xs @ ys) e" "b = hd (ys @ [tail_ptr l])"
  shows "\<exists>h'. list_insert h b e = Some h' \<and> list_repr h' l (xs @ e # ys)
    \<and> (\<forall>x. x \<notin> list_cells l (e # xs @ ys) \<longrightarrow> h' x = h x)"
proof -
  let ?P = "head_ptr l # xs"
  have split: "head_ptr l # (xs @ ys) @ [tail_ptr l] = butlast ?P @ last ?P # b # tl (ys @ [tail_ptr l])"
    using assms(3) by (cases ys; cases xs rule: rev_cases) auto
  have new: "e \<noteq> NULL" "e \<notin> set (butlast ?P @ last ?P # b # tl (ys @ [tail_ptr l]))"
    using assms(2) unfolding split [symmetric] by (auto simp: fresh_elem_def list_cells_def)
  obtain h' where h': "list_insert h b e = Some h'"
    "wf_links h' (butlast ?P @ last ?P # e # b # tl (ys @ [tail_ptr l]))"
    "\<forall>x. x \<noteq> last ?P \<and> x \<noteq> b \<and> x \<noteq> e \<longrightarrow> h' x = h x"
    using list_insert_links [OF assms(1) [unfolded list_repr_def split] new] by blast
  have "butlast ?P @ last ?P # e # b # tl (ys @ [tail_ptr l]) = head_ptr l # (xs @ e # ys) @ [tail_ptr l]"
    using assms(3) by (cases ys; cases xs rule: rev_cases) auto
  moreover have "last ?P \<in> list_cells l (e # xs @ ys)" "b \<in> list_cells l (e # xs @ ys)"
    "e \<in> list_cells l (e # xs @ ys)"
    using assms(3) by (cases ys; cases xs rule: rev_cases; auto simp: list_cells_def)+
  ultimately show ?thesis using h' unfolding list_repr_def by metis
qed

lemma list_push_front_repr:
  assumes "list_repr h l xs" "fresh_elem l xs e"
  shows "\<exists>h'. list_push_front h l e = Some h' \<and> list_repr h' l (e # xs)
    \<and> (\<forall>x. x \<notin> list_cells l (e # xs) \<longrightarrow> h' x = h x)"
  using list_insert_repr [of h l "[]" xs e "list_begin h l"] assms
  by (simp add: list_push_front_def list_repr_begin)

lemma list_push_back_repr:
  assumes "list_repr h l xs" "fresh_elem l xs e"
  shows "\<exists>h'. list_push_back h l e = Some h' \<and> list_repr h' l (xs @ [e])
    \<and> (\<forall>x. x \<notin> list_cells l (e # xs) \<longrightarrow> h' x = h x)"
  using list_insert_repr [of h l xs "[]" e "list_end l"] assms
  by (simp add: list_push_back_def list_end_def)

lemma list_remove_repr:
  assumes "list_repr h l (xs @ e # ys)"
  shows "\<exists>h'. list_remove h e = Some (hd (ys @ [tail_ptr l]), h') \<and> list_repr h' l (xs @ ys)
    \<and> (\<forall>x. x \<notin> list_cells l (xs @ ys) \<longrightarrow> h' x = h x)"
proof -
  let ?P = "head_ptr l # xs" and ?n = "hd (ys @ [tail_ptr l])"
  have split: "head_ptr l # (xs @ e # ys) @ [tail_ptr l]
      = butlast ?P @ last ?P # e # ?n # tl (ys @ [tail_ptr l])"
    by (cases ys; cases xs rule: rev_cases) auto
  obtain h' where h': "list_remove h e = Some (?n, h')"
    "wf_links h' (butlast ?P @ last ?P # ?n # tl (ys @ [tail_ptr l]))"
    "\<forall>x. x \<noteq> last ?P \<and> x \<noteq> ?n \<longrightarrow> h' x = h x"
    using list_remove_links [OF assms [unfolded list_repr_def split]] by blast
  have "butlast ?P @ last ?P # ?n # tl (ys @ [tail_ptr l]) = head_ptr l # (xs @ ys) @ [tail_ptr l]"
    by (cases ys; cases xs rule: rev_cases) auto
  moreover have "last ?P \<in> list_cells l (xs @ ys)" "?n \<in> list_cells l (xs @ ys)"
    by (cases ys; cases xs rule: rev_cases; auto simp: list_cells_def)+
  ultimately show ?thesis using h' unfolding list_repr_def by metis
qed

lemma list_front_repr:
  assumes "list_repr h l (x # xs)"
  shows "list_front h l = Some x"
  using list_repr_begin [OF assms] list_empty_repr [OF assms]
  by (simp add: list_front_def list_begin_def)

lemma list_back_repr:
  assumes "list_repr h l (xs @ [x])"
  shows "list_back h l = Some x"
  using list_repr_rbegin [OF assms] list_empty_repr [OF assms]
  by (simp add: list_back_def list_rbegin_def)

lemma list_pop_front_repr:
  assumes "list_repr h l (x # xs)"
  shows "\<exists>h'. list_pop_front h l = Some (x, h') \<and> list_repr h' l xs
    \<and> (\<forall>y. y \<notin> list_cells l xs \<longrightarrow> h' y = h y)"
  using list_remove_repr [of h l "[]" x xs] list_front_repr [OF assms] assms
  by (auto simp: list_pop_front_def)

lemma list_pop_back_repr:
  assumes "list_repr h l (xs @ [x])"
  shows "\<exists>h'. list_pop_back h l = Some (x, h') \<and> list_repr h' l xs
    \<and> (\<forall>y. y \<notin> list_cells l xs \<longrightarrow> h' y = h y)"
  using list_remove_repr [of h l xs x "[]"] list_back_repr [OF assms] assms
  by (auto simp: list_pop_back_def)

lemma list_pop_empty:
  assumes "list_repr h l []"
  shows "list_pop_front h l = None" "list_pop_back h l = None"
  using list_empty_repr [OF assms]
  by (simp_all add: list_pop_front_def list_pop_back_def list_front_def list_back_def)

section \<open>Traversals\<close>

lemma list_size_loop_links:
  assumes "wf_links h (us @ xs @ b # vs)"
  shows "list_size_loop h (hd (xs @ [b])) b cnt = Some (cnt + length xs)"
  using assms
proof (induction xs arbitrary: us cnt)
  case Nil
  then show ?case by (simp add: list_size_loop.simps)
next
  case (Cons x xs)
  have ne: "x \<noteq> b" using Cons.prems by (auto simp: wf_links_def)
  have nxt: "list_next h x = Some (hd (xs @ [b]))"
    using list_next_wf [of h us x "hd (xs @ [b])" "tl (xs @ [b]) @ vs"] Cons.prems
    by (cases xs) auto
  have "list_size_loop h (hd (xs @ [b])) b (cnt + 1) = Some (cnt + 1 + length xs)"
    using Cons.prems by (intro Cons.IH [of "us @ [x]"]) simp
  then show ?case using ne nxt by (simp add: list_size_loop.simps [of h x])
qed

lemma list_size_repr:
  assumes "list_repr h l xs"
  shows "list_size h l = Some (length xs)"
  using list_size_loop_links [of h "[head_ptr l]" xs "tail_ptr l" "[]" 0] assms
  by (simp add: list_size_def list_repr_begin list_end_def list_repr_def)

section \<open>The queue interface\<close>

text \<open>What the clients of a kernel list rely on when they use it as a queue: the wait
  lists, the ready list and the free lists push at one end and pop at the other.\<close>

fun push_all :: "('h \<Rightarrow> 'e \<Rightarrow> 'h option) \<Rightarrow> 'h \<Rightarrow> 'e list \<Rightarrow> 'h option" where
  "push_all push h [] = Some h"
| "push_all push h (e # es) = do { h' \<leftarrow> push h e; push_all push h' es }"

fun pop_n :: "('h \<Rightarrow> ('e \<times> 'h) option) \<Rightarrow> nat \<Rightarrow> 'h \<Rightarrow> ('e list \<times> 'h) option" where
  "pop_n pop 0 h = Some ([], h)"
| "pop_n pop (Suc n) h = do { (e, h1) \<leftarrow> pop h; (es, h2) \<leftarrow> pop_n pop n h1; Some (e # es, h2) }"

locale kqueue =
  fixes repr :: "'h \<Rightarrow> 'e list \<Rightarrow> bool"
    and fresh :: "'e list \<Rightarrow> 'e \<Rightarrow> bool"
    and is_empty :: "'h \<Rightarrow> bool"
    and push :: "'h \<Rightarrow> 'e \<Rightarrow> 'h option"
    and pop :: "'h \<Rightarrow> ('e \<times> 'h) option"
  assumes repr_empty: "repr h xs \<Longrightarrow> is_empty h \<longleftrightarrow> xs = []"
    and fresh_snoc: "fresh xs e \<Longrightarrow> e \<noteq> e' \<Longrightarrow> fresh (xs @ [e']) e"
    and repr_push: "repr h xs \<Longrightarrow> fresh xs e \<Longrightarrow> \<exists>h'. push h e = Some h' \<and> repr h' (xs @ [e])"
    and repr_pop: "repr h (x # xs) \<Longrightarrow> \<exists>h'. pop h = Some (x, h') \<and> repr h' xs"
    and pop_empty: "repr h [] \<Longrightarrow> pop h = None"
begin

lemma push_all_repr:
  assumes "repr h xs" "distinct es" "\<forall>e \<in> set es. fresh xs e"
  shows "\<exists>h'. push_all push h es = Some h' \<and> repr h' (xs @ es)"
  using assms
proof (induction es arbitrary: h xs)
  case (Cons e es)
  obtain h1 where h1: "push h e = Some h1" "repr h1 (xs @ [e])" using repr_push Cons.prems by fastforce
  have "\<forall>e' \<in> set es. fresh (xs @ [e]) e'"
    using Cons.prems(2,3) by (auto intro!: fresh_snoc)
  then show ?case using Cons.IH [OF h1(2)] Cons.prems(2) h1(1) by simp
qed simp

lemma pop_n_repr:
  assumes "repr h (xs @ ys)"
  shows "\<exists>h'. pop_n pop (length xs) h = Some (xs, h') \<and> repr h' ys"
  using assms
proof (induction xs arbitrary: h)
  case (Cons x xs)
  obtain h1 where h1: "pop h = Some (x, h1)" "repr h1 (xs @ ys)" using repr_pop Cons.prems by fastforce
  then show ?case using Cons.IH [OF h1(2)] by auto
qed simp

text \<open>First in, first out: what was in the queue and then what was pushed comes out in order,
  the queue is then empty, and a further pop is an error.\<close>

lemma fifo:
  assumes "repr h xs" "distinct es" "\<forall>e \<in> set es. fresh xs e"
  shows "\<exists>h1 h2. push_all push h es = Some h1
    \<and> pop_n pop (length (xs @ es)) h1 = Some (xs @ es, h2) \<and> is_empty h2 \<and> pop h2 = None"
  using push_all_repr [OF assms] pop_n_repr [of _ "xs @ es" "[]"] repr_empty pop_empty
  by (metis append_Nil2)

end

interpretation kl: kqueue "\<lambda>h. list_repr h l" "fresh_elem l" "\<lambda>h. list_empty h l"
  "\<lambda>h. list_push_back h l" "\<lambda>h. list_pop_front h l" for l
proof
  show "list_repr h l xs \<Longrightarrow> list_empty h l \<longleftrightarrow> xs = []" for h xs by (rule list_empty_repr)
  show "fresh_elem l xs e \<Longrightarrow> e \<noteq> e' \<Longrightarrow> fresh_elem l (xs @ [e']) e" for xs e e'
    by (simp add: fresh_elem_def list_cells_def)
  show "list_repr h l xs \<Longrightarrow> fresh_elem l xs e \<Longrightarrow>
      \<exists>h'. list_push_back h l e = Some h' \<and> list_repr h' l (xs @ [e])" for h xs e
    using list_push_back_repr by blast
  show "list_repr h l (x # xs) \<Longrightarrow> \<exists>h'. list_pop_front h l = Some (x, h') \<and> list_repr h' l xs" for h x xs
    using list_pop_front_repr by blast
  show "list_repr h l [] \<Longrightarrow> list_pop_front h l = None" for h by (rule list_pop_empty)
qed

text \<open>A list of three elements, for examples.\<close>

definition sample_list :: klist where
  "sample_list = \<lparr>head_ptr = 1, tail_ptr = 2\<rparr>"

definition sample_heap :: lheap where
  "sample_heap = (\<lambda>x.
     if x = 1 then \<lparr>le_prev = 0, le_next = 3\<rparr>
     else if x = 3 then \<lparr>le_prev = 1, le_next = 4\<rparr>
     else if x = 4 then \<lparr>le_prev = 3, le_next = 5\<rparr>
     else if x = 5 then \<lparr>le_prev = 4, le_next = 2\<rparr>
     else if x = 2 then \<lparr>le_prev = 5, le_next = 0\<rparr>
     else \<lparr>le_prev = 0, le_next = 0\<rparr>)"

lemma sample_repr: "list_repr sample_heap sample_list [3, 4, 5]"
  by (simp add: list_repr_def wf_links_def sample_heap_def sample_list_def)

text \<open>C3. A kernel list used as a queue is first in, first out: pushing new, distinct
  elements at the back and popping as many elements as there then are from the front
  returns the old and the new elements in order, leaves the list empty, and a further
  \<open>list_pop_front\<close> fails its assertion.\<close>

theorem list_queue_fifo:
  assumes "list_repr h l xs" "distinct es" "\<forall>e \<in> set es. fresh_elem l xs e"
  shows "\<exists>h1 h2. push_all (\<lambda>h. list_push_back h l) h es = Some h1
    \<and> pop_n (\<lambda>h. list_pop_front h l) (length (xs @ es)) h1 = Some (xs @ es, h2)
    \<and> list_empty h2 l \<and> list_pop_front h2 l = None"
  using assms by (rule kl.fifo)

theorem list_queue_fifo_witness:
  "\<exists>h1 h2. push_all (\<lambda>h. list_push_back h sample_list) sample_heap [7, 6] = Some h1
    \<and> pop_n (\<lambda>h. list_pop_front h sample_list) 5 h1 = Some ([3, 4, 5, 7, 6], h2)
    \<and> list_empty h2 sample_list \<and> list_pop_front h2 sample_list = None"
  using list_queue_fifo [OF sample_repr, of "[7, 6]"]
  by (simp add: fresh_elem_def list_cells_def sample_list_def eval_nat_numeral)

end
