(* ===== verification/Kernel_List_Sort.thy ===== *)
theory Kernel_List_Sort
  imports Kernel_List_Refine
begin

text \<open>
  The ordered operations of \<open>lib/kernel/list.c\<close>: \<open>list_sort\<close> is a natural, in-place
  merge sort.  Its loops are shown to compute the functional \<open>run_split\<close>, \<open>lmerge\<close>
  and \<open>merge_pass\<close> on the represented sequence, and these to sort stably.  The
  contract on the comparison function passed by a client is the locale \<open>list_order\<close>.
\<close>

section \<open>The contract of a comparison function\<close>

locale list_order =
  fixes lt :: "'a \<Rightarrow> 'a \<Rightarrow> bool"
  assumes asym: "lt x y \<Longrightarrow> \<not> lt y x"
    and negtrans: "\<not> lt x y \<Longrightarrow> \<not> lt y z \<Longrightarrow> \<not> lt x z"

definition in_order :: "('a \<Rightarrow> 'a \<Rightarrow> bool) \<Rightarrow> 'a list \<Rightarrow> bool" where
  "in_order lt xs \<longleftrightarrow> successively (\<lambda>x y. \<not> lt y x) xs"

definition same_key :: "('a \<Rightarrow> 'a \<Rightarrow> bool) \<Rightarrow> 'a \<Rightarrow> 'a \<Rightarrow> bool" where
  "same_key lt x y \<longleftrightarrow> \<not> lt x y \<and> \<not> lt y x"

section \<open>Functional counterparts of the loops\<close>

fun run_split :: "('a \<Rightarrow> 'a \<Rightarrow> bool) \<Rightarrow> 'a list \<Rightarrow> 'a list \<times> 'a list" where
  "run_split lt [] = ([], [])"
| "run_split lt [x] = ([x], [])"
| "run_split lt (x # y # ys) =
     (if \<not> lt y x then let (r, s) = run_split lt (y # ys) in (x # r, s) else ([x], y # ys))"

fun lmerge :: "('a \<Rightarrow> 'a \<Rightarrow> bool) \<Rightarrow> 'a list \<Rightarrow> 'a list \<Rightarrow> 'a list" where
  "lmerge lt [] ys = ys"
| "lmerge lt xs [] = xs"
| "lmerge lt (x # xs) (y # ys) =
     (if \<not> lt y x then x # lmerge lt xs (y # ys) else y # lmerge lt (x # xs) ys)"

lemma run_split_append: "run_split lt xs = (r, s) \<Longrightarrow> xs = r @ s"
  by (induction lt xs arbitrary: r rule: run_split.induct) (auto split: if_splits prod.splits)

lemma run_split_nonempty: "run_split lt xs = (r, s) \<Longrightarrow> xs \<noteq> [] \<Longrightarrow> r \<noteq> []"
  by (induction lt xs arbitrary: r rule: run_split.induct) (auto split: if_splits prod.splits)

lemma run_split_length: "run_split lt xs = (r, s) \<Longrightarrow> length s \<le> length xs"
  by (drule run_split_append) simp

lemma run_split_length_Cons: "run_split lt (x # xs) = (r, s) \<Longrightarrow> length s \<le> length xs"
  by (frule run_split_append, drule run_split_nonempty) (auto simp: Cons_eq_append_conv)

lemma run_split_hd: "run_split lt (y # ys) = (r, s) \<Longrightarrow> \<exists>r'. r = y # r'"
  by (cases ys) (auto split: if_splits prod.splits)

lemma run_split_in_order: "run_split lt xs = (r, s) \<Longrightarrow> in_order lt r"
proof (induction lt xs arbitrary: r rule: run_split.induct)
  case (3 lt x y ys)
  then show ?case
    by (auto simp: in_order_def split: if_splits prod.splits dest!: run_split_hd)
qed (auto simp: in_order_def)

function (sequential) merge_pass :: "('a \<Rightarrow> 'a \<Rightarrow> bool) \<Rightarrow> 'a list \<Rightarrow> 'a list \<times> nat" where
  "merge_pass lt [] = ([], 0)"
| "merge_pass lt (x # xs) =
     (let (r1, s1) = run_split lt (x # xs) in
      if s1 = [] then (x # xs, 1)
      else let (r2, s2) = run_split lt s1; (ys, c) = merge_pass lt s2
           in (lmerge lt r1 r2 @ ys, c + 1))"
  by pat_completeness auto
termination
  by (relation "measure (length \<circ> snd)")
    (auto dest!: run_split_length [OF sym] run_split_length_Cons [OF sym])

text \<open>The number of maximal nondecreasing runs.\<close>

fun runs :: "('a \<Rightarrow> 'a \<Rightarrow> bool) \<Rightarrow> 'a list \<Rightarrow> nat" where
  "runs lt [] = 0"
| "runs lt [x] = 1"
| "runs lt (x # y # ys) = runs lt (y # ys) + (if lt y x then 1 else 0)"

lemma runs_split: "run_split lt xs = (r, s) \<Longrightarrow> xs \<noteq> [] \<Longrightarrow> runs lt xs = Suc (runs lt s)"
  by (induction lt xs arbitrary: r rule: run_split.induct) (auto split: if_splits prod.splits)

lemma runs_append: "runs lt (xs @ ys) \<le> runs lt xs + runs lt ys"
proof (induction lt xs rule: runs.induct)
  case (2 lt x)
  then show ?case by (cases ys) auto
qed auto

lemma runs_pos: "xs \<noteq> [] \<Longrightarrow> 0 < runs lt xs"
  by (induction lt xs rule: runs.induct) auto

lemma runs_in_order: "in_order lt xs \<longleftrightarrow> runs lt xs \<le> 1"
proof (induction lt xs rule: runs.induct)
  case (3 lt x y ys)
  then show ?case using runs_pos [of "y # ys" lt] by (auto simp: in_order_def)
qed (auto simp: in_order_def)

lemma mset_lmerge: "mset (lmerge lt xs ys) = mset xs + mset ys"
  by (induction lt xs ys rule: lmerge.induct) auto

lemma set_lmerge: "set (lmerge lt xs ys) = set xs \<union> set ys"
  by (metis mset_lmerge set_mset_mset set_mset_union)

lemma mset_merge_pass: "mset (fst (merge_pass lt xs)) = mset xs"
proof (induction lt xs rule: merge_pass.induct)
  case (2 lt x xs)
  obtain r1 s1 where 1: "run_split lt (x # xs) = (r1, s1)" by fastforce
  obtain r2 s2 where 2: "run_split lt s1 = (r2, s2)" by fastforce
  have "mset (x # xs) = mset r1 + mset r2 + mset s2"
    using run_split_append [OF 1] run_split_append [OF 2] by (metis mset_append add.assoc)
  then show ?case
    using 1 2 "2.IH" [OF 1 [symmetric] refl _ 2 [symmetric] refl]
    by (auto simp: mset_lmerge split: prod.splits)
qed simp

context list_order
begin

lemma in_order_Cons: "in_order lt (x # xs) \<longleftrightarrow> in_order lt xs \<and> (\<forall>y \<in> set xs. \<not> lt y x)"
proof (induction xs arbitrary: x)
  case (Cons y ys)
  show ?case
  proof
    assume "in_order lt (x # y # ys)"
    then have "\<not> lt y x" "in_order lt (y # ys)" by (auto simp: in_order_def)
    then show "in_order lt (y # ys) \<and> (\<forall>z \<in> set (y # ys). \<not> lt z x)"
      using Cons.IH [of y] negtrans by auto
  qed (auto simp: in_order_def)
qed (simp add: in_order_def)

lemma in_order_lmerge: "in_order lt xs \<Longrightarrow> in_order lt ys \<Longrightarrow> in_order lt (lmerge lt xs ys)"
proof (induction xs arbitrary: ys)
  case outer: (Cons x xs)
  from outer.prems(2) show ?case
  proof (induction ys)
    case (Cons y ys)
    have *: "\<not> lt y x \<Longrightarrow> in_order lt (lmerge lt xs (y # ys))"
      using outer.IH [of "y # ys"] outer.prems(1) Cons.prems by (simp add: in_order_Cons)
    show ?case
      using * Cons outer.prems(1) asym [of y x] negtrans [of _ y x] negtrans [of _ x y]
      by (auto simp: in_order_Cons set_lmerge)
  qed (use outer.prems in simp)
qed simp

lemma same_key_trans: "same_key lt x y \<Longrightarrow> same_key lt z x \<longleftrightarrow> same_key lt z y"
  unfolding same_key_def using negtrans by blast

lemma filter_lmerge:
  assumes "in_order lt xs"
  shows "filter (same_key lt z) (lmerge lt xs ys)
    = filter (same_key lt z) xs @ filter (same_key lt z) ys"
  using assms
proof (induction xs arbitrary: ys)
  case outer: (Cons x xs)
  show ?case
  proof (induction ys)
    case (Cons y ys)
    have none: "filter (same_key lt z) (x # xs) = []" if "lt y x" "same_key lt z y"
      using that outer.prems negtrans unfolding filter_empty_conv in_order_Cons same_key_def
      by (metis set_ConsD)
    show ?case
      using Cons none outer.IH [of "y # ys"] outer.prems by (auto simp: in_order_Cons)
  qed simp
qed simp

lemma merge_pass_spec:
  assumes "merge_pass lt xs = (ys, c)"
  shows "runs lt ys \<le> c \<and> c = (runs lt xs + 1) div 2
    \<and> filter (same_key lt z) ys = filter (same_key lt z) xs"
  using assms
proof (induction "length xs" arbitrary: xs ys c rule: less_induct)
  case less
  show ?case
  proof (cases xs)
    case (Cons x xs')
    obtain r1 s1 where 1: "run_split lt xs = (r1, s1)" by fastforce
    obtain r2 s2 where 2: "run_split lt s1 = (r2, s2)" by fastforce
    obtain zs d where 3: "merge_pass lt s2 = (zs, d)" by fastforce
    have r: "runs lt xs = Suc (runs lt s1)" using runs_split [OF 1] Cons by simp
    show ?thesis
    proof (cases "s1 = []")
      case True
      then show ?thesis using less.prems 1 r Cons by auto
    next
      case False
      have eq: "ys = lmerge lt r1 r2 @ zs" "c = d + 1"
        using less.prems 1 2 3 False Cons by auto
      have "length s2 < length xs"
        using run_split_length [OF 2] run_split_length_Cons [OF 1 [unfolded Cons]] Cons by simp
      note IH = less.hyps [OF this 3]
      have ord: "in_order lt r1" "in_order lt r2"
        using 1 2 by (auto intro: run_split_in_order)
      then have "runs lt (lmerge lt r1 r2) \<le> 1"
        using in_order_lmerge runs_in_order by blast
      then have "runs lt ys \<le> c"
        using runs_append [of lt "lmerge lt r1 r2" zs] IH eq by simp
      moreover have "filter (same_key lt z) ys = filter (same_key lt z) xs"
        using run_split_append [OF 1] run_split_append [OF 2] IH eq by (simp add: filter_lmerge ord)
      ultimately show ?thesis using r runs_split [OF 2 False] IH eq by simp
    qed
  qed (use less.prems in simp)
qed

end

section \<open>The pointer loops compute the functional counterparts\<close>

lemma wf_links_next_range:
  assumes "wf_links h (P @ x # xs @ b # Q)"
  shows "list_next h x = Some (hd (xs @ [b]))" "x \<noteq> b"
    "list_prev h (hd (xs @ [b])) = Some x"
  using list_next_wf [of h P x "hd (xs @ [b])" "tl (xs @ [b]) @ Q"]
    list_prev_wf [of h P x "hd (xs @ [b])" "tl (xs @ [b]) @ Q"] assms
  by (cases xs; auto simp: wf_links_def)+

lemma is_sorted_links:
  assumes "wf_links h (P @ xs @ b # Q)"
  shows "is_sorted h (hd (xs @ [b])) b lt = Some (in_order lt xs)"
  using assms
proof (induction lt xs arbitrary: P rule: runs.induct)
  case (1 lt)
  show ?case by (simp add: is_sorted.simps in_order_def)
next
  case (2 lt x)
  show ?case
    using wf_links_next_range [of h P x "[]"] 2 by (simp add: is_sorted.simps in_order_def)
next
  case (3 lt x y ys)
  have "is_sorted h y b lt = Some (in_order lt (y # ys))"
    using 3 by (simp add: "3.IH" [of "P @ [x]", simplified])
  moreover have "y \<noteq> b" using "3.prems" by (auto simp: wf_links_def)
  ultimately show ?case
    using wf_links_next_range [of h P x "y # ys"] 3
    by (simp add: is_sorted.simps [of h x] in_order_def)
qed

lemma find_end_of_run_loop_links:
  assumes "wf_links h (P @ xs @ b # Q)" "run_split lt xs = (r, s)" "xs \<noteq> []"
  shows "find_end_of_run_loop h (hd xs) b lt = Some (hd (s @ [b]))"
  using assms
proof (induction lt xs arbitrary: P r rule: run_split.induct)
  case (2 lt x)
  then show ?case
    using wf_links_next_range [of h P x "[]" b Q] by (auto simp: find_end_of_run_loop.simps)
next
  case (3 lt x y ys)
  have "y \<noteq> b" using "3.prems" by (auto simp: wf_links_def)
  moreover have "find_end_of_run_loop h y b lt = Some (hd (s @ [b]))" if "\<not> lt y x"
    using "3.IH" [OF that, of "P @ [x]"] "3.prems" that by (auto split: prod.splits)
  ultimately show ?case
    using wf_links_next_range [of h P x "y # ys"] 3
    by (auto simp: find_end_of_run_loop.simps [of h x] split: if_splits)
qed simp

lemma find_end_of_run_links:
  assumes "wf_links h (P @ xs @ b # Q)" "run_split lt xs = (r, s)" "xs \<noteq> []"
  shows "find_end_of_run h (hd xs) b lt = Some (hd (s @ [b]))"
  using assms find_end_of_run_loop_links [OF assms]
  by (cases xs) (auto simp: find_end_of_run_def wf_links_def)

lemma inplace_merge_loop_links:
  assumes "wf_links h (P @ xs @ ys @ b # Q)" "P \<noteq> []"
  shows "\<exists>h'. inplace_merge_loop h (hd (xs @ ys @ [b])) (hd (ys @ [b])) b lt = Some h'
    \<and> wf_links h' (P @ lmerge lt xs ys @ b # Q)
    \<and> (\<forall>x. x \<notin> set (P @ xs @ ys @ b # Q) \<longrightarrow> h' x = h x)"
  using assms
proof (induction lt xs ys arbitrary: h P rule: lmerge.induct)
  case (1 lt ys)
  then show ?case by (simp add: inplace_merge_loop.simps)
next
  case (2 lt x xs)
  then show ?case by (simp add: inplace_merge_loop.simps)
next
  case (3 lt x xs y ys)
  have ne: "x \<noteq> y" "y \<noteq> b" using "3.prems" by (auto simp: wf_links_def)
  show ?case
  proof (cases "lt y x")
    case False
    have "list_next h x = Some (hd (xs @ y # ys @ [b]))"
      using wf_links_next_range [of h P x "xs @ y # ys"] "3.prems" by simp
    then show ?thesis
      using "3.IH"(1) [OF False, of h "P @ [x]"] "3.prems" ne False
      by (simp add: inplace_merge_loop.simps [of h x])
  next
    case True
    have nxt: "list_next h y = Some (hd (ys @ [b]))" "list_prev h (hd (ys @ [b])) = Some y"
      using wf_links_next_range [of h "P @ x # xs" y ys] "3.prems" by simp_all
    obtain h1 where h1: "list_splice h x y (hd (ys @ [b])) = Some h1"
      "wf_links h1 (P @ y # x # xs @ ys @ b # Q)"
      "\<forall>z. z \<notin> set (P @ (x # xs) @ (y # ys) @ b # Q) \<longrightarrow> h1 z = h z"
      using list_splice_links [of h P "x # xs" "[y]" "ys @ b # Q"] "3.prems" ne
      by (cases ys) auto
    then show ?thesis
      using "3.IH"(2) [of h1 "P @ [y]"] True ne nxt
      by (simp add: inplace_merge_loop.simps [of h x]) fastforce
  qed
qed

lemma inplace_merge_links:
  assumes "wf_links h (P @ xs @ ys @ b # Q)" "P \<noteq> []" "in_order lt xs" "in_order lt ys"
  shows "\<exists>h'. inplace_merge h (hd (xs @ ys @ [b])) (hd (ys @ [b])) b lt = Some h'
    \<and> wf_links h' (P @ lmerge lt xs ys @ b # Q)
    \<and> (\<forall>x. x \<notin> set (P @ xs @ ys @ b # Q) \<longrightarrow> h' x = h x)"
proof -
  have "is_sorted h (hd (xs @ ys @ [b])) (hd (ys @ [b])) lt = Some True"
    using is_sorted_links [of h P xs "hd (ys @ [b])" "tl (ys @ [b]) @ Q" lt] assms
    by (cases xs; cases ys) auto
  moreover have "is_sorted h (hd (ys @ [b])) b lt = Some True"
    using is_sorted_links [of h "P @ xs" ys b Q lt] assms by simp
  moreover have "b \<noteq> NULL" "hd (ys @ [b]) \<noteq> NULL" "hd (xs @ ys @ [b]) \<noteq> NULL"
    using assms(1) by (cases ys; cases xs; auto simp: wf_links_def)+
  ultimately show ?thesis
    using inplace_merge_loop_links [OF assms(1,2), of lt] by (simp add: inplace_merge_def)
qed

lemma list_sort_pass_links:
  assumes "wf_links h (P @ xs @ [tail_ptr l])" "P \<noteq> []" "merge_pass lt xs = (ys, c)"
  shows "\<exists>h'. list_sort_pass h l (hd (xs @ [tail_ptr l])) cnt lt = Some (cnt + c, h')
    \<and> wf_links h' (P @ ys @ [tail_ptr l])
    \<and> (\<forall>x. x \<notin> set (P @ xs @ [tail_ptr l]) \<longrightarrow> h' x = h x)"
  using assms
proof (induction "length xs" arbitrary: h P xs ys c cnt rule: less_induct)
  case less
  let ?t = "tail_ptr l"
  show ?case
  proof (cases xs)
    case Nil
    then show ?thesis using less.prems by (simp add: list_sort_pass.simps list_end_def)
  next
    case (Cons x xs')
    obtain r1 s1 where 1: "run_split lt xs = (r1, s1)" by fastforce
    obtain r2 s2 where 2: "run_split lt s1 = (r2, s2)" by fastforce
    obtain zs d where 3: "merge_pass lt s2 = (zs, d)" by fastforce
    have xs: "xs = r1 @ s1" "s1 = r2 @ s2"
      using run_split_append [OF 1] run_split_append [OF 2] .
    have "r1 \<noteq> []" using run_split_nonempty [OF 1] Cons by simp
    have ne: "x \<noteq> ?t" "?t \<notin> set xs" using less.prems Cons by (auto simp: wf_links_def)
    have hd_xs: "hd (xs @ [?t]) = x" using Cons by simp
    have e1: "find_end_of_run h x ?t lt = Some (hd (s1 @ [?t]))"
      using find_end_of_run_links [of h P xs ?t "[]" lt r1 s1] less.prems 1 Cons by simp
    show ?thesis
    proof (cases "s1 = []")
      case True
      then show ?thesis
        using less.prems 1 e1 ne Cons by (auto simp: list_sort_pass.simps list_end_def)
    next
      case False
      have s1: "hd (s1 @ [?t]) = hd s1" "hd s1 \<noteq> ?t" using False ne(2) xs(1) by (cases s1; simp)+
      have e2: "find_end_of_run h (hd s1) ?t lt = Some (hd (s2 @ [?t]))"
        using find_end_of_run_links [of h "P @ r1" s1 ?t "[]" lt r2 s2] less.prems(1) 2 xs(1) False
        by simp
      have eq: "ys = lmerge lt r1 r2 @ zs" "c = d + 1"
        using less.prems 1 2 3 False Cons by auto
      have "x = hd (r1 @ r2 @ [hd (s2 @ [?t])])" "hd s1 = hd (r2 @ [hd (s2 @ [?t])])"
        using xs Cons False \<open>r1 \<noteq> []\<close> by (cases r1; cases r2; auto)+
      then obtain h1 where h1: "inplace_merge h x (hd s1) (hd (s2 @ [?t])) lt = Some h1"
        "wf_links h1 ((P @ lmerge lt r1 r2) @ s2 @ [?t])"
        "\<forall>z. z \<notin> set (P @ xs @ [?t]) \<longrightarrow> h1 z = h z"
        using inplace_merge_links [of h P r1 r2 "hd (s2 @ [?t])" "tl (s2 @ [?t])" lt]
          less.prems(1,2) xs run_split_in_order [OF 1] run_split_in_order [OF 2]
        by (cases s2) auto
      have "length s2 < length xs" using xs \<open>r1 \<noteq> []\<close> by auto
      then obtain h2 where "list_sort_pass h1 l (hd (s2 @ [?t])) (cnt + 1) lt = Some (cnt + 1 + d, h2)"
        "wf_links h2 (P @ ys @ [?t])"
        "\<forall>z. z \<notin> set ((P @ lmerge lt r1 r2) @ s2 @ [?t]) \<longrightarrow> h2 z = h1 z"
        using less.hyps [OF _ h1(2) _ 3, of "cnt + 1"] less.prems(2) eq by auto
      moreover from this(3) h1(3) have "\<forall>z. z \<notin> set (P @ xs @ [?t]) \<longrightarrow> h2 z = h z"
        by (auto simp: set_lmerge xs)
      moreover have "list_sort_pass h l x cnt lt = list_sort_pass h1 l (hd (s2 @ [?t])) (cnt + 1) lt"
        using e1 e2 h1(1) s1 ne by (simp add: list_sort_pass.simps [of h l x] list_end_def)
      ultimately show ?thesis unfolding hd_xs eq(2) by (auto simp: ac_simps)
    qed
  qed
qed

lemma list_sort_loop_repr:
  assumes "list_order lt" "list_repr h l xs"
  shows "\<exists>h' ys. list_sort_loop h l lt = Some h' \<and> list_repr h' l ys \<and> in_order lt ys
    \<and> mset ys = mset xs \<and> (\<forall>z. filter (same_key lt z) ys = filter (same_key lt z) xs)
    \<and> (\<forall>x. x \<notin> list_cells l xs \<longrightarrow> h' x = h x)"
  using assms(2)
proof (induction "runs lt xs" arbitrary: h xs rule: less_induct)
  case less
  obtain ys c where mp: "merge_pass lt xs = (ys, c)" by fastforce
  have spec: "runs lt ys \<le> c" "c = (runs lt xs + 1) div 2"
    "filter (same_key lt z) ys = filter (same_key lt z) xs" for z
    using list_order.merge_pass_spec [OF assms(1) mp] by blast+
  have ms: "mset ys = mset xs" using mset_merge_pass [of lt xs] mp by simp
  then have st: "set ys = set xs" by (metis set_mset_mset)
  obtain h1 where h1: "list_sort_pass h l (list_begin h l) 0 lt = Some (c, h1)" "list_repr h1 l ys"
    "\<forall>x. x \<notin> list_cells l xs \<longrightarrow> h1 x = h x"
    using list_sort_pass_links [of h "[head_ptr l]" xs l lt ys c 0] less.prems mp
    by (auto simp: list_repr_def list_cells_def list_repr_begin [OF less.prems])
  show ?case
  proof (cases "c > 1")
    case True
    then have "runs lt ys < runs lt xs" using spec by simp
    then obtain h' zs where "list_sort_loop h1 l lt = Some h'" "list_repr h' l zs" "in_order lt zs"
      "mset zs = mset ys" "\<forall>z. filter (same_key lt z) zs = filter (same_key lt z) ys"
      "\<forall>x. x \<notin> list_cells l ys \<longrightarrow> h' x = h1 x"
      using less.hyps [OF _ h1(2)] by blast
    moreover have "list_cells l ys = list_cells l xs" using st by (simp add: list_cells_def)
    ultimately show ?thesis
      using True h1 spec(3) ms
      by (intro exI [of _ h'] exI [of _ zs]) (simp add: list_sort_loop.simps [of h])
  next
    case False
    then show ?thesis
      using h1 spec(1,3) ms runs_in_order [of lt ys]
      by (intro exI [of _ h1] exI [of _ ys]) (simp add: list_sort_loop.simps [of h])
  qed
qed

lemma list_sort_repr:
  assumes "list_order lt" "list_repr h l xs"
  shows "\<exists>h' ys. list_sort h l lt = Some h' \<and> list_repr h' l ys \<and> in_order lt ys
    \<and> mset ys = mset xs \<and> (\<forall>z. filter (same_key lt z) ys = filter (same_key lt z) xs)
    \<and> (\<forall>x. x \<notin> list_cells l xs \<longrightarrow> h' x = h x)"
proof -
  obtain h' ys where h': "list_sort_loop h l lt = Some h'" "list_repr h' l ys" "in_order lt ys"
    "mset ys = mset xs" "\<forall>z. filter (same_key lt z) ys = filter (same_key lt z) xs"
    "\<forall>x. x \<notin> list_cells l xs \<longrightarrow> h' x = h x"
    using list_sort_loop_repr [OF assms] by blast
  have "is_sorted h' (list_begin h' l) (list_end l) lt = Some True"
    using is_sorted_links [of h' "[head_ptr l]" ys "tail_ptr l" "[]" lt] h'(2,3)
    by (simp add: list_repr_begin list_end_def list_repr_def)
  then have "list_sort h l lt = Some h'" using h'(1) by (simp add: list_sort_def)
  then show ?thesis using h' by blast
qed

section \<open>Ordered insertion\<close>

lemma insert_ordered_pos_links:
  assumes "wf_links h (P @ xs @ b # Q)"
  shows "insert_ordered_pos h e (hd (xs @ [b])) b lt
    = Some (hd (dropWhile (\<lambda>x. \<not> lt e x) xs @ [b]))"
  using assms
proof (induction xs arbitrary: P)
  case Nil
  then show ?case by (simp add: insert_ordered_pos.simps)
next
  case (Cons x xs)
  then show ?case
    using wf_links_next_range [of h P x xs b Q] Cons.IH [of "P @ [x]"]
    by (simp add: insert_ordered_pos.simps [of h e x])
qed

lemma list_insert_ordered_repr:
  assumes "list_repr h l xs" "fresh_elem l xs e"
  shows "\<exists>h'. list_insert_ordered h l e lt = Some h'
    \<and> list_repr h' l (takeWhile (\<lambda>x. \<not> lt e x) xs @ e # dropWhile (\<lambda>x. \<not> lt e x) xs)
    \<and> (\<forall>x. x \<notin> list_cells l (e # xs) \<longrightarrow> h' x = h x)"
proof -
  let ?T = "takeWhile (\<lambda>x. \<not> lt e x) xs" and ?D = "dropWhile (\<lambda>x. \<not> lt e x) xs"
  have "insert_ordered_pos h e (list_begin h l) (list_end l) lt = Some (hd (?D @ [tail_ptr l]))"
    using insert_ordered_pos_links [of h "[head_ptr l]" xs "tail_ptr l" "[]"] assms(1)
    by (simp add: list_repr_begin list_end_def list_repr_def)
  then show ?thesis
    using list_insert_repr [of h l ?T ?D e "hd (?D @ [tail_ptr l])"] assms
    by (simp add: list_insert_ordered_def fresh_elem_def)
qed

context list_order
begin

lemma in_order_append:
  "in_order lt (xs @ ys) \<longleftrightarrow> in_order lt xs \<and> in_order lt ys \<and> (\<forall>x \<in> set xs. \<forall>y \<in> set ys. \<not> lt y x)"
proof (induction xs)
  case Nil
  show ?case by (simp add: in_order_def)
next
  case (Cons x xs)
  then show ?case by (auto simp: in_order_Cons)
qed

lemma in_order_insert:
  assumes "in_order lt xs"
  shows "in_order lt (takeWhile (\<lambda>x. \<not> lt e x) xs @ e # dropWhile (\<lambda>x. \<not> lt e x) xs)"
proof -
  let ?T = "takeWhile (\<lambda>x. \<not> lt e x) xs" and ?D = "dropWhile (\<lambda>x. \<not> lt e x) xs"
  have ord: "in_order lt ?T" "in_order lt ?D" "\<forall>x \<in> set ?T. \<forall>y \<in> set ?D. \<not> lt y x"
    using assms in_order_append [of ?T ?D] by simp_all
  have "\<not> lt y e" if "y \<in> set ?D" for y
  proof (cases ?D)
    case Nil
    then show ?thesis using that by (metis list.set(1) empty_iff)
  next
    case (Cons d D)
    then have "lt e d" by (metis hd_dropWhile list.distinct(1) list.sel(1))
    moreover have "y = d \<or> \<not> lt y d"
      using ord(2) that unfolding Cons by (auto simp: in_order_Cons)
    ultimately show ?thesis using asym negtrans by metis
  qed
  moreover have "\<forall>x \<in> set ?T. \<not> lt e x" by (auto dest: set_takeWhileD)
  ultimately show ?thesis
    using ord unfolding in_order_append in_order_Cons set_simps ball_simps by blast
qed

end

section \<open>Extremal elements\<close>

lemma list_max_loop_links:
  assumes "wf_links h (P @ xs @ b # Q)"
  shows "list_max_loop h m (hd (xs @ [b])) b lt = Some (foldl (\<lambda>m e. if lt m e then e else m) m xs)"
  using assms
proof (induction xs arbitrary: P m)
  case Nil
  then show ?case by (simp add: list_max_loop.simps)
next
  case (Cons x xs)
  then show ?case
    using wf_links_next_range [of h P x xs b Q] Cons.IH [of "P @ [x]"]
    by (simp add: list_max_loop.simps [of h m x])
qed

lemma list_min_loop_links:
  assumes "wf_links h (P @ xs @ b # Q)"
  shows "list_min_loop h m (hd (xs @ [b])) b lt = Some (foldl (\<lambda>m e. if lt e m then e else m) m xs)"
  using assms
proof (induction xs arbitrary: P m)
  case Nil
  then show ?case by (simp add: list_min_loop.simps)
next
  case (Cons x xs)
  then show ?case
    using wf_links_next_range [of h P x xs b Q] Cons.IH [of "P @ [x]"]
    by (simp add: list_min_loop.simps [of h m x])
qed

lemma list_max_repr:
  assumes "list_repr h l (x # xs)"
  shows "list_max h l lt = Some (foldl (\<lambda>m e. if lt m e then e else m) x xs)"
  using list_max_loop_links [of h "[head_ptr l, x]" xs "tail_ptr l" "[]" x lt] assms
    wf_links_next_range [of h "[head_ptr l]" x xs "tail_ptr l" "[]"] list_repr_begin [OF assms]
  by (simp add: list_max_def list_end_def list_repr_def)

lemma list_min_repr:
  assumes "list_repr h l (x # xs)"
  shows "list_min h l lt = Some (foldl (\<lambda>m e. if lt e m then e else m) x xs)"
  using list_min_loop_links [of h "[head_ptr l, x]" xs "tail_ptr l" "[]" x lt] assms
    wf_links_next_range [of h "[head_ptr l]" x xs "tail_ptr l" "[]"] list_repr_begin [OF assms]
  by (simp add: list_min_def list_end_def list_repr_def)

context list_order
begin

lemma foldl_max:
  defines "g \<equiv> foldl (\<lambda>m e. if lt m e then e else m)"
  shows "g m xs \<in> set (m # xs)" "y \<in> set (m # xs) \<Longrightarrow> \<not> lt (g m xs) y"
proof -
  have "g m xs \<in> set (m # xs) \<and> (\<forall>y \<in> set (m # xs). \<not> lt (g m xs) y)"
  proof (induction xs arbitrary: m)
    case Nil
    then show ?case using asym by (auto simp: g_def)
  next
    case (Cons x xs)
    let ?m = "if lt m x then x else m"
    have "\<not> lt (g ?m xs) y" if "\<not> lt (g ?m xs) ?m" "y \<in> {m, x}" for y
      using that asym [of m x] negtrans [of "g ?m xs" ?m y] by (auto split: if_splits)
    moreover have "g m (x # xs) = g ?m xs" by (simp add: g_def)
    ultimately show ?case using Cons.IH [of ?m] by (auto split: if_splits)
  qed
  then show "g m xs \<in> set (m # xs)" "y \<in> set (m # xs) \<Longrightarrow> \<not> lt (g m xs) y" by blast+
qed

lemma dual: "list_order (\<lambda>x y. lt y x)"
  by (rule list_order.intro) (erule asym, rule negtrans)

end

section \<open>Removing duplicates\<close>

lemma list_repr_frame:
  assumes "list_repr h l xs" "\<forall>x \<in> list_cells l xs. h' x = h x"
  shows "list_repr h' l xs"
proof -
  have "chain h' ps" if "chain h ps" "\<forall>x \<in> set ps. h' x = h x" for ps
    using that by (induction h ps rule: chain.induct) auto
  then show ?thesis
    using assms by (auto simp: list_repr_def wf_links_def list_cells_def)
qed

fun unique_split :: "('a \<Rightarrow> 'a \<Rightarrow> bool) \<Rightarrow> 'a \<Rightarrow> 'a list \<Rightarrow> 'a list \<times> 'a list" where
  "unique_split lt x [] = ([], [])"
| "unique_split lt x (y # ys) =
     (if same_key lt x y then let (k, d) = unique_split lt x ys in (k, y # d)
      else let (k, d) = unique_split lt y ys in (y # k, d))"

lemma list_unique_loop_repr:
  assumes "list_repr h l (P @ x # ys)" "list_repr h d ds"
    "list_cells l (P @ x # ys) \<inter> list_cells d ds = {}" "unique_split lt x ys = (k, dup)"
  shows "\<exists>h'. list_unique_loop h x (tail_ptr l) (Some d) lt = Some h'
    \<and> list_repr h' l (P @ x # k) \<and> list_repr h' d (ds @ dup)"
  using assms
proof (induction lt x ys arbitrary: h P ds k dup rule: unique_split.induct)
  case (1 lt x)
  then show ?case
    using list_next_wf [of h "head_ptr l # P" x "tail_ptr l" "[]"]
    by (simp add: list_unique_loop.simps [of h x] list_repr_def)
next
  case (2 lt x y ys)
  have nxt: "list_next h x = Some y" "y \<noteq> tail_ptr l"
    using list_next_wf [of h "head_ptr l # P" x y "ys @ [tail_ptr l]"] "2.prems"(1)
      list_repr_distinct [OF "2.prems"(1)] by (auto simp: list_repr_def)
  show ?case
  proof (cases "same_key lt x y")
    case True
    obtain k' d' where kd: "unique_split lt x ys = (k', d')" by fastforce
    obtain n h1 where h1: "list_remove h y = Some (n, h1)" "list_repr h1 l (P @ x # ys)"
      "\<forall>z. z \<notin> list_cells l (P @ x # ys) \<longrightarrow> h1 z = h z"
      using list_remove_repr [of h l "P @ [x]" y ys] "2.prems"(1) by auto
    have new: "fresh_elem d ds y"
      using "2.prems"(3) list_repr_distinct(5) [OF "2.prems"(1)]
      by (auto simp: fresh_elem_def list_cells_def)
    have "list_cells l (P @ x # ys) \<subseteq> list_cells l (P @ x # y # ys)"
      by (auto simp: list_cells_def)
    then have "list_repr h1 d ds"
      using "2.prems"(3) h1(3) by (intro list_repr_frame [OF "2.prems"(2)]) blast
    then obtain h2 where h2: "list_push_back h1 d y = Some h2" "list_repr h2 d (ds @ [y])"
      "\<forall>z. z \<notin> list_cells d (y # ds) \<longrightarrow> h2 z = h1 z"
      using list_push_back_repr [OF _ new] by blast
    have disj: "list_cells l (P @ x # ys) \<inter> list_cells d (ds @ [y]) = {}"
      using "2.prems"(3) list_repr_distinct [OF "2.prems"(1)] by (auto simp: list_cells_def)
    moreover have "list_cells d (y # ds) = list_cells d (ds @ [y])" by (auto simp: list_cells_def)
    ultimately have "list_repr h2 l (P @ x # ys)"
      using h2(3) by (intro list_repr_frame [OF h1(2)]) blast
    from "2.IH"(1) [OF True this h2(2) disj kd] show ?thesis
      using True kd nxt h1(1) h2(1) "2.prems"(4)
      by (simp add: list_unique_loop.simps [of h x] same_key_def)
  next
    case False
    obtain k' d' where kd: "unique_split lt y ys = (k', d')" by fastforce
    show ?thesis
      using "2.IH"(2) [OF False, of h "P @ [x]" ds k' d'] "2.prems" False kd nxt
      by (auto simp: list_unique_loop.simps [of h x] same_key_def)
  qed
qed

lemma list_unique_repr:
  assumes "list_repr h l (x # xs)" "list_repr h d ds"
    "list_cells l (x # xs) \<inter> list_cells d ds = {}" "unique_split lt x xs = (k, dup)"
  shows "\<exists>h'. list_unique h l (Some d) lt = Some h'
    \<and> list_repr h' l (x # k) \<and> list_repr h' d (ds @ dup)"
  using list_unique_loop_repr [of h l "[]"] assms list_empty_repr [OF assms(1)] list_repr_begin [OF assms(1)]
  by (simp add: list_unique_def list_end_def)

section \<open>Reversal\<close>

lemma list_reverse_loop_chain:
  assumes "chain h (xs @ [b])" "distinct (xs @ [b])" "NULL \<notin> set xs"
  shows "list_reverse_loop h (hd (xs @ [b])) b
    = Some (\<lambda>x. if x \<in> set xs then \<lparr>le_prev = le_next (h x), le_next = le_prev (h x)\<rparr> else h x)"
  using assms
proof (induction xs arbitrary: h)
  case Nil
  then show ?case by (simp add: list_reverse_loop.simps)
next
  case (Cons x xs)
  have nxt: "le_next (h x) = hd (xs @ [b])" using Cons.prems(1) by (cases xs) auto
  have fr: "y \<in> set (xs @ [b]) \<Longrightarrow> swap_links h x y = h y" for y
    using Cons.prems(2) by (auto simp: swap_links_def)
  have "chain (swap_links h x) (xs @ [b]) = chain h (xs @ [b])"
    by (intro chain_snoc_cong) (simp_all add: fr)
  then have "list_reverse_loop (swap_links h x) (hd (xs @ [b])) b = Some (\<lambda>y. if y \<in> set xs
      then \<lparr>le_prev = le_next (swap_links h x y), le_next = le_prev (swap_links h x y)\<rparr>
      else swap_links h x y)"
    using Cons.prems by (intro Cons.IH) (cases xs; simp)+
  then show ?case
    using Cons.prems nxt by (auto simp: list_reverse_loop.simps [of h x] swap_links_def)
qed

lemma chain_rev:
  assumes "chain h ps" "\<forall>x \<in> set ps. h' x = \<lparr>le_prev = le_next (h x), le_next = le_prev (h x)\<rparr>"
  shows "chain h' (rev ps)"
  using assms
proof (induction h ps rule: chain.induct)
  case (1 h a b ps)
  then show ?case using chain_append2 [of h' "rev ps" b a "[]"] by simp
qed auto

lemma list_reverse_repr:
  assumes "list_repr h l xs"
  shows "\<exists>h'. list_reverse h l = Some h' \<and> list_repr h' l (rev xs)
    \<and> (\<forall>x. x \<notin> list_cells l xs \<longrightarrow> h' x = h x)"
proof (cases xs)
  case Nil
  then show ?thesis using assms list_empty_repr [OF assms] by (simp add: list_reverse_def)
next
  case (Cons x ys)
  let ?H = "head_ptr l" and ?T = "tail_ptr l" and ?z = "last xs"
  define h1 where "h1 = (\<lambda>x. if x \<in> set xs then \<lparr>le_prev = le_next (h x), le_next = le_prev (h x)\<rparr> else h x)"
  define h' where "h' = set_next (set_prev (set_prev (set_next h1 ?H ?z) ?T x) ?z ?H) x ?T"
  note d = list_repr_distinct [OF assms]
  have z: "?z \<in> set xs" "x \<in> set xs" "hd (rev xs) = ?z" "last (rev xs) = x"
    using Cons by (auto simp: hd_rev last_rev)
  have ch: "chain h xs" "le_next (h ?H) = x" "le_prev (h x) = ?H" "le_next (h ?z) = ?T"
    "le_prev (h ?T) = ?z" "le_prev (h ?H) = NULL" "le_next (h ?T) = NULL"
    using assms Cons chain_join [of h "[?H]" "xs @ [?T]"] chain_join [of h xs "[?T]"]
    by (simp_all add: list_repr_def wf_links_def)
  have "list_reverse_loop h x ?T = Some h1"
    using list_reverse_loop_chain [of h xs ?T] assms Cons d chain_join [of h "[?H]" "xs @ [?T]"]
    by (simp add: list_repr_def wf_links_def h1_def)
  moreover have "?z \<noteq> NULL" "x \<noteq> NULL" using z d(5) by metis+
  moreover have "\<not> list_empty h l" "list_begin h l = x"
    using list_empty_repr [OF assms] list_repr_begin [OF assms] Cons by simp_all
  moreover have nz: "?z \<noteq> ?H" "?z \<noteq> ?T" "x \<noteq> ?H" "x \<noteq> ?T" using d(2,3) z(1,2) by metis+
  moreover have h1: "le_next (h1 ?H) = x" "le_prev (h1 ?T) = ?z" "le_prev (h1 ?z) = ?T"
    "le_next (h1 x) = ?H" "le_prev (h1 ?H) = NULL" "le_next (h1 ?T) = NULL"
    using ch d(2,3) z(1,2) by (simp_all add: h1_def)
  ultimately have "list_reverse h l = Some h'"
    using d by (simp add: list_reverse_def list_end_def Let_def h'_def)
  moreover have "chain h' (rev xs) = chain h1 (rev xs)"
    by (rule chain_segment_cong) (use d z in \<open>auto simp: h'_def\<close>)
  moreover have "chain h1 (rev xs)" by (rule chain_rev [OF ch(1)]) (simp add: h1_def)
  moreover have "le_next (h' ?H) = ?z" "le_prev (h' ?z) = ?H" "le_next (h' x) = ?T" "le_prev (h' ?T) = x"
    "le_prev (h' ?H) = NULL" "le_next (h' ?T) = NULL"
    using h1 nz d(4) by (simp_all add: h'_def)
  moreover have "h' y = h y" if "y \<notin> list_cells l xs" for y
    by (rule list_elem.equality) (use that z in \<open>auto simp: h'_def h1_def list_cells_def\<close>)
  moreover have "xs \<noteq> []" using Cons by simp
  ultimately show ?thesis
    using d z chain_join [of h' "[?H]" "rev xs @ [?T]"] chain_join [of h' "rev xs" "[?T]"]
    by (simp add: list_repr_def wf_links_def)
qed

section \<open>Properties\<close>

text \<open>C4. \<open>list_sort\<close> returns on every well-formed list (its passes end and none of its
  assertions fails) whenever the comparison function is a strict weak order, and the list it
  leaves is in nondecreasing order, holds the same elements, keeps elements that compare
  equal in their previous order, and touches no memory outside the list.\<close>

theorem list_sort_correct:
  assumes "list_order lt" "list_repr h l xs"
  shows "\<exists>h' ys. list_sort h l lt = Some h' \<and> list_repr h' l ys \<and> in_order lt ys
    \<and> mset ys = mset xs \<and> (\<forall>z. filter (same_key lt z) ys = filter (same_key lt z) xs)
    \<and> (\<forall>x. x \<notin> list_cells l xs \<longrightarrow> h' x = h x)"
  using assms by (rule list_sort_repr)

theorem list_sort_correct_witness:
  "\<exists>h' ys. list_sort sample_heap sample_list (\<lambda>x y. y < x) = Some h' \<and> list_repr h' sample_list ys
    \<and> in_order (\<lambda>x y. y < x) ys \<and> mset ys = {#3, 4, 5#}"
proof -
  have "list_order (\<lambda>x y :: nat. y < x)" by unfold_locales auto
  from list_sort_correct [OF this sample_repr] show ?thesis by auto
qed

text \<open>C5. \<open>list_insert_ordered\<close> keeps an ordered list ordered: the new element is
  put after the elements that are not greater and before the first greater one.\<close>

theorem list_insert_ordered_correct:
  assumes "list_order lt" "list_repr h l xs" "in_order lt xs" "fresh_elem l xs e"
  shows "\<exists>h' us vs. list_insert_ordered h l e lt = Some h' \<and> xs = us @ vs
    \<and> list_repr h' l (us @ e # vs) \<and> in_order lt (us @ e # vs)
    \<and> (\<forall>x \<in> set us. \<not> lt e x) \<and> (vs \<noteq> [] \<longrightarrow> lt e (hd vs))"
proof -
  let ?us = "takeWhile (\<lambda>x. \<not> lt e x) xs" and ?vs = "dropWhile (\<lambda>x. \<not> lt e x) xs"
  have "\<forall>x \<in> set ?us. \<not> lt e x" "?vs \<noteq> [] \<longrightarrow> lt e (hd ?vs)"
    using hd_dropWhile [of "\<lambda>x. \<not> lt e x" xs] by (auto dest: set_takeWhileD)
  moreover have "xs = ?us @ ?vs" by simp
  ultimately show ?thesis
    using list_insert_ordered_repr [OF assms(2,4), of lt]
      list_order.in_order_insert [OF assms(1,3), of e] by blast
qed

theorem list_insert_ordered_correct_witness:
  "\<exists>h' us vs. list_insert_ordered sample_heap sample_list 6 (<) = Some h' \<and> [3, 4, 5] = us @ vs
    \<and> list_repr h' sample_list (us @ 6 # vs) \<and> in_order (<) (us @ 6 # vs)"
proof -
  have "list_order ((<) :: nat \<Rightarrow> nat \<Rightarrow> bool)" by unfold_locales auto
  from list_insert_ordered_correct [OF this sample_repr, of 6] show ?thesis
    by (auto simp: in_order_def fresh_elem_def list_cells_def sample_list_def)
qed

end
