(* ===== verification/Bitmap.thy ===== *)
theory Bitmap
  imports Prelude
begin

text \<open>
  The bitmaps of \<open>lib/kernel/bitmap.c\<close>: an array of 32-bit elements holds the bits.
  A \<open>size_t\<close> is a natural number below \<open>2 ^ 32\<close>; the sums the code computes are
  reduced.  The operations are shown to implement an array of booleans, and the
  allocation discipline of the clients (page pools, swap slots, free sectors) is
  the locale \<open>bit_pool\<close>.
\<close>

record bitmap =
  bit_cnt :: nat
  bits :: "u32 list"

abbreviation (input) ELEM_BITS :: nat where
  "ELEM_BITS \<equiv> 32"

abbreviation (input) SIZE_MAX :: nat where
  "SIZE_MAX \<equiv> 4294967295"

definition BITMAP_ERROR :: nat where
  "BITMAP_ERROR = SIZE_MAX"

definition size_add :: "nat \<Rightarrow> nat \<Rightarrow> nat" where
  "size_add a b = (a + b) mod 2 ^ 32"

definition elem_idx :: "nat \<Rightarrow> nat" where
  "elem_idx bit_idx = bit_idx div ELEM_BITS"

definition bit_mask :: "nat \<Rightarrow> u32" where
  "bit_mask bit_idx = push_bit (bit_idx mod ELEM_BITS) 1"

definition elem_cnt :: "nat \<Rightarrow> nat" where
  "elem_cnt n = size_add n (ELEM_BITS - 1) div ELEM_BITS"

definition byte_cnt :: "nat \<Rightarrow> nat" where
  "byte_cnt n = 4 * elem_cnt n"

definition last_mask :: "bitmap \<Rightarrow> u32" where
  "last_mask b =
     (let last_bits = bit_cnt b mod ELEM_BITS in
      if last_bits \<noteq> 0 then push_bit last_bits 1 - 1 else - 1)"

definition bitmap_size :: "bitmap \<Rightarrow> nat" where
  "bitmap_size b = bit_cnt b"

text \<open>An access to an element outside the array is an access outside the storage
  of the bitmap: the model stops.\<close>

definition update_elem :: "bitmap \<Rightarrow> nat \<Rightarrow> (u32 \<Rightarrow> u32) \<Rightarrow> bitmap option" where
  "update_elem b idx f = do {
     ASSERT (idx < length (bits b));
     Some (b\<lparr>bits := (bits b)[idx := f (bits b ! idx)]\<rparr>) }"

definition bitmap_mark :: "bitmap \<Rightarrow> nat \<Rightarrow> bitmap option" where
  "bitmap_mark b bit_idx =
     (let idx = elem_idx bit_idx; mask = bit_mask bit_idx in update_elem b idx (\<lambda>e. e OR mask))"

definition bitmap_reset :: "bitmap \<Rightarrow> nat \<Rightarrow> bitmap option" where
  "bitmap_reset b bit_idx =
     (let idx = elem_idx bit_idx; mask = bit_mask bit_idx in update_elem b idx (\<lambda>e. e AND NOT mask))"

definition bitmap_flip :: "bitmap \<Rightarrow> nat \<Rightarrow> bitmap option" where
  "bitmap_flip b bit_idx =
     (let idx = elem_idx bit_idx; mask = bit_mask bit_idx in update_elem b idx (\<lambda>e. e XOR mask))"

definition bitmap_set :: "bitmap \<Rightarrow> nat \<Rightarrow> bool \<Rightarrow> bitmap option" where
  "bitmap_set b idx val = do {
     ASSERT (idx < bit_cnt b);
     if val then bitmap_mark b idx else bitmap_reset b idx }"

definition bitmap_test :: "bitmap \<Rightarrow> nat \<Rightarrow> bool option" where
  "bitmap_test b idx = do {
     ASSERT (idx < bit_cnt b);
     ASSERT (elem_idx idx < length (bits b));
     Some (bits b ! elem_idx idx AND bit_mask idx \<noteq> 0) }"

text \<open>The loops run \<open>i\<close> from its value to \<open>cnt\<close>; \<open>n\<close> is what is left.\<close>

fun bitmap_set_loop :: "bitmap \<Rightarrow> nat \<Rightarrow> nat \<Rightarrow> nat \<Rightarrow> bool \<Rightarrow> bitmap option" where
  "bitmap_set_loop b start i 0 val = Some b"
| "bitmap_set_loop b start i (Suc n) val = do {
     b' \<leftarrow> bitmap_set b (size_add start i) val;
     bitmap_set_loop b' start (i + 1) n val }"

definition bitmap_set_multiple :: "bitmap \<Rightarrow> nat \<Rightarrow> nat \<Rightarrow> bool \<Rightarrow> bitmap option" where
  "bitmap_set_multiple b start cnt val = do {
     ASSERT (start \<le> bit_cnt b);
     ASSERT (size_add start cnt \<le> bit_cnt b);
     bitmap_set_loop b start 0 cnt val }"

definition bitmap_set_all :: "bitmap \<Rightarrow> bool \<Rightarrow> bitmap option" where
  "bitmap_set_all b val = bitmap_set_multiple b 0 (bitmap_size b) val"

fun bitmap_count_loop :: "bitmap \<Rightarrow> nat \<Rightarrow> nat \<Rightarrow> nat \<Rightarrow> bool \<Rightarrow> nat \<Rightarrow> nat option" where
  "bitmap_count_loop b start i 0 val value_cnt = Some value_cnt"
| "bitmap_count_loop b start i (Suc n) val value_cnt = do {
     t \<leftarrow> bitmap_test b (size_add start i);
     bitmap_count_loop b start (i + 1) n val (if t = val then value_cnt + 1 else value_cnt) }"

definition bitmap_count :: "bitmap \<Rightarrow> nat \<Rightarrow> nat \<Rightarrow> bool \<Rightarrow> nat option" where
  "bitmap_count b start cnt val = do {
     ASSERT (start \<le> bit_cnt b);
     ASSERT (size_add start cnt \<le> bit_cnt b);
     bitmap_count_loop b start 0 cnt val 0 }"

fun bitmap_contains_loop :: "bitmap \<Rightarrow> nat \<Rightarrow> nat \<Rightarrow> nat \<Rightarrow> bool \<Rightarrow> bool option" where
  "bitmap_contains_loop b start i 0 val = Some False"
| "bitmap_contains_loop b start i (Suc n) val = do {
     t \<leftarrow> bitmap_test b (size_add start i);
     if t = val then Some True else bitmap_contains_loop b start (i + 1) n val }"

definition bitmap_contains :: "bitmap \<Rightarrow> nat \<Rightarrow> nat \<Rightarrow> bool \<Rightarrow> bool option" where
  "bitmap_contains b start cnt val = do {
     ASSERT (start \<le> bit_cnt b);
     ASSERT (size_add start cnt \<le> bit_cnt b);
     bitmap_contains_loop b start 0 cnt val }"

definition bitmap_any :: "bitmap \<Rightarrow> nat \<Rightarrow> nat \<Rightarrow> bool option" where
  "bitmap_any b start cnt = bitmap_contains b start cnt True"

definition bitmap_none :: "bitmap \<Rightarrow> nat \<Rightarrow> nat \<Rightarrow> bool option" where
  "bitmap_none b start cnt = map_option Not (bitmap_contains b start cnt True)"

definition bitmap_all :: "bitmap \<Rightarrow> nat \<Rightarrow> nat \<Rightarrow> bool option" where
  "bitmap_all b start cnt = map_option Not (bitmap_contains b start cnt False)"

function bitmap_scan_loop :: "bitmap \<Rightarrow> nat \<Rightarrow> nat \<Rightarrow> nat \<Rightarrow> bool \<Rightarrow> nat option" where
  "bitmap_scan_loop b i lst cnt val =
     (if i \<le> lst then do {
        c \<leftarrow> bitmap_contains b i cnt (\<not> val);
        if \<not> c then Some i else bitmap_scan_loop b (i + 1) lst cnt val }
      else Some BITMAP_ERROR)"
  by auto
termination by (relation "measure (\<lambda>(b, i, lst, cnt, val). Suc lst - i)") auto

declare bitmap_scan_loop.simps [simp del]

definition bitmap_scan :: "bitmap \<Rightarrow> nat \<Rightarrow> nat \<Rightarrow> bool \<Rightarrow> nat option" where
  "bitmap_scan b start cnt val = do {
     ASSERT (start \<le> bit_cnt b);
     if cnt \<le> bit_cnt b then bitmap_scan_loop b start (bit_cnt b - cnt) cnt val
     else Some BITMAP_ERROR }"

definition bitmap_scan_and_flip :: "bitmap \<Rightarrow> nat \<Rightarrow> nat \<Rightarrow> bool \<Rightarrow> (nat \<times> bitmap) option" where
  "bitmap_scan_and_flip b start cnt val = do {
     idx \<leftarrow> bitmap_scan b start cnt val;
     if idx \<noteq> BITMAP_ERROR then do {
       b' \<leftarrow> bitmap_set_multiple b idx cnt (\<not> val);
       Some (idx, b') }
     else Some (idx, b) }"

text \<open>\<open>bitmap_create\<close> makes two calls of \<open>malloc\<close>: \<open>hdr\<close> says whether the first
  one succeeds, \<open>blk\<close> is what the second one returns (storage with arbitrary contents).  The
  inner option is the pointer the function returns.\<close>

definition bitmap_create :: "bool \<Rightarrow> u32 list option \<Rightarrow> nat \<Rightarrow> bitmap option option" where
  "bitmap_create hdr blk n =
     (if hdr then
        (if blk \<noteq> None \<or> n = 0 then do {
           b \<leftarrow> bitmap_set_all \<lparr>bit_cnt = n, bits = (case blk of None \<Rightarrow> [] | Some ws \<Rightarrow> ws)\<rparr> False;
           Some (Some b) }
         else Some None)
      else Some None)"

definition bitmap_buf_size :: "nat \<Rightarrow> nat" where
  "bitmap_buf_size n = 8 + byte_cnt n"

definition bitmap_create_in_buf :: "nat \<Rightarrow> u32 list \<Rightarrow> nat \<Rightarrow> bitmap option" where
  "bitmap_create_in_buf n block block_size = do {
     ASSERT (block_size \<ge> bitmap_buf_size n);
     bitmap_set_all \<lparr>bit_cnt = n, bits = take (elem_cnt n) (drop 2 block)\<rparr> False }"

definition bitmap_file_size :: "bitmap \<Rightarrow> nat" where
  "bitmap_file_size b = byte_cnt (bit_cnt b)"

text \<open>\<open>bitmap_read\<close>: \<open>got\<close> is the number of bytes \<open>file_read_at\<close> returned and \<open>ws\<close> the
  elements it left in the buffer.\<close>

definition bitmap_read :: "bitmap \<Rightarrow> nat \<Rightarrow> u32 list \<Rightarrow> (bool \<times> bitmap) option" where
  "bitmap_read b got ws =
     (if bit_cnt b > 0 then do {
        let success = (got = byte_cnt (bit_cnt b));
        b' \<leftarrow> update_elem (b\<lparr>bits := ws\<rparr>) (elem_cnt (bit_cnt b) - 1) (\<lambda>e. e AND last_mask b);
        Some (success, b') }
      else Some (True, b))"

section \<open>Refinement to an array of booleans\<close>

definition bitmap_wf :: "bitmap \<Rightarrow> bool" where
  "bitmap_wf b \<longleftrightarrow> bit_cnt b \<le> SIZE_MAX - 31 \<and> length (bits b) = elem_cnt (bit_cnt b)"

definition get_bit :: "bitmap \<Rightarrow> nat \<Rightarrow> bool" where
  "get_bit b i = bit (bits b ! (i div 32)) (i mod 32)"

definition bools :: "bitmap \<Rightarrow> bool list" where
  "bools b = map (get_bit b) [0..<bit_cnt b]"

lemma length_bools [simp]: "length (bools b) = bit_cnt b"
  by (simp add: bools_def)

lemma nth_bools [simp]: "i < bit_cnt b \<Longrightarrow> bools b ! i = get_bit b i"
  by (simp add: bools_def)

lemma elem_cnt_eq: "n \<le> SIZE_MAX - 31 \<Longrightarrow> elem_cnt n = DIV_ROUND_UP n 32"
  by (simp add: elem_cnt_def size_add_def DIV_ROUND_UP_def)

lemma elem_idx_less:
  assumes "bitmap_wf b" "i < bit_cnt b"
  shows "i div 32 < length (bits b)"
  using assms by (simp add: bitmap_wf_def elem_cnt_eq less_DIV_ROUND_UP)

lemma bit_bit_mask: "bit (bit_mask i) k \<longleftrightarrow> k = i mod 32"
  by (auto simp: bit_mask_def bit_exp_iff)

lemma and_bit_mask: "(w AND bit_mask i \<noteq> 0) \<longleftrightarrow> bit w (i mod 32)"
  unfolding bit_eq_iff by (auto simp: bit_and_iff bit_bit_mask)

lemma bitmap_test_spec:
  assumes "bitmap_wf b" "i < bit_cnt b"
  shows "bitmap_test b i = Some (get_bit b i)"
  using assms elem_idx_less [OF assms]
  by (simp add: bitmap_test_def elem_idx_def get_bit_def and_bit_mask)

lemma update_elem_spec:
  assumes "bitmap_wf b" "i < bit_cnt b"
    and "\<And>e k. k < 32 \<Longrightarrow> bit (f e) k = (if k = i mod 32 then g (bit e k) else bit e k)"
  shows "\<exists>b'. update_elem b (i div 32) f = Some b' \<and> bitmap_wf b' \<and> bit_cnt b' = bit_cnt b
    \<and> (\<forall>j. get_bit b' j = (if j = i then g (get_bit b i) else get_bit b j))"
proof -
  have "j = i" if "j div 32 = i div 32" "j mod 32 = i mod 32" for j :: nat
    using that by (metis div_mult_mod_eq)
  then show ?thesis
    using assms elem_idx_less [OF assms(1,2)]
    by (auto simp: update_elem_def bitmap_wf_def get_bit_def nth_list_update)
qed

lemma bitmap_set_spec:
  assumes "bitmap_wf b" "i < bit_cnt b"
  shows "\<exists>b'. bitmap_set b i v = Some b' \<and> bitmap_wf b' \<and> bit_cnt b' = bit_cnt b
    \<and> (\<forall>j. get_bit b' j = (if j = i then v else get_bit b j))"
proof (cases v)
  case True
  have "\<exists>b'. update_elem b (i div 32) (\<lambda>e. e OR bit_mask i) = Some b' \<and> bitmap_wf b'
      \<and> bit_cnt b' = bit_cnt b \<and> (\<forall>j. get_bit b' j = (if j = i then v else get_bit b j))"
    by (rule update_elem_spec [OF assms]) (auto simp: bit_or_iff bit_bit_mask True)
  then show ?thesis
    using assms True by (simp add: bitmap_set_def bitmap_mark_def elem_idx_def)
next
  case False
  have "\<exists>b'. update_elem b (i div 32) (\<lambda>e. e AND NOT (bit_mask i)) = Some b' \<and> bitmap_wf b'
      \<and> bit_cnt b' = bit_cnt b \<and> (\<forall>j. get_bit b' j = (if j = i then v else get_bit b j))"
    by (rule update_elem_spec [OF assms]) (auto simp: bit_and_iff bit_not_iff bit_bit_mask False)
  then show ?thesis
    using assms False by (simp add: bitmap_set_def bitmap_reset_def elem_idx_def)
qed

lemma bitmap_flip_spec:
  assumes "bitmap_wf b" "i < bit_cnt b"
  shows "\<exists>b'. bitmap_flip b i = Some b' \<and> bitmap_wf b' \<and> bit_cnt b' = bit_cnt b
    \<and> (\<forall>j. get_bit b' j = (if j = i then \<not> get_bit b i else get_bit b j))"
  unfolding bitmap_flip_def elem_idx_def Let_def
  by (rule update_elem_spec [OF assms]) (auto simp: bit_xor_iff bit_bit_mask)

lemma size_add_id: "a + b \<le> SIZE_MAX \<Longrightarrow> size_add a b = a + b"
  by (simp add: size_add_def)

lemma bitmap_set_loop_spec:
  assumes "bitmap_wf b" "start + i + n \<le> bit_cnt b"
  shows "\<exists>b'. bitmap_set_loop b start i n v = Some b' \<and> bitmap_wf b' \<and> bit_cnt b' = bit_cnt b
    \<and> (\<forall>j. get_bit b' j = (if j \<in> {start + i..<start + i + n} then v else get_bit b j))"
  using assms
proof (induction n arbitrary: b i)
  case (Suc n)
  have lt: "start + i < bit_cnt b" "size_add start i = start + i"
    using Suc.prems by (auto intro!: size_add_id simp: bitmap_wf_def)
  obtain b1 where b1: "bitmap_set b (start + i) v = Some b1" "bitmap_wf b1" "bit_cnt b1 = bit_cnt b"
    "\<forall>j. get_bit b1 j = (if j = start + i then v else get_bit b j)"
    using bitmap_set_spec [OF Suc.prems(1) lt(1), of v] by blast
  have "start + (i + 1) + n \<le> bit_cnt b1" using Suc.prems b1(3) by simp
  from Suc.IH [OF b1(2) this] show ?case
    using b1 lt by auto
qed simp

lemma bitmap_set_multiple_spec:
  assumes "bitmap_wf b" "start + cnt \<le> bit_cnt b"
  shows "\<exists>b'. bitmap_set_multiple b start cnt v = Some b' \<and> bitmap_wf b' \<and> bit_cnt b' = bit_cnt b
    \<and> (\<forall>j. get_bit b' j = (if j \<in> {start..<start + cnt} then v else get_bit b j))"
  using bitmap_set_loop_spec [of b start 0 cnt v] assms
  by (auto simp: bitmap_set_multiple_def size_add_id bitmap_wf_def)

lemma bitmap_contains_loop_spec:
  assumes "bitmap_wf b" "start + i + n \<le> bit_cnt b"
  shows "bitmap_contains_loop b start i n v
    = Some (\<exists>j \<in> {start + i..<start + i + n}. get_bit b j = v)"
  using assms
proof (induction n arbitrary: i)
  case (Suc n)
  have lt: "start + i < bit_cnt b" "size_add start i = start + i"
    using Suc.prems by (auto intro!: size_add_id simp: bitmap_wf_def)
  have "{start + i..<start + i + Suc n} = insert (start + i) {start + (i + 1)..<start + (i + 1) + n}"
    by auto
  then show ?case
    using Suc lt by (simp add: bitmap_test_spec)
qed simp

lemma bitmap_contains_spec:
  assumes "bitmap_wf b" "start + cnt \<le> bit_cnt b"
  shows "bitmap_contains b start cnt v = Some (\<exists>j \<in> {start..<start + cnt}. get_bit b j = v)"
  using bitmap_contains_loop_spec [of b start 0 cnt v] assms
  by (auto simp: bitmap_contains_def size_add_id bitmap_wf_def)

lemma bitmap_count_loop_spec:
  assumes "bitmap_wf b" "start + i + n \<le> bit_cnt b"
  shows "bitmap_count_loop b start i n v c
    = Some (c + card {j \<in> {start + i..<start + i + n}. get_bit b j = v})"
  using assms
proof (induction n arbitrary: i c)
  case (Suc n)
  have lt: "start + i < bit_cnt b" "size_add start i = start + i"
    using Suc.prems by (auto intro!: size_add_id simp: bitmap_wf_def)
  have "{j \<in> {start + i..<start + i + Suc n}. get_bit b j = v}
    = (if get_bit b (start + i) = v then {start + i} else {})
      \<union> {j \<in> {start + (i + 1)..<start + (i + 1) + n}. get_bit b j = v}"
    by (auto simp: Suc_le_eq order_le_less)
  then show ?case
    using Suc lt by (auto simp: bitmap_test_spec card_insert_if)
qed simp

lemma bitmap_count_spec:
  assumes "bitmap_wf b" "start + cnt \<le> bit_cnt b"
  shows "bitmap_count b start cnt v = Some (card {j \<in> {start..<start + cnt}. get_bit b j = v})"
  using bitmap_count_loop_spec [of b start 0 cnt v 0] assms
  by (auto simp: bitmap_count_def size_add_id bitmap_wf_def)

section \<open>Scanning\<close>

text \<open>\<open>run_at b i cnt v\<close>: the \<open>cnt\<close> bits from \<open>i\<close> on lie in the bitmap and all have the value \<open>v\<close>.\<close>

definition run_at :: "bitmap \<Rightarrow> nat \<Rightarrow> nat \<Rightarrow> bool \<Rightarrow> bool" where
  "run_at b i cnt v \<longleftrightarrow> i + cnt \<le> bit_cnt b \<and> (\<forall>j \<in> {i..<i + cnt}. get_bit b j = v)"

definition first_run :: "bitmap \<Rightarrow> nat \<Rightarrow> nat \<Rightarrow> bool \<Rightarrow> nat \<Rightarrow> bool" where
  "first_run b start cnt v idx \<longleftrightarrow> start \<le> idx \<and> run_at b idx cnt v
     \<and> (\<forall>i. start \<le> i \<and> i < idx \<longrightarrow> \<not> run_at b i cnt v)"

lemma bitmap_scan_loop_spec:
  assumes "bitmap_wf b" "cnt \<le> bit_cnt b"
  shows "\<exists>idx. bitmap_scan_loop b i (bit_cnt b - cnt) cnt v = Some idx
    \<and> (if \<exists>k \<ge> i. run_at b k cnt v then first_run b i cnt v idx else idx = BITMAP_ERROR)"
proof (induction "Suc (bit_cnt b - cnt) - i" arbitrary: i)
  case 0
  then have "\<not> (\<exists>k \<ge> i. run_at b k cnt v)" using assms by (auto simp: run_at_def)
  with 0 show ?case by (auto simp: bitmap_scan_loop.simps)
next
  case (Suc n)
  then have le: "i \<le> bit_cnt b - cnt" by simp
  have c: "bitmap_contains b i cnt (\<not> v) = Some (\<not> run_at b i cnt v)"
    using bitmap_contains_spec [of b i cnt "\<not> v"] assms le by (auto simp: run_at_def)
  show ?case
  proof (cases "run_at b i cnt v")
    case True
    then show ?thesis using le c by (auto simp: bitmap_scan_loop.simps [of b i] first_run_def)
  next
    case False
    then have ex: "(\<exists>k \<ge> i. run_at b k cnt v) \<longleftrightarrow> (\<exists>k \<ge> i + 1. run_at b k cnt v)"
      by (metis Suc_eq_plus1 Suc_leD le_antisym not_less_eq_eq)
    have "first_run b (i + 1) cnt v idx \<Longrightarrow> first_run b i cnt v idx" for idx
      using False unfolding first_run_def by (metis Suc_eq_plus1 Suc_leD le_antisym not_less_eq_eq)
    moreover have "n = Suc (bit_cnt b - cnt) - (i + 1)" using Suc.hyps(2) by simp
    ultimately show ?thesis
      using Suc.hyps(1) [of "i + 1"] False le c unfolding ex
      by (auto simp: bitmap_scan_loop.simps [of b i] split: if_splits)
  qed
qed

lemma bitmap_scan_spec:
  assumes "bitmap_wf b" "start \<le> bit_cnt b"
  shows "\<exists>idx. bitmap_scan b start cnt v = Some idx
    \<and> (if \<exists>k \<ge> start. run_at b k cnt v then first_run b start cnt v idx else idx = BITMAP_ERROR)"
proof (cases "cnt \<le> bit_cnt b")
  case True
  then show ?thesis
    using bitmap_scan_loop_spec [OF assms(1) True, of start v] assms(2) by (simp add: bitmap_scan_def)
next
  case False
  then have "\<not> run_at b k cnt v" for k by (auto simp: run_at_def)
  then show ?thesis using assms(2) False by (simp add: bitmap_scan_def)
qed

lemma run_at_not_error: "bitmap_wf b \<Longrightarrow> run_at b idx cnt v \<Longrightarrow> idx \<noteq> BITMAP_ERROR"
  by (auto simp: bitmap_wf_def run_at_def BITMAP_ERROR_def)

lemma bitmap_scan_and_flip_spec:
  assumes "bitmap_wf b" "start \<le> bit_cnt b"
  shows "\<exists>idx b'. bitmap_scan_and_flip b start cnt v = Some (idx, b')
    \<and> bitmap_wf b' \<and> bit_cnt b' = bit_cnt b
    \<and> (if \<exists>k \<ge> start. run_at b k cnt v
       then first_run b start cnt v idx
         \<and> (\<forall>j. get_bit b' j = (if j \<in> {idx..<idx + cnt} then \<not> v else get_bit b j))
       else idx = BITMAP_ERROR \<and> b' = b)"
proof -
  obtain idx where idx: "bitmap_scan b start cnt v = Some idx"
    "if \<exists>k \<ge> start. run_at b k cnt v then first_run b start cnt v idx else idx = BITMAP_ERROR"
    using bitmap_scan_spec [OF assms] by blast
  show ?thesis
  proof (cases "\<exists>k \<ge> start. run_at b k cnt v")
    case True
    then have fr: "first_run b start cnt v idx" "idx + cnt \<le> bit_cnt b" "idx \<noteq> BITMAP_ERROR"
      using idx(2) run_at_not_error [OF assms(1)] by (auto simp: first_run_def run_at_def)
    then show ?thesis
      using idx(1) True bitmap_set_multiple_spec [OF assms(1) fr(2), of "\<not> v"]
      by (auto simp: bitmap_scan_and_flip_def)
  next
    case False
    then show ?thesis using idx assms(1) by (auto simp: bitmap_scan_and_flip_def)
  qed
qed

lemma bitmap_create_spec:
  assumes "n \<le> SIZE_MAX - 31" "length ws = elem_cnt n"
  shows "\<exists>b. bitmap_create True (Some ws) n = Some (Some b) \<and> bitmap_wf b \<and> bit_cnt b = n
    \<and> (\<forall>j < n. \<not> get_bit b j)"
  using bitmap_set_multiple_spec [of "\<lparr>bit_cnt = n, bits = ws\<rparr>" 0 n False] assms
  by (auto simp: bitmap_create_def bitmap_set_all_def bitmap_size_def bitmap_wf_def)

section \<open>Pools: allocation of runs of bits\<close>

definition range_set :: "nat \<times> nat \<Rightarrow> nat set" where
  "range_set r = {fst r..<fst r + snd r}"

text \<open>A client of a pool allocates runs and frees runs it holds.\<close>

datatype pool_op = Alloc nat | Free nat

fun pool_step :: "('b \<Rightarrow> nat \<Rightarrow> (nat \<times> 'b) option) \<Rightarrow> ('b \<Rightarrow> nat \<Rightarrow> nat \<Rightarrow> 'b option) \<Rightarrow> nat
    \<Rightarrow> pool_op \<Rightarrow> 'b \<times> (nat \<times> nat) list \<Rightarrow> ('b \<times> (nat \<times> nat) list) option" where
  "pool_step alloc release err (Alloc n) (b, live) = do {
     (i, b') \<leftarrow> alloc b n;
     Some (b', if i = err then live else (i, n) # live) }"
| "pool_step alloc release err (Free k) (b, live) =
     (if k < length live then do {
        b' \<leftarrow> release b (fst (live ! k)) (snd (live ! k));
        Some (b', take k live @ drop (Suc k) live) }
      else Some (b, live))"

fun pool_run :: "('b \<Rightarrow> nat \<Rightarrow> (nat \<times> 'b) option) \<Rightarrow> ('b \<Rightarrow> nat \<Rightarrow> nat \<Rightarrow> 'b option) \<Rightarrow> nat
    \<Rightarrow> pool_op list \<Rightarrow> 'b \<times> (nat \<times> nat) list \<Rightarrow> ('b \<times> (nat \<times> nat) list) option" where
  "pool_run alloc release err [] s = Some s"
| "pool_run alloc release err (op # ops) s = do {
     s' \<leftarrow> pool_step alloc release err op s;
     pool_run alloc release err ops s' }"

locale bit_pool =
  fixes inv :: "'b \<Rightarrow> bool"
    and cap :: "'b \<Rightarrow> nat"
    and used :: "'b \<Rightarrow> nat set"
    and err :: nat
    and alloc :: "'b \<Rightarrow> nat \<Rightarrow> (nat \<times> 'b) option"
    and release :: "'b \<Rightarrow> nat \<Rightarrow> nat \<Rightarrow> 'b option"
  assumes alloc_total: "inv b \<Longrightarrow> \<exists>i b'. alloc b n = Some (i, b') \<and> inv b' \<and> cap b' = cap b"
    and alloc_ok: "inv b \<Longrightarrow> alloc b n = Some (i, b') \<Longrightarrow> i \<noteq> err \<Longrightarrow>
      i + n \<le> cap b \<and> range_set (i, n) \<inter> used b = {} \<and> used b' = used b \<union> range_set (i, n)"
    and alloc_err: "inv b \<Longrightarrow> alloc b n = Some (err, b') \<Longrightarrow>
      used b' = used b \<and> (\<forall>i. i + n \<le> cap b \<longrightarrow> range_set (i, n) \<inter> used b \<noteq> {})"
    and release_ok: "inv b \<Longrightarrow> i + n \<le> cap b \<Longrightarrow>
      \<exists>b'. release b i n = Some b' \<and> inv b' \<and> cap b' = cap b \<and> used b' = used b - range_set (i, n)"
begin

definition pool_inv :: "nat \<Rightarrow> 'b \<times> (nat \<times> nat) list \<Rightarrow> bool" where
  "pool_inv c s \<longleftrightarrow> (case s of (b, live) \<Rightarrow> inv b \<and> cap b = c
     \<and> (\<forall>r \<in> set live. fst r + snd r \<le> c)
     \<and> sorted_wrt (\<lambda>r r'. range_set r \<inter> range_set r' = {}) live
     \<and> used b = (\<Union>r \<in> set live. range_set r))"

lemma pool_step_inv:
  assumes "pool_inv c s"
  shows "\<exists>s'. pool_step alloc release err op s = Some s' \<and> pool_inv c s'"
proof -
  obtain b live where s: "s = (b, live)" by fastforce
  have b: "inv b" "cap b = c" "used b = (\<Union>r \<in> set live. range_set r)"
    using assms s by (auto simp: pool_inv_def)
  show ?thesis
  proof (cases op)
    case (Alloc n)
    obtain i b' where i: "alloc b n = Some (i, b')" "inv b'" "cap b' = cap b"
      using alloc_total [OF b(1)] by blast
    show ?thesis
    proof (cases "i = err")
      case True
      then show ?thesis
        using i alloc_err [OF b(1), of n b'] assms s Alloc by (auto simp: pool_inv_def)
    next
      case False
      then show ?thesis
        using i alloc_ok [OF b(1) i(1) False] assms s Alloc by (auto simp: pool_inv_def)
    qed
  next
    case (Free k)
    show ?thesis
    proof (cases "k < length live")
      case True
      obtain us r vs where l: "live = us @ r # vs" "us = take k live" "vs = drop (Suc k) live" "live ! k = r"
        using id_take_nth_drop [OF True] by blast
      have "fst r + snd r \<le> cap b" using assms s b(2) l(1) by (auto simp: pool_inv_def)
      then obtain b' where b': "release b (fst r) (snd r) = Some b'" "inv b'" "cap b' = cap b"
        "used b' = used b - range_set (fst r, snd r)"
        using release_ok [OF b(1)] by blast
      have d: "sorted_wrt (\<lambda>r r'. range_set r \<inter> range_set r' = {}) (us @ r # vs)"
        using assms s l(1) by (simp add: pool_inv_def)
      then have "used b' = (\<Union>r \<in> set (us @ vs). range_set r)"
        using b' b(3) l(1) by (auto simp: sorted_wrt_append)
      moreover have "pool_step alloc release err op s = Some (b', us @ vs)"
        using b'(1) s Free True l(2-4) by simp
      ultimately show ?thesis
        using b' d assms s l(1) by (auto simp: pool_inv_def sorted_wrt_append)
    qed (use assms s Free in simp)
  qed
qed

lemma pool_run_inv:
  assumes "pool_inv c s"
  shows "\<exists>s'. pool_run alloc release err ops s = Some s' \<and> pool_inv c s'"
  using assms
proof (induction ops arbitrary: s)
  case (Cons op ops)
  then show ?case using pool_step_inv [OF Cons.prems, of op] by auto
qed simp

end

definition used_bits :: "bitmap \<Rightarrow> nat set" where
  "used_bits b = {j. j < bit_cnt b \<and> get_bit b j}"

interpretation bm: bit_pool bitmap_wf bit_cnt used_bits BITMAP_ERROR
  "\<lambda>b n. bitmap_scan_and_flip b 0 n False" "\<lambda>b i n. bitmap_set_multiple b i n False"
proof
  fix b :: bitmap and n i :: nat and b'
  assume wf: "bitmap_wf b"
  note spec = bitmap_scan_and_flip_spec [OF wf, of 0 n False, simplified]
  show "\<exists>i b'. bitmap_scan_and_flip b 0 n False = Some (i, b') \<and> bitmap_wf b' \<and> bit_cnt b' = bit_cnt b"
    using spec by blast
  show "i + n \<le> bit_cnt b \<and> range_set (i, n) \<inter> used_bits b = {} \<and> used_bits b' = used_bits b \<union> range_set (i, n)"
    if "bitmap_scan_and_flip b 0 n False = Some (i, b')" "i \<noteq> BITMAP_ERROR"
    using spec that by (auto simp: used_bits_def range_set_def first_run_def run_at_def split: if_splits)
  show "used_bits b' = used_bits b \<and> (\<forall>i. i + n \<le> bit_cnt b \<longrightarrow> range_set (i, n) \<inter> used_bits b \<noteq> {})"
    if "bitmap_scan_and_flip b 0 n False = Some (BITMAP_ERROR, b')"
    using spec that run_at_not_error [OF wf, of BITMAP_ERROR n False]
    by (force simp: used_bits_def range_set_def first_run_def run_at_def split: if_splits)
  show "\<exists>b'. bitmap_set_multiple b i n False = Some b' \<and> bitmap_wf b' \<and> bit_cnt b' = bit_cnt b
      \<and> used_bits b' = used_bits b - range_set (i, n)" if "i + n \<le> bit_cnt b"
    using bitmap_set_multiple_spec [OF wf that, of False] by (auto simp: used_bits_def range_set_def)
qed

section \<open>Properties\<close>

lemma scan_and_flip_error:
  assumes "bitmap_wf b" "start \<le> bit_cnt b" "bitmap_scan_and_flip b start cnt v = Some (BITMAP_ERROR, b')"
  shows "b' = b"
  using bitmap_scan_and_flip_spec [OF assms(1,2), of cnt v] assms(3) run_at_not_error [OF assms(1), of BITMAP_ERROR]
  by (auto simp: first_run_def split: if_splits)

lemma first_run_empty: "first_run b start 0 v idx \<Longrightarrow> start \<le> bit_cnt b \<Longrightarrow> idx = start"
  by (force simp: first_run_def run_at_def)

text \<open>C6. \<open>bitmap_scan_and_flip\<close> on a well-formed bitmap always returns.  If some run of
  \<open>cnt\<close> bits with the wanted value lies at or after \<open>start\<close>, it returns the index of the first
  such run and inverts exactly its bits; otherwise it returns \<open>BITMAP_ERROR\<close> and changes nothing.
  For \<open>cnt\<close> = 0 the first run is the empty one at \<open>start\<close>, so that the result is \<open>start\<close>: the comment of the
  function, which says that it is 0, holds only for \<open>start\<close> = 0.\<close>

theorem bitmap_scan_and_flip_first:
  assumes "bitmap_wf b" "start \<le> bit_cnt b"
  shows "\<exists>idx b'. bitmap_scan_and_flip b start cnt v = Some (idx, b')
    \<and> bitmap_wf b' \<and> bit_cnt b' = bit_cnt b
    \<and> (if \<exists>k \<ge> start. run_at b k cnt v
       then first_run b start cnt v idx
         \<and> (\<forall>j. get_bit b' j = (if j \<in> {idx..<idx + cnt} then \<not> v else get_bit b j))
       else idx = BITMAP_ERROR \<and> b' = b)
    \<and> (cnt = 0 \<longrightarrow> idx = start)"
proof -
  obtain idx b' where r: "bitmap_scan_and_flip b start cnt v = Some (idx, b')" "bitmap_wf b'" "bit_cnt b' = bit_cnt b"
    "if \<exists>k \<ge> start. run_at b k cnt v
     then first_run b start cnt v idx \<and> (\<forall>j. get_bit b' j = (if j \<in> {idx..<idx + cnt} then \<not> v else get_bit b j))
     else idx = BITMAP_ERROR \<and> b' = b"
    using bitmap_scan_and_flip_spec [OF assms, of cnt v] by blast
  have "run_at b start 0 v" using assms(2) by (simp add: run_at_def)
  then have "cnt = 0 \<longrightarrow> idx = start" using r(4) first_run_empty [OF _ assms(2)] by (auto split: if_splits)
  then show ?thesis using r by blast
qed

theorem bitmap_scan_and_flip_first_witness:
  "(\<exists>idx b'. bitmap_scan_and_flip \<lparr>bit_cnt = 40, bits = [5, 0]\<rparr> 1 2 False = Some (idx, b')
      \<and> bitmap_wf b' \<and> bit_cnt b' = 40)
    \<and> (\<exists>b'. bitmap_scan_and_flip \<lparr>bit_cnt = 40, bits = [5, 0]\<rparr> 7 0 False = Some (7, b'))"
  using bitmap_scan_and_flip_first [of "\<lparr>bit_cnt = 40, bits = [5, 0]\<rparr>" 1 2 False]
    bitmap_scan_and_flip_first [of "\<lparr>bit_cnt = 40, bits = [5, 0]\<rparr>" 7 0 False]
  by (auto simp: bitmap_wf_def elem_cnt_def size_add_def)

text \<open>C7. Whatever sequence of allocations (\<open>bitmap_scan_and_flip\<close> of clear bits) and
  releases (\<open>bitmap_set_multiple\<close> of a run that is held) a client makes on a bitmap that starts
  empty, no call fails, the runs held at the end lie in the bitmap and are pairwise
  disjoint, and the set bits are exactly the bits of these runs.\<close>

theorem bitmap_pool_disjoint:
  assumes "bitmap_wf b" "used_bits b = {}"
  shows "\<exists>b' live. pool_run (\<lambda>b n. bitmap_scan_and_flip b 0 n False)
      (\<lambda>b i n. bitmap_set_multiple b i n False) BITMAP_ERROR ops (b, []) = Some (b', live)
    \<and> bitmap_wf b' \<and> (\<forall>r \<in> set live. fst r + snd r \<le> bit_cnt b)
    \<and> sorted_wrt (\<lambda>r r'. range_set r \<inter> range_set r' = {}) live
    \<and> used_bits b' = (\<Union>r \<in> set live. range_set r)"
  using bm.pool_run_inv [of "bit_cnt b" "(b, [])" ops] assms by (auto simp: bm.pool_inv_def)

theorem bitmap_pool_disjoint_witness:
  "\<exists>b' live. pool_run (\<lambda>b n. bitmap_scan_and_flip b 0 n False)
      (\<lambda>b i n. bitmap_set_multiple b i n False) BITMAP_ERROR [Alloc 3, Alloc 33, Free 1, Alloc 2]
      (\<lparr>bit_cnt = 40, bits = [0, 0]\<rparr>, []) = Some (b', live)
    \<and> used_bits b' = (\<Union>r \<in> set live. range_set r)"
proof -
  have "get_bit \<lparr>bit_cnt = 40, bits = [0, 0]\<rparr> j = False" if "j < 40" for j
  proof -
    have "j div 32 = 0 \<or> j div 32 = 1" using that by linarith
    then show ?thesis by (auto simp: get_bit_def)
  qed
  then have "used_bits \<lparr>bit_cnt = 40, bits = [0, 0]\<rparr> = {}" by (auto simp: used_bits_def)
  moreover have "bitmap_wf \<lparr>bit_cnt = 40, bits = [0, 0]\<rparr>"
    by (simp add: bitmap_wf_def elem_cnt_def size_add_def)
  ultimately show ?thesis
    using bitmap_pool_disjoint [of "\<lparr>bit_cnt = 40, bits = [0, 0]\<rparr>" "[Alloc 3, Alloc 33, Free 1, Alloc 2]"]
    by blast
qed

end
