(* ===== verification/Kernel_State.thy ===== *)
theory Kernel_State
  imports Fixed_Point
begin

text \<open>
  The state the scheduler, the synchronisation primitives, the timer and the interrupt
  code share: threads (\<open>threads/thread.h\<close>), semaphores and locks (\<open>threads/synch.h\<close>),
  the file-scope variables of \<open>threads/thread.c\<close>, \<open>devices/timer.c\<close> and
  \<open>threads/interrupt.c\<close>.  Kernel lists are HOL lists of the objects they link (the
  list theories show that \<open>lib/kernel/list.c\<close> implements them).

  A kernel function that may switch threads is cut at the switch: what is left of it is a
  \<open>frame\<close> on the stack of continuations of the thread, which runs when the thread is
  scheduled again.
\<close>

datatype thread_status = THREAD_RUNNING | THREAD_READY | THREAD_BLOCKED | THREAD_DYING

abbreviation (input) PRI_MIN :: int where "PRI_MIN \<equiv> 0"
abbreviation (input) PRI_DEFAULT :: int where "PRI_DEFAULT \<equiv> 31"
abbreviation (input) PRI_MAX :: int where "PRI_MAX \<equiv> 63"
abbreviation (input) TIME_SLICE :: nat where "TIME_SLICE \<equiv> 4"
abbreviation (input) TIMER_FREQ :: int where "TIMER_FREQ \<equiv> 100"
abbreviation (input) PGSIZE :: nat where "PGSIZE \<equiv> 4096"
abbreviation (input) THREAD_MAGIC :: u32 where "THREAD_MAGIC \<equiv> 0xcd6abf4b"
abbreviation (input) TID_ERROR :: int where "TID_ERROR \<equiv> - 1"

record thread =
  t_tid :: int
  t_status :: thread_status
  t_name :: string
  t_stack :: nat
  t_priority :: int
  t_locks_held :: "ptr list"
  t_lock_waiting_on :: ptr
  t_nice :: int
  t_recent_cpu :: fp_float
  t_cpu_has_changed :: bool
  t_is_running_user_program :: bool
  t_pagedir :: ptr
  t_open_files :: "ptr list"
  t_fd_counter :: int
  t_child_did_load :: bool
  t_parent_thread :: ptr
  t_child_threads :: "ptr list"
  t_vital_info :: ptr
  t_magic :: u32

definition zero_thread :: thread where
  "zero_thread = \<lparr>t_tid = 0, t_status = THREAD_RUNNING, t_name = [], t_stack = 0, t_priority = 0,
     t_locks_held = [], t_lock_waiting_on = NULL, t_nice = 0, t_recent_cpu = 0,
     t_cpu_has_changed = False, t_is_running_user_program = False, t_pagedir = NULL,
     t_open_files = [], t_fd_counter = 0, t_child_did_load = False, t_parent_thread = NULL,
     t_child_threads = [], t_vital_info = NULL, t_magic = 0\<rparr>"

record vital_info =
  v_t :: ptr
  v_exit_status :: int
  v_waited_on :: bool
  v_tid :: int
  v_parent_is_finished :: bool
  v_child_is_finished :: bool

record semaphore =
  s_value :: nat
  s_waiters :: "ptr list"

record lock =
  l_holder :: ptr
  l_priority :: int

text \<open>Addresses of the objects embedded in a \<open>struct thread\<close>, a \<open>struct lock\<close>, a
  \<open>struct vital_info\<close>, a \<open>struct semaphore_elem\<close>, a \<open>struct rw_lock\<close> and a \<open>struct sleeping_thread\<close>.\<close>

definition original_priority_info :: "ptr \<Rightarrow> ptr" where
  "original_priority_info t = t + 56"

definition lock_sema :: "ptr \<Rightarrow> ptr" where
  "lock_sema l = l + 4"

definition elem_sema :: "ptr \<Rightarrow> ptr" where
  "elem_sema w = w + 8"

definition sema_child_load :: "ptr \<Rightarrow> ptr" where
  "sema_child_load t = t + 148"

definition wait_on_me :: "ptr \<Rightarrow> ptr" where
  "wait_on_me t = t + 192"

definition pagedir_lock :: "ptr \<Rightarrow> ptr" where
  "pagedir_lock t = t + 216"

definition spte_table_lock :: "ptr \<Rightarrow> ptr" where
  "spte_table_lock t = t + 252"

definition vital_info_lock :: "ptr \<Rightarrow> ptr" where
  "vital_info_lock v = v + 20"

definition no_waiting :: "ptr \<Rightarrow> ptr" where
  "no_waiting rw = rw"

definition no_accessing :: "ptr \<Rightarrow> ptr" where
  "no_accessing rw = rw + 20"

definition readers_lock :: "ptr \<Rightarrow> ptr" where
  "readers_lock rw = rw + 40"

text \<open>The callers of \<open>allocate_tid\<close>: \<open>thread_init\<close> and \<open>thread_create\<close>, the latter with the new
  thread, its function and argument, and the block for its \<open>struct vital_info\<close>.\<close>

datatype tid_caller = FromInit | FromCreate ptr ptr ptr ptr

text \<open>What is left of a kernel function at a switch.  \<open>SetLevel\<close> is a closing
  \<open>intr_set_level (old_level)\<close>, \<open>IretLevel\<close> the return from an interrupt.\<close>

datatype frame =
    SetLevel bool
  | IretLevel bool
  | SemaDownLoop ptr bool
  | CallSemaDown ptr
  | CallSemaUp ptr
  | CallLockAcquire ptr
  | LockAcquired ptr bool
  | CondBroadcastLoop ptr ptr
  | ReaderAcquire2 ptr
  | ReaderAcquire3 ptr int
  | ReaderRelease2 ptr
  | ReaderRelease3 ptr int
  | AllocateTid2 tid_caller
  | GotTid tid_caller int
  | ThreadStart2 ptr
  | KernelThread ptr ptr
  | IdleLoop
  | IdleHlt
  | ReturnValue int
  | TimerSleep2 int int ptr

record kernel =
  k_threads :: "ptr \<Rightarrow> thread"
  k_semas :: "ptr \<Rightarrow> semaphore"
  k_locks :: "ptr \<Rightarrow> lock"
  k_conds :: "ptr \<Rightarrow> ptr list"
  k_readers :: "ptr \<Rightarrow> int"
  k_vitals :: "ptr \<Rightarrow> vital_info"
  k_cont :: "ptr \<Rightarrow> frame list"
  intr_on :: bool
  in_external_intr :: bool
  yield_on_return :: bool
  unexpected_cnt :: "nat \<Rightarrow> nat"
  io_log :: "(nat \<times> nat) list"
  ready_list :: "ptr list"
  all_list :: "ptr list"
  cpu_changed_list :: "ptr list"
  idle_thread :: ptr
  initial_thread :: ptr
  k_running :: ptr
  load_average :: fp_float
  should_update_thread_priorities :: bool
  idle_ticks :: int
  kernel_ticks :: int
  user_ticks :: int
  thread_ticks :: nat
  thread_mlfqs :: bool
  tid_lock :: ptr
  file_system_lock :: ptr
  next_tid :: int
  ticks :: int
  sleeping_threads :: "ptr list"
  k_wake_time :: "ptr \<Rightarrow> int"
  k_cr3 :: ptr
  k_esp0 :: nat
  k_freed :: "ptr list"
  k_retval :: "ptr \<Rightarrow> int"

text \<open>Zeroed static data.\<close>

definition zero_kernel :: kernel where
  "zero_kernel = \<lparr>k_threads = (\<lambda>_. zero_thread), k_semas = (\<lambda>_. \<lparr>s_value = 0, s_waiters = []\<rparr>),
     k_locks = (\<lambda>_. \<lparr>l_holder = NULL, l_priority = 0\<rparr>), k_conds = (\<lambda>_. []), k_readers = (\<lambda>_. 0),
     k_vitals = (\<lambda>_. \<lparr>v_t = NULL, v_exit_status = 0, v_waited_on = False, v_tid = 0,
       v_parent_is_finished = False, v_child_is_finished = False\<rparr>),
     k_cont = (\<lambda>_. []), intr_on = False, in_external_intr = False, yield_on_return = False,
     unexpected_cnt = (\<lambda>_. 0), io_log = [], ready_list = [], all_list = [], cpu_changed_list = [],
     idle_thread = NULL, initial_thread = NULL, k_running = NULL, load_average = 0,
     should_update_thread_priorities = False, idle_ticks = 0, kernel_ticks = 0, user_ticks = 0,
     thread_ticks = 0, thread_mlfqs = False, tid_lock = 16, file_system_lock = 64, next_tid = 1,
     ticks = 0, sleeping_threads = [], k_wake_time = (\<lambda>_. 0), k_cr3 = NULL, k_esp0 = 0,
     k_freed = [], k_retval = (\<lambda>_. 0)\<rparr>"

definition upd_thread :: "kernel \<Rightarrow> ptr \<Rightarrow> (thread \<Rightarrow> thread) \<Rightarrow> kernel" where
  "upd_thread k t f = k\<lparr>k_threads := (k_threads k)(t := f (k_threads k t))\<rparr>"

definition upd_sema :: "kernel \<Rightarrow> ptr \<Rightarrow> (semaphore \<Rightarrow> semaphore) \<Rightarrow> kernel" where
  "upd_sema k s f = k\<lparr>k_semas := (k_semas k)(s := f (k_semas k s))\<rparr>"

definition upd_lock :: "kernel \<Rightarrow> ptr \<Rightarrow> (lock \<Rightarrow> lock) \<Rightarrow> kernel" where
  "upd_lock k l f = k\<lparr>k_locks := (k_locks k)(l := f (k_locks k l))\<rparr>"

definition push_cont :: "kernel \<Rightarrow> frame \<Rightarrow> kernel" where
  "push_cont k f = k\<lparr>k_cont := (k_cont k)(k_running k := f # k_cont k (k_running k))\<rparr>"

section \<open>Interrupt level (\<open>threads/interrupt.c\<close>)\<close>

definition intr_get_level :: "kernel \<Rightarrow> bool" where
  "intr_get_level k = intr_on k"

definition intr_context :: "kernel \<Rightarrow> bool" where
  "intr_context k = in_external_intr k"

definition intr_enable :: "kernel \<Rightarrow> (bool \<times> kernel) option" where
  "intr_enable k = do {
     let old_level = intr_get_level k;
     ASSERT (\<not> intr_context k);
     Some (old_level, k\<lparr>intr_on := True\<rparr>) }"

definition intr_disable :: "kernel \<Rightarrow> bool \<times> kernel" where
  "intr_disable k = (let old_level = intr_get_level k in (old_level, k\<lparr>intr_on := False\<rparr>))"

definition intr_set_level :: "kernel \<Rightarrow> bool \<Rightarrow> (bool \<times> kernel) option" where
  "intr_set_level k level = (if level then intr_enable k else Some (intr_disable k))"

definition intr_yield_on_return :: "kernel \<Rightarrow> kernel option" where
  "intr_yield_on_return k = do {
     ASSERT (intr_context k);
     Some (k\<lparr>yield_on_return := True\<rparr>) }"

end
