(* ===== verification/Scheduler.thy ===== *)
theory Scheduler
  imports Kernel_State
begin

text \<open>
  The scheduler of \<open>threads/thread.c\<close>: the choice of the next thread, the switch, blocking,
  unblocking and yielding, and the multi-level feedback queue accounting.
\<close>

section \<open>The running thread\<close>

definition is_thread :: "kernel \<Rightarrow> ptr \<Rightarrow> bool" where
  "is_thread k t \<longleftrightarrow> t \<noteq> NULL \<and> t_magic (k_threads k t) = THREAD_MAGIC"

definition running_thread :: "kernel \<Rightarrow> ptr" where
  "running_thread k = k_running k"

definition thread_current :: "kernel \<Rightarrow> ptr option" where
  "thread_current k = do {
     let t = running_thread k;
     ASSERT (is_thread k t);
     ASSERT (t_status (k_threads k t) = THREAD_RUNNING);
     Some t }"

section \<open>Feedback-queue accounting\<close>

definition update_thread_priority :: "kernel \<Rightarrow> ptr \<Rightarrow> kernel option" where
  "update_thread_priority k t = do {
     q \<leftarrow> fp_div_int (t_recent_cpu (k_threads k t)) 4;
     let new_priority = PRI_MAX - sint (fp_to_int q) - t_nice (k_threads k t) * 2;
     let new_priority = (if new_priority > PRI_MAX then PRI_MAX else new_priority);
     let new_priority = (if new_priority < PRI_MIN then PRI_MIN else new_priority);
     Some (upd_thread k t (\<lambda>th. th\<lparr>t_priority := new_priority\<rparr>)) }"

definition update_load_average :: "kernel \<Rightarrow> kernel option" where
  "update_load_average k = do {
     let num_ready_threads = (word_of_nat (length (ready_list k)) :: 32 word);
     cur \<leftarrow> thread_current k;
     let num_ready_threads = (if cur \<noteq> idle_thread k then num_ready_threads + 1 else num_ready_threads);
     a \<leftarrow> fp_div (int_to_fp 59) (int_to_fp 60);
     b \<leftarrow> fp_div (int_to_fp 1) (int_to_fp 60);
     Some (k\<lparr>load_average := fp_add (fp_mul (load_average k) a) (fp_mul_int b num_ready_threads)\<rparr>) }"

definition update_recent_cpu :: "kernel \<Rightarrow> ptr \<Rightarrow> fp_float \<Rightarrow> kernel" where
  "update_recent_cpu k t cpu_scale = upd_thread k t (\<lambda>th. th\<lparr>t_recent_cpu :=
     fp_add_int (fp_mul cpu_scale (t_recent_cpu th)) (word_of_int (t_nice th))\<rparr>)"

definition mark_cpu_changed :: "kernel \<Rightarrow> ptr \<Rightarrow> kernel" where
  "mark_cpu_changed k t =
     (if t_cpu_has_changed (k_threads k t) = False
      then (upd_thread k t (\<lambda>th. th\<lparr>t_cpu_has_changed := True\<rparr>))
             \<lparr>cpu_changed_list := cpu_changed_list k @ [t]\<rparr>
      else k)"

definition update_running_thread_cpu :: "kernel \<Rightarrow> ptr \<Rightarrow> kernel" where
  "update_running_thread_cpu k t =
     mark_cpu_changed (upd_thread k t (\<lambda>th. th\<lparr>t_recent_cpu := fp_add_int (t_recent_cpu th) 1\<rparr>)) t"

fun update_cpu_loop :: "kernel \<Rightarrow> fp_float \<Rightarrow> ptr list \<Rightarrow> kernel" where
  "update_cpu_loop k cpu_scale [] = k"
| "update_cpu_loop k cpu_scale (t # ts) =
     update_cpu_loop (mark_cpu_changed (update_recent_cpu k t cpu_scale) t) cpu_scale ts"

definition update_cpu_for_all_threads :: "kernel \<Rightarrow> kernel option" where
  "update_cpu_for_all_threads k = do {
     let numerator = fp_mul_int (load_average k) 2;
     cpu_scale \<leftarrow> fp_div numerator (fp_add_int numerator 1);
     Some (update_cpu_loop k cpu_scale (all_list k)) }"

text \<open>The loop removes each element it visits from the list and goes on from its old successor.\<close>

fun update_changed_loop :: "kernel \<Rightarrow> ptr list \<Rightarrow> kernel option" where
  "update_changed_loop k [] = Some k"
| "update_changed_loop k (t # ts) = do {
     k1 \<leftarrow> update_thread_priority k t;
     let k2 = k1\<lparr>cpu_changed_list := remove1 t (cpu_changed_list k1)\<rparr>;
     update_changed_loop (upd_thread k2 t (\<lambda>th. th\<lparr>t_cpu_has_changed := False\<rparr>)) ts }"

definition update_changed_cpu_threads :: "kernel \<Rightarrow> kernel option" where
  "update_changed_cpu_threads k = update_changed_loop k (cpu_changed_list k)"

section \<open>Choosing and switching\<close>

fun highest_loop :: "(ptr \<Rightarrow> thread) \<Rightarrow> ptr list \<Rightarrow> ptr \<Rightarrow> ptr" where
  "highest_loop th [] currHighest = currHighest"
| "highest_loop th (currThread # ts) currHighest =
     (let h1 = (if currHighest = NULL then currThread else currHighest);
          h2 = (if t_priority (th currThread) > t_priority (th h1) then currThread else h1)
      in if t_priority (th h2) = PRI_MAX then h2 else highest_loop th ts h2)"

definition get_highest_priority_thread
  :: "kernel \<Rightarrow> ptr list \<Rightarrow> bool \<Rightarrow> (ptr \<times> ptr list \<times> kernel) option" where
  "get_highest_priority_thread k lst should_remove = do {
     let (old_level, k1) = intr_disable k;
     let h = highest_loop (k_threads k1) lst NULL;
     let lst' = (if h \<noteq> NULL \<and> should_remove then remove1 h lst else lst);
     (_, k2) \<leftarrow> intr_set_level k1 old_level;
     Some (h, lst', k2) }"

definition next_thread_to_run :: "kernel \<Rightarrow> (ptr \<times> kernel) option" where
  "next_thread_to_run k =
     (if ready_list k = [] then Some (idle_thread k, k)
      else do {
        (next_thread, rl, k1) \<leftarrow> get_highest_priority_thread k (ready_list k) True;
        ASSERT (next_thread \<noteq> NULL);
        Some (next_thread, k1\<lparr>ready_list := rl\<rparr>) })"

text \<open>\<open>process_activate\<close> (\<open>userprog/process.c\<close>) loads the page directory and the kernel stack
  pointer of the task state segment.\<close>

definition process_activate :: "kernel \<Rightarrow> kernel option" where
  "process_activate k = do {
     t \<leftarrow> thread_current k;
     Some (k\<lparr>k_cr3 := t_pagedir (k_threads k t), k_esp0 := t + PGSIZE\<rparr>) }"

definition thread_schedule_tail :: "kernel \<Rightarrow> ptr \<Rightarrow> kernel option" where
  "thread_schedule_tail k prev = do {
     let cur = running_thread k;
     ASSERT (\<not> intr_get_level k);
     let k1 = (upd_thread k cur (\<lambda>th. th\<lparr>t_status := THREAD_RUNNING\<rparr>))\<lparr>thread_ticks := 0\<rparr>;
     k2 \<leftarrow> (if t_pagedir (k_threads k1 cur) \<noteq> NULL then process_activate k1 else Some k1);
     if prev \<noteq> NULL \<and> t_status (k_threads k2 prev) = THREAD_DYING \<and> prev \<noteq> initial_thread k2
     then do {
       ASSERT (prev \<noteq> cur);
       Some (k2\<lparr>k_freed := prev # k_freed k2\<rparr>) }
     else Some k2 }"

definition schedule :: "kernel \<Rightarrow> kernel option" where
  "schedule k = do {
     k1 \<leftarrow> (if thread_mlfqs k \<and> should_update_thread_priorities k
            then update_changed_cpu_threads (k\<lparr>should_update_thread_priorities := False\<rparr>)
            else Some k);
     let cur = running_thread k1;
     (nxt, k2) \<leftarrow> next_thread_to_run k1;
     ASSERT (\<not> intr_get_level k2);
     ASSERT (t_status (k_threads k2 cur) \<noteq> THREAD_RUNNING);
     ASSERT (is_thread k2 nxt);
     let prev = (if cur \<noteq> nxt then cur else NULL);
     thread_schedule_tail (k2\<lparr>k_running := nxt\<rparr>) prev }"

section \<open>Blocking, yielding, unblocking\<close>

definition thread_block :: "kernel \<Rightarrow> kernel option" where
  "thread_block k = do {
     ASSERT (\<not> intr_context k);
     ASSERT (\<not> intr_get_level k);
     cur \<leftarrow> thread_current k;
     schedule (upd_thread k cur (\<lambda>th. th\<lparr>t_status := THREAD_BLOCKED\<rparr>)) }"

text \<open>The last statement of \<open>thread_yield\<close> runs when the thread is scheduled again.\<close>

definition thread_yield :: "kernel \<Rightarrow> kernel option" where
  "thread_yield k = do {
     ASSERT (\<not> intr_context k);
     let (old_level, k1) = intr_disable k;
     cur \<leftarrow> thread_current k1;
     let k2 = (if cur \<noteq> idle_thread k1 then k1\<lparr>ready_list := ready_list k1 @ [cur]\<rparr> else k1);
     let k3 = upd_thread k2 cur (\<lambda>th. th\<lparr>t_status := THREAD_READY\<rparr>);
     schedule (push_cont k3 (SetLevel old_level)) }"

definition thread_unblock :: "kernel \<Rightarrow> ptr \<Rightarrow> kernel option" where
  "thread_unblock k t = do {
     ASSERT (is_thread k t);
     let (old_level, k1) = intr_disable k;
     ASSERT (t_status (k_threads k1 t) = THREAD_BLOCKED);
     let k2 = upd_thread (k1\<lparr>ready_list := ready_list k1 @ [t]\<rparr>) t (\<lambda>th. th\<lparr>t_status := THREAD_READY\<rparr>);
     preempt \<leftarrow> (if old_level then do {
                   cur \<leftarrow> thread_current k2;
                   Some (t_priority (k_threads k2 t) > t_priority (k_threads k2 cur)) }
                 else Some False);
     if preempt then thread_yield (push_cont k2 (SetLevel old_level))
     else map_option snd (intr_set_level k2 old_level) }"

definition thread_foreach :: "kernel \<Rightarrow> (kernel \<Rightarrow> ptr \<Rightarrow> kernel option) \<Rightarrow> kernel option" where
  "thread_foreach k func = do {
     ASSERT (\<not> intr_get_level k);
     fold (\<lambda>t r. Option.bind r (\<lambda>k'. func k' t)) (all_list k) (Some k) }"

section \<open>The choice is a first thread of highest priority\<close>

definition first_highest :: "(ptr \<Rightarrow> thread) \<Rightarrow> ptr list \<Rightarrow> ptr \<Rightarrow> bool" where
  "first_highest th ts h \<longleftrightarrow> (\<exists>us vs. ts = us @ h # vs
     \<and> (\<forall>t \<in> set us. t_priority (th t) < t_priority (th h))
     \<and> (\<forall>t \<in> set vs. t_priority (th t) \<le> t_priority (th h)))"

lemma first_highest_mem: "first_highest th ts h \<Longrightarrow> h \<in> set ts"
  by (auto simp: first_highest_def)

lemma first_highest_max: "first_highest th ts h \<Longrightarrow> t \<in> set ts \<Longrightarrow> t_priority (th t) \<le> t_priority (th h)"
  unfolding first_highest_def by (metis Un_iff order.strict_implies_order order_refl set_ConsD set_append)

lemma highest_loop_first:
  assumes "\<forall>t \<in> set (us @ h # vs @ ts). t_priority (th t) \<le> PRI_MAX \<and> t \<noteq> NULL"
    and "\<forall>t \<in> set us. t_priority (th t) < t_priority (th h)"
    and "\<forall>t \<in> set vs. t_priority (th t) \<le> t_priority (th h)"
  shows "first_highest th (us @ h # vs @ ts) (highest_loop th ts h)"
  using assms
proof (induction ts arbitrary: us h vs)
  case Nil
  then show ?case by (auto simp: first_highest_def)
next
  case (Cons a ts)
  show ?case
  proof (cases "t_priority (th a) > t_priority (th h)")
    case True
    have lt: "\<forall>t \<in> set (us @ h # vs). t_priority (th t) < t_priority (th a)"
      using True Cons.prems(2,3) by (simp add: ball_Un) (meson less_trans le_less_trans)
    show ?thesis
    proof (cases "t_priority (th a) = PRI_MAX")
      case m: True
      have "first_highest th ((us @ h # vs) @ a # ts) a"
        unfolding first_highest_def
        by (intro exI [of _ "us @ h # vs"] exI [of _ ts]) (use lt m Cons.prems(1) in simp)
      then show ?thesis using True m Cons.prems(1) by simp
    next
      case False
      have "first_highest th ((us @ h # vs) @ a # [] @ ts) (highest_loop th ts a)"
        by (rule Cons.IH) (use Cons.prems(1) lt in simp_all)
      then show ?thesis using True False Cons.prems(1) by simp
    qed
  next
    case le: False
    show ?thesis
    proof (cases "t_priority (th h) = PRI_MAX")
      case m: True
      have "first_highest th (us @ h # vs @ a # ts) h"
        unfolding first_highest_def
        by (intro exI [of _ us] exI [of _ "vs @ a # ts"]) (use Cons.prems m in simp)
      then show ?thesis using le m Cons.prems(1) by simp
    next
      case False
      have "first_highest th (us @ h # (vs @ [a]) @ ts) (highest_loop th ts h)"
        by (rule Cons.IH) (use Cons.prems le in \<open>simp_all add: ball_Un\<close>)
      then show ?thesis using le False Cons.prems(1) by simp
    qed
  qed
qed

lemma highest_loop_correct:
  assumes "ts \<noteq> []" "\<forall>t \<in> set ts. t_priority (th t) \<le> PRI_MAX \<and> t \<noteq> NULL"
  shows "first_highest th ts (highest_loop th ts NULL)"
proof -
  obtain a ts' where ts: "ts = a # ts'" using assms(1) by (cases ts) auto
  have "highest_loop th ts NULL = (if t_priority (th a) = PRI_MAX then a else highest_loop th ts' a)"
    by (simp add: ts Let_def)
  moreover have "first_highest th ([] @ a # [] @ ts') (highest_loop th ts' a)"
    by (rule highest_loop_first) (use assms ts in auto)
  moreover have "first_highest th ts a" if "t_priority (th a) = PRI_MAX"
    unfolding first_highest_def using assms ts that by (intro exI [of _ "[]"] exI [of _ ts']) auto
  ultimately show ?thesis by (simp add: ts)
qed

section \<open>The effect of a switch\<close>

lemma upd_thread_simps [simp]:
  "k_threads (upd_thread k t f) = (k_threads k)(t := f (k_threads k t))"
  "k_semas (upd_thread k t f) = k_semas k" "k_locks (upd_thread k t f) = k_locks k"
  "k_conds (upd_thread k t f) = k_conds k" "k_cont (upd_thread k t f) = k_cont k"
  "intr_on (upd_thread k t f) = intr_on k" "in_external_intr (upd_thread k t f) = in_external_intr k"
  "ready_list (upd_thread k t f) = ready_list k" "all_list (upd_thread k t f) = all_list k"
  "cpu_changed_list (upd_thread k t f) = cpu_changed_list k"
  "idle_thread (upd_thread k t f) = idle_thread k" "initial_thread (upd_thread k t f) = initial_thread k"
  "k_running (upd_thread k t f) = k_running k" "thread_mlfqs (upd_thread k t f) = thread_mlfqs k"
  "ticks (upd_thread k t f) = ticks k" "sleeping_threads (upd_thread k t f) = sleeping_threads k"
  "load_average (upd_thread k t f) = load_average k" "k_readers (upd_thread k t f) = k_readers k"
  "k_wake_time (upd_thread k t f) = k_wake_time k" "tid_lock (upd_thread k t f) = tid_lock k"
  by (simp_all add: upd_thread_def)

lemma push_cont_simps [simp]:
  "k_threads (push_cont k f) = k_threads k"
  "k_semas (push_cont k f) = k_semas k" "k_locks (push_cont k f) = k_locks k"
  "k_conds (push_cont k f) = k_conds k"
  "k_cont (push_cont k f) = (k_cont k)(k_running k := f # k_cont k (k_running k))"
  "intr_on (push_cont k f) = intr_on k" "in_external_intr (push_cont k f) = in_external_intr k"
  "ready_list (push_cont k f) = ready_list k" "all_list (push_cont k f) = all_list k"
  "cpu_changed_list (push_cont k f) = cpu_changed_list k"
  "idle_thread (push_cont k f) = idle_thread k" "initial_thread (push_cont k f) = initial_thread k"
  "k_running (push_cont k f) = k_running k" "thread_mlfqs (push_cont k f) = thread_mlfqs k"
  "ticks (push_cont k f) = ticks k" "sleeping_threads (push_cont k f) = sleeping_threads k"
  "load_average (push_cont k f) = load_average k" "k_readers (push_cont k f) = k_readers k"
  "k_wake_time (push_cont k f) = k_wake_time k" "tid_lock (push_cont k f) = tid_lock k"
  by (simp_all add: push_cont_def)

definition mlfqs_priority :: "thread \<Rightarrow> int" where
  "mlfqs_priority th = max PRI_MIN (min PRI_MAX
     (PRI_MAX - sint (fp_to_int (word_of_int (sint (t_recent_cpu th) sdiv 4))) - t_nice th * 2))"

lemma mlfqs_priority_bounds: "PRI_MIN \<le> mlfqs_priority th" "mlfqs_priority th \<le> PRI_MAX"
  by (simp_all add: mlfqs_priority_def)

lemma update_thread_priority_eq:
  "update_thread_priority k t
     = Some (upd_thread k t (\<lambda>th. th\<lparr>t_priority := mlfqs_priority (k_threads k t)\<rparr>))"
  by (simp add: update_thread_priority_def fp_div_int_def mlfqs_priority_def Let_def min_def max_def)

definition refresh_thread :: "thread \<Rightarrow> thread" where
  "refresh_thread th = th\<lparr>t_priority := mlfqs_priority th, t_cpu_has_changed := False\<rparr>"

lemma update_changed_loop_eq:
  assumes "distinct ts"
  shows "update_changed_loop k ts = Some (k\<lparr>
    cpu_changed_list := fold remove1 ts (cpu_changed_list k),
    k_threads := (\<lambda>t. if t \<in> set ts then refresh_thread (k_threads k t) else k_threads k t)\<rparr>)"
  using assms
proof (induction ts arbitrary: k)
  case (Cons t ts)
  have "(\<lambda>x. if x \<in> set ts then refresh_thread (((k_threads k)(t := refresh_thread (k_threads k t))) x)
      else ((k_threads k)(t := refresh_thread (k_threads k t))) x)
    = (\<lambda>x. if x \<in> set (t # ts) then refresh_thread (k_threads k x) else k_threads k x)"
    using Cons.prems by (auto simp: fun_eq_iff)
  moreover have "update_changed_loop k (t # ts) = update_changed_loop
      (k\<lparr>cpu_changed_list := remove1 t (cpu_changed_list k),
         k_threads := (k_threads k)(t := refresh_thread (k_threads k t))\<rparr>) ts"
    by (simp add: update_thread_priority_eq upd_thread_def refresh_thread_def Let_def)
  ultimately show ?case
    using Cons by (simp cong del: if_weak_cong)
qed simp

lemma fold_remove1_self: "fold remove1 xs (xs @ ys) = ys"
  by (induction xs) simp_all

definition refreshed :: "kernel \<Rightarrow> kernel" where
  "refreshed k = (if thread_mlfqs k \<and> should_update_thread_priorities k
     then k\<lparr>should_update_thread_priorities := False,
       cpu_changed_list := [],
       k_threads := (\<lambda>t. if t \<in> set (cpu_changed_list k) then refresh_thread (k_threads k t) else k_threads k t)\<rparr>
     else k)"

lemma schedule_refresh:
  assumes "distinct (cpu_changed_list k)"
  shows "(if thread_mlfqs k \<and> should_update_thread_priorities k
      then update_changed_cpu_threads (k\<lparr>should_update_thread_priorities := False\<rparr>) else Some k)
    = Some (refreshed k)"
  using assms fold_remove1_self [of "cpu_changed_list k" "[]"]
  by (simp add: update_changed_cpu_threads_def update_changed_loop_eq refreshed_def cong del: if_weak_cong)

lemma refreshed_simps [simp]:
  "t_status (k_threads (refreshed k) t) = t_status (k_threads k t)"
  "t_magic (k_threads (refreshed k) t) = t_magic (k_threads k t)"
  "t_locks_held (k_threads (refreshed k) t) = t_locks_held (k_threads k t)"
  "t_pagedir (k_threads (refreshed k) t) = t_pagedir (k_threads k t)"
  "k_semas (refreshed k) = k_semas k" "k_locks (refreshed k) = k_locks k"
  "k_cont (refreshed k) = k_cont k" "k_conds (refreshed k) = k_conds k"
  "intr_on (refreshed k) = intr_on k" "in_external_intr (refreshed k) = in_external_intr k"
  "ready_list (refreshed k) = ready_list k" "all_list (refreshed k) = all_list k"
  "idle_thread (refreshed k) = idle_thread k" "initial_thread (refreshed k) = initial_thread k"
  "k_running (refreshed k) = k_running k" "thread_mlfqs (refreshed k) = thread_mlfqs k"
  "ticks (refreshed k) = ticks k" "sleeping_threads (refreshed k) = sleeping_threads k"
  "load_average (refreshed k) = load_average k" "k_readers (refreshed k) = k_readers k"
  "k_wake_time (refreshed k) = k_wake_time k" "tid_lock (refreshed k) = tid_lock k"
  by (simp_all add: refreshed_def refresh_thread_def)

definition chosen :: "kernel \<Rightarrow> ptr" where
  "chosen k = (if ready_list k = [] then idle_thread k else highest_loop (k_threads k) (ready_list k) NULL)"

lemma next_thread_to_run_eq:
  assumes "\<not> intr_on k" "next_thread_to_run k = Some (nxt, k')"
  shows "nxt = chosen k \<and> k' = k\<lparr>ready_list := remove1 nxt (ready_list k)\<rparr>"
  using assms
  by (auto simp: next_thread_to_run_def chosen_def get_highest_priority_thread_def intr_disable_def
      intr_set_level_def intr_get_level_def Let_def split: if_splits Option.bind_splits)

definition switched :: "kernel \<Rightarrow> ptr \<Rightarrow> kernel \<Rightarrow> bool" where
  "switched k nxt k' \<longleftrightarrow> (\<exists>cr3 esp0 freed.
     k' = k\<lparr>ready_list := remove1 nxt (ready_list k), k_running := nxt,
       k_threads := (k_threads k)(nxt := (k_threads k nxt)\<lparr>t_status := THREAD_RUNNING\<rparr>), thread_ticks := 0,
       k_cr3 := cr3, k_esp0 := esp0, k_freed := freed\<rparr>)"

lemma thread_schedule_tail_eq:
  assumes "thread_schedule_tail k prev = Some k'"
  shows "\<exists>cr3 esp0 freed. k' = k\<lparr>
    k_threads := (k_threads k)(k_running k := (k_threads k (k_running k))\<lparr>t_status := THREAD_RUNNING\<rparr>),
    thread_ticks := 0, k_cr3 := cr3, k_esp0 := esp0, k_freed := freed\<rparr>"
proof -
  let ?k1 = "k\<lparr>k_threads := (k_threads k)(k_running k := (k_threads k (k_running k))\<lparr>t_status := THREAD_RUNNING\<rparr>),
    thread_ticks := 0\<rparr>"
  have "k' = ?k1\<lparr>k_cr3 := cr3, k_esp0 := esp0, k_freed := freed\<rparr>"
    if "cr3 = k_cr3 k'" "esp0 = k_esp0 k'" "freed = k_freed k'" for cr3 esp0 freed
    unfolding that using assms
    by (auto simp: thread_schedule_tail_def running_thread_def process_activate_def thread_current_def
        upd_thread_def Let_def split: if_splits)
  then show ?thesis by blast
qed

lemma schedule_switched:
  assumes "schedule k = Some k'" "distinct (cpu_changed_list k)"
  shows "\<not> intr_on k" "t_status (k_threads k (k_running k)) \<noteq> THREAD_RUNNING"
    "is_thread k (chosen (refreshed k))" "switched (refreshed k) (chosen (refreshed k)) k'"
proof -
  obtain nxt k2 where nxt: "next_thread_to_run (refreshed k) = Some (nxt, k2)" "\<not> intr_on k2"
    "t_status (k_threads k2 (k_running k)) \<noteq> THREAD_RUNNING" "is_thread k2 nxt"
    "thread_schedule_tail (k2\<lparr>k_running := nxt\<rparr>) (if k_running k \<noteq> nxt then k_running k else NULL) = Some k'"
    using assms(1) unfolding schedule_def schedule_refresh [OF assms(2)]
    by (auto simp: running_thread_def intr_get_level_def Let_def split: Option.bind_splits if_splits)
  have off: "\<not> intr_on k"
    using nxt(1,2) by (auto simp: next_thread_to_run_def get_highest_priority_thread_def intr_disable_def
        intr_set_level_def intr_get_level_def intr_enable_def Let_def split: if_splits Option.bind_splits)
  then have k2: "nxt = chosen (refreshed k)" "k2 = (refreshed k)\<lparr>ready_list := remove1 nxt (ready_list k)\<rparr>"
    using next_thread_to_run_eq [OF _ nxt(1)] by simp_all
  show "\<not> intr_on k" "t_status (k_threads k (k_running k)) \<noteq> THREAD_RUNNING"
    "is_thread k (chosen (refreshed k))"
    using off nxt k2 by (simp_all add: is_thread_def)
  show "switched (refreshed k) (chosen (refreshed k)) k'"
    using thread_schedule_tail_eq [OF nxt(5)] unfolding switched_def k2(2) k2(1) [symmetric] by simp
qed

lemma switched_simps:
  assumes "switched k nxt k'"
  shows "k_threads k' = (k_threads k)(nxt := (k_threads k nxt)\<lparr>t_status := THREAD_RUNNING\<rparr>)"
    "k_semas k' = k_semas k" "k_locks k' = k_locks k" "k_conds k' = k_conds k" "k_cont k' = k_cont k"
    "intr_on k' = intr_on k" "in_external_intr k' = in_external_intr k"
    "ready_list k' = remove1 nxt (ready_list k)" "all_list k' = all_list k"
    "cpu_changed_list k' = cpu_changed_list k"
    "idle_thread k' = idle_thread k" "initial_thread k' = initial_thread k"
    "k_running k' = nxt" "thread_mlfqs k' = thread_mlfqs k"
    "ticks k' = ticks k" "sleeping_threads k' = sleeping_threads k"
    "load_average k' = load_average k" "k_readers k' = k_readers k"
    "k_wake_time k' = k_wake_time k" "tid_lock k' = tid_lock k"
  using assms by (auto simp: switched_def)

text \<open>C8. When a thread gives up the processor and some thread is ready, \<open>schedule\<close> runs the first
  thread of highest priority in the ready list and takes exactly it off the list (priorities
  being those after the pending recomputation of the feedback queue, if any).\<close>

theorem schedule_runs_first_highest:
  assumes "schedule k = Some k'" "distinct (cpu_changed_list k)" "ready_list k \<noteq> []"
    and "\<forall>t \<in> set (ready_list k). t_priority (k_threads k t) \<le> PRI_MAX \<and> t \<noteq> NULL"
  shows "first_highest (k_threads k') (ready_list k) (k_running k')
    \<and> ready_list k' = remove1 (k_running k') (ready_list k)
    \<and> t_status (k_threads k' (k_running k')) = THREAD_RUNNING"
proof -
  let ?r = "refreshed k"
  note sw = switched_simps [OF schedule_switched(4) [OF assms(1,2)]]
  have "\<forall>t \<in> set (ready_list k). t_priority (k_threads ?r t) \<le> PRI_MAX \<and> t \<noteq> NULL"
    using assms(4) mlfqs_priority_bounds(2) by (simp add: refreshed_def refresh_thread_def)
  then have "first_highest (k_threads ?r) (ready_list k) (chosen ?r)"
    using highest_loop_correct [of "ready_list k" "k_threads ?r"] assms(3) by (simp add: chosen_def)
  moreover have "t_priority (k_threads k' t) = t_priority (k_threads ?r t)" for t
    using sw(1) by simp
  ultimately show ?thesis using sw by (simp add: first_highest_def)
qed

text \<open>Four threads: the running one (4096), two ready ones and the idle thread, for examples.\<close>

definition sample_thread :: "thread_status \<Rightarrow> int \<Rightarrow> thread" where
  "sample_thread st p = zero_thread\<lparr>t_status := st, t_priority := p, t_magic := THREAD_MAGIC\<rparr>"

definition sample_kernel :: "thread_status \<Rightarrow> kernel" where
  "sample_kernel st = zero_kernel\<lparr>
     k_threads := (\<lambda>t. if t = 4096 then sample_thread st 31
       else if t = 8192 then sample_thread THREAD_READY 10
       else if t = 12288 then sample_thread THREAD_READY 20
       else sample_thread THREAD_BLOCKED 0),
     k_running := 4096, ready_list := [8192, 12288], idle_thread := 16384,
     all_list := [4096, 8192, 12288, 16384]\<rparr>"

theorem schedule_runs_first_highest_witness:
  "\<exists>k'. schedule (sample_kernel THREAD_BLOCKED) = Some k'
    \<and> first_highest (k_threads k') [8192, 12288] (k_running k')"
proof -
  have "\<exists>k'. schedule (sample_kernel THREAD_BLOCKED) = Some k'"
    by (simp add: schedule_def next_thread_to_run_def get_highest_priority_thread_def
        thread_schedule_tail_def intr_disable_def intr_set_level_def intr_get_level_def
        running_thread_def is_thread_def upd_thread_def sample_kernel_def sample_thread_def
        zero_kernel_def zero_thread_def)
  then obtain k' where "schedule (sample_kernel THREAD_BLOCKED) = Some k'" by blast
  from this schedule_runs_first_highest [OF this] show ?thesis
    by (auto simp: sample_kernel_def sample_thread_def zero_kernel_def)
qed

section \<open>The load average\<close>

lemma fp_59_60: "fp_div (int_to_fp 59) (int_to_fp 60) = Some 16110"
  by (simp add: fp_div_def int_to_fp_def signed_divide_int_def)

lemma fp_1_60: "fp_div (int_to_fp 1) (int_to_fp 60) = Some 273"
  by (simp add: fp_div_def int_to_fp_def signed_divide_int_def)

text \<open>The threads that an update of the load average counts: the ready ones, and the running one
  unless it is the idle thread.\<close>

definition runnable :: "kernel \<Rightarrow> nat" where
  "runnable k = length (ready_list k) + (if thread_current k \<noteq> Some (idle_thread k) then 1 else 0)"

lemma load_average_step:
  assumes "thread_current k = Some cur" "N \<le> 131071"
    and "length (ready_list k) + (if cur \<noteq> idle_thread k then 1 else 0) \<le> N"
    and "0 \<le> sint (load_average k)" "sint (load_average k) \<le> int N * 16384"
  shows "\<exists>k'. update_load_average k = Some k'
    \<and> sint (load_average k') = sint (load_average k) * 16110 div 16384
        + 273 * (int (length (ready_list k)) + (if cur \<noteq> idle_thread k then 1 else 0))
    \<and> 0 \<le> sint (load_average k') \<and> sint (load_average k') \<le> int N * 16384"
proof -
  let ?L = "sint (load_average k)"
  define n where "n = length (ready_list k) + (if cur \<noteq> idle_thread k then 1 else 0)"
  define k' where "k' = k\<lparr>load_average :=
    word_of_int (?L * 16110 div 16384) + 273 * word_of_nat n\<rparr>"
  have "?L * 16110 sdiv 16384 = ?L * 16110 div 16384"
    using assms(4) by (intro sdiv_nonneg) simp_all
  moreover have "sint (16110 :: 32 word) = 16110" by simp
  ultimately have up: "update_load_average k = Some k'"
    using assms(1) by (cases "cur = idle_thread k") (simp_all add: update_load_average_def fp_59_60 fp_1_60 fp_add_def
        fp_mul_def fp_mul_int_def Let_def k'_def n_def add.commute)
  have mono: "?L * 16110 div 16384 \<le> int N * 16110"
    using zdiv_mono1 [of "?L * 16110" "int N * 16384 * 16110" 16384] assms(5) by simp
  have rng: "0 \<le> ?L * 16110 div 16384 + 273 * int n" "?L * 16110 div 16384 + 273 * int n \<le> int N * 16383"
    using mono assms(3,4) by (auto simp: n_def)
  have "int N * 16383 < 2 ^ 31" using assms(2) by simp
  then have "sint (word_of_int (?L * 16110 div 16384 + 273 * int n) :: 32 word)
      = ?L * 16110 div 16384 + 273 * int n"
    using rng by (intro sint_of_int_32) linarith+
  moreover have "load_average k' = word_of_int (?L * 16110 div 16384 + 273 * int n)"
    by (simp add: k'_def)
  ultimately have "sint (load_average k') = ?L * 16110 div 16384 + 273 * int n" by (simp only:)
  moreover have "int n = int (length (ready_list k)) + (if cur \<noteq> idle_thread k then 1 else 0)"
    by (simp add: n_def)
  ultimately show ?thesis using up rng by (intro exI [of _ k']) (auto simp del: of_nat_add)
qed

text \<open>The load averages of successive updates: \<open>ks\<close> are the states in which the updates happen, but
  for the load average, which each takes from the update before.\<close>

fun load_averages :: "kernel list \<Rightarrow> fp_float \<Rightarrow> fp_float list option" where
  "load_averages [] l = Some []"
| "load_averages (k # ks) l = do {
     k' \<leftarrow> update_load_average (k\<lparr>load_average := l\<rparr>);
     ls \<leftarrow> load_averages ks (load_average k');
     Some (load_average k' # ls) }"

lemma load_averages_ok:
  assumes "N \<le> 131071" "\<forall>k \<in> set ks. thread_current k \<noteq> None \<and> runnable k \<le> N"
    and "0 \<le> sint l" "sint l \<le> int N * 16384"
  shows "\<exists>ls. load_averages ks l = Some ls \<and> length ls = length ks
    \<and> (\<forall>i < length ks. sint (ls ! i) = sint ((l # ls) ! i) * 16110 div 16384 + 273 * int (runnable (ks ! i))
        \<and> 0 \<le> sint (ls ! i) \<and> sint (ls ! i) \<le> int N * 16384)"
  using assms(2-4)
proof (induction ks arbitrary: l)
  case (Cons k ks)
  let ?k = "k\<lparr>load_average := l\<rparr>"
  obtain cur where cur: "thread_current k = Some cur" using Cons.prems(1) by auto
  then have cur': "thread_current ?k = Some cur" by (simp add: thread_current_def running_thread_def is_thread_def)
  obtain k' where k': "update_load_average ?k = Some k'" "0 \<le> sint (load_average k')" "sint (load_average k') \<le> int N * 16384"
    "sint (load_average k') = sint l * 16110 div 16384 + 273 * int (runnable k)"
    using load_average_step [OF cur' assms(1)] Cons.prems cur by (auto simp: runnable_def split: if_splits)
  obtain ls where ls: "load_averages ks (load_average k') = Some ls" "length ls = length ks"
    "\<forall>i < length ks. sint (ls ! i) = sint ((load_average k' # ls) ! i) * 16110 div 16384 + 273 * int (runnable (ks ! i))
       \<and> 0 \<le> sint (ls ! i) \<and> sint (ls ! i) \<le> int N * 16384"
    using Cons.IH [OF _ k'(2,3)] Cons.prems(1) by auto
  have "load_averages (k # ks) l = Some (load_average k' # ls)" using k'(1) ls(1) by simp
  then show ?case using k'(2-4) ls(2,3) by (auto simp: less_Suc_eq_0_disj)
qed simp

text \<open>C9. Starting from the load average 0 that \<open>thread_init\<close> sets, any number of updates succeeds.  None of
  them overflows: each result is, in fixed point, 59/60 of the average before (16110/16384) plus 1/60 (273/16384)
  for each thread that is ready or running.  If no update finds more than \<open>N\<close> such threads, all the averages lie
  between 0 and \<open>N\<close>.  (A single average may exceed the number of threads found at its own update, as it decays.)\<close>

theorem load_average_bounded:
  assumes "N \<le> 131071" "\<forall>k \<in> set ks. thread_current k \<noteq> None \<and> runnable k \<le> N"
  shows "\<exists>ls. load_averages ks 0 = Some ls \<and> length ls = length ks
    \<and> (\<forall>i < length ks. sint (ls ! i) = sint ((0 # ls) ! i) * 16110 div 16384 + 273 * int (runnable (ks ! i))
        \<and> 0 \<le> sint (ls ! i) \<and> sint (ls ! i) \<le> int N * 16384)"
  using assms by (intro load_averages_ok) simp_all

theorem load_average_bounded_witness:
  "\<exists>a b. load_averages [sample_kernel THREAD_RUNNING, (sample_kernel THREAD_RUNNING)\<lparr>ready_list := []\<rparr>] 0 = Some [a, b]
    \<and> sint a = 819 \<and> sint b = 1078"
proof -
  let ?k = "sample_kernel THREAD_RUNNING"
  have cur: "thread_current ?k = Some 4096" "thread_current (?k\<lparr>ready_list := []\<rparr>) = Some 4096"
    by (simp_all add: thread_current_def running_thread_def is_thread_def sample_kernel_def sample_thread_def zero_kernel_def)
  then have run: "runnable ?k = 3" "runnable (?k\<lparr>ready_list := []\<rparr>) = 1"
    by (simp_all add: runnable_def sample_kernel_def zero_kernel_def)
  obtain ls where "load_averages [?k, ?k\<lparr>ready_list := []\<rparr>] 0 = Some ls" "length ls = 2"
    "\<forall>i < 2. sint (ls ! i) = sint ((0 # ls) ! i) * 16110 div 16384 + 273 * int (runnable ([?k, ?k\<lparr>ready_list := []\<rparr>] ! i))"
    using load_average_bounded [of 3 "[?k, ?k\<lparr>ready_list := []\<rparr>]"] cur run by (auto simp: numeral_2_eq_2)
  then show ?thesis using run by (auto simp: numeral_2_eq_2 length_Suc_conv less_Suc_eq all_conj_distrib)
qed

end
