(* ===== verification/Synch.thy ===== *)
theory Synch
  imports Scheduler
begin

text \<open>
  The synchronisation primitives of \<open>threads/synch.c\<close>: semaphores, locks, condition
  variables and the readers-writer lock.
\<close>

section \<open>Semaphores\<close>

definition sema_init :: "kernel \<Rightarrow> ptr \<Rightarrow> nat \<Rightarrow> kernel option" where
  "sema_init k sema val = do {
     ASSERT (sema \<noteq> NULL);
     Some (upd_sema k sema (\<lambda>s. s\<lparr>s_value := val, s_waiters := []\<rparr>)) }"

text \<open>The loop of \<open>sema_down\<close>, entered with interrupts off: either the count is positive and
  is taken, or the thread joins the waiters, blocks, and is back in the loop when it runs again.\<close>

definition sema_down_loop :: "kernel \<Rightarrow> ptr \<Rightarrow> bool \<Rightarrow> kernel option" where
  "sema_down_loop k sema old_level =
     (if s_value (k_semas k sema) = 0 then do {
        cur \<leftarrow> thread_current k;
        let k1 = upd_sema k sema (\<lambda>s. s\<lparr>s_waiters := s_waiters s @ [cur]\<rparr>);
        thread_block (push_cont k1 (SemaDownLoop sema old_level)) }
      else map_option snd
        (intr_set_level (upd_sema k sema (\<lambda>s. s\<lparr>s_value := s_value s - 1\<rparr>)) old_level))"

definition sema_down :: "kernel \<Rightarrow> ptr \<Rightarrow> kernel option" where
  "sema_down k sema = do {
     ASSERT (sema \<noteq> NULL);
     ASSERT (\<not> intr_context k);
     let (old_level, k1) = intr_disable k;
     sema_down_loop k1 sema old_level }"

definition sema_try_down :: "kernel \<Rightarrow> ptr \<Rightarrow> (bool \<times> kernel) option" where
  "sema_try_down k sema = do {
     ASSERT (sema \<noteq> NULL);
     let (old_level, k1) = intr_disable k;
     let success = s_value (k_semas k1 sema) > 0;
     let k2 = (if success then upd_sema k1 sema (\<lambda>s. s\<lparr>s_value := s_value s - 1\<rparr>) else k1);
     (_, k3) \<leftarrow> intr_set_level k2 old_level;
     Some (success, k3) }"

definition sema_up :: "kernel \<Rightarrow> ptr \<Rightarrow> kernel option" where
  "sema_up k sema = do {
     ASSERT (sema \<noteq> NULL);
     let (old_level, k1) = intr_disable k;
     k2 \<leftarrow> (if s_waiters (k_semas k1 sema) \<noteq> [] then do {
              (t, ws, k') \<leftarrow> get_highest_priority_thread k1 (s_waiters (k_semas k1 sema)) True;
              ASSERT (t \<noteq> NULL);
              thread_unblock (upd_sema k' sema (\<lambda>s. s\<lparr>s_waiters := ws\<rparr>)) t }
            else Some k1);
     let k3 = upd_sema k2 sema (\<lambda>s. s\<lparr>s_value := (s_value s + 1) mod 2 ^ 32\<rparr>);
     if \<not> intr_context k3 then thread_yield (push_cont k3 (SetLevel old_level))
     else map_option snd (intr_set_level k3 old_level) }"

section \<open>Locks\<close>

definition lock_init :: "kernel \<Rightarrow> ptr \<Rightarrow> kernel option" where
  "lock_init k l = do {
     ASSERT (l \<noteq> NULL);
     sema_init (upd_lock k l (\<lambda>x. x\<lparr>l_holder := NULL, l_priority := PRI_MIN\<rparr>)) (lock_sema l) 1 }"

definition lock_held_by_current_thread :: "kernel \<Rightarrow> ptr \<Rightarrow> bool option" where
  "lock_held_by_current_thread k l = do {
     ASSERT (l \<noteq> NULL);
     cur \<leftarrow> thread_current k;
     Some (l_holder (k_locks k l) = cur) }"

text \<open>What \<open>lock_acquire\<close> and \<open>lock_try_acquire\<close> do once the semaphore is theirs.\<close>

definition lock_taken :: "kernel \<Rightarrow> ptr \<Rightarrow> kernel option" where
  "lock_taken k l = do {
     cur \<leftarrow> thread_current k;
     let k1 = (if \<not> thread_mlfqs k then
                 upd_thread (upd_lock k l (\<lambda>x. x\<lparr>l_priority := PRI_MIN\<rparr>)) cur
                   (\<lambda>th. th\<lparr>t_locks_held := l # t_locks_held th, t_lock_waiting_on := NULL\<rparr>)
               else k);
     Some (upd_lock k1 l (\<lambda>x. x\<lparr>l_holder := cur\<rparr>)) }"

definition lock_acquire :: "kernel \<Rightarrow> ptr \<Rightarrow> kernel option" where
  "lock_acquire k l = do {
     ASSERT (l \<noteq> NULL);
     ASSERT (\<not> intr_context k);
     held \<leftarrow> lock_held_by_current_thread k l;
     ASSERT (\<not> held);
     let (old_level, k1) = intr_disable k;
     k2 \<leftarrow> (if \<not> thread_mlfqs k1 \<and> l_holder (k_locks k1 l) \<noteq> NULL then do {
              cur \<leftarrow> thread_current k1;
              Some (upd_thread k1 cur (\<lambda>th. th\<lparr>t_lock_waiting_on := l\<rparr>)) }
            else Some k1);
     sema_down (push_cont k2 (LockAcquired l old_level)) (lock_sema l) }"

definition lock_acquired :: "kernel \<Rightarrow> ptr \<Rightarrow> bool \<Rightarrow> kernel option" where
  "lock_acquired k l old_level = do {
     k1 \<leftarrow> lock_taken k l;
     map_option snd (intr_set_level k1 old_level) }"

definition lock_try_acquire :: "kernel \<Rightarrow> ptr \<Rightarrow> (bool \<times> kernel) option" where
  "lock_try_acquire k l = do {
     ASSERT (l \<noteq> NULL);
     held \<leftarrow> lock_held_by_current_thread k l;
     ASSERT (\<not> held);
     (success, k1) \<leftarrow> sema_try_down k (lock_sema l);
     k2 \<leftarrow> (if success then lock_taken k1 l else Some k1);
     Some (success, k2) }"

definition lock_release :: "kernel \<Rightarrow> ptr \<Rightarrow> kernel option" where
  "lock_release k l = do {
     ASSERT (l \<noteq> NULL);
     held \<leftarrow> lock_held_by_current_thread k l;
     ASSERT held;
     let (old_level, k1) = intr_disable k;
     k2 \<leftarrow> (if \<not> thread_mlfqs k1 then do {
              cur \<leftarrow> thread_current k1;
              let k' = upd_thread k1 cur (\<lambda>th. th\<lparr>t_locks_held := remove1 l (t_locks_held th)\<rparr>);
              Some (upd_lock k' l (\<lambda>x. x\<lparr>l_priority := PRI_MIN\<rparr>)) }
            else Some k1);
     let k3 = upd_lock k2 l (\<lambda>x. x\<lparr>l_holder := NULL\<rparr>);
     sema_up (push_cont k3 (SetLevel old_level)) (lock_sema l) }"

section \<open>Condition variables\<close>

definition cond_init :: "kernel \<Rightarrow> ptr \<Rightarrow> kernel option" where
  "cond_init k cnd = do {
     ASSERT (cnd \<noteq> NULL);
     Some (k\<lparr>k_conds := (k_conds k)(cnd := [])\<rparr>) }"

text \<open>\<open>waiter\<close> is the address of the local \<open>struct semaphore_elem\<close>.\<close>

definition cond_wait :: "kernel \<Rightarrow> ptr \<Rightarrow> ptr \<Rightarrow> ptr \<Rightarrow> kernel option" where
  "cond_wait k cnd l waiter = do {
     ASSERT (cnd \<noteq> NULL);
     ASSERT (l \<noteq> NULL);
     ASSERT (\<not> intr_context k);
     held \<leftarrow> lock_held_by_current_thread k l;
     ASSERT held;
     k1 \<leftarrow> sema_init k (elem_sema waiter) 0;
     let k2 = k1\<lparr>k_conds := (k_conds k1)(cnd := k_conds k1 cnd @ [waiter])\<rparr>;
     lock_release (push_cont (push_cont k2 (CallLockAcquire l)) (CallSemaDown (elem_sema waiter))) l }"

text \<open>The loop reads the priority of the thread waiting on each element: with no such thread
  the pointer is null, and the model stops.\<close>

fun to_signal_loop :: "kernel \<Rightarrow> ptr list \<Rightarrow> int \<Rightarrow> ptr \<Rightarrow> (ptr \<times> kernel) option" where
  "to_signal_loop k [] curr_highest_priority toSignal = Some (toSignal, k)"
| "to_signal_loop k (e # es) curr_highest_priority toSignal = do {
     (curr_t, _, k1) \<leftarrow> get_highest_priority_thread k (s_waiters (k_semas k (elem_sema e))) False;
     ASSERT (curr_t \<noteq> NULL);
     if t_priority (k_threads k1 curr_t) > curr_highest_priority \<or> toSignal = NULL
     then to_signal_loop k1 es (t_priority (k_threads k1 curr_t)) e
     else to_signal_loop k1 es curr_highest_priority toSignal }"

definition get_semaphore_to_signal :: "kernel \<Rightarrow> ptr \<Rightarrow> (ptr \<times> kernel) option" where
  "get_semaphore_to_signal k cnd = do {
     (toSignal, k1) \<leftarrow> to_signal_loop k (k_conds k cnd) PRI_MIN NULL;
     ASSERT (toSignal \<noteq> NULL);
     Some (elem_sema toSignal, k1\<lparr>k_conds := (k_conds k1)(cnd := remove1 toSignal (k_conds k1 cnd))\<rparr>) }"

definition cond_signal :: "kernel \<Rightarrow> ptr \<Rightarrow> ptr \<Rightarrow> kernel option" where
  "cond_signal k cnd l = do {
     ASSERT (cnd \<noteq> NULL);
     ASSERT (l \<noteq> NULL);
     ASSERT (\<not> intr_context k);
     held \<leftarrow> lock_held_by_current_thread k l;
     ASSERT held;
     if k_conds k cnd \<noteq> [] then do {
       (sema, k1) \<leftarrow> get_semaphore_to_signal k cnd;
       sema_up k1 sema }
     else Some k }"

definition cond_broadcast :: "kernel \<Rightarrow> ptr \<Rightarrow> ptr \<Rightarrow> kernel option" where
  "cond_broadcast k cnd l = do {
     ASSERT (cnd \<noteq> NULL);
     ASSERT (l \<noteq> NULL);
     if k_conds k cnd \<noteq> [] then cond_signal (push_cont k (CondBroadcastLoop cnd l)) cnd l
     else Some k }"

section \<open>The readers-writer lock\<close>

definition rw_lock_init :: "kernel \<Rightarrow> ptr \<Rightarrow> kernel option" where
  "rw_lock_init k rw = do {
     k1 \<leftarrow> sema_init k (no_waiting rw) 1;
     k2 \<leftarrow> sema_init k1 (no_accessing rw) 1;
     k3 \<leftarrow> sema_init k2 (readers_lock rw) 1;
     Some (k3\<lparr>k_readers := (k_readers k3)(rw := 0)\<rparr>) }"

definition writer_acquire :: "kernel \<Rightarrow> ptr \<Rightarrow> kernel option" where
  "writer_acquire k rw =
     sema_down (push_cont (push_cont k (CallSemaUp (no_waiting rw))) (CallSemaDown (no_accessing rw)))
       (no_waiting rw)"

text \<open>The result is the value the function returns; the calls of \<open>sema_up\<close> may switch.\<close>

definition writer_try_acquire :: "kernel \<Rightarrow> ptr \<Rightarrow> (bool \<times> kernel) option" where
  "writer_try_acquire k rw = do {
     (s1, k1) \<leftarrow> sema_try_down k (no_waiting rw);
     if s1 then do {
       (s2, k2) \<leftarrow> sema_try_down k1 (no_accessing rw);
       k3 \<leftarrow> sema_up k2 (no_waiting rw);
       Some (s2, k3) }
     else Some (False, k1) }"

definition writer_release :: "kernel \<Rightarrow> ptr \<Rightarrow> kernel option" where
  "writer_release k rw = sema_up k (no_accessing rw)"

definition reader_acquire :: "kernel \<Rightarrow> ptr \<Rightarrow> kernel option" where
  "reader_acquire k rw =
     sema_down (push_cont (push_cont k (ReaderAcquire2 rw)) (CallSemaDown (readers_lock rw)))
       (no_waiting rw)"

definition reader_acquire2 :: "kernel \<Rightarrow> ptr \<Rightarrow> kernel option" where
  "reader_acquire2 k rw =
     (let readers = k_readers k rw;
          k1 = k\<lparr>k_readers := (k_readers k)(rw := readers + 1)\<rparr>
      in sema_up (push_cont k1 (ReaderAcquire3 rw readers)) (readers_lock rw))"

definition reader_acquire3 :: "kernel \<Rightarrow> ptr \<Rightarrow> int \<Rightarrow> kernel option" where
  "reader_acquire3 k rw readers =
     (if readers = 0 then sema_down (push_cont k (CallSemaUp (no_waiting rw))) (no_accessing rw)
      else sema_up k (no_waiting rw))"

definition reader_release :: "kernel \<Rightarrow> ptr \<Rightarrow> kernel option" where
  "reader_release k rw = sema_down (push_cont k (ReaderRelease2 rw)) (readers_lock rw)"

definition reader_release2 :: "kernel \<Rightarrow> ptr \<Rightarrow> kernel option" where
  "reader_release2 k rw =
     (let readers = k_readers k rw - 1;
          k1 = k\<lparr>k_readers := (k_readers k)(rw := readers)\<rparr>
      in sema_up (push_cont k1 (ReaderRelease3 rw readers)) (readers_lock rw))"

definition reader_release3 :: "kernel \<Rightarrow> ptr \<Rightarrow> int \<Rightarrow> kernel option" where
  "reader_release3 k rw readers = (if readers = 0 then sema_up k (no_accessing rw) else Some k)"

definition rw_acquire :: "kernel \<Rightarrow> ptr \<Rightarrow> bool \<Rightarrow> kernel option" where
  "rw_acquire k rw write = (if write then writer_acquire k rw else reader_acquire k rw)"

definition rw_release :: "kernel \<Rightarrow> ptr \<Rightarrow> bool \<Rightarrow> kernel option" where
  "rw_release k rw write = (if write then writer_release k rw else reader_release k rw)"

end
