(* ===== verification/Thread.thy ===== *)
theory Thread
  imports Synch
begin

text \<open>
  The life of a thread (\<open>threads/thread.c\<close>): creation, identifiers, priorities and niceness,
  the timer tick, the idle thread and exit.  \<open>process_exit\<close> of \<open>userprog/process.c\<close>, which
  \<open>thread_exit\<close> calls first, is an argument; so are the results of \<open>palloc_get_page\<close> and
  \<open>malloc\<close> (\<open>NULL\<close> when they fail).
\<close>

section \<open>Priorities and donation\<close>

partial_function (option) donate_loop :: "kernel \<Rightarrow> ptr \<Rightarrow> kernel option" where
  "donate_loop k t =
     (if t_lock_waiting_on (k_threads k t) \<noteq> NULL then do {
        let l = t_lock_waiting_on (k_threads k t);
        let p = t_priority (k_threads k t);
        let k1 = (if p > l_priority (k_locks k l) then upd_lock k l (\<lambda>x. x\<lparr>l_priority := p\<rparr>) else k);
        let h = l_holder (k_locks k1 l);
        ASSERT (h \<noteq> NULL);
        let k2 = (if p > t_priority (k_threads k1 h) then upd_thread k1 h (\<lambda>th. th\<lparr>t_priority := p\<rparr>) else k1);
        donate_loop k2 h }
      else Some k)"

definition donate_priority :: "kernel \<Rightarrow> kernel option" where
  "donate_priority k = do {
     ASSERT (\<not> intr_get_level k);
     cur \<leftarrow> thread_current k;
     donate_loop k cur }"

fun shed_loop :: "(ptr \<Rightarrow> lock) \<Rightarrow> ptr list \<Rightarrow> int \<Rightarrow> int" where
  "shed_loop lk [] highest = highest"
| "shed_loop lk (l # ls) highest =
     shed_loop lk ls (if l_priority (lk l) > highest then l_priority (lk l) else highest)"

definition shed_priority :: "kernel \<Rightarrow> kernel option" where
  "shed_priority k = do {
     ASSERT (\<not> intr_get_level k);
     cur \<leftarrow> thread_current k;
     let highest = shed_loop (k_locks k) (t_locks_held (k_threads k cur)) PRI_MIN;
     Some (upd_thread k cur (\<lambda>th. th\<lparr>t_priority := highest\<rparr>)) }"

definition thread_set_priority :: "kernel \<Rightarrow> int \<Rightarrow> kernel option" where
  "thread_set_priority k new_priority = do {
     ASSERT (\<not> thread_mlfqs k);
     if intr_context k then do {
       cur \<leftarrow> thread_current k;
       shed_priority (upd_lock k (original_priority_info cur) (\<lambda>x. x\<lparr>l_priority := new_priority\<rparr>)) }
     else do {
       let (old_level, k1) = intr_disable k;
       cur \<leftarrow> thread_current k1;
       k2 \<leftarrow> shed_priority (upd_lock k1 (original_priority_info cur) (\<lambda>x. x\<lparr>l_priority := new_priority\<rparr>));
       thread_yield (push_cont k2 (SetLevel old_level)) } }"

definition thread_get_priority :: "kernel \<Rightarrow> int option" where
  "thread_get_priority k = do { cur \<leftarrow> thread_current k; Some (t_priority (k_threads k cur)) }"

abbreviation (input) MAX_NICE :: int where "MAX_NICE \<equiv> 20"
abbreviation (input) MIN_NICE :: int where "MIN_NICE \<equiv> - 20"

definition thread_set_nice :: "kernel \<Rightarrow> int \<Rightarrow> kernel option" where
  "thread_set_nice k n = do {
     let (old_level, k1) = intr_disable k;
     cur \<leftarrow> thread_current k1;
     let n = (if n > MAX_NICE then MAX_NICE else if n < MIN_NICE then MIN_NICE else n);
     let k2 = upd_thread k1 cur (\<lambda>th. th\<lparr>t_nice := n\<rparr>);
     let old_priority = t_priority (k_threads k2 cur);
     k3 \<leftarrow> update_thread_priority k2 cur;
     if \<not> intr_context k3 \<and> t_priority (k_threads k3 cur) < old_priority
     then thread_yield (push_cont k3 (SetLevel old_level))
     else map_option snd (intr_set_level k3 old_level) }"

definition thread_get_nice :: "kernel \<Rightarrow> int option" where
  "thread_get_nice k = do { cur \<leftarrow> thread_current k; Some (t_nice (k_threads k cur)) }"

definition thread_get_load_avg :: "kernel \<Rightarrow> int" where
  "thread_get_load_avg k = sint (fp_to_int (fp_mul_int (load_average k) 100))"

definition thread_get_recent_cpu :: "kernel \<Rightarrow> int option" where
  "thread_get_recent_cpu k = do {
     cur \<leftarrow> thread_current k;
     Some (sint (fp_to_int (fp_mul_int (t_recent_cpu (k_threads k cur)) 100))) }"

definition thread_tid :: "kernel \<Rightarrow> int option" where
  "thread_tid k = do { cur \<leftarrow> thread_current k; Some (t_tid (k_threads k cur)) }"

definition thread_name :: "kernel \<Rightarrow> string option" where
  "thread_name k = do { cur \<leftarrow> thread_current k; Some (t_name (k_threads k cur)) }"

section \<open>The timer tick\<close>

definition thread_tick :: "kernel \<Rightarrow> kernel option" where
  "thread_tick k = do {
     t \<leftarrow> thread_current k;
     let now = ticks k;
     k1 \<leftarrow> (if t = idle_thread k then intr_yield_on_return (k\<lparr>idle_ticks := idle_ticks k + 1\<rparr>)
            else if t_pagedir (k_threads k t) \<noteq> NULL then Some (k\<lparr>user_ticks := user_ticks k + 1\<rparr>)
            else Some (k\<lparr>kernel_ticks := kernel_ticks k + 1\<rparr>));
     k2 \<leftarrow> (if thread_mlfqs k1 then do {
              let ka = (if t \<noteq> idle_thread k1 then update_running_thread_cpu k1 t else k1);
              kb \<leftarrow> (if now mod TIMER_FREQ = 0 then do {
                       k' \<leftarrow> update_load_average ka;
                       update_cpu_for_all_threads k' }
                     else Some ka);
              Some (if now mod 4 \<noteq> 0 then kb\<lparr>should_update_thread_priorities := True\<rparr> else kb) }
            else Some k1);
     let k3 = k2\<lparr>thread_ticks := thread_ticks k2 + 1\<rparr>;
     if thread_ticks k3 \<ge> TIME_SLICE then intr_yield_on_return k3 else Some k3 }"

section \<open>Exit\<close>

definition thread_exit :: "(kernel \<Rightarrow> kernel option) \<Rightarrow> kernel \<Rightarrow> kernel option" where
  "thread_exit process_exit k = do {
     ASSERT (\<not> intr_context k);
     k1 \<leftarrow> process_exit k;
     let (_, k2) = intr_disable k1;
     curr \<leftarrow> thread_current k2;
     let k3 = k2\<lparr>all_list := remove1 curr (all_list k2)\<rparr>;
     let k4 = (if thread_mlfqs k3 \<and> t_cpu_has_changed (k_threads k3 curr)
               then k3\<lparr>cpu_changed_list := remove1 curr (cpu_changed_list k3)\<rparr> else k3);
     schedule (upd_thread k4 curr (\<lambda>th. th\<lparr>t_status := THREAD_DYING\<rparr>)) }"

section \<open>Creation\<close>

definition init_file_system_info :: "kernel \<Rightarrow> ptr \<Rightarrow> kernel" where
  "init_file_system_info k t = upd_thread k t (\<lambda>th. th\<lparr>t_open_files := [], t_fd_counter := 2\<rparr>)"

definition init_child_managment_info :: "kernel \<Rightarrow> ptr \<Rightarrow> kernel option" where
  "init_child_managment_info k t = do {
     k1 \<leftarrow> sema_init k (sema_child_load t) 0;
     k2 \<leftarrow> sema_init k1 (wait_on_me t) 0;
     let k3 = upd_thread k2 t (\<lambda>th. th\<lparr>t_child_threads := []\<rparr>);
     parent \<leftarrow> (if t = initial_thread k3 then Some NULL else thread_current k3);
     Some (upd_thread k3 t (\<lambda>th. th\<lparr>t_parent_thread := parent\<rparr>)) }"

definition init_vital_info :: "(kernel \<Rightarrow> kernel option) \<Rightarrow> kernel \<Rightarrow> ptr \<Rightarrow> ptr \<Rightarrow> (bool \<times> kernel) option" where
  "init_vital_info process_exit k t vi =
     (if vi = NULL then do { k' \<leftarrow> thread_exit process_exit k; Some (False, k') }
      else do {
        let k1 = k\<lparr>k_vitals := (k_vitals k)(vi := \<lparr>v_t = t, v_exit_status = 0, v_waited_on = False,
                   v_tid = t_tid (k_threads k t), v_parent_is_finished = False,
                   v_child_is_finished = False\<rparr>)\<rparr>;
        k2 \<leftarrow> lock_init k1 (vital_info_lock vi);
        let k3 = upd_thread k2 t (\<lambda>th. th\<lparr>t_vital_info := vi\<rparr>);
        if t \<noteq> initial_thread k3 then do {
          let parent = t_parent_thread (k_threads k3 t);
          ASSERT (parent \<noteq> NULL);
          Some (True, upd_thread k3 parent (\<lambda>th. th\<lparr>t_child_threads := t_child_threads th @ [vi]\<rparr>)) }
        else Some (True, k3) })"

definition init_thread :: "kernel \<Rightarrow> ptr \<Rightarrow> string \<Rightarrow> int \<Rightarrow> kernel option" where
  "init_thread k t name priority = do {
     ASSERT (t \<noteq> NULL);
     ASSERT (PRI_MIN \<le> priority \<and> priority \<le> PRI_MAX);
     let k1 = upd_lock (upd_thread k t (\<lambda>_. zero_thread\<lparr>t_status := THREAD_BLOCKED, t_name := take 15 name,
                t_stack := t + PGSIZE, t_priority := priority, t_magic := THREAD_MAGIC\<rparr>))
                (original_priority_info t) (\<lambda>_. \<lparr>l_holder = NULL, l_priority = 0\<rparr>);
     k2 \<leftarrow> (if thread_mlfqs k1 then do {
              k' \<leftarrow> (if t = initial_thread k1 then Some k1
                     else do {
                       curr \<leftarrow> thread_current k1;
                       Some (upd_thread k1 t (\<lambda>th. th\<lparr>t_nice := t_nice (k_threads k1 curr),
                         t_recent_cpu := t_recent_cpu (k_threads k1 curr)\<rparr>)) });
              update_thread_priority k' t }
            else
              Some (upd_lock (upd_thread k1 t (\<lambda>th. th\<lparr>t_locks_held := [original_priority_info t],
                      t_lock_waiting_on := NULL\<rparr>))
                (original_priority_info t) (\<lambda>x. x\<lparr>l_priority := priority, l_holder := NULL\<rparr>)));
     k3 \<leftarrow> init_child_managment_info (init_file_system_info k2 t) t;
     k4 \<leftarrow> lock_init k3 (spte_table_lock t);
     k5 \<leftarrow> lock_init k4 (pagedir_lock t);
     let (old_level, k6) = intr_disable k5;
     map_option snd (intr_set_level (k6\<lparr>all_list := all_list k6 @ [t]\<rparr>) old_level) }"

definition alloc_frame :: "kernel \<Rightarrow> ptr \<Rightarrow> nat \<Rightarrow> kernel option" where
  "alloc_frame k t sz = do {
     ASSERT (is_thread k t);
     ASSERT (sz mod 4 = 0);
     Some (upd_thread k t (\<lambda>th. th\<lparr>t_stack := t_stack th - sz\<rparr>)) }"

text \<open>\<open>allocate_tid\<close> takes \<open>tid_lock\<close>, increments, and releases the lock; \<open>c\<close> is its caller.\<close>

definition allocate_tid :: "kernel \<Rightarrow> tid_caller \<Rightarrow> kernel option" where
  "allocate_tid k c = lock_acquire (push_cont k (AllocateTid2 c)) (tid_lock k)"

definition allocate_tid2 :: "kernel \<Rightarrow> tid_caller \<Rightarrow> kernel option" where
  "allocate_tid2 k c =
     (let tid = next_tid k
      in lock_release (push_cont (k\<lparr>next_tid := tid + 1\<rparr>) (GotTid c tid)) (tid_lock k))"

definition thread_create :: "kernel \<Rightarrow> string \<Rightarrow> int \<Rightarrow> ptr \<Rightarrow> ptr \<Rightarrow> ptr \<Rightarrow> ptr \<Rightarrow> kernel option" where
  "thread_create k name priority func aux page vi = do {
     ASSERT (func \<noteq> NULL);
     if page = NULL then
       Some (k\<lparr>k_retval := (k_retval k)(k_running k := TID_ERROR)\<rparr>)
     else do {
       k1 \<leftarrow> init_thread k page name priority;
       allocate_tid k1 (FromCreate page func aux vi) } }"

text \<open>The rest of \<open>thread_create\<close>, with the identifier.  The three stack frames are 12, 4 and 28
  bytes; the first thing the new thread runs is \<open>kernel_thread\<close>.\<close>

definition thread_create2
  :: "(kernel \<Rightarrow> kernel option) \<Rightarrow> kernel \<Rightarrow> int \<Rightarrow> ptr \<Rightarrow> ptr \<Rightarrow> ptr \<Rightarrow> ptr \<Rightarrow> kernel option" where
  "thread_create2 process_exit k tid t func aux vi = do {
     (ok, k1) \<leftarrow> init_vital_info process_exit (upd_thread k t (\<lambda>th. th\<lparr>t_tid := tid\<rparr>)) t vi;
     if \<not> ok then Some k1
     else do {
       k2 \<leftarrow> alloc_frame k1 t 12;
       k3 \<leftarrow> alloc_frame k2 t 4;
       k4 \<leftarrow> alloc_frame k3 t 28;
       let k5 = k4\<lparr>k_cont := (k_cont k4)(t := [KernelThread func aux])\<rparr>;
       thread_unblock (push_cont k5 (ReturnValue tid)) t } }"

definition got_tid :: "(kernel \<Rightarrow> kernel option) \<Rightarrow> kernel \<Rightarrow> tid_caller \<Rightarrow> int \<Rightarrow> kernel option" where
  "got_tid process_exit k c tid =
     (case c of
        FromInit \<Rightarrow> Some (upd_thread k (initial_thread k) (\<lambda>th. th\<lparr>t_tid := tid\<rparr>))
      | FromCreate t func aux vi \<Rightarrow> thread_create2 process_exit k tid t func aux vi)"

definition thread_init :: "kernel \<Rightarrow> kernel option" where
  "thread_init k = do {
     ASSERT (\<not> intr_get_level k);
     k1 \<leftarrow> lock_init k (tid_lock k);
     k2 \<leftarrow> lock_init k1 (file_system_lock k1);
     let k3 = k2\<lparr>ready_list := [], all_list := [], cpu_changed_list := [], load_average := 0,
                initial_thread := running_thread k2\<rparr>;
     k4 \<leftarrow> init_thread k3 (initial_thread k3) ''main'' PRI_DEFAULT;
     allocate_tid (upd_thread k4 (initial_thread k4) (\<lambda>th. th\<lparr>t_status := THREAD_RUNNING\<rparr>)) FromInit }"

section \<open>The idle thread\<close>

text \<open>Function pointers are addresses; this is the one of \<open>idle\<close>.\<close>

definition idle_function :: ptr where
  "idle_function = 1"

definition idle :: "kernel \<Rightarrow> ptr \<Rightarrow> kernel option" where
  "idle k idle_started = do {
     cur \<leftarrow> thread_current k;
     sema_up (push_cont (k\<lparr>idle_thread := cur\<rparr>) IdleLoop) idle_started }"

definition idle_loop :: "kernel \<Rightarrow> kernel option" where
  "idle_loop k = (let (_, k1) = intr_disable k in thread_block (push_cont k1 IdleHlt))"

definition idle_hlt :: "kernel \<Rightarrow> kernel" where
  "idle_hlt k = push_cont (k\<lparr>intr_on := True\<rparr>) IdleLoop"

definition thread_start :: "(kernel \<Rightarrow> kernel option) \<Rightarrow> kernel \<Rightarrow> ptr \<Rightarrow> ptr \<Rightarrow> ptr \<Rightarrow> ptr \<Rightarrow> kernel option" where
  "thread_start process_exit k idle_started vi0 page vi = do {
     k1 \<leftarrow> sema_init k idle_started 0;
     (ok, k2) \<leftarrow> init_vital_info process_exit k1 (initial_thread k1) vi0;
     if \<not> ok then Some k2
     else thread_create (push_cont k2 (ThreadStart2 idle_started)) ''idle'' PRI_MIN
            idle_function idle_started page vi }"

definition thread_start2 :: "kernel \<Rightarrow> ptr \<Rightarrow> kernel option" where
  "thread_start2 k idle_started = do {
     (_, k1) \<leftarrow> intr_enable k;
     sema_down k1 idle_started }"

text \<open>A thread whose function is not \<open>idle\<close> then runs its own code and calls \<open>thread_exit\<close>
  when it returns.\<close>

definition kernel_thread :: "kernel \<Rightarrow> ptr \<Rightarrow> ptr \<Rightarrow> kernel option" where
  "kernel_thread k func aux = do {
     ASSERT (func \<noteq> NULL);
     (_, k1) \<leftarrow> intr_enable k;
     if func = idle_function then idle k1 aux else Some k1 }"

end
