(* ===== verification/Timer.thy ===== *)
theory Timer
  imports Thread Kernel_List_Sort
begin

text \<open>
  The timer of \<open>devices/timer.c\<close>: ticks, the list of sleeping threads ordered by wake
  time, the interrupt handler that wakes them, and the conversions of real time to ticks
  and loops.  Arithmetic on \<open>int64_t\<close> wraps.
\<close>

definition wrap64 :: "int \<Rightarrow> int" where
  "wrap64 x = signed_take_bit 63 x"

definition timer_ticks :: "kernel \<Rightarrow> (int \<times> kernel) option" where
  "timer_ticks k = do {
     let (old_level, k1) = intr_disable k;
     let t = ticks k1;
     (_, k2) \<leftarrow> intr_set_level k1 old_level;
     Some (t, k2) }"

definition timer_elapsed :: "kernel \<Rightarrow> int \<Rightarrow> (int \<times> kernel) option" where
  "timer_elapsed k past = do { (t, k1) \<leftarrow> timer_ticks k; Some (wrap64 (t - past), k1) }"

definition sleeping_thread_insert_func :: "(ptr \<Rightarrow> int) \<Rightarrow> ptr \<Rightarrow> ptr \<Rightarrow> bool" where
  "sleeping_thread_insert_func wake a b \<longleftrightarrow> wake a < wake b"

text \<open>\<open>list_insert_ordered\<close> on the represented sequence.\<close>

definition insert_ordered :: "('a \<Rightarrow> 'a \<Rightarrow> bool) \<Rightarrow> 'a \<Rightarrow> 'a list \<Rightarrow> 'a list" where
  "insert_ordered lt e xs = takeWhile (\<lambda>x. \<not> lt e x) xs @ e # dropWhile (\<lambda>x. \<not> lt e x) xs"

text \<open>\<open>st\<close> is the address of the local \<open>struct sleeping_thread\<close>.  Interrupts are on between the
  two readings of the clock: the second part is a step of its own.\<close>

definition timer_sleep :: "kernel \<Rightarrow> int \<Rightarrow> ptr \<Rightarrow> kernel option" where
  "timer_sleep k sleep_ticks st = do {
     (start, k1) \<leftarrow> timer_ticks k;
     ASSERT (intr_get_level k1);
     if sleep_ticks \<le> 0 then Some k1
     else Some (push_cont k1 (TimerSleep2 start sleep_ticks st)) }"

definition timer_sleep2 :: "kernel \<Rightarrow> int \<Rightarrow> int \<Rightarrow> ptr \<Rightarrow> kernel option" where
  "timer_sleep2 k start sleep_ticks st = do {
     k1 \<leftarrow> sema_init k (elem_sema st) 0;
     let k2 = k1\<lparr>k_wake_time := (k_wake_time k1)(st := wrap64 (start + sleep_ticks))\<rparr>;
     (now, k3) \<leftarrow> timer_ticks k2;
     if k_wake_time k3 st \<le> now then Some k3
     else do {
       let (old_level, k4) = intr_disable k3;
       let k5 = k4\<lparr>sleeping_threads :=
                  insert_ordered (sleeping_thread_insert_func (k_wake_time k4)) st (sleeping_threads k4)\<rparr>;
       (_, k6) \<leftarrow> intr_set_level k5 old_level;
       sema_down k6 (elem_sema st) } }"

fun wake_loop :: "kernel \<Rightarrow> ptr list \<Rightarrow> kernel option" where
  "wake_loop k [] = Some (k\<lparr>sleeping_threads := []\<rparr>)"
| "wake_loop k (e # es) =
     (if k_wake_time k e \<le> ticks k then do {
        k1 \<leftarrow> sema_up (k\<lparr>sleeping_threads := es\<rparr>) (elem_sema e);
        wake_loop k1 es }
      else Some (k\<lparr>sleeping_threads := e # es\<rparr>))"

definition timer_interrupt :: "kernel \<Rightarrow> kernel option" where
  "timer_interrupt k = do {
     k1 \<leftarrow> thread_tick (k\<lparr>ticks := wrap64 (ticks k + 1)\<rparr>);
     wake_loop k1 (sleeping_threads k1) }"

section \<open>Real time\<close>

text \<open>\<open>real_time_sleep\<close> converts \<open>num / denom\<close> seconds to ticks, rounding down, and sleeps when
  that is at least one tick; otherwise it busy-waits.  \<open>busy_loops\<close> is the argument of
  \<open>busy_wait\<close>.\<close>

definition real_time_ticks :: "int \<Rightarrow> int \<Rightarrow> int" where
  "real_time_ticks num denom = wrap64 (num * TIMER_FREQ) sdiv denom"

definition busy_loops :: "int \<Rightarrow> int \<Rightarrow> int \<Rightarrow> int option" where
  "busy_loops loops_per_tick num denom = do {
     ASSERT (denom mod 1000 = 0);
     Some (wrap64 (wrap64 (loops_per_tick * num) sdiv 1000 * TIMER_FREQ) sdiv (denom sdiv 1000)) }"

datatype delay = Slept | BusyWaited int

definition real_time_sleep :: "kernel \<Rightarrow> int \<Rightarrow> int \<Rightarrow> int \<Rightarrow> ptr \<Rightarrow> (delay \<times> kernel) option" where
  "real_time_sleep k loops_per_tick num denom st = do {
     let tk = real_time_ticks num denom;
     ASSERT (intr_get_level k);
     if tk > 0 then do { k1 \<leftarrow> timer_sleep k tk st; Some (Slept, k1) }
     else do { n \<leftarrow> busy_loops loops_per_tick num denom; Some (BusyWaited n, k) } }"

definition timer_msleep :: "kernel \<Rightarrow> int \<Rightarrow> int \<Rightarrow> ptr \<Rightarrow> (delay \<times> kernel) option" where
  "timer_msleep k lpt ms st = real_time_sleep k lpt ms 1000 st"

definition timer_usleep :: "kernel \<Rightarrow> int \<Rightarrow> int \<Rightarrow> ptr \<Rightarrow> (delay \<times> kernel) option" where
  "timer_usleep k lpt us st = real_time_sleep k lpt us (1000 * 1000) st"

definition timer_nsleep :: "kernel \<Rightarrow> int \<Rightarrow> int \<Rightarrow> ptr \<Rightarrow> (delay \<times> kernel) option" where
  "timer_nsleep k lpt ns st = real_time_sleep k lpt ns (1000 * 1000 * 1000) st"

definition real_time_delay :: "int \<Rightarrow> int \<Rightarrow> int \<Rightarrow> int option" where
  "real_time_delay loops_per_tick num denom = busy_loops loops_per_tick num denom"

definition timer_mdelay :: "int \<Rightarrow> int \<Rightarrow> int option" where
  "timer_mdelay lpt ms = real_time_delay lpt ms 1000"

definition timer_udelay :: "int \<Rightarrow> int \<Rightarrow> int option" where
  "timer_udelay lpt us = real_time_delay lpt us (1000 * 1000)"

definition timer_ndelay :: "int \<Rightarrow> int \<Rightarrow> int option" where
  "timer_ndelay lpt ns = real_time_delay lpt ns (1000 * 1000 * 1000)"

text \<open>\<open>timer_calibrate\<close>, with the measurement \<open>too_many_loops\<close> as an argument: a power of two is
  doubled while it fits in a tick (stopping when the doubling wraps to zero), then eight more
  bits are tried.\<close>

partial_function (option) calibrate_double :: "(u32 \<Rightarrow> bool) \<Rightarrow> u32 \<Rightarrow> u32 option" where
  "calibrate_double too_many n =
     (if \<not> too_many (push_bit 1 n) then do {
        let n' = push_bit 1 n;
        ASSERT (n' \<noteq> 0);
        calibrate_double too_many n' }
      else Some n)"

partial_function (option) calibrate_bits :: "(u32 \<Rightarrow> bool) \<Rightarrow> u32 \<Rightarrow> u32 \<Rightarrow> u32 \<Rightarrow> u32 option" where
  "calibrate_bits too_many high_bit test_bit loops =
     (if test_bit \<noteq> drop_bit 10 high_bit then
        calibrate_bits too_many high_bit (drop_bit 1 test_bit)
          (if \<not> too_many (high_bit OR test_bit) then loops OR test_bit else loops)
      else Some loops)"

definition timer_calibrate :: "(u32 \<Rightarrow> bool) \<Rightarrow> u32 option" where
  "timer_calibrate too_many = do {
     high_bit \<leftarrow> calibrate_double too_many (push_bit 10 1);
     calibrate_bits too_many high_bit (drop_bit 1 high_bit) high_bit }"

section \<open>The order of the sleeping threads\<close>

interpretation st: list_order "sleeping_thread_insert_func wake" for wake
  by unfold_locales (auto simp: sleeping_thread_insert_func_def)

lemma sleeping_threads_ordered:
  assumes "in_order (sleeping_thread_insert_func wake) ts"
  shows "in_order (sleeping_thread_insert_func wake) (insert_ordered (sleeping_thread_insert_func wake) t ts)"
  unfolding insert_ordered_def using assms by (rule st.in_order_insert)

end
