(* ===== verification/Interrupt.thy ===== *)
theory Interrupt
  imports Timer
begin

text \<open>
  Interrupt dispatch (\<open>threads/interrupt.c\<close>): gates, registration of handlers, the programmable
  interrupt controller and the common handler.
\<close>

section \<open>Gates\<close>

definition SEL_KCSEG :: u32 where
  "SEL_KCSEG = 0x08"

definition make_gate :: "u32 \<Rightarrow> int \<Rightarrow> int \<Rightarrow> u64 option" where
  "make_gate func dpl type = do {
     ASSERT (func \<noteq> 0);
     ASSERT (dpl \<ge> 0 \<and> dpl \<le> 3);
     ASSERT (type \<ge> 0 \<and> type \<le> 15);
     let e0 = (func AND 0xffff) OR push_bit 16 SEL_KCSEG;
     let e1 = (func AND 0xffff0000) OR push_bit 15 1 OR push_bit 13 (word_of_int dpl)
                OR push_bit 8 (word_of_int type);
     Some (ucast e0 OR push_bit 32 (ucast e1)) }"

definition make_intr_gate :: "u32 \<Rightarrow> int \<Rightarrow> u64 option" where
  "make_intr_gate func dpl = make_gate func dpl 14"

definition make_trap_gate :: "u32 \<Rightarrow> int \<Rightarrow> u64 option" where
  "make_trap_gate func dpl = make_gate func dpl 15"

definition make_idtr_operand :: "u16 \<Rightarrow> u32 \<Rightarrow> u64" where
  "make_idtr_operand limit base = ucast limit OR push_bit 16 (ucast base)"

section \<open>Registration\<close>

text \<open>\<open>intr_handlers\<close> maps a vector to its handler; \<open>idt\<close> holds the gates, \<open>intr_names\<close> the
  names.  \<open>intr_stubs\<close> (assembly) is an argument.\<close>

record intr_tables =
  idt :: "nat \<Rightarrow> u64"
  intr_handlers :: "nat \<Rightarrow> (kernel \<Rightarrow> kernel option) option"
  intr_names :: "nat \<Rightarrow> string"

definition register_handler :: "(nat \<Rightarrow> u32) \<Rightarrow> intr_tables \<Rightarrow> nat \<Rightarrow> int \<Rightarrow> bool
    \<Rightarrow> (kernel \<Rightarrow> kernel option) \<Rightarrow> string \<Rightarrow> intr_tables option" where
  "register_handler stubs tb vec_no dpl level handler name = do {
     ASSERT (intr_handlers tb vec_no = None);
     gate \<leftarrow> (if level then make_trap_gate (stubs vec_no) dpl else make_intr_gate (stubs vec_no) dpl);
     Some (tb\<lparr>idt := (idt tb)(vec_no := gate),
              intr_handlers := (intr_handlers tb)(vec_no := Some handler),
              intr_names := (intr_names tb)(vec_no := name)\<rparr>) }"

definition intr_register_ext :: "(nat \<Rightarrow> u32) \<Rightarrow> intr_tables \<Rightarrow> nat
    \<Rightarrow> (kernel \<Rightarrow> kernel option) \<Rightarrow> string \<Rightarrow> intr_tables option" where
  "intr_register_ext stubs tb vec_no handler name = do {
     ASSERT (vec_no \<ge> 0x20 \<and> vec_no \<le> 0x2f);
     register_handler stubs tb vec_no 0 False handler name }"

definition intr_register_int :: "(nat \<Rightarrow> u32) \<Rightarrow> intr_tables \<Rightarrow> nat \<Rightarrow> int \<Rightarrow> bool
    \<Rightarrow> (kernel \<Rightarrow> kernel option) \<Rightarrow> string \<Rightarrow> intr_tables option" where
  "intr_register_int stubs tb vec_no dpl level handler name = do {
     ASSERT (vec_no < 0x20 \<or> vec_no > 0x2f);
     register_handler stubs tb vec_no dpl level handler name }"

section \<open>The interrupt controller\<close>

definition outb :: "kernel \<Rightarrow> nat \<Rightarrow> nat \<Rightarrow> kernel" where
  "outb k port v = k\<lparr>io_log := io_log k @ [(port, v)]\<rparr>"

definition pic_init :: "kernel \<Rightarrow> kernel" where
  "pic_init k = fold (\<lambda>(port, v) k. outb k port v)
     [(0x21, 0xff), (0xa1, 0xff), (0x20, 0x11), (0x21, 0x20), (0x21, 0x04), (0x21, 0x01),
      (0xa0, 0x11), (0xa1, 0x28), (0xa1, 0x02), (0xa1, 0x01), (0x21, 0x00), (0xa1, 0x00)] k"

definition pic_end_of_interrupt :: "kernel \<Rightarrow> nat \<Rightarrow> kernel option" where
  "pic_end_of_interrupt k irq = do {
     ASSERT (irq \<ge> 0x20 \<and> irq < 0x30);
     let k1 = outb k 0x20 0x20;
     Some (if irq \<ge> 0x28 then outb k1 0xa0 0x20 else k1) }"

section \<open>Dispatch\<close>

definition unexpected_interrupt :: "kernel \<Rightarrow> nat \<Rightarrow> kernel" where
  "unexpected_interrupt k vec_no =
     k\<lparr>unexpected_cnt := (unexpected_cnt k)(vec_no := (unexpected_cnt k vec_no + 1) mod 2 ^ 32)\<rparr>"

definition intr_handler :: "(nat \<Rightarrow> (kernel \<Rightarrow> kernel option) option) \<Rightarrow> kernel \<Rightarrow> nat \<Rightarrow> kernel option" where
  "intr_handler handlers k vec_no = do {
     let external = (vec_no \<ge> 0x20 \<and> vec_no < 0x30);
     k1 \<leftarrow> (if external then do {
              ASSERT (\<not> intr_get_level k);
              ASSERT (\<not> intr_context k);
              Some (k\<lparr>in_external_intr := True, yield_on_return := False\<rparr>) }
            else Some k);
     k2 \<leftarrow> (case handlers vec_no of
              Some handler \<Rightarrow> handler k1
            | None \<Rightarrow>
                if vec_no = 0x27 \<or> vec_no = 0x2f then Some k1
                else Some (unexpected_interrupt k1 vec_no));
     if external then do {
       ASSERT (\<not> intr_get_level k2);
       ASSERT (intr_context k2);
       k3 \<leftarrow> pic_end_of_interrupt (k2\<lparr>in_external_intr := False\<rparr>) vec_no;
       if yield_on_return k3 then thread_yield k3 else Some k3 }
     else Some k2 }"

text \<open>The processor takes an external interrupt only with interrupts on; it turns them off
  on entry and the return restores them.\<close>

definition external_interrupt :: "(nat \<Rightarrow> (kernel \<Rightarrow> kernel option) option) \<Rightarrow> kernel \<Rightarrow> nat \<Rightarrow> kernel option" where
  "external_interrupt handlers k vec_no =
     intr_handler handlers (push_cont (k\<lparr>intr_on := False\<rparr>) (IretLevel True)) vec_no"

end
