(* ===== verification/Kernel_Run.thy ===== *)
theory Kernel_Run
  imports Interrupt
begin

text \<open>
  Executions of the kernel: the running thread either goes on with what is left of a kernel
  function, or, when nothing is left, its own code calls a function of \<open>threads/thread.c\<close>,
  \<open>threads/synch.c\<close> or \<open>devices/timer.c\<close>; an external interrupt may be taken at any point where
  interrupts are on.  Every interleaving of these steps is an execution.
\<close>

definition pop_cont :: "kernel \<Rightarrow> kernel" where
  "pop_cont k = k\<lparr>k_cont := (k_cont k)(k_running k := tl (k_cont k (k_running k)))\<rparr>"

fun run_frame :: "(kernel \<Rightarrow> kernel option) \<Rightarrow> frame \<Rightarrow> kernel \<Rightarrow> kernel option" where
  "run_frame pe (SetLevel l) k = map_option snd (intr_set_level k l)"
| "run_frame pe (IretLevel l) k = Some (k\<lparr>intr_on := l\<rparr>)"
| "run_frame pe (SemaDownLoop s l) k = sema_down_loop k s l"
| "run_frame pe (CallSemaDown s) k = sema_down k s"
| "run_frame pe (CallSemaUp s) k = sema_up k s"
| "run_frame pe (CallLockAcquire l) k = lock_acquire k l"
| "run_frame pe (LockAcquired l old) k = lock_acquired k l old"
| "run_frame pe (CondBroadcastLoop c l) k =
     (if k_conds k c \<noteq> [] then cond_signal (push_cont k (CondBroadcastLoop c l)) c l else Some k)"
| "run_frame pe (ReaderAcquire2 rw) k = reader_acquire2 k rw"
| "run_frame pe (ReaderAcquire3 rw n) k = reader_acquire3 k rw n"
| "run_frame pe (ReaderRelease2 rw) k = reader_release2 k rw"
| "run_frame pe (ReaderRelease3 rw n) k = reader_release3 k rw n"
| "run_frame pe (AllocateTid2 c) k = allocate_tid2 k c"
| "run_frame pe (GotTid c tid) k = got_tid pe k c tid"
| "run_frame pe (ThreadStart2 s) k = thread_start2 k s"
| "run_frame pe (KernelThread f aux) k = kernel_thread k f aux"
| "run_frame pe IdleLoop k = idle_loop k"
| "run_frame pe IdleHlt k = Some (idle_hlt k)"
| "run_frame pe (TimerSleep2 start n st) k = timer_sleep2 k start n st"
| "run_frame pe (ReturnValue v) k = Some (k\<lparr>k_retval := (k_retval k)(k_running k := v)\<rparr>)"

definition resume :: "(kernel \<Rightarrow> kernel option) \<Rightarrow> kernel \<Rightarrow> kernel option" where
  "resume pe k =
     (case k_cont k (k_running k) of
        [] \<Rightarrow> Some k
      | f # _ \<Rightarrow> run_frame pe f (pop_cont k))"

text \<open>What the code of a thread may call.\<close>

datatype kcall =
    CallDown ptr | CallUp ptr | CallTryDown ptr
  | CallAcquire ptr | CallTryAcquire ptr | CallRelease ptr
  | CallCondWait ptr ptr ptr | CallCondSignal ptr ptr | CallCondBroadcast ptr ptr
  | CallRwAcquire ptr bool | CallRwRelease ptr bool | CallWriterTry ptr
  | CallYield | CallSetPriority int | CallSetNice int
  | CallCreate string int ptr ptr ptr ptr
  | CallSleep int ptr | CallExit

fun do_call :: "(kernel \<Rightarrow> kernel option) \<Rightarrow> kcall \<Rightarrow> kernel \<Rightarrow> kernel option" where
  "do_call pe (CallDown s) k = sema_down k s"
| "do_call pe (CallUp s) k = sema_up k s"
| "do_call pe (CallTryDown s) k = map_option snd (sema_try_down k s)"
| "do_call pe (CallAcquire l) k = lock_acquire k l"
| "do_call pe (CallTryAcquire l) k = map_option snd (lock_try_acquire k l)"
| "do_call pe (CallRelease l) k = lock_release k l"
| "do_call pe (CallCondWait c l w) k = cond_wait k c l w"
| "do_call pe (CallCondSignal c l) k = cond_signal k c l"
| "do_call pe (CallCondBroadcast c l) k = cond_broadcast k c l"
| "do_call pe (CallRwAcquire rw w) k = rw_acquire k rw w"
| "do_call pe (CallRwRelease rw w) k = rw_release k rw w"
| "do_call pe (CallWriterTry rw) k = map_option snd (writer_try_acquire k rw)"
| "do_call pe CallYield k = thread_yield k"
| "do_call pe (CallSetPriority p) k = thread_set_priority k p"
| "do_call pe (CallSetNice n) k = thread_set_nice k n"
| "do_call pe (CallCreate nm p f aux page vi) k = thread_create k nm p f aux page vi"
| "do_call pe (CallSleep n st) k = timer_sleep k n st"
| "do_call pe CallExit k = thread_exit pe k"

text \<open>The timer is the device whose handler touches this state.\<close>

definition timer_handlers :: "nat \<Rightarrow> (kernel \<Rightarrow> kernel option) option" where
  "timer_handlers vec = (if vec = 0x20 then Some timer_interrupt else None)"

inductive kstep :: "(kernel \<Rightarrow> kernel option) \<Rightarrow> (kernel \<Rightarrow> kcall \<Rightarrow> bool) \<Rightarrow> kernel \<Rightarrow> kernel \<Rightarrow> bool"
  for pe ok where
  resume: "k_cont k (k_running k) \<noteq> [] \<Longrightarrow> resume pe k = Some k' \<Longrightarrow> kstep pe ok k k'"
| call: "k_cont k (k_running k) = [] \<Longrightarrow> ok k c \<Longrightarrow> do_call pe c k = Some k' \<Longrightarrow> kstep pe ok k k'"
| interrupt: "intr_on k \<Longrightarrow> vec \<in> {0x20..<0x30} \<Longrightarrow> external_interrupt timer_handlers k vec = Some k' \<Longrightarrow> kstep pe ok k k'"

inductive_cases kstepE: "kstep pe ok k k'"

end
