(* ===== verification/Kernel_Inv.thy ===== *)
theory Kernel_Inv
  imports Kernel_Run
begin

text \<open>
  The invariant of the scheduler and of the semaphores: there is exactly one running thread,
  the ready list holds exactly the ready threads (the idle thread apart), a thread waits on at
  most one semaphore and is then blocked, and priorities stay in range.  Updates of the parts
  of the state it does not speak of, switching threads and yielding preserve it.
\<close>

section \<open>The invariant\<close>

text \<open>A thread under construction is named by what is left of \<open>thread_create\<close> in its creator.\<close>

fun embryo :: "frame \<Rightarrow> ptr list" where
  "embryo (AllocateTid2 (FromCreate t f aux vi)) = [t]"
| "embryo (GotTid (FromCreate t f aux vi) tid) = [t]"
| "embryo _ = []"

fun starts_idle :: "frame \<Rightarrow> bool" where
  "starts_idle (AllocateTid2 (FromCreate t f aux vi)) \<longleftrightarrow> f = idle_function"
| "starts_idle (GotTid (FromCreate t f aux vi) tid) \<longleftrightarrow> f = idle_function"
| "starts_idle (KernelThread f aux) \<longleftrightarrow> f = idle_function"
| "starts_idle _ \<longleftrightarrow> False"

definition embryos :: "kernel \<Rightarrow> ptr \<Rightarrow> ptr list" where
  "embryos k p = concat (map embryo (k_cont k p))"

fun idle_frame :: "frame \<Rightarrow> bool" where
  "idle_frame (SetLevel _) \<longleftrightarrow> True"
| "idle_frame (IretLevel _) \<longleftrightarrow> True"
| "idle_frame _ \<longleftrightarrow> False"

definition idle_conts :: "frame list \<Rightarrow> bool" where
  "idle_conts fs \<longleftrightarrow> fs \<noteq> [] \<and> last fs \<in> {IdleLoop, IdleHlt} \<and> (\<forall>f \<in> set (butlast fs). idle_frame f)"

definition threads_ok :: "kernel \<Rightarrow> bool" where
  "threads_ok k \<longleftrightarrow> distinct (all_list k)
     \<and> (\<forall>t \<in> set (all_list k). is_thread k t
          \<and> PRI_MIN \<le> t_priority (k_threads k t) \<and> t_priority (k_threads k t) \<le> PRI_MAX
          \<and> (t_status (k_threads k t) = THREAD_RUNNING \<longrightarrow> t = k_running k))
     \<and> (\<forall>l. PRI_MIN \<le> l_priority (k_locks k l) \<and> l_priority (k_locks k l) \<le> PRI_MAX)"

definition ready_ok :: "kernel \<Rightarrow> bool" where
  "ready_ok k \<longleftrightarrow> distinct (ready_list k)
     \<and> set (ready_list k) = {t \<in> set (all_list k). t_status (k_threads k t) = THREAD_READY \<and> t \<noteq> idle_thread k}"

definition changed_ok :: "kernel \<Rightarrow> bool" where
  "changed_ok k \<longleftrightarrow> distinct (cpu_changed_list k)
     \<and> set (cpu_changed_list k) = {t \<in> set (all_list k). t_cpu_has_changed (k_threads k t)}
     \<and> (\<not> thread_mlfqs k \<longrightarrow> cpu_changed_list k = [])"

definition waiting_ok :: "kernel \<Rightarrow> ptr \<Rightarrow> bool" where
  "waiting_ok k t \<longleftrightarrow> t \<in> set (all_list k) \<and> t_status (k_threads k t) = THREAD_BLOCKED \<and> t \<noteq> idle_thread k"

definition waiters_ok :: "kernel \<Rightarrow> bool" where
  "waiters_ok k \<longleftrightarrow>
     (\<forall>s. distinct (s_waiters (k_semas k s)) \<and> (\<forall>t \<in> set (s_waiters (k_semas k s)). waiting_ok k t))
     \<and> (\<forall>s s'. s \<noteq> s' \<longrightarrow> set (s_waiters (k_semas k s)) \<inter> set (s_waiters (k_semas k s')) = {})"

definition embryos_ok :: "kernel \<Rightarrow> bool" where
  "embryos_ok k \<longleftrightarrow>
     (\<forall>p. distinct (embryos k p) \<and> (\<forall>t \<in> set (embryos k p). waiting_ok k t
        \<and> (\<forall>s. t \<notin> set (s_waiters (k_semas k s)))) \<and> (\<forall>f \<in> set (k_cont k p). \<not> starts_idle f))
     \<and> (\<forall>p p'. p \<noteq> p' \<longrightarrow> set (embryos k p) \<inter> set (embryos k p') = {})"

definition idle_ok :: "kernel \<Rightarrow> bool" where
  "idle_ok k \<longleftrightarrow> idle_thread k \<in> set (all_list k)
     \<and> (idle_thread k \<noteq> k_running k \<longrightarrow> idle_conts (k_cont k (idle_thread k)))"

lemmas inv_defs = threads_ok_def ready_ok_def changed_ok_def waiters_ok_def embryos_ok_def idle_ok_def
  waiting_ok_def embryos_def is_thread_def

text \<open>\<open>core\<close> leaves the state of the running thread open: it holds in the middle of a function,
  too.  \<open>kinv\<close> holds between steps.\<close>

definition core :: "kernel \<Rightarrow> bool" where
  "core k \<longleftrightarrow> threads_ok k \<and> ready_ok k \<and> changed_ok k \<and> waiters_ok k \<and> embryos_ok k \<and> idle_ok k"

definition active :: "kernel \<Rightarrow> bool" where
  "active k \<longleftrightarrow> core k \<and> k_running k \<in> set (all_list k)
     \<and> t_status (k_threads k (k_running k)) = THREAD_RUNNING"

definition kinv :: "kernel \<Rightarrow> bool" where
  "kinv k \<longleftrightarrow> active k \<and> (idle_thread k = k_running k \<longrightarrow> idle_conts (k_cont k (idle_thread k)))"

section \<open>Changes that do not matter\<close>

lemma core_irrelevant [simp]:
  "core (k\<lparr>intr_on := b\<rparr>) = core k" "core (k\<lparr>in_external_intr := b\<rparr>) = core k"
  "core (k\<lparr>yield_on_return := b\<rparr>) = core k" "core (k\<lparr>unexpected_cnt := uc\<rparr>) = core k"
  "core (k\<lparr>io_log := io\<rparr>) = core k" "core (k\<lparr>load_average := la\<rparr>) = core k"
  "core (k\<lparr>should_update_thread_priorities := b\<rparr>) = core k"
  "core (k\<lparr>idle_ticks := i\<rparr>) = core k" "core (k\<lparr>kernel_ticks := i\<rparr>) = core k"
  "core (k\<lparr>user_ticks := i\<rparr>) = core k" "core (k\<lparr>thread_ticks := n\<rparr>) = core k"
  "core (k\<lparr>ticks := i\<rparr>) = core k" "core (k\<lparr>sleeping_threads := ps\<rparr>) = core k"
  "core (k\<lparr>k_wake_time := wt\<rparr>) = core k" "core (k\<lparr>k_conds := cs\<rparr>) = core k"
  "core (k\<lparr>k_readers := rs\<rparr>) = core k" "core (k\<lparr>k_vitals := vs\<rparr>) = core k"
  "core (k\<lparr>next_tid := i\<rparr>) = core k" "core (k\<lparr>k_retval := rv\<rparr>) = core k"
  by (simp_all add: core_def inv_defs)

lemma active_irrelevant [simp]:
  "active (k\<lparr>intr_on := b\<rparr>) = active k" "active (k\<lparr>in_external_intr := b\<rparr>) = active k"
  "active (k\<lparr>yield_on_return := b\<rparr>) = active k" "active (k\<lparr>unexpected_cnt := uc\<rparr>) = active k"
  "active (k\<lparr>io_log := io\<rparr>) = active k" "active (k\<lparr>load_average := la\<rparr>) = active k"
  "active (k\<lparr>should_update_thread_priorities := b\<rparr>) = active k"
  "active (k\<lparr>idle_ticks := i\<rparr>) = active k" "active (k\<lparr>kernel_ticks := i\<rparr>) = active k"
  "active (k\<lparr>user_ticks := i\<rparr>) = active k" "active (k\<lparr>thread_ticks := n\<rparr>) = active k"
  "active (k\<lparr>ticks := i\<rparr>) = active k" "active (k\<lparr>sleeping_threads := ps\<rparr>) = active k"
  "active (k\<lparr>k_wake_time := wt\<rparr>) = active k" "active (k\<lparr>k_conds := cs\<rparr>) = active k"
  "active (k\<lparr>k_readers := rs\<rparr>) = active k" "active (k\<lparr>k_vitals := vs\<rparr>) = active k"
  "active (k\<lparr>next_tid := i\<rparr>) = active k" "active (k\<lparr>k_retval := rv\<rparr>) = active k"
  by (simp_all add: active_def)

lemma core_upd_thread:
  assumes "core k"
    and "t \<in> set (all_list k) \<Longrightarrow> t_status (f (k_threads k t)) = t_status (k_threads k t)
      \<and> t_magic (f (k_threads k t)) = t_magic (k_threads k t)
      \<and> t_cpu_has_changed (f (k_threads k t)) = t_cpu_has_changed (k_threads k t)
      \<and> PRI_MIN \<le> t_priority (f (k_threads k t)) \<and> t_priority (f (k_threads k t)) \<le> PRI_MAX"
  shows "core (upd_thread k t f)"
proof -
  have "threads_ok (upd_thread k t f)"
    using assms by (auto simp: core_def threads_ok_def is_thread_def)
  moreover have "ready_ok (upd_thread k t f)" "changed_ok (upd_thread k t f)"
    using assms by (auto simp: core_def ready_ok_def changed_ok_def)
  moreover have "waiting_ok (upd_thread k t f) x = waiting_ok k x" for x
    using assms(2) by (auto simp: waiting_ok_def)
  then have "waiters_ok (upd_thread k t f)" "embryos_ok (upd_thread k t f)"
    using assms by (simp_all add: core_def waiters_ok_def embryos_ok_def embryos_def)
  moreover have "idle_ok (upd_thread k t f)" using assms by (simp add: core_def idle_ok_def)
  ultimately show ?thesis by (simp add: core_def)
qed

lemma core_upd_lock:
  assumes "core k" "PRI_MIN \<le> l_priority (f (k_locks k l))" "l_priority (f (k_locks k l)) \<le> PRI_MAX"
  shows "core (upd_lock k l f)"
  using assms by (auto simp: core_def inv_defs upd_lock_def)

lemma core_semas:
  assumes "core k" "\<And>x. set (s_waiters (ss x)) \<subseteq> set (s_waiters (k_semas k x))"
    "\<And>x. distinct (s_waiters (ss x))"
  shows "core (k\<lparr>k_semas := ss\<rparr>)"
proof -
  have w: "waiters_ok k" and e: "embryos_ok k" using assms(1) by (simp_all add: core_def)
  have eq: "waiting_ok (k\<lparr>k_semas := ss\<rparr>) x = waiting_ok k x" "embryos (k\<lparr>k_semas := ss\<rparr>) x = embryos k x"
    for x by (simp_all add: waiting_ok_def embryos_def)
  have "\<forall>x. \<forall>t \<in> set (s_waiters (ss x)). waiting_ok k t"
    using w assms(2) by (fastforce simp: waiters_ok_def)
  moreover have "\<forall>x y. x \<noteq> y \<longrightarrow> set (s_waiters (ss x)) \<inter> set (s_waiters (ss y)) = {}"
  proof (intro allI impI)
    fix x y :: ptr assume "x \<noteq> y"
    then have "set (s_waiters (k_semas k x)) \<inter> set (s_waiters (k_semas k y)) = {}"
      using w by (simp add: waiters_ok_def)
    then show "set (s_waiters (ss x)) \<inter> set (s_waiters (ss y)) = {}" using assms(2) [of x] assms(2) [of y] by blast
  qed
  ultimately have "waiters_ok (k\<lparr>k_semas := ss\<rparr>)" by (simp add: waiters_ok_def eq assms(3))
  moreover have "embryos_ok (k\<lparr>k_semas := ss\<rparr>)"
  proof -
    have "t \<notin> set (s_waiters (ss x))" if "t \<in> set (embryos k p)" for t p x
      using e assms(2) [of x] that by (auto simp: embryos_ok_def)
    then show ?thesis using e by (simp add: embryos_ok_def eq)
  qed
  ultimately show ?thesis
    using assms(1) by (simp add: core_def threads_ok_def ready_ok_def changed_ok_def idle_ok_def is_thread_def)
qed

lemma core_upd_sema:
  assumes "core k" "set (s_waiters (f (k_semas k s))) \<subseteq> set (s_waiters (k_semas k s))"
    "distinct (s_waiters (f (k_semas k s)))"
  shows "core (upd_sema k s f)"
  unfolding upd_sema_def
  by (rule core_semas [OF assms(1)]) (use assms in \<open>auto simp: core_def waiters_ok_def\<close>)

lemma core_push_cont:
  assumes "core k" "embryo f = []" "\<not> starts_idle f"
  shows "core (push_cont k f)"
proof -
  have "embryos (push_cont k f) p = embryos k p" for p
    using assms(2) by (simp add: embryos_def)
  then show ?thesis
    using assms by (auto simp: core_def threads_ok_def ready_ok_def changed_ok_def waiters_ok_def
        embryos_ok_def idle_ok_def is_thread_def waiting_ok_def)
qed

section \<open>Switching\<close>

lemma core_refreshed:
  assumes "core k"
  shows "core (refreshed k)"
proof (cases "thread_mlfqs k \<and> should_update_thread_priorities k")
  case True
  have "threads_ok (refreshed k)"
    using assms mlfqs_priority_bounds True
    by (auto simp: core_def threads_ok_def is_thread_def refreshed_def refresh_thread_def)
  moreover have "changed_ok (refreshed k)"
    using assms True by (auto simp: core_def changed_ok_def refreshed_def refresh_thread_def)
  moreover have "waiting_ok (refreshed k) t = waiting_ok k t" for t by (simp add: waiting_ok_def)
  ultimately show ?thesis
    using assms by (simp add: core_def ready_ok_def waiters_ok_def embryos_ok_def idle_ok_def embryos_def)
next
  case False
  then show ?thesis using assms by (auto simp: refreshed_def)
qed

lemma chosen_cases:
  assumes "core k" "ready_list k \<noteq> []"
  shows "chosen k \<in> set (ready_list k)"
proof -
  have "\<forall>t \<in> set (ready_list k). t_priority (k_threads k t) \<le> PRI_MAX \<and> t \<noteq> NULL"
    using assms(1) by (auto simp: core_def ready_ok_def threads_ok_def is_thread_def)
  then show ?thesis
    using first_highest_mem [OF highest_loop_correct [OF assms(2)], of "k_threads k"] assms(2)
    by (simp add: chosen_def)
qed

lemma chosen_facts:
  assumes "core k"
  shows "chosen k \<in> set (all_list k)" "chosen k = idle_thread k \<or> t_status (k_threads k (chosen k)) = THREAD_READY"
  using chosen_cases [OF assms] assms
  by (cases "ready_list k = []"; auto simp: core_def ready_ok_def idle_ok_def chosen_def)+

lemma switched_kinv:
  assumes c: "core k" and sw: "switched k nxt k'" and nxt: "nxt \<in> set (all_list k)"
    "nxt = idle_thread k \<or> t_status (k_threads k nxt) = THREAD_READY"
    and nr: "t_status (k_threads k (k_running k)) \<noteq> THREAD_RUNNING"
    and idle: "k_running k = idle_thread k \<longrightarrow> idle_conts (k_cont k (idle_thread k))"
  shows "kinv k'"
proof -
  note [simp] = switched_simps [OF sw]
  have "threads_ok k'"
    using c nr by (auto simp: core_def threads_ok_def is_thread_def)
  moreover have "ready_ok k'"
    using c by (auto simp: core_def ready_ok_def)
  moreover have "changed_ok k'"
    using c by (auto simp: core_def changed_ok_def)
  moreover have w: "waiting_ok k' t = waiting_ok k t" for t
    using nxt by (auto simp: waiting_ok_def)
  then have "waiters_ok k'" "embryos_ok k'"
    using c by (simp_all add: core_def waiters_ok_def embryos_ok_def embryos_def)
  moreover have "idle_ok k'" "idle_conts (k_cont k (idle_thread k))"
    using c idle by (auto simp: core_def idle_ok_def)
  ultimately show ?thesis using nxt(1) by (auto simp: kinv_def active_def core_def)
qed

lemma schedule_kinv:
  assumes "core k" "schedule k = Some k'"
    and "k_running k = idle_thread k \<longrightarrow> idle_conts (k_cont k (idle_thread k))"
  shows "kinv k'"
proof -
  have d: "distinct (cpu_changed_list k)" using assms(1) by (simp add: core_def changed_ok_def)
  note s = schedule_switched [OF assms(2) d]
  note c = core_refreshed [OF assms(1)]
  show ?thesis
    by (rule switched_kinv [OF c s(4)]) (use chosen_facts [OF c] s(2) assms(3) in simp_all)
qed

lemma schedule_same:
  assumes "core k" "schedule k = Some k'"
  shows "all_list k' = all_list k" "idle_thread k' = idle_thread k" "k_semas k' = k_semas k"
    "k_locks k' = k_locks k" "k_cont k' = k_cont k" "thread_mlfqs k' = thread_mlfqs k"
    "\<not> intr_on k'" "in_external_intr k' = in_external_intr k"
proof -
  have d: "distinct (cpu_changed_list k)" using assms(1) by (simp add: core_def changed_ok_def)
  note s = schedule_switched [OF assms(2) d]
  show "all_list k' = all_list k" "idle_thread k' = idle_thread k" "k_semas k' = k_semas k"
    "k_locks k' = k_locks k" "k_cont k' = k_cont k" "thread_mlfqs k' = thread_mlfqs k"
    "\<not> intr_on k'" "in_external_intr k' = in_external_intr k"
    using switched_simps [OF s(4)] s(1) by simp_all
qed

text \<open>The running thread becomes ready: it joins the ready list unless it is the idle thread.\<close>

lemma core_to_ready:
  assumes "active k"
  shows "core (upd_thread (k\<lparr>ready_list := ready_list k @ (if k_running k = idle_thread k then [] else [k_running k])\<rparr>)
    (k_running k) (\<lambda>th. th\<lparr>t_status := THREAD_READY\<rparr>))" (is "core ?k")
proof -
  have c: "core k" and r: "k_running k \<in> set (all_list k)" "t_status (k_threads k (k_running k)) = THREAD_RUNNING"
    using assms by (auto simp: active_def)
  have "threads_ok ?k" using c by (auto simp: core_def threads_ok_def is_thread_def)
  moreover have "ready_ok ?k" using c r by (auto simp: core_def ready_ok_def)
  moreover have "changed_ok ?k" using c by (auto simp: core_def changed_ok_def)
  moreover have "waiting_ok ?k t = waiting_ok k t" for t using r by (auto simp: waiting_ok_def)
  then have "waiters_ok ?k" "embryos_ok ?k"
    using c by (auto simp: core_def waiters_ok_def embryos_ok_def embryos_def)
  moreover have "idle_ok ?k" using c by (auto simp: core_def idle_ok_def)
  ultimately show ?thesis by (simp add: core_def)
qed

lemma active_push_cont: "active k \<Longrightarrow> embryo f = [] \<Longrightarrow> \<not> starts_idle f \<Longrightarrow> active (push_cont k f)"
  by (simp add: active_def core_push_cont)

lemma idle_conts_Cons [simp]: "idle_frame f \<Longrightarrow> idle_conts fs \<Longrightarrow> idle_conts (f # fs)"
  by (auto simp: idle_conts_def)

lemma thread_yield_kinv:
  assumes "kinv k" "thread_yield k = Some k'"
  shows "kinv k'"
proof -
  let ?k1 = "k\<lparr>intr_on := False\<rparr>"
  let ?k2 = "upd_thread (?k1\<lparr>ready_list := ready_list ?k1 @ (if k_running ?k1 = idle_thread ?k1 then [] else [k_running ?k1])\<rparr>)
    (k_running ?k1) (\<lambda>th. th\<lparr>t_status := THREAD_READY\<rparr>)"
  have sch: "schedule (push_cont ?k2 (SetLevel (intr_on k))) = Some k'"
    using assms(2) by (cases "k_running k = idle_thread k")
      (auto simp: thread_yield_def intr_disable_def intr_get_level_def thread_current_def
        running_thread_def Let_def split: if_splits)
  have "core ?k2" by (rule core_to_ready) (use assms(1) in \<open>simp add: kinv_def\<close>)
  then have "core (push_cont ?k2 (SetLevel (intr_on k)))" by (rule core_push_cont) simp_all
  then show ?thesis by (rule schedule_kinv [OF _ sch]) (use assms(1) in \<open>auto simp: kinv_def\<close>)
qed

lemma kinv_push_cont:
  assumes "kinv k" "embryo f = []" "\<not> starts_idle f" "k_running k = idle_thread k \<longrightarrow> idle_frame f"
  shows "kinv (push_cont k f)"
  using assms by (auto simp: kinv_def active_push_cont)

lemma kinv_irrelevant [simp]:
  "kinv (k\<lparr>intr_on := b\<rparr>) = kinv k" "kinv (k\<lparr>in_external_intr := b\<rparr>) = kinv k"
  "kinv (k\<lparr>yield_on_return := b\<rparr>) = kinv k" "kinv (k\<lparr>unexpected_cnt := uc\<rparr>) = kinv k"
  "kinv (k\<lparr>io_log := io\<rparr>) = kinv k" "kinv (k\<lparr>load_average := la\<rparr>) = kinv k"
  "kinv (k\<lparr>should_update_thread_priorities := b\<rparr>) = kinv k"
  "kinv (k\<lparr>idle_ticks := i\<rparr>) = kinv k" "kinv (k\<lparr>kernel_ticks := i\<rparr>) = kinv k"
  "kinv (k\<lparr>user_ticks := i\<rparr>) = kinv k" "kinv (k\<lparr>thread_ticks := n\<rparr>) = kinv k"
  "kinv (k\<lparr>ticks := i\<rparr>) = kinv k" "kinv (k\<lparr>sleeping_threads := ps\<rparr>) = kinv k"
  "kinv (k\<lparr>k_wake_time := wt\<rparr>) = kinv k" "kinv (k\<lparr>k_conds := cs\<rparr>) = kinv k"
  "kinv (k\<lparr>k_readers := rs\<rparr>) = kinv k" "kinv (k\<lparr>k_vitals := vs\<rparr>) = kinv k"
  "kinv (k\<lparr>next_tid := i\<rparr>) = kinv k" "kinv (k\<lparr>k_retval := rv\<rparr>) = kinv k"
  by (simp_all add: kinv_def)

lemma kinv_upd_thread:
  assumes "kinv k"
    and "t_status (f (k_threads k t)) = t_status (k_threads k t)"
      "t_magic (f (k_threads k t)) = t_magic (k_threads k t)"
      "t_cpu_has_changed (f (k_threads k t)) = t_cpu_has_changed (k_threads k t)"
      "t \<in> set (all_list k) \<Longrightarrow> PRI_MIN \<le> t_priority (f (k_threads k t)) \<and> t_priority (f (k_threads k t)) \<le> PRI_MAX"
  shows "kinv (upd_thread k t f)"
  using assms core_upd_thread [of k t f] by (auto simp: kinv_def active_def)

lemma kinv_upd_lock:
  assumes "kinv k" "PRI_MIN \<le> l_priority (f (k_locks k l))" "l_priority (f (k_locks k l)) \<le> PRI_MAX"
  shows "kinv (upd_lock k l f)"
  using assms core_upd_lock [of k f l] by (auto simp: kinv_def active_def upd_lock_def)

lemma kinv_upd_sema:
  assumes "kinv k" "set (s_waiters (f (k_semas k s))) \<subseteq> set (s_waiters (k_semas k s))"
    "distinct (s_waiters (f (k_semas k s)))"
  shows "kinv (upd_sema k s f)"
  using assms core_upd_sema [of k f s] by (auto simp: kinv_def active_def upd_sema_def)

lemma kinv_waiters: "kinv k \<Longrightarrow> distinct (s_waiters (k_semas k s))"
  by (simp add: kinv_def active_def core_def waiters_ok_def)

lemma kinv_priority:
  "kinv k \<Longrightarrow> t \<in> set (all_list k) \<Longrightarrow> PRI_MIN \<le> t_priority (k_threads k t) \<and> t_priority (k_threads k t) \<le> PRI_MAX"
  "kinv k \<Longrightarrow> PRI_MIN \<le> l_priority (k_locks k l) \<and> l_priority (k_locks k l) \<le> PRI_MAX"
  by (simp_all add: kinv_def active_def core_def threads_ok_def)

lemma kinv_set_level: "kinv k \<Longrightarrow> intr_set_level k l = Some (b, k') \<Longrightarrow> kinv k'"
  by (auto simp: intr_set_level_def intr_enable_def intr_disable_def intr_get_level_def Let_def split: if_splits)

end
