(* ===== verification/Kernel_Inv_Ops.thy ===== *)
theory Kernel_Inv_Ops
  imports Kernel_Inv
begin

text \<open>
  The invariant is preserved by blocking and unblocking a thread and by the operations of
  semaphores.
\<close>

section \<open>Blocking\<close>

lemma core_to_blocked:
  assumes "active k"
  shows "core (upd_thread k (k_running k) (\<lambda>th. th\<lparr>t_status := THREAD_BLOCKED\<rparr>))" (is "core ?k")
proof -
  have c: "core k" and r: "k_running k \<in> set (all_list k)" "t_status (k_threads k (k_running k)) = THREAD_RUNNING"
    using assms by (auto simp: active_def)
  have st: "t_status (k_threads ?k t) = THREAD_READY \<longleftrightarrow> t_status (k_threads k t) = THREAD_READY" for t
    using r by auto
  have "threads_ok ?k" using c by (auto simp: core_def threads_ok_def is_thread_def)
  moreover have "ready_ok ?k" using c by (simp add: core_def ready_ok_def st del: upd_thread_simps(1))
  moreover have "changed_ok ?k" using c by (auto simp: core_def changed_ok_def)
  moreover have w: "waiting_ok k t \<Longrightarrow> waiting_ok ?k t" for t by (auto simp: waiting_ok_def)
  have "waiters_ok ?k" "embryos_ok ?k"
    using c w by (auto simp: core_def waiters_ok_def embryos_ok_def embryos_def)
  moreover have "idle_ok ?k" using c by (auto simp: core_def idle_ok_def)
  ultimately show ?thesis by (simp add: core_def)
qed

lemma not_waiting_running:
  assumes "active k"
  shows "\<not> waiting_ok k (k_running k)" "k_running k \<notin> set (s_waiters (k_semas k s))"
    "k_running k \<notin> set (embryos k p)"
  using assms by (auto simp: active_def core_def waiters_ok_def embryos_ok_def waiting_ok_def)

text \<open>The running thread joins the waiters of a semaphore and blocks.\<close>

lemma core_block_on:
  assumes "active k" "k_running k \<noteq> idle_thread k"
  shows "core (upd_thread (upd_sema k s (\<lambda>x. x\<lparr>s_waiters := s_waiters x @ [k_running k]\<rparr>)) (k_running k)
    (\<lambda>th. th\<lparr>t_status := THREAD_BLOCKED\<rparr>))" (is "core ?k")
proof -
  let ?b = "upd_thread k (k_running k) (\<lambda>th. th\<lparr>t_status := THREAD_BLOCKED\<rparr>)"
  have b: "core ?b" by (rule core_to_blocked [OF assms(1)])
  have eq: "threads_ok ?k = threads_ok ?b" "ready_ok ?k = ready_ok ?b" "changed_ok ?k = changed_ok ?b"
    "idle_ok ?k = idle_ok ?b" "\<And>t. waiting_ok ?k t = waiting_ok ?b t" "\<And>p. embryos ?k p = embryos ?b p"
    by (simp_all add: inv_defs upd_sema_def)
  have w: "waiting_ok ?b (k_running k)" using assms by (auto simp: waiting_ok_def active_def)
  have "waiters_ok ?k"
    using b w not_waiting_running(2) [OF assms(1)] unfolding waiters_ok_def eq
    by (auto simp: core_def waiters_ok_def upd_sema_def)
  moreover have "embryos_ok ?k"
    using b not_waiting_running(3) [OF assms(1)] unfolding embryos_ok_def eq
    by (auto simp: core_def embryos_ok_def upd_sema_def embryos_def)
  ultimately show ?thesis using b eq by (simp add: core_def)
qed

lemma thread_block_kinv:
  assumes "active k" "thread_block k = Some k'"
    and "k_running k = idle_thread k \<longrightarrow> idle_conts (k_cont k (idle_thread k))"
  shows "kinv k'"
proof -
  have "schedule (upd_thread k (k_running k) (\<lambda>th. th\<lparr>t_status := THREAD_BLOCKED\<rparr>)) = Some k'"
    using assms(2) by (auto simp: thread_block_def thread_current_def running_thread_def Let_def split: if_splits)
  then show ?thesis
    by (rule schedule_kinv [OF core_to_blocked [OF assms(1)]]) (use assms(3) in simp)
qed

lemma upd_thread_push_cont: "upd_thread (push_cont k f) t g = push_cont (upd_thread k t g) f"
  by (cases k) (simp add: upd_thread_def push_cont_def)

lemma sema_down_loop_kinv:
  assumes "kinv k" "k_running k \<noteq> idle_thread k" "sema_down_loop k s l = Some k'"
  shows "kinv k'"
proof (cases "s_value (k_semas k s) = 0")
  case True
  let ?k1 = "upd_sema k s (\<lambda>x. x\<lparr>s_waiters := s_waiters x @ [k_running k]\<rparr>)"
  let ?k2 = "push_cont (upd_thread ?k1 (k_running k) (\<lambda>th. th\<lparr>t_status := THREAD_BLOCKED\<rparr>)) (SemaDownLoop s l)"
  have "schedule ?k2 = Some k'"
    using assms(3) True
    by (auto simp: sema_down_loop_def thread_block_def thread_current_def running_thread_def Let_def
        upd_thread_push_cont upd_sema_def split: if_splits)
  moreover have "core ?k2"
    by (rule core_push_cont [OF core_block_on]) (use assms in \<open>auto simp: kinv_def\<close>)
  ultimately show ?thesis
    by (intro schedule_kinv [of ?k2]) (use assms(2) in \<open>simp_all add: upd_sema_def\<close>)
next
  case False
  then obtain b where "intr_set_level (upd_sema k s (\<lambda>s. s\<lparr>s_value := s_value s - 1\<rparr>)) l = Some (b, k')"
    using assms(3) by (auto simp: sema_down_loop_def)
  then show ?thesis
    by (rule kinv_set_level [rotated]) (intro kinv_upd_sema, use assms(1) kinv_waiters in auto)
qed

lemma sema_down_kinv:
  assumes "kinv k" "k_running k \<noteq> idle_thread k" "sema_down k s = Some k'"
  shows "kinv k'"
  using assms sema_down_loop_kinv [of "k\<lparr>intr_on := False\<rparr>" s "intr_on k" k']
  by (auto simp: sema_down_def intr_disable_def intr_get_level_def Let_def split: if_splits)

lemma sema_try_down_kinv:
  assumes "kinv k" "sema_try_down k s = Some (b, k')"
  shows "kinv k' \<and> k_running k' = k_running k \<and> all_list k' = all_list k \<and> idle_thread k' = idle_thread k"
proof -
  have "kinv (upd_sema k s (\<lambda>s. s\<lparr>s_value := s_value s - 1\<rparr>))"
    by (rule kinv_upd_sema) (use assms(1) kinv_waiters in auto)
  then show ?thesis
    using assms by (auto simp: sema_try_down_def intr_disable_def intr_get_level_def Let_def
        intr_set_level_def intr_enable_def upd_sema_def split: if_splits)
qed

section \<open>Unblocking\<close>

lemma kinv_to_ready:
  assumes "kinv k" "waiting_ok k t" "\<And>s. t \<notin> set (s_waiters (k_semas k s))" "\<And>p. t \<notin> set (embryos k p)"
  shows "kinv (upd_thread (k\<lparr>ready_list := ready_list k @ [t]\<rparr>) t (\<lambda>th. th\<lparr>t_status := THREAD_READY\<rparr>))"
    (is "kinv ?k")
proof -
  have c: "core k" using assms(1) by (simp add: kinv_def active_def)
  have t: "t \<in> set (all_list k)" "t_status (k_threads k t) = THREAD_BLOCKED" "t \<noteq> idle_thread k"
    "t \<noteq> k_running k"
    using assms(1,2) by (auto simp: waiting_ok_def kinv_def active_def)
  have "threads_ok ?k" using c by (auto simp: core_def threads_ok_def is_thread_def)
  moreover have "ready_ok ?k"
  proof -
    have "t \<notin> set (ready_list k)" using c t(2) by (simp add: core_def ready_ok_def)
    moreover have "{x \<in> set (all_list k). t_status (k_threads ?k x) = THREAD_READY \<and> x \<noteq> idle_thread k}
      = insert t {x \<in> set (all_list k). t_status (k_threads k x) = THREAD_READY \<and> x \<noteq> idle_thread k}"
      using t by auto
    ultimately show ?thesis using c by (simp add: core_def ready_ok_def del: upd_thread_simps(1))
  qed
  moreover have "changed_ok ?k" using c by (auto simp: core_def changed_ok_def)
  moreover have w: "x \<noteq> t \<Longrightarrow> waiting_ok ?k x = waiting_ok k x" for x by (auto simp: waiting_ok_def)
  have "\<forall>s. \<forall>x \<in> set (s_waiters (k_semas k s)). waiting_ok ?k x"
    using c assms(3) w unfolding core_def waiters_ok_def by metis
  then have "waiters_ok ?k"
    using c by (simp add: core_def waiters_ok_def)
  moreover have e: "embryos ?k p = embryos k p" for p by (simp add: embryos_def)
  have "\<forall>p. \<forall>x \<in> set (embryos k p). waiting_ok ?k x"
    using c assms(4) w unfolding core_def embryos_ok_def by metis
  then have "embryos_ok ?k"
    using c by (simp add: core_def embryos_ok_def e)
  moreover have "idle_ok ?k" using c by (auto simp: core_def idle_ok_def)
  ultimately have "core ?k" by (simp add: core_def)
  then show ?thesis using assms(1) t(4) by (simp add: kinv_def active_def)
qed

lemma thread_unblock_kinv:
  assumes "kinv k" "waiting_ok k t" "\<And>s. t \<notin> set (s_waiters (k_semas k s))" "\<And>p. t \<notin> set (embryos k p)"
    "thread_unblock k t = Some k'"
  shows "kinv k'"
proof -
  let ?k = "k\<lparr>intr_on := False\<rparr>"
  let ?k2 = "upd_thread (?k\<lparr>ready_list := ready_list ?k @ [t]\<rparr>) t (\<lambda>th. th\<lparr>t_status := THREAD_READY\<rparr>)"
  have k2: "kinv ?k2"
    by (rule kinv_to_ready) (use assms in \<open>simp_all add: waiting_ok_def embryos_def\<close>)
  then have "kinv (push_cont ?k2 (SetLevel (intr_on k)))" by (rule kinv_push_cont) simp_all
  moreover have "thread_yield (push_cont ?k2 (SetLevel (intr_on k))) = Some k'
      \<or> map_option snd (intr_set_level ?k2 (intr_on k)) = Some k'"
  proof (cases "intr_on k")
    case True
    then show ?thesis
      using assms(5) by (cases "thread_current ?k2")
        (simp_all add: thread_unblock_def intr_disable_def intr_get_level_def Let_def split: if_splits)
  next
    case False
    then show ?thesis
      using assms(5) by (simp add: thread_unblock_def intr_disable_def intr_get_level_def Let_def split: if_splits)
  qed
  ultimately show ?thesis using thread_yield_kinv kinv_set_level [OF k2] by (elim disjE) auto
qed

section \<open>Semaphores and locks\<close>

lemma intr_same [simp]: "b = intr_on k \<Longrightarrow> k\<lparr>intr_on := b\<rparr> = k"
  by simp

lemma intr_disable_eq: "intr_disable k = (intr_on k, k\<lparr>intr_on := False\<rparr>)"
  by (simp add: intr_disable_def intr_get_level_def)

lemma intr_set_level_eq:
  "intr_set_level k l = Some (b, k') \<Longrightarrow> k' = k\<lparr>intr_on := l\<rparr>"
  by (auto simp: intr_set_level_def intr_enable_def intr_disable_eq split: if_splits)

lemma intr_restore: "intr_set_level (k\<lparr>intr_on := False\<rparr>) (intr_on k) = Some (b, k') \<Longrightarrow> k' = k"
  by (drule intr_set_level_eq) simp

lemma get_highest_eq:
  assumes "get_highest_priority_thread k lst b = Some (h, lst', k')"
  shows "h = highest_loop (k_threads k) lst NULL" "lst' = (if h \<noteq> NULL \<and> b then remove1 h lst else lst)" "k' = k"
proof -
  have "intr_set_level (k\<lparr>intr_on := False\<rparr>) (intr_on k) \<noteq> None"
    using assms unfolding get_highest_priority_thread_def intr_disable_eq Let_def
    by (metis (no_types, lifting) bind_eq_None_conv case_prod_conv option.distinct(1))
  then obtain b' k2 where l: "intr_set_level (k\<lparr>intr_on := False\<rparr>) (intr_on k) = Some (b', k2)" by auto
  from intr_restore [OF l] show "h = highest_loop (k_threads k) lst NULL"
    "lst' = (if h \<noteq> NULL \<and> b then remove1 h lst else lst)" "k' = k"
    using assms l by (auto simp: get_highest_priority_thread_def intr_disable_eq Let_def)
qed

lemma kinv_disjoint_waiters:
  assumes "kinv k" "t \<in> set (s_waiters (k_semas k s))"
  shows "waiting_ok k t" "x \<noteq> s \<Longrightarrow> t \<notin> set (s_waiters (k_semas k x))" "t \<notin> set (embryos k p)"
proof -
  have w: "waiters_ok k" and e: "embryos_ok k" using assms(1) by (simp_all add: kinv_def active_def core_def)
  show "waiting_ok k t" using w assms(2) by (auto simp: waiters_ok_def)
  show "x \<noteq> s \<Longrightarrow> t \<notin> set (s_waiters (k_semas k x))"
    using w assms(2) unfolding waiters_ok_def by (metis disjoint_iff)
  show "t \<notin> set (embryos k p)" using e assms(2) by (auto simp: embryos_ok_def)
qed

lemma kinv_is_thread: "kinv k \<Longrightarrow> t \<in> set (all_list k) \<Longrightarrow> is_thread k t"
  by (simp add: kinv_def active_def core_def threads_ok_def)

lemma waiters_highest:
  assumes "kinv k" "s_waiters (k_semas k s) \<noteq> []"
  shows "first_highest (k_threads k) (s_waiters (k_semas k s)) (highest_loop (k_threads k) (s_waiters (k_semas k s)) NULL)"
proof (rule highest_loop_correct [OF assms(2)], rule ballI)
  fix t assume "t \<in> set (s_waiters (k_semas k s))"
  then have "t \<in> set (all_list k)" using kinv_disjoint_waiters(1) [OF assms(1)] by (auto simp: waiting_ok_def)
  then show "t_priority (k_threads k t) \<le> PRI_MAX \<and> t \<noteq> NULL"
    using kinv_priority(1) [OF assms(1)] kinv_is_thread [OF assms(1)] by (auto simp: is_thread_def)
qed

lemma upd_sema_simps [simp]:
  "k_semas (upd_sema k s f) = (k_semas k)(s := f (k_semas k s))"
  "k_threads (upd_sema k s f) = k_threads k" "k_running (upd_sema k s f) = k_running k"
  "all_list (upd_sema k s f) = all_list k" "idle_thread (upd_sema k s f) = idle_thread k"
  "k_cont (upd_sema k s f) = k_cont k" "in_external_intr (upd_sema k s f) = in_external_intr k"
  "intr_on (upd_sema k s f) = intr_on k" "k_locks (upd_sema k s f) = k_locks k"
  "thread_mlfqs (upd_sema k s f) = thread_mlfqs k" "tid_lock (upd_sema k s f) = tid_lock k"
  "ticks (upd_sema k s f) = ticks k" "k_wake_time (upd_sema k s f) = k_wake_time k"
  by (simp_all add: upd_sema_def)

text \<open>With interrupts off \<open>thread_unblock\<close> does not switch.\<close>

lemma thread_unblock_off:
  assumes "\<not> intr_on k" "thread_unblock k t = Some k'"
  shows "k' = upd_thread (k\<lparr>ready_list := ready_list k @ [t]\<rparr>) t (\<lambda>th. th\<lparr>t_status := THREAD_READY\<rparr>)"
  using assms by (auto simp: thread_unblock_def intr_disable_eq intr_set_level_def Let_def split: if_splits)

definition sema_wake :: "kernel \<Rightarrow> ptr \<Rightarrow> kernel option" where
  "sema_wake k sema = (if s_waiters (k_semas k sema) \<noteq> [] then do {
     (t, ws, k') \<leftarrow> get_highest_priority_thread k (s_waiters (k_semas k sema)) True;
     ASSERT (t \<noteq> NULL);
     thread_unblock (upd_sema k' sema (\<lambda>s. s\<lparr>s_waiters := ws\<rparr>)) t }
   else Some k)"

lemma sema_wake_kinv:
  assumes "kinv k" "\<not> intr_on k" "sema_wake k s = Some k'"
  shows "kinv k'" "k_running k' = k_running k" "all_list k' = all_list k" "idle_thread k' = idle_thread k"
    "\<not> intr_on k'" "in_external_intr k' = in_external_intr k" "k_cont k' = k_cont k"
    "ticks k' = ticks k" "k_wake_time k' = k_wake_time k" "tid_lock k' = tid_lock k"
proof -
  let ?ws = "s_waiters (k_semas k s)"
  have "kinv k' \<and> k_running k' = k_running k \<and> all_list k' = all_list k \<and> idle_thread k' = idle_thread k
    \<and> \<not> intr_on k' \<and> in_external_intr k' = in_external_intr k \<and> k_cont k' = k_cont k
    \<and> ticks k' = ticks k \<and> k_wake_time k' = k_wake_time k \<and> tid_lock k' = tid_lock k"
  proof (cases "?ws = []")
    case True
    then show ?thesis using assms by (simp add: sema_wake_def)
  next
    case False
    let ?h = "highest_loop (k_threads k) ?ws NULL"
    let ?k1 = "upd_sema k s (\<lambda>s. s\<lparr>s_waiters := remove1 ?h ?ws\<rparr>)"
    obtain t ws k0 where g: "get_highest_priority_thread k ?ws True = Some (t, ws, k0)" "t \<noteq> NULL"
      "thread_unblock (upd_sema k0 s (\<lambda>s. s\<lparr>s_waiters := ws\<rparr>)) t = Some k'"
      using assms(3) False unfolding sema_wake_def by (auto split: Option.bind_splits if_splits)
    then have un: "thread_unblock ?k1 ?h = Some k'" using get_highest_eq [OF g(1)] by simp
    have h: "?h \<in> set ?ws" by (rule first_highest_mem [OF waiters_highest [OF assms(1) False]])
    have d: "distinct ?ws" by (rule kinv_waiters [OF assms(1)])
    have k1: "kinv ?k1"
      by (rule kinv_upd_sema [OF assms(1)]) (use d notin_set_remove1 in \<open>auto dest: set_remove1_subset [THEN subsetD]\<close>)
    have "kinv k'"
      by (rule thread_unblock_kinv [OF k1 _ _ _ un])
        (use kinv_disjoint_waiters [OF assms(1) h] d in \<open>auto simp: waiting_ok_def embryos_def\<close>)
    then show ?thesis using thread_unblock_off [OF _ un] assms(2) by simp
  qed
  then show "kinv k'" "k_running k' = k_running k" "all_list k' = all_list k" "idle_thread k' = idle_thread k"
    "\<not> intr_on k'" "in_external_intr k' = in_external_intr k" "k_cont k' = k_cont k"
    "ticks k' = ticks k" "k_wake_time k' = k_wake_time k" "tid_lock k' = tid_lock k" by simp_all
qed

lemma sema_up_eq:
  "sema_up k sema = do {
     ASSERT (sema \<noteq> NULL);
     let (old_level, k1) = intr_disable k;
     k2 \<leftarrow> sema_wake k1 sema;
     let k3 = upd_sema k2 sema (\<lambda>s. s\<lparr>s_value := (s_value s + 1) mod 2 ^ 32\<rparr>);
     if \<not> intr_context k3 then thread_yield (push_cont k3 (SetLevel old_level))
     else map_option snd (intr_set_level k3 old_level) }"
  unfolding sema_up_def sema_wake_def ..

lemma sema_up_kinv:
  assumes "kinv k" "sema_up k s = Some k'"
  shows "kinv k'"
proof -
  let ?k0 = "k\<lparr>intr_on := False\<rparr>"
  obtain k2 where k2: "sema_wake ?k0 s = Some k2"
    and k': "(if \<not> intr_context (upd_sema k2 s (\<lambda>s. s\<lparr>s_value := (s_value s + 1) mod 2 ^ 32\<rparr>))
       then thread_yield (push_cont (upd_sema k2 s (\<lambda>s. s\<lparr>s_value := (s_value s + 1) mod 2 ^ 32\<rparr>)) (SetLevel (intr_on k)))
       else map_option snd (intr_set_level (upd_sema k2 s (\<lambda>s. s\<lparr>s_value := (s_value s + 1) mod 2 ^ 32\<rparr>)) (intr_on k))) = Some k'"
    using assms(2) unfolding sema_up_eq
    by (auto simp: intr_disable_def intr_get_level_def Let_def elim!: bind_eq_SomeE split: if_splits)
  have k2': "kinv k2" by (rule sema_wake_kinv(1) [OF _ _ k2]) (use assms(1) in simp_all)
  have k3: "kinv (upd_sema k2 s (\<lambda>s. s\<lparr>s_value := (s_value s + 1) mod 2 ^ 32\<rparr>))" (is "kinv ?k3")
    by (rule kinv_upd_sema [OF k2']) (use kinv_waiters [OF k2'] in simp_all)
  have "kinv (push_cont ?k3 (SetLevel (intr_on k)))" by (rule kinv_push_cont [OF k3]) simp_all
  then show ?thesis
    using k' thread_yield_kinv kinv_set_level [OF k3] by (auto split: if_splits)
qed

end
