(* ===== verification/Arith64.thy ===== *)
theory Arith64
  imports Prelude
begin

text \<open>
  64-bit division on a 32-bit processor (\<open>lib/arithmetic.c\<close>).  Values of type \<open>uint64_t\<close> and
  \<open>uint32_t\<close> are natural numbers below \<open>2 ^ 64\<close> and \<open>2 ^ 32\<close>; every operation that may leave the
  range is reduced.  Signed values are integers.
\<close>

section \<open>Definitions\<close>

definition u64_sub :: "nat \<Rightarrow> nat \<Rightarrow> nat" where
  "u64_sub a b = (a + 2 ^ 64 - b mod 2 ^ 64) mod 2 ^ 64"

text \<open>The \<open>divl\<close> instruction faults on a zero divisor and when the quotient does not fit.\<close>

definition divl :: "nat \<Rightarrow> nat \<Rightarrow> nat option" where
  "divl n d = (if d = 0 \<or> n div d \<ge> 2 ^ 32 then None else Some (n div d))"

text \<open>One halving step of \<open>nlz\<close> on the pair of count and shifted argument.\<close>

definition nlz_step :: "nat \<Rightarrow> nat \<Rightarrow> nat \<times> nat \<Rightarrow> nat \<times> nat" where
  "nlz_step lim m p = (if snd p \<le> lim then (fst p + m, snd p * 2 ^ m mod 2 ^ 32) else p)"

definition nlz :: "nat \<Rightarrow> nat" where
  "nlz x =
     (let p = nlz_step 0x0000FFFF 16 (0, x);
          p = nlz_step 0x00FFFFFF 8 p;
          p = nlz_step 0x0FFFFFFF 4 p;
          p = nlz_step 0x3FFFFFFF 2 p
      in if snd p \<le> 0x7FFFFFFF then fst p + 1 else fst p)"

definition udiv64 :: "nat \<Rightarrow> nat \<Rightarrow> nat option" where
  "udiv64 n d =
     (if d div 2 ^ 32 = 0 then
        (let b = 2 ^ 32; n1 = n div 2 ^ 32; n0 = n mod 2 ^ 32; d0 = d mod 2 ^ 32 in
         if d0 = 0 then None
         else do {
           q \<leftarrow> divl ((b * (n1 mod d0) + n0) mod 2 ^ 64) d0;
           Some ((q + b * (n1 div d0)) mod 2 ^ 64) })
      else if n < d then Some 0
      else do {
        let d1 = d div 2 ^ 32;
        let s = nlz d1;
        q' \<leftarrow> divl (n div 2) ((d * 2 ^ s mod 2 ^ 64) div 2 ^ 32);
        let q = q' div 2 ^ (31 - s);
        Some (if u64_sub n (u64_sub q 1 * d mod 2 ^ 64) < d then u64_sub q 1 else q) })"

definition umod64 :: "nat \<Rightarrow> nat \<Rightarrow> nat option" where
  "umod64 n d = do {
     q \<leftarrow> udiv64 n d;
     Some (u64_sub n (d * q mod 2 ^ 64) mod 2 ^ 32) }"

definition to_int64 :: "int \<Rightarrow> int" where
  "to_int64 x = signed_take_bit 63 x"

definition sdiv64 :: "int \<Rightarrow> int \<Rightarrow> int option" where
  "sdiv64 n d = do {
     let n_abs = nat \<bar>n\<bar>;
     let d_abs = nat \<bar>d\<bar>;
     q_abs \<leftarrow> udiv64 n_abs d_abs;
     Some (if (n < 0) = (d < 0) then to_int64 (int q_abs) else to_int64 (- to_int64 (int q_abs))) }"

definition smod64 :: "int \<Rightarrow> int \<Rightarrow> int option" where
  "smod64 n d = do {
     q \<leftarrow> sdiv64 n d;
     Some (signed_take_bit 31 (n - d * q)) }"

definition divdi3 :: "int \<Rightarrow> int \<Rightarrow> int option" where
  "divdi3 n d = sdiv64 n d"

definition moddi3 :: "int \<Rightarrow> int \<Rightarrow> int option" where
  "moddi3 n d = smod64 n d"

definition udivdi3 :: "nat \<Rightarrow> nat \<Rightarrow> nat option" where
  "udivdi3 n d = udiv64 n d"

definition umoddi3 :: "nat \<Rightarrow> nat \<Rightarrow> nat option" where
  "umoddi3 n d = umod64 n d"

section \<open>Leading zeros\<close>

definition nlz_ok :: "nat \<Rightarrow> nat \<Rightarrow> nat \<times> nat \<Rightarrow> bool" where
  "nlz_ok x m p \<longleftrightarrow> snd p = x * 2 ^ fst p \<and> 2 ^ (32 - m) \<le> snd p \<and> snd p < 2 ^ 32 \<and> fst p + m \<le> 32"

lemma nlz_step_ok:
  assumes "nlz_ok x m2 p" "m2 = 2 * m" "m \<le> 16" "lim = 2 ^ (32 - m) - 1"
  shows "nlz_ok x m (nlz_step lim m p)"
proof (cases "snd p < 2 ^ (32 - m)")
  case True
  have e: "(2::nat) ^ (32 - m) = 2 ^ (32 - m2) * 2 ^ m" "(2::nat) ^ 32 = 2 ^ (32 - m) * 2 ^ m"
    using assms(2,3) by (simp_all flip: power_add)
  have lt: "snd p * 2 ^ m < 2 ^ 32" using True unfolding e(2) by simp
  moreover have "snd p \<le> lim" using True assms(4) by linarith
  ultimately have st: "nlz_step lim m p = (fst p + m, snd p * 2 ^ m)"
    by (simp add: nlz_step_def)
  have "2 ^ (32 - m) \<le> snd p * 2 ^ m" using assms(1) unfolding e(1) nlz_ok_def by simp
  then show ?thesis using assms lt st by (simp add: nlz_ok_def power_add)
next
  case False
  then have "\<not> snd p \<le> lim"
    unfolding assms(4) by (metis One_nat_def Suc_pred le_imp_less_Suc zero_less_numeral zero_less_power)
  then show ?thesis using assms False by (auto simp: nlz_ok_def nlz_step_def)
qed

lemma nlz_bounds:
  assumes "0 < x" "x < 2 ^ 32"
  shows "nlz x \<le> 31" "2 ^ 31 \<le> x * 2 ^ nlz x" "x * 2 ^ nlz x < 2 ^ 32"
proof -
  let ?p = "nlz_step 0x3FFFFFFF 2 (nlz_step 0x0FFFFFFF 4 (nlz_step 0x00FFFFFF 8 (nlz_step 0x0000FFFF 16 (0, x))))"
  have "nlz_ok x 32 (0, x)" using assms by (simp add: nlz_ok_def)
  then have "nlz_ok x 2 ?p"
    by (intro nlz_step_ok [of x 4 _ 2] nlz_step_ok [of x 8 _ 4]
        nlz_step_ok [of x 16 _ 8] nlz_step_ok [of x 32 _ 16]) simp_all
  then have "nlz_ok x 1 (nlz_step 0x7FFFFFFF 1 ?p)"
    by (rule nlz_step_ok) simp_all
  moreover have "nlz x = fst (nlz_step 0x7FFFFFFF 1 ?p)"
    unfolding nlz_def Let_def nlz_step_def [of "0x7FFFFFFF"] by simp
  ultimately show "nlz x \<le> 31" "2 ^ 31 \<le> x * 2 ^ nlz x" "x * 2 ^ nlz x < 2 ^ 32"
    by (simp_all add: nlz_ok_def)
qed

section \<open>Division\<close>

lemma div_by_parts:
  fixes n d b n1 n0 :: nat
  assumes "0 < d" "n = b * n1 + n0"
  shows "n div d = b * (n1 div d) + (b * (n1 mod d) + n0) div d"
proof -
  have "b * n1 = d * (b * (n1 div d)) + b * (n1 mod d)"
    by (metis (no_types, opaque_lifting) distrib_left mult.left_commute mult_div_mod_eq)
  then have "n = d * (b * (n1 div d)) + (b * (n1 mod d) + n0)" using assms(2) by simp
  then show ?thesis using assms(1) by simp
qed

lemma udiv64_small:
  assumes "0 < d" "d < 2 ^ 32" "n < 2 ^ 64"
  shows "udiv64 n d = Some (n div d)"
proof -
  let ?b = "2 ^ 32 :: nat" and ?n1 = "n div 2 ^ 32" and ?n0 = "n mod 2 ^ 32"
  have n1: "?n1 < ?b" using assms(3) by (simp add: less_mult_imp_div_less)
  have r: "?n1 mod d < d" "?n0 < ?b" using assms(1) by simp_all
  have "?b * (?n1 mod d) + ?n0 < ?b * d"
  proof -
    have "?b * (?n1 mod d + 1) \<le> ?b * d" using r(1) by (intro mult_le_mono2) simp
    then show ?thesis using r(2) by simp
  qed
  moreover have "?b * d \<le> ?b * ?b" using assms(2) by (intro mult_le_mono2) simp
  ultimately have fit: "(?b * (?n1 mod d) + ?n0) mod 2 ^ 64 = ?b * (?n1 mod d) + ?n0"
    "(?b * (?n1 mod d) + ?n0) div d < ?b"
    by (simp_all add: less_mult_imp_div_less)
  have "n div d = ?b * (?n1 div d) + (?b * (?n1 mod d) + ?n0) div d"
    by (rule div_by_parts [OF assms(1)]) simp
  moreover have "n div d < 2 ^ 64" using assms by (meson div_le_dividend le_less_trans)
  ultimately have "((?b * (?n1 mod d) + ?n0) div d + ?b * (?n1 div d)) mod 2 ^ 64 = n div d"
    by (metis add.commute mod_less)
  moreover have "divl (?b * (?n1 mod d) + ?n0) d = Some ((?b * (?n1 mod d) + ?n0) div d)"
    using fit(2) assms(1) unfolding divl_def by (metis gr_implies_not_zero not_le)
  moreover have "d div 2 ^ 32 = 0" "d mod 2 ^ 32 = d" "d \<noteq> 0" using assms by simp_all
  ultimately show ?thesis
    using fit(1) unfolding udiv64_def Let_def by (simp only: refl if_True if_False bind.bind_lunit)
qed

text \<open>The divisor is at least \<open>2 ^ 32\<close>: the quotient by its top 32 significant bits is
  the true quotient or one more.\<close>

lemma approx_quotient:
  fixes n d s :: nat
  assumes n: "n < 2 ^ 64" and d: "2 ^ (63 - s) \<le> d" and s: "s \<le> 31"
  defines "D \<equiv> d div 2 ^ (32 - s) * 2 ^ (32 - s)"
  shows "n div d \<le> n div D" "n div D \<le> n div d + 1"
proof -
  let ?e = "32 - s" and ?Q = "n div d"
  have p: "(2::nat) ^ (63 - s) = 2 ^ 31 * 2 ^ ?e" "(2::nat) ^ 64 = 2 ^ (s + 1) * 2 ^ (63 - s)"
    "(2::nat) ^ (s + 1) * 2 ^ ?e = 2 ^ 33"
  proof -
    have "63 - s = 31 + ?e" "64 = (s + 1) + (63 - s)" "(s + 1) + ?e = 33" using s by simp_all
    then show "(2::nat) ^ (63 - s) = 2 ^ 31 * 2 ^ ?e" "(2::nat) ^ 64 = 2 ^ (s + 1) * 2 ^ (63 - s)"
      "(2::nat) ^ (s + 1) * 2 ^ ?e = 2 ^ 33"
      by (metis power_add)+
  qed
  have Dle: "D \<le> d" unfolding D_def by (rule div_times_less_eq_dividend)
  have dD: "d - D \<le> 2 ^ ?e - 1"
    unfolding D_def by (metis minus_mult_div_eq_mod mod_less_divisor mult.commute Suc_pred less_Suc_eq_le
        zero_less_numeral zero_less_power One_nat_def)
  have Dge: "2 ^ (63 - s) \<le> D"
  proof -
    have "2 ^ 31 \<le> d div 2 ^ ?e"
      using div_le_mono [OF d, of "2 ^ ?e"] unfolding p(1) by simp
    then show ?thesis unfolding D_def p(1) by (intro mult_le_mono1)
  qed
  then have pos: "0 < D" by (metis gr0I le_zero_eq power_eq_0_iff zero_neq_numeral)
  show "?Q \<le> n div D" using Dle pos by (rule div_le_mono2 [rotated])
  have "?Q < 2 ^ (s + 1)"
    using n d unfolding p(2) by (metis div_le_mono2 less_mult_imp_div_less le_less_trans zero_less_numeral zero_less_power)
  then have "(?Q + 1) * (d - D) \<le> 2 ^ (s + 1) * (2 ^ ?e - 1)"
    using dD by (intro mult_le_mono) simp_all
  also have "\<dots> = 2 ^ 33 - 2 ^ (s + 1)" by (simp only: diff_mult_distrib2 p(3) mult_1_right)
  also have "\<dots> \<le> D"
  proof (cases "s = 31")
    case True
    then show ?thesis using Dge by simp
  next
    case False
    then have "(2::nat) ^ 33 \<le> 2 ^ (63 - s)" using s by (intro power_increasing) simp_all
    then show ?thesis using Dge by linarith
  qed
  finally have "(?Q + 1) * (d - D) \<le> D" .
  then have "(?Q + 1) * d \<le> (?Q + 2) * D"
    using Dle by (simp add: algebra_simps diff_mult_distrib2)
  moreover have "n < (?Q + 1) * d"
    using Dle pos dividend_less_times_div [of d n] by (simp add: algebra_simps)
  ultimately have "n < (?Q + 2) * D" by (rule less_le_trans [rotated])
  then show "n div D \<le> ?Q + 1" by (simp add: less_mult_imp_div_less less_Suc_eq_le [symmetric])
qed

lemma sub_mod_le: "b \<le> a \<Longrightarrow> a < m \<Longrightarrow> (a + m - b mod m) mod m = a - (b::nat)"
  by (metis Nat.add_diff_assoc2 le_less_trans less_imp_diff_less mod_add_self2 mod_less)

lemma u64_sub_le: "b \<le> a \<Longrightarrow> a < 2 ^ 64 \<Longrightarrow> u64_sub a b = a - b"
  unfolding u64_sub_def by (rule sub_mod_le)

lemma ge_add_diff: "x \<le> n \<Longrightarrow> d \<le> n + d - (x::nat)"
  by simp

text \<open>The correcting comparison picks the true quotient.\<close>

lemma correct_quotient:
  assumes "n < 2 ^ 64" "0 < d" "d \<le> n" "n div d \<le> q" "q \<le> n div d + 1" "q \<le> n"
  shows "(if u64_sub n (u64_sub q 1 * d mod 2 ^ 64) < d then u64_sub q 1 else q) = n div d"
proof -
  have Q: "1 \<le> n div d" using assms(2,3) by (simp add: div_greater_zero_iff Suc_le_eq)
  have q: "u64_sub q 1 = q - 1"
    using Q assms(1,4,6) by (intro u64_sub_le) linarith+
  have "(q - 1) * d \<le> n div d * d" using assms(5) by (intro mult_le_mono1) simp
  also have "\<dots> \<le> n" by (rule div_times_less_eq_dividend)
  finally have le: "(q - 1) * d \<le> n" .
  then have m: "(q - 1) * d mod 2 ^ 64 = (q - 1) * d" using assms(1) by simp
  have sub: "u64_sub n ((q - 1) * d) = n - (q - 1) * d" using le assms(1) by (rule u64_sub_le)
  show ?thesis
  proof (cases "q = n div d")
    case True
    have "d \<le> n - (n div d - 1) * d"
      using Q ge_add_diff [OF div_times_less_eq_dividend [of n d], of d] by (simp add: diff_mult_distrib)
    then show ?thesis using True q m sub by simp
  next
    case False
    then have "q - 1 = n div d" using assms(4,5) by simp
    moreover have "n - n div d * d < d" using assms(2) by (metis minus_div_mult_eq_mod mod_less_divisor)
    ultimately show ?thesis using q m sub by simp
  qed
qed

lemma udiv64_large:
  assumes "2 ^ 32 \<le> d" "d < 2 ^ 64" "n < 2 ^ 64"
  shows "udiv64 n d = Some (n div d)"
proof (cases "n < d")
  case True
  then show ?thesis using assms(1) by (simp add: udiv64_def)
next
  case False
  define d1 where "d1 = d div 2 ^ 32"
  define s where "s = nlz d1"
  let ?e = "32 - s"
  have d1: "0 < d1" "d1 < 2 ^ 32"
    using assms by (auto simp: d1_def div_greater_zero_iff less_mult_imp_div_less)
  note nb = nlz_bounds [OF d1, folded s_def]
  have p: "(2::nat) ^ 32 = 2 ^ ?e * 2 ^ s" "(2::nat) ^ 31 = 2 ^ (31 - s) * 2 ^ s"
    "(2::nat) ^ 64 = 2 ^ ?e * 2 ^ s * 2 ^ 32" "(2::nat) ^ (63 - s) = 2 ^ (31 - s) * 2 ^ 32"
    "(2::nat) ^ ?e = 2 * 2 ^ (31 - s)"
  proof -
    have "32 = ?e + s" "31 = (31 - s) + s" "64 = ?e + s + 32" "63 - s = (31 - s) + 32" "?e = Suc (31 - s)"
      using nb(1) by simp_all
    then show "(2::nat) ^ 32 = 2 ^ ?e * 2 ^ s" "(2::nat) ^ 31 = 2 ^ (31 - s) * 2 ^ s"
      "(2::nat) ^ 64 = 2 ^ ?e * 2 ^ s * 2 ^ 32" "(2::nat) ^ (63 - s) = 2 ^ (31 - s) * 2 ^ 32"
      "(2::nat) ^ ?e = 2 * 2 ^ (31 - s)"
      by (metis power_add power_Suc)+
  qed
  have "d1 < 2 ^ ?e" using nb(3) unfolding p(1) by simp
  then have "d < 2 ^ ?e * 2 ^ 32" unfolding d1_def by (simp add: div_less_iff_less_mult)
  then have "d * 2 ^ s < 2 ^ 64" unfolding p(3) by (simp add: mult.assoc mult.commute [of "2 ^ s"])
  then have v: "d * 2 ^ s mod 2 ^ 64 div 2 ^ 32 = d div 2 ^ ?e"
    unfolding p(1) by simp
  have "2 ^ (31 - s) \<le> d1" using nb(2) unfolding p(2) by simp
  then have dge: "2 ^ (63 - s) \<le> d"
    unfolding p(4) d1_def by (metis div_times_less_eq_dividend le_trans mult_le_mono1)
  have "63 - s = 31 + ?e" using nb(1) by simp
  then have "(2::nat) ^ (63 - s) = 2 ^ 31 * 2 ^ ?e" by (simp only: power_add)
  then have vge: "2 ^ 31 \<le> d div 2 ^ ?e"
    using dge by (metis div_le_mono nonzero_mult_div_cancel_right power_not_zero zero_neq_numeral)
  have "n div 2 < 2 ^ 32 * 2 ^ 31" using assms(3) by simp
  also have "\<dots> \<le> 2 ^ 32 * (d div 2 ^ ?e)" using vge by simp
  finally have "n div 2 div (d div 2 ^ ?e) < 2 ^ 32" by (rule less_mult_imp_div_less)
  then have q: "divl (n div 2) (d div 2 ^ ?e) = Some (n div 2 div (d div 2 ^ ?e))"
    using vge by (simp add: divl_def)
  have q2: "n div 2 div (d div 2 ^ ?e) div 2 ^ (31 - s) = n div (d div 2 ^ ?e * 2 ^ ?e)"
    unfolding p(5) by (simp add: div_mult2_eq [symmetric] ac_simps)
  have dpos: "0 < d" using assms(1) by (rule less_le_trans [rotated]) simp
  have dle: "d \<le> n" using False by simp
  have "udiv64 n d = Some (if u64_sub n (u64_sub (n div (d div 2 ^ ?e * 2 ^ ?e)) 1 * d mod 2 ^ 64) < d
      then u64_sub (n div (d div 2 ^ ?e * 2 ^ ?e)) 1 else n div (d div 2 ^ ?e * 2 ^ ?e))"
    using False d1(1) unfolding udiv64_def Let_def d1_def [symmetric] s_def [symmetric] v q
    by (simp only: bind.bind_lunit q2 if_False not_gr_zero less_irrefl neq0_conv [symmetric] simp_thms)
  also have "\<dots> = Some (n div d)"
    using dpos dle
    by (simp only: correct_quotient [OF assms(3) _ _ approx_quotient [OF assms(3) dge nb(1)] div_le_dividend])
  finally show ?thesis .
qed

lemma udiv64_correct:
  assumes "n < 2 ^ 64" "d < 2 ^ 64"
  shows "udiv64 n d = (if d = 0 then None else Some (n div d))"
proof (cases "d < 2 ^ 32")
  case True
  have "udiv64 n 0 = None" by (simp add: udiv64_def)
  then show ?thesis using udiv64_small [OF _ True assms(1)] by (cases "d = 0") simp_all
next
  case False
  then show ?thesis using udiv64_large [OF _ assms(2,1)] by (cases "d = 0") simp_all
qed

section \<open>Signed division\<close>

lemma to_int64_id: "- (2 ^ 63) \<le> x \<Longrightarrow> x < 2 ^ 63 \<Longrightarrow> to_int64 x = x"
  unfolding to_int64_def by (simp add: signed_take_bit_int_eq_self)

lemma sdiv_abs:
  "(n::int) sdiv d = (if (n < 0) = (d < 0) then \<bar>n\<bar> div \<bar>d\<bar> else - (\<bar>n\<bar> div \<bar>d\<bar>))"
  by (cases "n = 0"; cases "d = 0") (auto simp: signed_divide_int_def sgn_if)

lemma abs_div_le: "\<bar>n\<bar> div \<bar>d\<bar> \<le> \<bar>n::int\<bar>"
  by (metis abs_ge_zero div_by_0 dual_order.trans nat_div_distrib' nat_le_eq_zle of_nat_0_le_iff order_refl div_le_dividend int_nat_eq zdiv_int)

lemma sdiv64_correct:
  assumes "- (2 ^ 63) \<le> n" "n < 2 ^ 63" "- (2 ^ 63) \<le> d" "d < 2 ^ 63" "d \<noteq> 0"
    and "\<not> (n = - (2 ^ 63) \<and> d = - 1)"
  shows "sdiv64 n d = Some (n sdiv d)"
proof -
  let ?q = "\<bar>n\<bar> div \<bar>d\<bar>"
  have "nat \<bar>n\<bar> < 2 ^ 64" "nat \<bar>d\<bar> < 2 ^ 64" using assms(1-4) by auto
  then have u: "udiv64 (nat \<bar>n\<bar>) (nat \<bar>d\<bar>) = Some (nat \<bar>n\<bar> div nat \<bar>d\<bar>)"
    using assms(5) by (simp add: udiv64_correct)
  have i: "int (nat \<bar>n\<bar> div nat \<bar>d\<bar>) = ?q" by (simp add: zdiv_int)
  have q0: "0 \<le> ?q" by (simp add: div_int_pos_iff)
  show ?thesis
  proof (cases "?q < 2 ^ 63")
    case True
    then have "to_int64 ?q = ?q" "to_int64 (- ?q) = - ?q" using q0 by (simp_all add: to_int64_id)
    then show ?thesis unfolding sdiv64_def Let_def u bind.bind_lunit i sdiv_abs by simp
  next
    case False
    then have n: "n = - (2 ^ 63)" using abs_div_le [of n d] assms(1,2) by linarith
    have "\<bar>d\<bar> < 2"
    proof (rule ccontr)
      assume "\<not> \<bar>d\<bar> < 2"
      then have "?q \<le> \<bar>n\<bar> div 2" by (intro zdiv_mono2) auto
      then show False using False n by simp
    qed
    then have d: "d = 1" using n assms(5,6) by auto
    show ?thesis using u unfolding d n sdiv64_def Let_def sdiv_abs
      by (simp add: to_int64_def signed_take_bit_eq_take_bit_shift take_bit_eq_mod)
  qed
qed

section \<open>The division routines the compiler calls\<close>

text \<open>C10.  \<open>__udivdi3\<close> computes the 64-bit quotient exactly for every pair of 64-bit operands and
  faults only for a zero divisor: Hacker's Delight's two-step division, with its normalising shift
  and its correction of the estimate, equals mathematical division.\<close>

theorem udivdi3_correct:
  assumes "n < 2 ^ 64" "d < 2 ^ 64"
  shows "udivdi3 n d = (if d = 0 then None else Some (n div d))"
  unfolding udivdi3_def by (rule udiv64_correct [OF assms])

theorem udivdi3_correct_witness:
  "udivdi3 18446744073709551615 4294967297 = Some 4294967295 \<and> udivdi3 7 0 = None"
  using udivdi3_correct [of 18446744073709551615 4294967297] udivdi3_correct [of 7 0] by simp

text \<open>C11.  \<open>__divdi3\<close> is signed division truncated towards zero, on every pair of 64-bit operands but
  the one whose quotient has no 64-bit representation.\<close>

theorem divdi3_correct:
  assumes "- (2 ^ 63) \<le> n" "n < 2 ^ 63" "- (2 ^ 63) \<le> d" "d < 2 ^ 63" "d \<noteq> 0"
    and "\<not> (n = - (2 ^ 63) \<and> d = - 1)"
  shows "divdi3 n d = Some (n sdiv d)"
  unfolding divdi3_def by (rule sdiv64_correct [OF assms])

theorem divdi3_correct_witness: "divdi3 (- 7) 2 = Some (- 3)"
  using divdi3_correct [of "- 7" 2] by (simp add: signed_divide_int_def)

text \<open>C12.  \<open>__umoddi3\<close> keeps only the low 32 bits of the remainder, because its helper \<open>umod64\<close>
  returns a \<open>uint32_t\<close>.\<close>

theorem umoddi3_truncates:
  assumes "n < 2 ^ 64" "d < 2 ^ 64" "d \<noteq> 0"
  shows "umoddi3 n d = Some (n mod d mod 2 ^ 32)"
proof -
  have le: "d * (n div d) \<le> n" by (simp add: mult.commute div_times_less_eq_dividend)
  then have "d * (n div d) mod 2 ^ 64 = d * (n div d)" using assms(1) by (intro mod_less) linarith
  then have "u64_sub n (d * (n div d) mod 2 ^ 64) = n mod d"
    using u64_sub_le [OF le assms(1)] by (simp only: minus_mult_div_eq_mod)
  then show ?thesis
    using udiv64_correct [OF assms(1,2)] assms(3) unfolding umoddi3_def umod64_def by (simp only: if_False bind.bind_lunit)
qed

theorem umoddi3_truncates_witness: "umoddi3 1099511627775 1099511627776 = Some 4294967295"
  using umoddi3_truncates [of 1099511627775 1099511627776] by simp

end
