(* ===== verification/Random_Gen.thy ===== *)
theory Random_Gen
  imports Prelude
begin

text \<open>
  The pseudo-random generator (\<open>lib/random.c\<close>): the RC4 cipher.  The global variables are the
  fields of the record \<open>rng\<close>; \<open>uint8_t\<close> values are 8-bit words, so that the indices wrap as in C.
\<close>

section \<open>Definitions\<close>

record rng =
  rng_s :: "u8 list"
  s_i :: u8
  s_j :: u8
  inited :: bool

definition swap_byte :: "u8 list \<Rightarrow> nat \<Rightarrow> nat \<Rightarrow> u8 list" where
  "swap_byte s a b = (let t = s ! a in (s[a := s ! b])[b := t])"

text \<open>The bytes of the seed in memory order: little endian, \<open>sizeof seed\<close> is 4.\<close>

definition seedp :: "u32 \<Rightarrow> nat \<Rightarrow> u8" where
  "seedp seed k = ucast (drop_bit (8 * k) seed)"

function key_loop :: "u32 \<Rightarrow> nat \<Rightarrow> u8 \<Rightarrow> u8 list \<Rightarrow> u8 list" where
  "key_loop seed i j s =
     (if i < 256 then
        (let j' = j + (s ! i + seedp seed (i mod 4))
         in key_loop seed (i + 1) j' (swap_byte s i (unat j')))
      else s)"
  by auto
termination by (relation "measure (\<lambda>(_, i, _, _). 256 - i)") auto

declare key_loop.simps [simp del]

definition identity_bytes :: "u8 list" where
  "identity_bytes = map of_nat [0..<256]"

definition random_init :: "u32 \<Rightarrow> rng \<Rightarrow> rng" where
  "random_init seed r =
     r\<lparr>rng_s := key_loop seed 0 0 identity_bytes, s_i := 0, s_j := 0, inited := True\<rparr>"

text \<open>One round of the loop of \<open>random_bytes\<close>: the new state and the byte stored.\<close>

definition random_byte :: "rng \<Rightarrow> rng \<times> u8" where
  "random_byte r =
     (let i = s_i r + 1;
          j = s_j r + rng_s r ! unat i;
          s = swap_byte (rng_s r) (unat i) (unat j);
          k = s ! unat i + s ! unat j
      in (r\<lparr>rng_s := s, s_i := i, s_j := j\<rparr>, s ! unat k))"

primrec random_loop :: "nat \<Rightarrow> rng \<Rightarrow> rng \<times> u8 list" where
  "random_loop 0 r = (r, [])"
| "random_loop (Suc n) r =
     (let (r, b) = random_byte r; (r, bs) = random_loop n r in (r, b # bs))"

definition random_bytes :: "nat \<Rightarrow> rng \<Rightarrow> rng \<times> u8 list" where
  "random_bytes n r = random_loop n (if inited r then r else random_init 0 r)"

definition random_ulong :: "rng \<Rightarrow> rng \<times> u32" where
  "random_ulong r =
     (let (r, bs) = random_bytes 4 r
      in (r, foldr (\<lambda>b v. push_bit 8 v OR ucast b) bs 0))"

section \<open>The cipher state stays a permutation\<close>

definition perm_bytes :: "u8 list \<Rightarrow> bool" where
  "perm_bytes s \<longleftrightarrow> mset s = mset identity_bytes"

definition rng_ok :: "rng \<Rightarrow> bool" where
  "rng_ok r \<longleftrightarrow> inited r \<longrightarrow> perm_bytes (rng_s r)"

lemma perm_bytes_length: "perm_bytes s \<Longrightarrow> length s = 256"
  unfolding perm_bytes_def by (drule mset_eq_length) (simp add: identity_bytes_def)

lemma swap_byte_mset:
  assumes "a < length s" "b < length s"
  shows "mset (swap_byte s a b) = mset s"
  using assms by (cases "a = b") (simp_all add: swap_byte_def Let_def mset_swap)

lemma unat_u8: "unat (x :: u8) < 256"
  using unsigned_less [of x] by simp

lemma swap_byte_perm:
  assumes "perm_bytes s" "a < 256"
  shows "perm_bytes (swap_byte s a (unat (j :: u8)))"
  using assms swap_byte_mset [of a s "unat j"] unat_u8 [of j] perm_bytes_length [of s]
  by (simp add: perm_bytes_def)

lemma key_loop_perm: "perm_bytes s \<Longrightarrow> perm_bytes (key_loop seed i j s)"
proof (induction seed i j s rule: key_loop.induct)
  case (1 seed i j s)
  note prems = this(2) and IH = this(1)
  show ?case
  proof (cases "i < 256")
    case True
    then show ?thesis
      using IH [OF True refl swap_byte_perm [OF prems True]] by (subst key_loop.simps) (simp add: Let_def)
  next
    case False
    then show ?thesis using prems by (subst key_loop.simps) simp
  qed
qed

lemma random_init_ok: "rng_ok (random_init seed r)" "inited (random_init seed r)"
proof -
  have "perm_bytes identity_bytes" by (simp add: perm_bytes_def)
  then show "rng_ok (random_init seed r)" "inited (random_init seed r)"
    by (simp_all add: random_init_def rng_ok_def key_loop_perm)
qed

lemma random_byte_ok:
  assumes "rng_ok r" "inited r"
  shows "rng_ok (fst (random_byte r))" "inited (fst (random_byte r))"
  using assms swap_byte_perm [OF _ unat_u8] by (simp_all add: random_byte_def Let_def rng_ok_def)

lemma random_loop_ok:
  assumes "rng_ok r" "inited r" "random_loop n r = (r', bs)"
  shows "rng_ok r' \<and> inited r' \<and> length bs = n"
  using assms
proof (induction n arbitrary: r r' bs)
  case (Suc n)
  obtain r1 b where b: "random_byte r = (r1, b)" by fastforce
  obtain r2 cs where l: "random_loop n r1 = (r2, cs)" by fastforce
  have "rng_ok r2 \<and> inited r2 \<and> length cs = n"
    using Suc.IH [OF _ _ l] random_byte_ok [OF Suc.prems(1,2)] b by simp
  then show ?case using Suc.prems(3) b l by auto
qed simp

text \<open>C13.  The generator's table is a permutation of the 256 byte values after any call, whatever the
  state it is called in: so every index computed from it stays inside the table, and the call
  delivers exactly the number of bytes asked for.\<close>

theorem random_bytes_permutation:
  assumes "rng_ok r" "random_bytes n r = (r', bs)"
  shows "perm_bytes (rng_s r') \<and> rng_ok r' \<and> inited r' \<and> length bs = n"
  using random_loop_ok [of "if inited r then r else random_init 0 r" n r' bs] random_init_ok assms
  by (auto simp: random_bytes_def rng_ok_def split: if_splits)

theorem random_bytes_permutation_witness:
  "perm_bytes (rng_s (fst (random_bytes 3
     \<lparr>rng_s = [], s_i = 0, s_j = 0, inited = False\<rparr>)))"
  using random_bytes_permutation [of "\<lparr>rng_s = [], s_i = 0, s_j = 0, inited = False\<rparr>" 3, OF _ prod.collapse [symmetric]]
  by (simp add: rng_ok_def)

end
