(* ===== verification/Stdlib.thy ===== *)
theory Stdlib
  imports Prelude
begin

text \<open>
  The standard utility functions of \<open>lib/stdlib.c\<close>: \<open>atoi\<close>, heap sort and binary search.

  An array of \<open>cnt\<close> elements of \<open>size\<close> bytes is the list of its bytes; a comparison function reads
  two elements, each the list of its bytes, and returns a C \<open>int\<close>.  Reading or writing outside the
  array stops the model (\<open>None\<close>).  Strings are lists of character codes without the terminating
  zero; reading the end of the list reads that zero.
\<close>

section \<open>Definitions\<close>

subsection \<open>Conversion of strings to integers\<close>

definition isspace :: "nat \<Rightarrow> bool" where
  "isspace c \<longleftrightarrow> c = 32 \<or> c = 12 \<or> c = 10 \<or> c = 13 \<or> c = 9 \<or> c = 11"

definition isdigit :: "nat \<Rightarrow> bool" where
  "isdigit c \<longleftrightarrow> 48 \<le> c \<and> c \<le> 57"

definition to_int32 :: "int \<Rightarrow> int" where
  "to_int32 x = signed_take_bit 31 x"

fun skip_space :: "nat list \<Rightarrow> nat list" where
  "skip_space [] = []"
| "skip_space (c # s) = (if isspace c then skip_space s else c # s)"

fun digit_loop :: "int \<Rightarrow> nat list \<Rightarrow> int" where
  "digit_loop v [] = v"
| "digit_loop v (c # s) =
     (if isdigit c then digit_loop (to_int32 (to_int32 (v * 10) - (int c - 48))) s else v)"

definition atoi :: "nat list \<Rightarrow> int" where
  "atoi s0 =
     (let s = skip_space s0;
          negative = (s \<noteq> [] \<and> hd s = 45);
          s = (if s \<noteq> [] \<and> (hd s = 43 \<or> hd s = 45) then tl s else s);
          v = digit_loop 0 s
      in if \<not> negative then to_int32 (- v) else v)"

subsection \<open>Heap sort\<close>

type_synonym 'b compare = "'b list \<Rightarrow> 'b list \<Rightarrow> int"

function swap_loop :: "'b list \<Rightarrow> nat \<Rightarrow> nat \<Rightarrow> nat \<Rightarrow> nat \<Rightarrow> 'b list option" where
  "swap_loop array a b i sz =
     (if i < sz then
        (if a + i < length array \<and> b + i < length array then
           (let t = array ! (a + i);
                array = array[a + i := array ! (b + i)];
                array = array[b + i := t]
            in swap_loop array a b (i + 1) sz)
         else None)
      else Some array)"
  by auto
termination by (relation "measure (\<lambda>(_, _, _, i, sz). sz - i)") auto

declare swap_loop.simps [simp del]

definition do_swap :: "'b list \<Rightarrow> nat \<Rightarrow> nat \<Rightarrow> nat \<Rightarrow> 'b list option" where
  "do_swap array a_idx b_idx sz = swap_loop array ((a_idx - 1) * sz) ((b_idx - 1) * sz) 0 sz"

definition element :: "'b list \<Rightarrow> nat \<Rightarrow> nat \<Rightarrow> 'b list option" where
  "element array off sz =
     (if off + sz \<le> length array then Some (take sz (drop off array)) else None)"

definition do_compare :: "'b list \<Rightarrow> nat \<Rightarrow> nat \<Rightarrow> nat \<Rightarrow> 'b compare \<Rightarrow> int option" where
  "do_compare array a_idx b_idx sz cmp = do {
     a \<leftarrow> element array ((a_idx - 1) * sz) sz;
     b \<leftarrow> element array ((b_idx - 1) * sz) sz;
     Some (cmp a b) }"

text \<open>One of the two tests of \<open>heapify\<close> that may move \<open>max\<close> to a child.\<close>

definition pick_max :: "'b list \<Rightarrow> nat \<Rightarrow> nat \<Rightarrow> nat \<Rightarrow> nat \<Rightarrow> 'b compare \<Rightarrow> nat option" where
  "pick_max array child mx cnt sz cmp =
     (if child \<le> cnt then do {
        c \<leftarrow> do_compare array child mx sz cmp;
        Some (if c > 0 then child else mx) }
      else Some mx)"

lemma pick_max_range:
  "pick_max array child mx cnt sz cmp = Some r \<Longrightarrow> r = mx \<or> r = child \<and> child \<le> cnt"
  by (auto simp: pick_max_def split: if_splits Option.bind_splits)

function heapify :: "'b list \<Rightarrow> nat \<Rightarrow> nat \<Rightarrow> nat \<Rightarrow> 'b compare \<Rightarrow> 'b list option" where
  "heapify array i cnt sz cmp = do {
     mx \<leftarrow> pick_max array (2 * i) i cnt sz cmp;
     mx \<leftarrow> pick_max array (2 * i + 1) mx cnt sz cmp;
     if mx = i then Some array
     else do {
       array \<leftarrow> do_swap array i mx sz;
       heapify array mx cnt sz cmp } }"
  by auto
termination
  by (relation "measure (\<lambda>(_, i, cnt, _, _). Suc cnt - i)") (auto dest!: pick_max_range)

declare heapify.simps [simp del]

primrec build_heap :: "nat \<Rightarrow> 'b list \<Rightarrow> nat \<Rightarrow> nat \<Rightarrow> 'b compare \<Rightarrow> 'b list option" where
  "build_heap 0 array cnt sz cmp = Some array"
| "build_heap (Suc i) array cnt sz cmp = do {
     array \<leftarrow> heapify array (Suc i) cnt sz cmp;
     build_heap i array cnt sz cmp }"

fun sort_heap :: "nat \<Rightarrow> 'b list \<Rightarrow> nat \<Rightarrow> 'b compare \<Rightarrow> 'b list option" where
  "sort_heap (Suc (Suc i)) array sz cmp = do {
     array \<leftarrow> do_swap array 1 (Suc (Suc i)) sz;
     array \<leftarrow> heapify array 1 (Suc i) sz cmp;
     sort_heap (Suc i) array sz cmp }"
| "sort_heap i array sz cmp = Some array"

definition sort_c :: "'b list \<Rightarrow> nat \<Rightarrow> nat \<Rightarrow> 'b compare \<Rightarrow> 'b list option" where
  "sort_c array cnt sz cmp = do {
     ASSERT (sz > 0);
     array \<leftarrow> build_heap (cnt div 2) array cnt sz cmp;
     sort_heap cnt array sz cmp }"

definition compare_thunk :: "'b list \<Rightarrow> 'b list \<Rightarrow> 'b compare \<Rightarrow> int" where
  "compare_thunk a b aux = aux a b"

definition qsort :: "'b list \<Rightarrow> nat \<Rightarrow> nat \<Rightarrow> 'b compare \<Rightarrow> 'b list option" where
  "qsort array cnt sz compare = sort_c array cnt sz (\<lambda>a b. compare_thunk a b compare)"

subsection \<open>Binary search\<close>

text \<open>The pointers \<open>first\<close> and \<open>last\<close> are offsets from the start of the array; the outer option is
  the model's, the inner one is the pointer returned.\<close>

lemma half_range: "(n::nat) div s div 2 * s * 2 \<le> n"
proof -
  have "n div s div 2 * 2 * s \<le> n div s * s" by (intro mult_le_mono1) simp
  also have "\<dots> \<le> n" by (rule div_times_less_eq_dividend)
  finally show ?thesis by (simp add: ac_simps)
qed

lemma half_range_less: "0 < n \<Longrightarrow> (n::nat) div s div 2 * s < n"
  using half_range [of n s] by linarith

lemma skip_half: "first < lst \<and> 0 < s \<Longrightarrow> lst - (first + x + s) < lst - (first::nat)"
  by linarith

function search_loop :: "'b list \<Rightarrow> 'b list \<Rightarrow> nat \<Rightarrow> nat \<Rightarrow> nat \<Rightarrow> 'b compare \<Rightarrow> nat option option" where
  "search_loop key array first lst sz cmp =
     (if first < lst \<and> 0 < sz then
        (let range = (lst - first) div sz;
             middle = first + (range div 2) * sz
         in do {
           e \<leftarrow> element array middle sz;
           let c = cmp key e;
           if c < 0 then search_loop key array first middle sz cmp
           else if c > 0 then search_loop key array (middle + sz) lst sz cmp
           else Some (Some middle) })
      else if first < lst then None else Some None)"
  by auto
termination
  by (relation "measure (\<lambda>(_, _, first, lst, _, _). lst - first)")
    (simp_all add: half_range_less skip_half)

declare search_loop.simps [simp del]

definition binary_search :: "'b list \<Rightarrow> 'b list \<Rightarrow> nat \<Rightarrow> nat \<Rightarrow> 'b compare \<Rightarrow> nat option option" where
  "binary_search key array cnt sz cmp = search_loop key array 0 (sz * cnt) sz cmp"

definition bsearch :: "'b list \<Rightarrow> 'b list \<Rightarrow> nat \<Rightarrow> nat \<Rightarrow> 'b compare \<Rightarrow> nat option option" where
  "bsearch key array cnt sz compare = binary_search key array cnt sz (\<lambda>a b. compare_thunk a b compare)"

section \<open>Decimal conversion\<close>

definition digits_value :: "nat list \<Rightarrow> int" where
  "digits_value ds = foldl (\<lambda>v c. v * 10 + (int c - 48)) 0 ds"

definition negated_value :: "int \<Rightarrow> nat list \<Rightarrow> int" where
  "negated_value v ds = foldl (\<lambda>v c. v * 10 - (int c - 48)) v ds"

lemma to_int32_id: "- (2 ^ 31) \<le> x \<Longrightarrow> x < 2 ^ 31 \<Longrightarrow> to_int32 x = x"
  unfolding to_int32_def by (simp add: signed_take_bit_int_eq_self)

lemma negated_value_le:
  assumes "v \<le> 0" "list_all isdigit ds"
  shows "negated_value v ds \<le> v"
  using assms
proof (induction ds arbitrary: v)
  case (Cons c ds)
  then have "v * 10 - (int c - 48) \<le> v" by (simp add: isdigit_def)
  moreover have "negated_value (v * 10 - (int c - 48)) ds \<le> v * 10 - (int c - 48)"
    using Cons calculation by (intro Cons.IH) auto
  ultimately show ?case by (simp add: negated_value_def)
qed (simp add: negated_value_def)

lemma digit_loop_value:
  assumes "v \<le> 0" "list_all isdigit ds" "- (2 ^ 31) \<le> negated_value v ds"
    and "rest = [] \<or> \<not> isdigit (hd rest)"
  shows "digit_loop v (ds @ rest) = negated_value v ds"
  using assms
proof (induction ds arbitrary: v)
  case Nil
  then show ?case by (cases rest) (auto simp: negated_value_def)
next
  case (Cons c ds)
  let ?w = "v * 10 - (int c - 48)"
  have d: "isdigit c" "list_all isdigit ds" using Cons.prems(2) by auto
  have w0: "?w \<le> 0" using d(1) Cons.prems(1) by (simp add: isdigit_def)
  have eq: "negated_value v (c # ds) = negated_value ?w ds" by (simp add: negated_value_def)
  have w: "- (2 ^ 31) \<le> ?w" using negated_value_le [OF w0 d(2)] Cons.prems(3) eq by linarith
  then have "to_int32 (v * 10) = v * 10" "to_int32 ?w = ?w"
    using d(1) w0 Cons.prems(1) by (auto intro!: to_int32_id simp: isdigit_def)
  then show ?case using Cons.IH [OF w0 d(2)] Cons.prems(3,4) d(1) eq by simp
qed

lemma negated_value_digits: "negated_value (- v) ds = - foldl (\<lambda>v c. v * 10 + (int c - 48)) v ds"
proof (induction ds arbitrary: v)
  case (Cons c ds)
  have "- v * 10 - (int c - 48) = - (v * 10 + (int c - 48))" by simp
  then show ?case using Cons [of "v * 10 + (int c - 48)"] by (simp only: negated_value_def foldl_Cons)
qed (simp add: negated_value_def)

lemma negated_value_0: "negated_value 0 ds = - digits_value ds"
  using negated_value_digits [of 0 ds] by (simp add: digits_value_def)

lemma skip_space_app: "list_all isspace sp \<Longrightarrow> skip_space (sp @ s) = skip_space s"
  by (induction sp) auto

lemma skip_space_id: "s \<noteq> [] \<Longrightarrow> \<not> isspace (hd s) \<Longrightarrow> skip_space s = s"
  by (cases s) auto

lemma atoi_values:
  assumes "list_all isspace sp" "list_all isdigit ds" "ds \<noteq> []" "rest = [] \<or> \<not> isdigit (hd rest)"
  shows "digits_value ds < 2 ^ 31 \<Longrightarrow> atoi (sp @ ds @ rest) = digits_value ds"
    and "digits_value ds < 2 ^ 31 \<Longrightarrow> atoi (sp @ 43 # ds @ rest) = digits_value ds"
    and "digits_value ds \<le> 2 ^ 31 \<Longrightarrow> atoi (sp @ 45 # ds @ rest) = - digits_value ds"
proof -
  have 0: "0 \<le> digits_value ds" using negated_value_le [of 0 ds] assms(2) negated_value_0 [of ds] by simp
  have loop: "digit_loop 0 (ds @ rest) = - digits_value ds" if "digits_value ds \<le> 2 ^ 31"
    using digit_loop_value [of 0 ds rest] assms(2,4) that by (simp add: negated_value_0)
  have hd: "hd (ds @ rest) \<noteq> 43" "hd (ds @ rest) \<noteq> 45" "\<not> isspace (hd (ds @ rest))"
    using assms(2,3) by (cases ds; auto simp: isdigit_def isspace_def)+
  have sp: "skip_space (sp @ ds @ rest) = ds @ rest"
    "skip_space (sp @ 43 # ds @ rest) = 43 # ds @ rest"
    "skip_space (sp @ 45 # ds @ rest) = 45 # ds @ rest"
    using hd assms(3) by (simp_all add: skip_space_app [OF assms(1)] skip_space_id isspace_def)
  show "atoi (sp @ ds @ rest) = digits_value ds" if "digits_value ds < 2 ^ 31"
    using that loop hd assms(3) sp 0 by (simp add: atoi_def Let_def to_int32_id)
  show "atoi (sp @ 43 # ds @ rest) = digits_value ds" if "digits_value ds < 2 ^ 31"
    using that loop sp 0 by (simp add: atoi_def Let_def to_int32_id)
  show "atoi (sp @ 45 # ds @ rest) = - digits_value ds" if "digits_value ds \<le> 2 ^ 31"
    using that loop sp by (simp add: atoi_def Let_def)
qed

text \<open>C14.  \<open>atoi\<close> skips white space, reads an optional sign and returns the value of the digits that
  follow, up to the first other character, for every value of type \<open>int\<close>; the most negative one
  included, since the digits are accumulated as a negative number.\<close>

theorem atoi_value:
  assumes "list_all isspace sp" "list_all isdigit ds" "ds \<noteq> []" "rest = [] \<or> \<not> isdigit (hd rest)"
    and "sign \<in> {[], [43], [45]}"
    and "digits_value ds < 2 ^ 31 \<or> sign = [45] \<and> digits_value ds = 2 ^ 31"
  shows "atoi (sp @ sign @ ds @ rest) = (if sign = [45] then - digits_value ds else digits_value ds)"
  using atoi_values [OF assms(1-4)] assms(5,6) by auto

theorem atoi_value_witness: "atoi [32, 45, 50, 49, 52, 55, 52, 56, 51, 54, 52, 56, 32] = - (2 ^ 31)"
  using atoi_value [of "[32]" "[50, 49, 52, 55, 52, 56, 51, 54, 52, 56]" "[32]" "[45]"]
  by (simp add: isspace_def isdigit_def digits_value_def)

end
