(* ===== verification/Stdlib_Sort.thy ===== *)
theory Stdlib_Sort
  imports Stdlib
begin

text \<open>
  Heap sort and binary search of \<open>lib/stdlib.c\<close> are correct.  The byte-level routines are first
  related to the same algorithm on the list of elements (\<open>chunks\<close>), then the heap property is
  followed through the loops there.
\<close>

section \<open>Bytes and elements\<close>

definition chunks :: "nat \<Rightarrow> nat \<Rightarrow> 'b list \<Rightarrow> 'b list list" where
  "chunks sz n a = map (\<lambda>i. take sz (drop (i * sz) a)) [0..<n]"

lemma length_chunks [simp]: "length (chunks sz n a) = n"
  by (simp add: chunks_def)

lemma chunks_nth: "i < n \<Longrightarrow> chunks sz n a ! i = take sz (drop (i * sz) a)"
  by (simp add: chunks_def)

lemma chunk_fits: "i < n \<Longrightarrow> length a = n * sz \<Longrightarrow> i * sz + sz \<le> length a"
  by (metis Suc_leI add.commute mult_Suc mult_le_mono1)

lemma element_chunk:
  assumes "1 \<le> i" "i \<le> n" "length a = n * sz"
  shows "element a ((i - 1) * sz) sz = Some (chunks sz n a ! (i - 1))"
  using assms chunk_fits [of "i - 1" n a sz] by (simp add: element_def chunks_nth)

lemma chunks_concat: "length a = n * sz \<Longrightarrow> concat (chunks sz n a) = a"
proof (induction n arbitrary: a)
  case (Suc n)
  have "chunks sz (Suc n) a = take sz a # chunks sz n (drop sz a)"
    by (simp add: chunks_def upt_conv_Cons map_Suc_upt [symmetric] add.commute del: upt_Suc)
  then show ?case using Suc.IH [of "drop sz a"] Suc.prems by simp
qed (simp add: chunks_def)

definition swap_elems :: "'e list \<Rightarrow> nat \<Rightarrow> nat \<Rightarrow> 'e list" where
  "swap_elems xs i j = (xs[i - 1 := xs ! (j - 1)])[j - 1 := xs ! (i - 1)]"

lemma length_swap_elems [simp]: "length (swap_elems xs i j) = length xs"
  by (simp add: swap_elems_def)

text \<open>Where the byte at position \<open>k\<close> comes from once the bytes from \<open>i\<close> on are exchanged.\<close>

definition swap_src :: "nat \<Rightarrow> nat \<Rightarrow> nat \<Rightarrow> nat \<Rightarrow> nat \<Rightarrow> nat" where
  "swap_src a b i sz k =
     (if a + i \<le> k \<and> k < a + sz then b + (k - a)
      else if b + i \<le> k \<and> k < b + sz then a + (k - b) else k)"

definition transpose_src :: "nat \<Rightarrow> nat \<Rightarrow> nat \<Rightarrow> nat" where
  "transpose_src a b k = (if k = b then a else if k = a then b else k)"

lemma swap_src_step:
  assumes d: "a + sz \<le> b \<or> b + sz \<le> a" and i: "i < sz"
  shows "swap_src a b i sz k = transpose_src (a + i) (b + i) (swap_src a b (i + 1) sz k)"
proof -
  consider "k < a + sz" "a + i < k" | "k < b + sz" "b + i < k" | "k = a + i" | "k = b + i"
    | "\<not> (a + i \<le> k \<and> k < a + sz)" "\<not> (b + i \<le> k \<and> k < b + sz)" "k \<noteq> a + i" "k \<noteq> b + i"
    by linarith
  then show ?thesis
  proof cases
    case 1
    then have "swap_src a b i sz k = b + (k - a)" "swap_src a b (i + 1) sz k = b + (k - a)"
      by (simp_all add: swap_src_def)
    moreover have "b + (k - a) \<noteq> a + i" "b + (k - a) \<noteq> b + i" using 1 d i by linarith+
    ultimately show ?thesis by (simp only: transpose_src_def if_False)
  next
    case 2
    then have "\<not> (a + i \<le> k \<and> k < a + sz)" "\<not> (a + (i + 1) \<le> k \<and> k < a + sz)" using d by linarith+
    then have "swap_src a b i sz k = a + (k - b)" "swap_src a b (i + 1) sz k = a + (k - b)"
      using 2 unfolding swap_src_def by (simp_all only: if_False) simp_all
    moreover have "a + (k - b) \<noteq> a + i" "a + (k - b) \<noteq> b + i" using 2 d i by linarith+
    ultimately show ?thesis by (simp only: transpose_src_def if_False)
  next
    case 3
    then have "\<not> (b + (i + 1) \<le> k \<and> k < b + sz)" "a + i \<noteq> b + i" using d i by linarith+
    then show ?thesis using 3 i by (auto simp: transpose_src_def swap_src_def)
  next
    case 4
    then have "\<not> (a + i \<le> k \<and> k < a + sz)" "\<not> (a + (i + 1) \<le> k \<and> k < a + sz)" using d i by linarith+
    then show ?thesis using 4 i by (auto simp: transpose_src_def swap_src_def)
  next
    case 5
    then have "swap_src a b i sz k = k" "swap_src a b (i + 1) sz k = k"
      by (auto simp: swap_src_def)
    then show ?thesis using 5(3,4) by (simp only: transpose_src_def if_False)
  qed
qed

lemma swap_src_less:
  assumes "a + sz \<le> n" "b + sz \<le> n" "k < n"
  shows "swap_src a b i sz k < n"
  using assms unfolding swap_src_def by auto

lemma swap_loop_nth:
  assumes "a + sz \<le> length xs" "b + sz \<le> length xs" "a + sz \<le> b \<or> b + sz \<le> a"
  shows "\<exists>ys. swap_loop xs a b i sz = Some ys \<and> length ys = length xs \<and>
     (\<forall>k < length xs. ys ! k = xs ! swap_src a b i sz k)"
  using assms
proof (induction xs a b i sz rule: swap_loop.induct)
  case (1 xs a b i sz)
  show ?case
  proof (cases "i < sz")
    case True
    let ?xs = "(xs[a + i := xs ! (b + i)])[b + i := xs ! (a + i)]"
    have in_range: "a + i < length xs" "b + i < length xs" using True 1(2,3) by auto
    obtain ys where ys: "swap_loop ?xs a b (i + 1) sz = Some ys" "length ys = length xs"
      "\<forall>k < length xs. ys ! k = ?xs ! swap_src a b (i + 1) sz k"
      using 1(1) [OF True _ refl refl refl] in_range 1(2-4) by auto
    have x: "?xs ! m = xs ! transpose_src (a + i) (b + i) m" if "m < length xs" for m
      using in_range that by (simp add: nth_list_update transpose_src_def)
    have "ys ! k = xs ! swap_src a b i sz k" if "k < length xs" for k
      using ys(3) that x [OF swap_src_less [OF 1(2,3) that]] swap_src_step [OF 1(4) True] by simp
    moreover have "swap_loop xs a b i sz = Some ys"
      using ys(1) True in_range by (subst swap_loop.simps) (simp add: Let_def)
    ultimately show ?thesis using ys(2) by blast
  next
    case False
    then show ?thesis by (subst swap_loop.simps) (auto simp: swap_src_def)
  qed
qed

lemma blocks_disjoint: "i \<noteq> j \<Longrightarrow> i * sz + sz \<le> j * sz \<or> j * sz + sz \<le> i * (sz::nat)"
proof -
  assume "i \<noteq> j"
  then have "Suc i \<le> j \<or> Suc j \<le> i" by linarith
  then have "Suc i * sz \<le> j * sz \<or> Suc j * sz \<le> i * sz" using mult_le_mono1 by blast
  then show ?thesis by (simp add: add.commute)
qed

lemma length_chunk: "t < n \<Longrightarrow> length a = n * sz \<Longrightarrow> length (chunks sz n a ! t) = sz"
  using chunk_fits [of t n a sz] by (simp add: chunks_nth)

lemma chunk_nth:
  assumes "t < n" "r < sz" "length a = n * sz"
  shows "chunks sz n a ! t ! r = a ! (t * sz + r)"
  using assms chunk_fits [of t n a sz] by (simp add: chunks_nth)

lemma block_index: "r < sz \<Longrightarrow> s * sz \<le> t * sz + r \<and> t * sz + r < s * sz + sz \<longleftrightarrow> t = (s::nat)"
  by (metis add_less_cancel_left add.commute le_add1 le_less_trans less_imp_le_nat mult_Suc mult_less_cancel2 not_less_eq order.asym linorder_neqE_nat less_le_trans blocks_disjoint)

lemma swap_src_block:
  assumes "r < sz" "i \<noteq> j"
  shows "swap_src (i * sz) (j * sz) 0 sz (t * sz + r) =
    (if t = i then j * sz + r else if t = j then i * sz + r else t * sz + r)"
  unfolding swap_src_def using assms by (simp add: block_index)

lemma swap_elems_nth:
  assumes "1 \<le> i" "1 \<le> j" "i \<le> length xs" "j \<le> length xs" "t < length xs"
  shows "swap_elems xs i j ! t =
    (if t = i - 1 then xs ! (j - 1) else if t = j - 1 then xs ! (i - 1) else xs ! t)"
  using assms by (auto simp: swap_elems_def nth_list_update)

lemma do_swap_chunks:
  assumes "1 \<le> i" "i \<le> n" "1 \<le> j" "j \<le> n" "i \<noteq> j" "length a = n * sz"
  obtains a' where "do_swap a i j sz = Some a'" "length a' = n * sz"
    "chunks sz n a' = swap_elems (chunks sz n a) i j"
proof -
  have ij: "i - 1 < n" "j - 1 < n" "i - 1 \<noteq> j - 1" using assms by auto
  note fit = chunk_fits [OF _ assms(6)]
  obtain a' where a': "do_swap a i j sz = Some a'" "length a' = n * sz"
    "\<forall>k < n * sz. a' ! k = a ! swap_src ((i - 1) * sz) ((j - 1) * sz) 0 sz k"
    using swap_loop_nth [OF fit [OF ij(1)] fit [OF ij(2)] blocks_disjoint [OF ij(3)], of 0] assms(6)
    unfolding do_swap_def by auto
  have "chunks sz n a' ! t = swap_elems (chunks sz n a) i j ! t" if t: "t < n" for t
  proof (rule nth_equalityI)
    show "length (chunks sz n a' ! t) = length (swap_elems (chunks sz n a) i j ! t)"
      using t assms a'(2) by (simp add: swap_elems_nth length_chunk)
    fix r
    assume "r < length (chunks sz n a' ! t)"
    then have r: "r < sz" using t a'(2) by (simp add: length_chunk)
    have "t * sz + r < n * sz" using chunk_fits [OF t assms(6)] r assms(6) by linarith
    then show "chunks sz n a' ! t ! r = swap_elems (chunks sz n a) i j ! t ! r"
      using t r assms a' ij swap_src_block [OF r ij(3)] by (simp add: swap_elems_nth chunk_nth)
  qed
  then have "chunks sz n a' = swap_elems (chunks sz n a) i j" by (intro nth_equalityI) simp_all
  then show ?thesis using that a' by blast
qed

section \<open>The heap property\<close>

text \<open>What a comparison function must satisfy: it orders the elements totally.\<close>

definition total_compare :: "'b compare \<Rightarrow> bool" where
  "total_compare cmp \<longleftrightarrow>
     (\<forall>x y. cmp x y \<le> 0 \<or> cmp y x \<le> 0) \<and>
     (\<forall>x y z. cmp x y \<le> 0 \<longrightarrow> cmp y z \<le> 0 \<longrightarrow> cmp x z \<le> 0)"

text \<open>Positions in the heap count from 1; the parent of \<open>j\<close> is \<open>j div 2\<close>.\<close>

abbreviation at :: "'e list \<Rightarrow> nat \<Rightarrow> 'e" where
  "at c i \<equiv> c ! (i - 1)"

definition heap_upto :: "'b compare \<Rightarrow> nat \<Rightarrow> nat \<Rightarrow> 'b list list \<Rightarrow> bool" where
  "heap_upto cmp k n c \<longleftrightarrow>
     (\<forall>j. 2 \<le> j \<and> j \<le> n \<and> k \<le> j div 2 \<longrightarrow> cmp (at c j) (at c (j div 2)) \<le> 0)"

definition heap_hole :: "'b compare \<Rightarrow> nat \<Rightarrow> nat \<Rightarrow> nat \<Rightarrow> 'b list list \<Rightarrow> bool" where
  "heap_hole cmp k i n c \<longleftrightarrow>
     (\<forall>j. 2 \<le> j \<and> j \<le> n \<and> k \<le> j div 2 \<and> j div 2 \<noteq> i \<longrightarrow> cmp (at c j) (at c (j div 2)) \<le> 0) \<and>
     (\<forall>j. j \<le> n \<and> j div 2 = i \<and> k \<le> i div 2 \<longrightarrow> cmp (at c j) (at c (i div 2)) \<le> 0)"

text \<open>\<open>m\<close> is where a larger element than at \<open>i\<close> is found among \<open>i\<close> and its children.\<close>

definition family_max :: "'b compare \<Rightarrow> nat \<Rightarrow> nat \<Rightarrow> 'b list list \<Rightarrow> nat \<Rightarrow> bool" where
  "family_max cmp i n c m \<longleftrightarrow>
     m \<in> {i, 2 * i, 2 * i + 1} \<and> m \<le> n \<and> cmp (at c i) (at c m) \<le> 0 \<and>
     (\<forall>j. j \<le> n \<and> j div 2 = i \<longrightarrow> cmp (at c j) (at c m) \<le> 0)"

lemma total_compare_refl: "total_compare cmp \<Longrightarrow> cmp x x \<le> 0"
  unfolding total_compare_def by blast

lemma total_compare_gt: "total_compare cmp \<Longrightarrow> \<not> cmp x y \<le> 0 \<Longrightarrow> cmp y x \<le> 0"
  unfolding total_compare_def by blast

lemma total_compare_trans: "total_compare cmp \<Longrightarrow> cmp x y \<le> 0 \<Longrightarrow> cmp y z \<le> 0 \<Longrightarrow> cmp x z \<le> 0"
  unfolding total_compare_def by blast

lemma pick_max_chunks:
  assumes "length a = N * sz" "n \<le> N" "1 \<le> child" "1 \<le> m" "m \<le> n"
  defines "c \<equiv> chunks sz N a"
  shows "pick_max a child m n sz cmp =
    Some (if child \<le> n \<and> \<not> cmp (at c child) (at c m) \<le> 0 then child else m)"
proof (cases "child \<le> n")
  case True
  have "element a ((child - 1) * sz) sz = Some (at c child)" "element a ((m - 1) * sz) sz = Some (at c m)"
    using True assms unfolding c_def by (intro element_chunk; linarith)+
  then show ?thesis using True by (simp add: pick_max_def do_compare_def)
qed (simp add: pick_max_def)

lemma pick_two_max:
  assumes "total_compare cmp" "1 \<le> i" "i \<le> n"
  defines "m1 \<equiv> \<lambda>c. if 2 * i \<le> n \<and> \<not> cmp (at c (2 * i)) (at c i) \<le> 0 then 2 * i else i"
  defines "m2 \<equiv> \<lambda>c. if 2 * i + 1 \<le> n \<and> \<not> cmp (at c (2 * i + 1)) (at c (m1 c)) \<le> 0
     then 2 * i + 1 else m1 c"
  shows "family_max cmp i n c (m2 c)"
proof -
  note gt = total_compare_gt [OF assms(1)] and refl = total_compare_refl [OF assms(1)]
    and trans = total_compare_trans [OF assms(1)]
  have m1: "m1 c \<in> {i, 2 * i}" "m1 c \<le> n" "cmp (at c i) (at c (m1 c)) \<le> 0"
    "2 * i \<le> n \<longrightarrow> cmp (at c (2 * i)) (at c (m1 c)) \<le> 0"
    using assms(3) gt [of "at c (2 * i)" "at c i"] refl unfolding m1_def by simp_all
  have m2: "m2 c \<in> {i, 2 * i, 2 * i + 1}" "m2 c \<le> n"
    using m1(1,2) unfolding m2_def by auto
  have le: "cmp (at c (m1 c)) (at c (m2 c)) \<le> 0"
    and r: "2 * i + 1 \<le> n \<longrightarrow> cmp (at c (2 * i + 1)) (at c (m2 c)) \<le> 0"
    using gt [of "at c (2 * i + 1)" "at c (m1 c)"] refl unfolding m2_def by simp_all
  have "cmp (at c j) (at c (m2 c)) \<le> 0" if "j \<le> n" "j div 2 = i" for j
  proof -
    have "j = 2 * i \<or> j = 2 * i + 1" using that(2) by linarith
    then show ?thesis using that(1) r m1(4) trans [OF _ le] by blast
  qed
  then show ?thesis unfolding family_max_def using m2 trans [OF m1(3) le] by blast
qed

lemma heapify_stop:
  assumes "heap_hole cmp k i n c" "family_max cmp i n c i"
  shows "heap_upto cmp k n c"
  using assms unfolding heap_hole_def heap_upto_def family_max_def by blast

lemma at_swap:
  assumes "1 \<le> i" "1 \<le> m" "i \<le> length c" "m \<le> length c" "1 \<le> j" "j \<le> length c"
  shows "at (swap_elems c i m) j = (if j = i then at c m else if j = m then at c i else at c j)"
proof -
  have "j - 1 < length c" "j - 1 = i - 1 \<longleftrightarrow> j = i" "j - 1 = m - 1 \<longleftrightarrow> j = m" using assms by linarith+
  then show ?thesis using swap_elems_nth [OF assms(1-4)] by presburger
qed

lemma heapify_sink:
  assumes "heap_hole cmp k i n c" "family_max cmp i n c m" "m \<noteq> i" "1 \<le> k" "k \<le> i" "n \<le> length c"
  shows "heap_hole cmp k m n (swap_elems c i m)"
proof -
  have m: "m div 2 = i" "m \<le> n" "i < m" "1 \<le> i" using assms unfolding family_max_def by auto
  have at: "at (swap_elems c i m) j = (if j = i then at c m else if j = m then at c i else at c j)"
    if "1 \<le> j" "j \<le> n" for j using m that assms(6) by (intro at_swap) linarith+
  note h = assms(1) [unfolded heap_hole_def] and f = assms(2) [unfolded family_max_def]
  have "cmp (at (swap_elems c i m) j) (at (swap_elems c i m) (j div 2)) \<le> 0"
    if j: "2 \<le> j" "j \<le> n" "k \<le> j div 2" "j div 2 \<noteq> m" for j
  proof -
    have p: "1 \<le> j div 2" "j div 2 \<le> n" "j div 2 < j" using j by linarith+
    have e: "at (swap_elems c i m) j = (if j = i then at c m else if j = m then at c i else at c j)"
      "at (swap_elems c i m) (j div 2) = (if j div 2 = i then at c m else at c (j div 2))"
      using at [of j] at [of "j div 2"] p j by simp_all
    show ?thesis
    proof (cases "j div 2 = i")
      case True
      then show ?thesis unfolding e using f j p(3) by auto
    next
      case False
      then show ?thesis unfolding e using h j m by auto
    qed
  qed
  moreover have "cmp (at (swap_elems c i m) j) (at (swap_elems c i m) (m div 2)) \<le> 0"
    if j: "j \<le> n" "j div 2 = m" "k \<le> m div 2" for j
  proof -
    have ne: "2 \<le> j" "m < j" "k \<le> j div 2" using j m assms(5) by linarith+
    then have "at (swap_elems c i m) j = at c j" "at (swap_elems c i m) i = at c m"
      using at [of j] at [of i] m j by simp_all
    moreover have "cmp (at c j) (at c (j div 2)) \<le> 0" using h ne j assms(3) by blast
    ultimately show ?thesis using j m by simp
  qed
  ultimately show ?thesis unfolding heap_hole_def by blast
qed

lemma swap_elems_frame:
  assumes "1 \<le> i" "i \<le> n" "1 \<le> m" "m \<le> n" "n \<le> length c"
  shows "mset (take n (swap_elems c i m)) = mset (take n c)" "drop n (swap_elems c i m) = drop n c"
proof -
  have im: "i - 1 < n" "m - 1 < n" using assms by linarith+
  have "take n (swap_elems c i m) = (take n c)[i - 1 := take n c ! (m - 1), m - 1 := take n c ! (i - 1)]"
    using im by (simp add: swap_elems_def take_update_swap)
  then show "mset (take n (swap_elems c i m)) = mset (take n c)"
    using im assms(5) by (simp only: mset_swap length_take min_absorb2)
  show "drop n (swap_elems c i m) = drop n c"
    using im by (simp add: swap_elems_def)
qed

text \<open>Only the elements up to position \<open>n\<close> are rearranged.\<close>

definition rearranged :: "nat \<Rightarrow> 'e list \<Rightarrow> 'e list \<Rightarrow> bool" where
  "rearranged n c c' \<longleftrightarrow> mset (take n c') = mset (take n c) \<and> drop n c' = drop n c"

lemma rearranged_refl: "rearranged n c c"
  by (simp add: rearranged_def)

lemma rearranged_trans: "rearranged n c c' \<Longrightarrow> rearranged n c' c'' \<Longrightarrow> rearranged n c c''"
  by (simp add: rearranged_def)

lemma rearranged_set: "rearranged n c c' \<Longrightarrow> set (take n c') = set (take n c)"
  unfolding rearranged_def by (metis set_mset_mset)

lemma rearranged_mset: "rearranged n c c' \<Longrightarrow> mset c' = mset c"
  unfolding rearranged_def by (metis append_take_drop_id mset_append)

lemma rearranged_mono:
  assumes "rearranged n c c'" "n \<le> m"
  shows "rearranged m c c'"
proof -
  have "drop m c' = drop (m - n) (drop n c')" "take m c' = take n c' @ take (m - n) (drop n c')"
    "drop m c = drop (m - n) (drop n c)" "take m c = take n c @ take (m - n) (drop n c)"
    using assms(2) by (simp_all flip: take_add)
  then show ?thesis using assms(1) unfolding rearranged_def by (metis mset_append)
qed

lemma heapify_ok:
  assumes "total_compare cmp" "length a = N * sz" "n \<le> N" "1 \<le> k" "k \<le> i" "i \<le> n"
    and "heap_hole cmp k i n (chunks sz N a)"
  shows "\<exists>a'. heapify a i n sz cmp = Some a' \<and> length a' = N * sz \<and>
    heap_upto cmp k n (chunks sz N a') \<and> rearranged n (chunks sz N a) (chunks sz N a')"
  using assms
proof (induction a i n sz cmp rule: heapify.induct)
  case (1 a i n sz cmp)
  let ?c = "chunks sz N a"
  define m1 where "m1 = (if 2 * i \<le> n \<and> \<not> cmp (at ?c (2 * i)) (at ?c i) \<le> 0 then 2 * i else i)"
  define m where "m = (if 2 * i + 1 \<le> n \<and> \<not> cmp (at ?c (2 * i + 1)) (at ?c m1) \<le> 0
     then 2 * i + 1 else m1)"
  note prems = 1(2-8)
  have i1: "1 \<le> i" using prems(4,5) by linarith
  have m1: "1 \<le> m1" "m1 \<le> n" using i1 prems(6) unfolding m1_def by auto
  have p: "pick_max a (2 * i) i n sz cmp = Some m1" "pick_max a (2 * i + 1) m1 n sz cmp = Some m"
    unfolding m_def m1_def using m1 i1 prems(2,3,6) by (subst pick_max_chunks [of a N]; simp add: m1_def)+
  have f: "family_max cmp i n ?c m"
    using pick_two_max [OF prems(1) i1 prems(6), of ?c] unfolding m_def m1_def .
  then have m: "i \<le> m" "m \<le> n" unfolding family_max_def by auto
  show ?case
  proof (cases "m = i")
    case True
    then show ?thesis using heapify_stop [OF prems(7)] f p prems(2)
      by (subst heapify.simps) (simp add: rearranged_refl)
  next
    case False
    obtain a1 where a1: "do_swap a i m sz = Some a1" "length a1 = N * sz" "chunks sz N a1 = swap_elems ?c i m"
      using do_swap_chunks [of i N m a sz] i1 m prems(2,3) False by auto
    have "heap_hole cmp k m n (chunks sz N a1)"
      unfolding a1(3) using heapify_sink [OF prems(7) f False prems(4,5)] prems(3) by simp
    then obtain a' where a': "heapify a1 m n sz cmp = Some a'" "length a' = N * sz"
      "heap_upto cmp k n (chunks sz N a')" "rearranged n (chunks sz N a1) (chunks sz N a')"
      using 1(1) [OF p False a1(1) prems(1) a1(2) prems(3,4)] m prems(5) by auto
    moreover have "rearranged n ?c (chunks sz N a1)"
      unfolding rearranged_def a1(3) using i1 m prems(3) by (auto intro!: swap_elems_frame)
    ultimately show ?thesis using p a1(1) False
      by (subst heapify.simps) (auto intro: rearranged_trans)
  qed
qed

lemma build_heap_ok:
  assumes "total_compare cmp" "length a = n * sz" "i \<le> n" "heap_upto cmp (Suc i) n (chunks sz n a)"
  shows "\<exists>a'. build_heap i a n sz cmp = Some a' \<and> length a' = n * sz \<and>
    heap_upto cmp 1 n (chunks sz n a') \<and> rearranged n (chunks sz n a) (chunks sz n a')"
  using assms
proof (induction i arbitrary: a)
  case (Suc i)
  have "heap_hole cmp (Suc i) (Suc i) n (chunks sz n a)"
    using Suc.prems(4) unfolding heap_upto_def heap_hole_def by auto
  then obtain a1 where a1: "heapify a (Suc i) n sz cmp = Some a1" "length a1 = n * sz"
    "heap_upto cmp (Suc i) n (chunks sz n a1)" "rearranged n (chunks sz n a) (chunks sz n a1)"
    using heapify_ok [OF Suc.prems(1,2) order_refl, of "Suc i" "Suc i"] Suc.prems(3) by auto
  then show ?case using Suc.IH [OF Suc.prems(1) a1(2)] Suc.prems(3) by (auto intro: rearranged_trans)
qed (auto simp: rearranged_refl)

section \<open>Heap sort sorts\<close>

lemma heap_root:
  assumes "total_compare cmp" "heap_upto cmp 1 n c"
  shows "1 \<le> j \<Longrightarrow> j \<le> n \<Longrightarrow> cmp (at c j) (at c 1) \<le> 0"
proof (induction j rule: less_induct)
  case (less j)
  show ?case
  proof (cases "j = 1")
    case True
    then show ?thesis using total_compare_refl [OF assms(1)] by simp
  next
    case False
    then have "2 \<le> j" "j div 2 < j" "1 \<le> j div 2" "j div 2 \<le> n" using less.prems by linarith+
    then show ?thesis
      using less assms(2) total_compare_trans [OF assms(1)] unfolding heap_upto_def by blast
  qed
qed

lemma heap_root_set:
  assumes "total_compare cmp" "heap_upto cmp 1 n c" "n \<le> length c" "x \<in> set (take n c)"
  shows "cmp x (at c 1) \<le> 0"
proof -
  obtain t where t: "t < n" "x = c ! t" using assms(3,4) by (auto simp: in_set_conv_nth)
  then show ?thesis using heap_root [OF assms(1,2), of "Suc t"] by simp
qed

text \<open>The elements from position \<open>i\<close> on are in their final order and bound the others.\<close>

definition sorted_from :: "'b compare \<Rightarrow> nat \<Rightarrow> 'b list list \<Rightarrow> bool" where
  "sorted_from cmp i c \<longleftrightarrow> sorted_wrt (\<lambda>x y. cmp x y \<le> 0) (drop i c) \<and>
     (\<forall>x \<in> set (take i c). \<forall>y \<in> set (drop i c). cmp x y \<le> 0)"

lemma sorted_from_rearranged:
  "sorted_from cmp i c \<Longrightarrow> rearranged i c c' \<Longrightarrow> sorted_from cmp i c'"
  using rearranged_set [of i c c'] by (simp add: sorted_from_def rearranged_def)

lemma sorted_from_1:
  assumes "sorted_from cmp i c" "i \<le> 1"
  shows "sorted_wrt (\<lambda>x y. cmp x y \<le> 0) c"
proof (cases "i = 0 \<or> c = []")
  case True
  then show ?thesis using assms by (auto simp: sorted_from_def)
next
  case False
  then obtain x c' where "c = x # c'" "i = 1" using assms(2) by (cases c) auto
  then show ?thesis using assms(1) by (simp add: sorted_from_def)
qed

lemma sorted_from_swap:
  assumes "total_compare cmp" "heap_upto cmp 1 (Suc i) c" "sorted_from cmp (Suc i) c" "Suc i \<le> length c"
  shows "sorted_from cmp i (swap_elems c 1 (Suc i))"
proof -
  let ?c = "swap_elems c 1 (Suc i)"
  have fr: "set (take (Suc i) ?c) = set (take (Suc i) c)" "drop (Suc i) ?c = drop (Suc i) c"
    using swap_elems_frame [of 1 "Suc i" "Suc i" c] assms(4) by (simp_all flip: set_mset_mset)
  have nth: "?c ! i = at c 1" using assms(4) by (subst swap_elems_nth) auto
  have d: "drop i ?c = at c 1 # drop (Suc i) c"
    using assms(4) fr(2) nth Cons_nth_drop_Suc [of i ?c] by simp
  have sub: "set (take i ?c) \<subseteq> set (take (Suc i) c)"
    using fr(1) set_take_subset_set_take [of i "Suc i" ?c] by simp
  have "at c 1 \<in> set (take (Suc i) c)" using assms(4) by (cases c) auto
  then show ?thesis
    using sub assms(3) heap_root_set [OF assms(1,2,4)] unfolding sorted_from_def d by auto
qed

lemma heap_hole_swap:
  assumes "heap_upto cmp 1 (Suc i) c" "Suc i \<le> length c" "1 \<le> i"
  shows "heap_hole cmp 1 1 i (swap_elems c 1 (Suc i))"
proof -
  have at: "at (swap_elems c 1 (Suc i)) j = at c j" if "2 \<le> j" "j \<le> i" for j
    using that assms(2) by (subst at_swap) auto
  have "cmp (at (swap_elems c 1 (Suc i)) j) (at (swap_elems c 1 (Suc i)) (j div 2)) \<le> 0"
    if j: "2 \<le> j" "j \<le> i" "1 \<le> j div 2" "j div 2 \<noteq> 1" for j
  proof -
    have "2 \<le> j div 2" "j div 2 \<le> i" "j \<le> Suc i" using j by linarith+
    then show ?thesis using at [of j] at [of "j div 2"] j assms(1) unfolding heap_upto_def by presburger
  qed
  then show ?thesis unfolding heap_hole_def by simp
qed

lemma sort_heap_ok:
  assumes "total_compare cmp" "length a = n * sz" "i \<le> n" "heap_upto cmp 1 i (chunks sz n a)"
    and "sorted_from cmp i (chunks sz n a)"
  shows "\<exists>a'. sort_heap i a sz cmp = Some a' \<and> length a' = n * sz \<and>
    sorted_wrt (\<lambda>x y. cmp x y \<le> 0) (chunks sz n a') \<and> rearranged i (chunks sz n a) (chunks sz n a')"
  using assms
proof (induction i a sz cmp rule: sort_heap.induct)
  case (1 i a sz cmp)
  let ?c = "chunks sz n a"
  note prems = 1(2-6)
  have len: "Suc (Suc i) \<le> length ?c" using prems(3) by simp
  obtain a1 where a1: "do_swap a 1 (Suc (Suc i)) sz = Some a1" "length a1 = n * sz"
    "chunks sz n a1 = swap_elems ?c 1 (Suc (Suc i))"
    using do_swap_chunks [of 1 n "Suc (Suc i)" a sz] prems(2,3) by auto
  have "heap_hole cmp 1 1 (Suc i) (chunks sz n a1)"
    unfolding a1(3) using heap_hole_swap [OF prems(4) len] by simp
  then obtain a2 where a2: "heapify a1 1 (Suc i) sz cmp = Some a2" "length a2 = n * sz"
    "heap_upto cmp 1 (Suc i) (chunks sz n a2)" "rearranged (Suc i) (chunks sz n a1) (chunks sz n a2)"
    using heapify_ok [OF prems(1) a1(2), of "Suc i" 1 1] prems(3) by auto
  have "sorted_from cmp (Suc i) (chunks sz n a2)"
    using sorted_from_rearranged [OF _ a2(4)] sorted_from_swap [OF prems(1,4,5) len] a1(3) by simp
  then obtain a3 where a3: "sort_heap (Suc i) a2 sz cmp = Some a3" "length a3 = n * sz"
    "sorted_wrt (\<lambda>x y. cmp x y \<le> 0) (chunks sz n a3)" "rearranged (Suc i) (chunks sz n a2) (chunks sz n a3)"
    using 1(1) [OF a1(1) a2(1) prems(1) a2(2)] a2(3) prems(3) by auto
  have "rearranged (Suc (Suc i)) ?c (chunks sz n a1)"
    unfolding rearranged_def a1(3) using len by (auto intro!: swap_elems_frame)
  then have "rearranged (Suc (Suc i)) ?c (chunks sz n a3)"
    using rearranged_mono [OF rearranged_trans [OF a2(4) a3(4)], of "Suc (Suc i)"] rearranged_trans by fastforce
  then show ?case using a1(1) a2(1) a3 by simp
qed (auto simp: rearranged_refl dest: sorted_from_1)

lemma sort_c_ok:
  assumes "total_compare cmp" "0 < sz" "length a = n * sz"
  obtains a' where "sort_c a n sz cmp = Some a'" "length a' = n * sz"
    "sorted_wrt (\<lambda>x y. cmp x y \<le> 0) (chunks sz n a')" "mset (chunks sz n a') = mset (chunks sz n a)"
proof -
  have "heap_upto cmp (Suc (n div 2)) n (chunks sz n a)" unfolding heap_upto_def by auto
  then obtain a1 where a1: "build_heap (n div 2) a n sz cmp = Some a1" "length a1 = n * sz"
    "heap_upto cmp 1 n (chunks sz n a1)" "rearranged n (chunks sz n a) (chunks sz n a1)"
    using build_heap_ok [OF assms(1,3), of "n div 2"] by auto
  have "sorted_from cmp n (chunks sz n a1)" by (simp add: sorted_from_def)
  then obtain a2 where "sort_heap n a1 sz cmp = Some a2" "length a2 = n * sz"
    "sorted_wrt (\<lambda>x y. cmp x y \<le> 0) (chunks sz n a2)" "rearranged n (chunks sz n a1) (chunks sz n a2)"
    using sort_heap_ok [OF assms(1) a1(2) order_refl a1(3)] by auto
  then show ?thesis
    using that a1(1) assms(2) rearranged_mset [OF rearranged_trans [OF a1(4)]] by (simp add: sort_c_def)
qed

lemma int_compare_total: "total_compare (\<lambda>x y. f x - f y)" for f :: "'b list \<Rightarrow> int"
  by (auto simp: total_compare_def)

text \<open>C15.  \<open>qsort\<close> always returns, whatever the array, and leaves the elements of the array sorted by a
  comparison function that orders them totally: no byte outside the array is touched, no element is
  lost or duplicated, and the length is kept.\<close>

theorem qsort_correct:
  assumes "total_compare cmp" "0 < sz" "length a = n * sz"
  shows "\<exists>a'. qsort a n sz cmp = Some a' \<and> length a' = length a \<and>
    sorted_wrt (\<lambda>x y. cmp x y \<le> 0) (chunks sz n a') \<and> mset (chunks sz n a') = mset (chunks sz n a)"
  using sort_c_ok [OF assms] assms(3) unfolding qsort_def compare_thunk_def by metis

theorem qsort_correct_witness:
  "\<exists>a'. qsort [3, 1, 2, 0, 1, 9::int] 3 2 (\<lambda>x y. hd x - hd y) = Some a' \<and>
     sorted_wrt (\<lambda>x y. hd x - hd y \<le> 0) (chunks 2 3 a')"
  using qsort_correct [OF int_compare_total [of hd], of 2 "[3, 1, 2, 0, 1, 9]" 3] by auto

section \<open>Binary search\<close>

text \<open>The array is ordered around the key: smaller elements first, larger ones last.\<close>

definition ordered_around :: "'b compare \<Rightarrow> 'b list \<Rightarrow> 'b list list \<Rightarrow> bool" where
  "ordered_around cmp key c \<longleftrightarrow>
     (\<forall>i j. i < j \<and> j < length c \<longrightarrow>
        (cmp key (c ! j) > 0 \<longrightarrow> cmp key (c ! i) > 0) \<and> (cmp key (c ! i) < 0 \<longrightarrow> cmp key (c ! j) < 0))"

definition found :: "'b compare \<Rightarrow> 'b list \<Rightarrow> 'b list list \<Rightarrow> nat \<Rightarrow> nat option \<Rightarrow> bool" where
  "found cmp key c sz r \<longleftrightarrow>
     (case r of None \<Rightarrow> \<forall>e \<in> set c. cmp key e \<noteq> 0
      | Some p \<Rightarrow> \<exists>i < length c. p = i * sz \<and> cmp key (c ! i) = 0)"

lemma search_loop_ok:
  assumes "0 < sz" "length a = n * sz" "ordered_around cmp key (chunks sz n a)"
    and "f \<le> l" "l \<le> n"
    and "\<forall>i < f. cmp key (chunks sz n a ! i) > 0" "\<forall>i < n. l \<le> i \<longrightarrow> cmp key (chunks sz n a ! i) < 0"
  shows "\<exists>r. search_loop key a (f * sz) (l * sz) sz cmp = Some r \<and> found cmp key (chunks sz n a) sz r"
  using assms(4-7)
proof (induction "l - f" arbitrary: f l rule: less_induct)
  case less
  let ?c = "chunks sz n a"
  show ?case
  proof (cases "f = l")
    case True
    then have "\<forall>i < n. cmp key (?c ! i) \<noteq> 0" using less.prems(3,4) by (metis less_irrefl not_le)
    then show ?thesis using True assms(1)
      by (subst search_loop.simps) (auto simp: found_def in_set_conv_nth)
  next
    case False
    define m where "m = f + (l - f) div 2"
    have m: "f \<le> m" "m < l" "m < n" using False less.prems unfolding m_def by linarith+
    have mid: "f * sz + (l * sz - f * sz) div sz div 2 * sz = m * sz"
      using assms(1) by (simp add: m_def add_mult_distrib flip: diff_mult_distrib)
    have lt: "f * sz < l * sz" using False less.prems(1) assms(1) by simp
    have e: "element a (m * sz) sz = Some (?c ! m)"
      using element_chunk [of "Suc m" n a sz] m assms(2) by simp
    note step = search_loop.simps [of key a "f * sz" "l * sz" sz cmp]
    have o: "cmp key (?c ! i) > 0" if "i < m" "cmp key (?c ! m) > 0" for i
      using assms(3) m that unfolding ordered_around_def by (metis length_chunks)
    have o2: "cmp key (?c ! i) < 0" if "m < i" "i < n" "cmp key (?c ! m) < 0" for i
      using assms(3) that unfolding ordered_around_def by (metis length_chunks)
    consider "cmp key (?c ! m) < 0" | "cmp key (?c ! m) > 0" | "cmp key (?c ! m) = 0" by linarith
    then show ?thesis
    proof cases
      case 1
      then have "\<exists>r. search_loop key a (f * sz) (m * sz) sz cmp = Some r \<and> found cmp key ?c sz r"
        using m less.prems o2 by (intro less.hyps) (auto simp: le_less)
      then show ?thesis using 1 lt assms(1) mid e step by (simp add: Let_def)
    next
      case 2
      then have "\<exists>r. search_loop key a (Suc m * sz) (l * sz) sz cmp = Some r \<and> found cmp key ?c sz r"
        using m less.prems o by (intro less.hyps) (auto simp: less_Suc_eq)
      then show ?thesis using 2 lt assms(1) mid e step by (simp add: Let_def add.commute)
    next
      case 3
      then show ?thesis using lt assms(1) mid e step m by (auto simp: Let_def found_def)
    qed
  qed
qed

text \<open>C16.  \<open>bsearch\<close> always returns; on an array ordered around the key it returns the address of an
  element equal to the key, and the null pointer exactly when there is none.\<close>

theorem bsearch_correct:
  assumes "0 < sz" "length a = n * sz" "ordered_around cmp key (chunks sz n a)"
  shows "\<exists>r. bsearch key a n sz cmp = Some r \<and> found cmp key (chunks sz n a) sz r"
  using search_loop_ok [OF assms, of 0 n] by (simp add: bsearch_def binary_search_def compare_thunk_def mult.commute)

theorem bsearch_correct_witness:
  "\<exists>r. bsearch [4] [1, 4, 6::int] 3 1 (\<lambda>x y. hd x - hd y) = Some r \<and>
     found (\<lambda>x y. hd x - hd y) [4] [[1], [4], [6]] 1 r"
proof -
  have c: "chunks 1 3 [1, 4, 6::int] = [[1], [4], [6]]" by (simp add: chunks_def upt_rec)
  have "ordered_around (\<lambda>x y. hd x - hd y) [4] [[1], [4], [6::int]]"
    by (auto simp: ordered_around_def less_Suc_eq numeral_eq_Suc)
  then show ?thesis using bsearch_correct [of 1 "[1, 4, 6]" 3 "\<lambda>x y. hd x - hd y" "[4]"] c by simp
qed

end
