(* ===== verification/Intq.thy ===== *)
theory Intq
  imports Synch
begin

text \<open>
  The interrupt queue (\<open>devices/intq.c\<close>): a circular buffer of 64 bytes between an interrupt handler
  and kernel threads.  A queue is a record of its own, passed beside the kernel.

  \<open>intq_getc\<close> and \<open>intq_putc\<close> may give up the processor twice in each round of their waiting loop, so
  they are cut there: the first part runs up to \<open>lock_acquire\<close> (result \<open>None\<close>) or to the end
  (\<open>Some\<close> the result); \<open>intq_getc_wait\<close> runs when the lock is held, up to \<open>thread_block\<close>;
  \<open>intq_getc_woken\<close> runs when the thread is woken, after which the loop starts again.
\<close>

section \<open>Definitions\<close>

definition INTQ_BUFSIZE :: nat where
  "INTQ_BUFSIZE = 64"

record intq =
  q_lock :: ptr
  not_full :: ptr
  not_empty :: ptr
  q_buf :: "u8 list"
  q_head :: nat
  q_tail :: nat

definition next_pos :: "nat \<Rightarrow> nat" where
  "next_pos pos = (pos + 1) mod INTQ_BUFSIZE"

definition intq_init :: "intq \<Rightarrow> kernel \<Rightarrow> (intq \<times> kernel) option" where
  "intq_init q k = do {
     k \<leftarrow> lock_init k (q_lock q);
     Some (q\<lparr>not_full := NULL, not_empty := NULL, q_head := 0, q_tail := 0\<rparr>, k) }"

definition intq_empty :: "intq \<Rightarrow> kernel \<Rightarrow> bool option" where
  "intq_empty q k = do {
     ASSERT (\<not> intr_get_level k);
     Some (q_head q = q_tail q) }"

definition intq_full :: "intq \<Rightarrow> kernel \<Rightarrow> bool option" where
  "intq_full q k = do {
     ASSERT (\<not> intr_get_level k);
     Some (next_pos (q_head q) = q_tail q) }"

text \<open>The two waiter variables of a queue, passed to \<open>wait\<close> and \<open>signal\<close> by address.\<close>

datatype waiter = Not_empty | Not_full

definition get_waiter :: "intq \<Rightarrow> waiter \<Rightarrow> ptr" where
  "get_waiter q w = (case w of Not_empty \<Rightarrow> not_empty q | Not_full \<Rightarrow> not_full q)"

definition set_waiter :: "intq \<Rightarrow> waiter \<Rightarrow> ptr \<Rightarrow> intq" where
  "set_waiter q w t = (case w of Not_empty \<Rightarrow> q\<lparr>not_empty := t\<rparr> | Not_full \<Rightarrow> q\<lparr>not_full := t\<rparr>)"

definition wait_intq :: "intq \<Rightarrow> waiter \<Rightarrow> kernel \<Rightarrow> (intq \<times> kernel) option" where
  "wait_intq q w k = do {
     ASSERT (\<not> intr_context k);
     ASSERT (\<not> intr_get_level k);
     e \<leftarrow> intq_empty q k;
     f \<leftarrow> intq_full q k;
     ASSERT (w = Not_empty \<and> e \<or> w = Not_full \<and> f);
     cur \<leftarrow> thread_current k;
     k \<leftarrow> thread_block k;
     Some (set_waiter q w cur, k) }"

definition signal_intq :: "intq \<Rightarrow> waiter \<Rightarrow> kernel \<Rightarrow> (intq \<times> kernel) option" where
  "signal_intq q w k = do {
     ASSERT (\<not> intr_get_level k);
     e \<leftarrow> intq_empty q k;
     f \<leftarrow> intq_full q k;
     ASSERT (w = Not_empty \<and> \<not> e \<or> w = Not_full \<and> \<not> f);
     if get_waiter q w \<noteq> NULL then do {
       k \<leftarrow> thread_unblock k (get_waiter q w);
       Some (set_waiter q w NULL, k) }
     else Some (q, k) }"

definition intq_getc :: "intq \<Rightarrow> kernel \<Rightarrow> (u8 option \<times> intq \<times> kernel) option" where
  "intq_getc q k = do {
     ASSERT (\<not> intr_get_level k);
     e \<leftarrow> intq_empty q k;
     if e then do {
       ASSERT (\<not> intr_context k);
       k \<leftarrow> lock_acquire k (q_lock q);
       Some (None, q, k) }
     else do {
       ASSERT (q_tail q < length (q_buf q));
       let byte = q_buf q ! q_tail q;
       (q, k) \<leftarrow> signal_intq (q\<lparr>q_tail := next_pos (q_tail q)\<rparr>) Not_full k;
       Some (Some byte, q, k) } }"

definition intq_getc_wait :: "intq \<Rightarrow> kernel \<Rightarrow> (intq \<times> kernel) option" where
  "intq_getc_wait q k = wait_intq q Not_empty k"

definition intq_getc_woken :: "intq \<Rightarrow> kernel \<Rightarrow> (intq \<times> kernel) option" where
  "intq_getc_woken q k = map_option (\<lambda>k. (q, k)) (lock_release k (q_lock q))"

definition intq_putc :: "intq \<Rightarrow> u8 \<Rightarrow> kernel \<Rightarrow> (unit option \<times> intq \<times> kernel) option" where
  "intq_putc q byte k = do {
     ASSERT (\<not> intr_get_level k);
     f \<leftarrow> intq_full q k;
     if f then do {
       ASSERT (\<not> intr_context k);
       k \<leftarrow> lock_acquire k (q_lock q);
       Some (None, q, k) }
     else do {
       ASSERT (q_head q < length (q_buf q));
       (q, k) \<leftarrow> signal_intq (q\<lparr>q_buf := (q_buf q)[q_head q := byte],
         q_head := next_pos (q_head q)\<rparr>) Not_empty k;
       Some (Some (), q, k) } }"

definition intq_putc_wait :: "intq \<Rightarrow> kernel \<Rightarrow> (intq \<times> kernel) option" where
  "intq_putc_wait q k = wait_intq q Not_full k"

definition intq_putc_woken :: "intq \<Rightarrow> kernel \<Rightarrow> (intq \<times> kernel) option" where
  "intq_putc_woken q k = map_option (\<lambda>k. (q, k)) (lock_release k (q_lock q))"

section \<open>The circular buffer is a bounded queue\<close>

definition intq_ok :: "intq \<Rightarrow> bool" where
  "intq_ok q \<longleftrightarrow> length (q_buf q) = INTQ_BUFSIZE \<and> q_head q < INTQ_BUFSIZE \<and> q_tail q < INTQ_BUFSIZE"

definition q_len :: "intq \<Rightarrow> nat" where
  "q_len q = (q_head q + INTQ_BUFSIZE - q_tail q) mod INTQ_BUFSIZE"

definition contents :: "intq \<Rightarrow> u8 list" where
  "contents q = map (\<lambda>i. q_buf q ! ((q_tail q + i) mod INTQ_BUFSIZE)) [0..<q_len q]"

lemma next_pos_less: "next_pos p < INTQ_BUFSIZE"
  by (simp add: next_pos_def INTQ_BUFSIZE_def)

lemma next_pos_if: "p < INTQ_BUFSIZE \<Longrightarrow> next_pos p = (if p = 63 then 0 else p + 1)"
  by (simp add: next_pos_def INTQ_BUFSIZE_def)

lemma mod_64_if: "n < 128 \<Longrightarrow> n mod 64 = (if n < 64 then n else n - (64::nat))"
  by (simp add: mod_if)

lemma q_len_if:
  "intq_ok q \<Longrightarrow> q_len q = (if q_tail q \<le> q_head q then q_head q - q_tail q else q_head q + 64 - q_tail q)"
  unfolding intq_ok_def q_len_def INTQ_BUFSIZE_def by (subst mod_64_if) auto

lemma length_contents [simp]: "length (contents q) = q_len q"
  by (simp add: contents_def)

lemma intq_ok_tail: "intq_ok q \<Longrightarrow> intq_ok (q\<lparr>q_tail := next_pos (q_tail q)\<rparr>)"
  by (simp add: intq_ok_def next_pos_less)

lemma intq_ok_head:
  "intq_ok q \<Longrightarrow> intq_ok (q\<lparr>q_buf := (q_buf q)[i := b], q_head := next_pos (q_head q)\<rparr>)"
  by (simp add: intq_ok_def next_pos_less)

lemma empty_iff: "intq_ok q \<Longrightarrow> q_head q = q_tail q \<longleftrightarrow> contents q = []"
  unfolding length_0_conv [symmetric] length_contents
  by (auto simp: q_len_if intq_ok_def INTQ_BUFSIZE_def)

lemma full_iff: "intq_ok q \<Longrightarrow> next_pos (q_head q) = q_tail q \<longleftrightarrow> length (contents q) = INTQ_BUFSIZE - 1"
  using q_len_if [of q] unfolding length_contents intq_ok_def
  by (auto simp: next_pos_if INTQ_BUFSIZE_def split: if_splits)

lemma contents_tail:
  assumes "intq_ok q" "q_head q \<noteq> q_tail q"
  shows "contents q = q_buf q ! q_tail q # contents (q\<lparr>q_tail := next_pos (q_tail q)\<rparr>)"
proof -
  have len: "q_len q = Suc (q_len (q\<lparr>q_tail := next_pos (q_tail q)\<rparr>))"
    using assms q_len_if [OF assms(1)] q_len_if [OF intq_ok_tail [OF assms(1)]]
    unfolding intq_ok_def by (auto simp: next_pos_if INTQ_BUFSIZE_def split: if_splits)
  have "(q_tail q + Suc i) mod 64 = ((q_tail q + 1) mod 64 + i) mod 64" for i
    by (simp add: mod_simps)
  then show ?thesis
    using assms unfolding contents_def len upt_conv_Cons [OF zero_less_Suc] intq_ok_def
    by (simp add: map_Suc_upt [symmetric] comp_def next_pos_def INTQ_BUFSIZE_def del: upt_Suc)
qed

lemma contents_head:
  assumes "intq_ok q" "next_pos (q_head q) \<noteq> q_tail q"
  shows "contents (q\<lparr>q_buf := (q_buf q)[q_head q := b], q_head := next_pos (q_head q)\<rparr>) = contents q @ [b]"
proof -
  let ?q = "q\<lparr>q_buf := (q_buf q)[q_head q := b], q_head := next_pos (q_head q)\<rparr>"
  have ok: "length (q_buf q) = 64" "q_head q < 64" "q_tail q < 64"
    using assms(1) by (auto simp: intq_ok_def INTQ_BUFSIZE_def)
  have len: "q_len ?q = Suc (q_len q)"
    using assms ok q_len_if [OF assms(1)] q_len_if [OF intq_ok_head [OF assms(1)], of "q_head q" b]
    by (auto simp: next_pos_if INTQ_BUFSIZE_def split: if_splits)
  have lt: "q_tail q + i < 128" if "i \<le> q_len q" for i
    using that ok q_len_if [OF assms(1)] by (auto split: if_splits)
  have h: "(q_tail q + q_len q) mod 64 = q_head q"
    unfolding mod_64_if [OF lt [OF order_refl]] using ok q_len_if [OF assms(1)] by (auto split: if_splits)
  have ne: "(q_tail q + i) mod 64 \<noteq> q_head q" if "i < q_len q" for i
    unfolding mod_64_if [OF lt [OF less_imp_le [OF that]]] using that ok q_len_if [OF assms(1)]
    by (auto split: if_splits)
  have "map (\<lambda>i. (q_buf q)[q_head q := b] ! ((q_tail q + i) mod 64)) [0..<q_len q]
    = map (\<lambda>i. q_buf q ! ((q_tail q + i) mod 64)) [0..<q_len q]"
    using ne by (auto simp: nth_list_update_neq [OF not_sym])
  then show ?thesis
    using h ok unfolding contents_def len upt_Suc_append [OF le0] map_append INTQ_BUFSIZE_def
    by simp
qed

section \<open>Operations on the queue\<close>

lemma signal_cases:
  assumes "signal_intq q w k = Some (q', k')"
  shows "q' = set_waiter q w NULL \<or> q' = q"
    and "get_waiter q w \<noteq> NULL \<Longrightarrow> q' = set_waiter q w NULL \<and> thread_unblock k (get_waiter q w) = Some k'"
  using assms by (auto simp: signal_intq_def intq_empty_def intq_full_def split: if_splits Option.bind_splits)

lemma set_waiter_data [simp]:
  "contents (set_waiter q w t) = contents q" "intq_ok (set_waiter q w t) = intq_ok q"
  by (cases w; simp add: set_waiter_def contents_def q_len_def intq_ok_def)+

lemma q_len_max: "intq_ok q \<Longrightarrow> q_len q \<le> 63"
  using q_len_if [of q] by (auto simp: intq_ok_def INTQ_BUFSIZE_def split: if_splits)

lemma intq_putc_fifo:
  assumes "intq_ok q" "intq_putc q b k = Some (r, q', k')"
  shows "intq_ok q' \<and> (if length (contents q) = 63 then r = None \<and> q' = q
       else r = Some () \<and> contents q' = contents q @ [b])"
proof (cases "next_pos (q_head q) = q_tail q")
  case True
  then show ?thesis using assms full_iff [OF assms(1)]
    by (auto simp: intq_putc_def intq_full_def INTQ_BUFSIZE_def split: if_splits Option.bind_splits)
next
  case False
  let ?q = "q\<lparr>q_buf := (q_buf q)[q_head q := b], q_head := next_pos (q_head q)\<rparr>"
  have "r = Some ()" "signal_intq ?q Not_empty k = Some (q', k')"
    using False assms(2) by (auto simp: intq_putc_def intq_full_def split: if_splits Option.bind_splits)
  moreover have "intq_ok q' \<and> contents q' = contents ?q"
    using signal_cases(1) [OF calculation(2)] intq_ok_head [OF assms(1)] by auto
  ultimately show ?thesis
    using False full_iff [OF assms(1)] contents_head [OF assms(1) False] by (simp add: INTQ_BUFSIZE_def)
qed

lemma intq_getc_fifo:
  assumes "intq_ok q" "intq_getc q k = Some (x, q', k')"
  shows "intq_ok q' \<and>
    (case contents q of [] \<Rightarrow> x = None \<and> q' = q | c # cs \<Rightarrow> x = Some c \<and> contents q' = cs)"
proof (cases "q_head q = q_tail q")
  case True
  then show ?thesis using assms empty_iff [OF assms(1)]
    by (auto simp: intq_getc_def intq_empty_def split: if_splits Option.bind_splits)
next
  case False
  let ?q = "q\<lparr>q_tail := next_pos (q_tail q)\<rparr>"
  have "x = Some (q_buf q ! q_tail q)" "signal_intq ?q Not_full k = Some (q', k')"
    using False assms(2) by (auto simp: intq_getc_def intq_empty_def split: if_splits Option.bind_splits)
  moreover have "intq_ok q' \<and> contents q' = contents ?q"
    using signal_cases(1) [OF calculation(2)] intq_ok_tail [OF assms(1)] by auto
  ultimately show ?thesis using contents_tail [OF assms(1) False] by simp
qed

lemma thread_unblock_quiet:
  assumes "\<not> intr_on k" "is_thread k t" "t_status (k_threads k t) = THREAD_BLOCKED"
  obtains k' where "thread_unblock k t = Some k'" "ready_list k' = ready_list k @ [t]"
    "t_status (k_threads k' t) = THREAD_READY"
  using assms
  by (simp add: thread_unblock_def intr_disable_def intr_set_level_def intr_get_level_def Let_def upd_thread_def)

text \<open>C17.  From any state where its indices are in range, the interrupt queue is a first-in
  first-out queue of at most 63 bytes: \<open>intq_putc\<close> waits exactly when 63 bytes are queued and else
  appends its byte, \<open>intq_getc\<close> waits exactly when the queue is empty and else takes the oldest byte.\<close>

theorem intq_fifo:
  assumes "intq_ok q"
  shows "(\<forall>b r q' k'. intq_putc q b k = Some (r, q', k') \<longrightarrow> intq_ok q' \<and> length (contents q') \<le> 63 \<and>
      (if length (contents q) = 63 then r = None \<and> q' = q
       else r = Some () \<and> contents q' = contents q @ [b])) \<and>
    (\<forall>x q' k'. intq_getc q k = Some (x, q', k') \<longrightarrow> intq_ok q' \<and> length (contents q') \<le> 63 \<and>
      (case contents q of [] \<Rightarrow> x = None \<and> q' = q | c # cs \<Rightarrow> x = Some c \<and> contents q' = cs))"
proof (intro conjI allI impI)
  fix b r q' k'
  assume "intq_putc q b k = Some (r, q', k')"
  note * = intq_putc_fifo [OF assms this]
  show "intq_ok q'" "length (contents q') \<le> 63" "if length (contents q) = 63 then r = None \<and> q' = q
       else r = Some () \<and> contents q' = contents q @ [b]"
    using * q_len_max [of q'] by simp_all
next
  fix x q' k'
  assume "intq_getc q k = Some (x, q', k')"
  note * = intq_getc_fifo [OF assms this]
  show "intq_ok q'" "length (contents q') \<le> 63" "case contents q of [] \<Rightarrow> x = None \<and> q' = q
      | c # cs \<Rightarrow> x = Some c \<and> contents q' = cs"
    using * q_len_max [of q'] by simp_all
qed

definition sample_intq :: intq where
  "sample_intq = \<lparr>q_lock = 64, not_full = NULL, not_empty = NULL, q_buf = replicate 64 7, q_head = 1, q_tail = 63\<rparr>"

theorem intq_fifo_witness:
  "\<exists>q' k'. intq_putc sample_intq 5 (sample_kernel THREAD_RUNNING) = Some (Some (), q', k') \<and>
     contents q' = [7, 7, 5]"
proof -
  have ok: "intq_ok sample_intq" and c: "contents sample_intq = [7, 7]"
    by (simp_all add: intq_ok_def sample_intq_def INTQ_BUFSIZE_def contents_def q_len_def upt_rec)
  have "\<exists>r q' k'. intq_putc sample_intq 5 (sample_kernel THREAD_RUNNING) = Some (r, q', k')"
    by (simp add: intq_putc_def intq_full_def signal_intq_def intq_empty_def intr_get_level_def sample_intq_def
        get_waiter_def next_pos_def INTQ_BUFSIZE_def sample_kernel_def zero_kernel_def)
  then show ?thesis using intq_fifo [OF ok, of "sample_kernel THREAD_RUNNING"] c by fastforce
qed

text \<open>C18.  Storing a byte wakes the thread that waits for one: from an interrupt handler with a queue
  that is not full the store always succeeds, and the waiting thread becomes ready and is no longer
  recorded as waiting.\<close>

theorem intq_putc_wakes:
  assumes "\<not> intr_on k" "intq_ok q" "length (contents q) < 63"
    and "not_empty q = t" "t \<noteq> NULL" "is_thread k t" "t_status (k_threads k t) = THREAD_BLOCKED"
  shows "\<exists>q' k'. intq_putc q b k = Some (Some (), q', k') \<and> not_empty q' = NULL \<and>
    ready_list k' = ready_list k @ [t] \<and> t_status (k_threads k' t) = THREAD_READY"
proof -
  have nf: "next_pos (q_head q) \<noteq> q_tail q" using full_iff [OF assms(2)] assms(3) by (auto simp: INTQ_BUFSIZE_def)
  have "q_head q < length (q_buf q)" using assms(2) by (simp add: intq_ok_def)
  moreover have "next_pos (q_head q) \<noteq> q_head q"
    using assms(2) by (auto simp: next_pos_if intq_ok_def INTQ_BUFSIZE_def)
  moreover obtain k' where "thread_unblock k t = Some k'" "ready_list k' = ready_list k @ [t]"
    "t_status (k_threads k' t) = THREAD_READY"
    using thread_unblock_quiet [OF assms(1,6,7)] .
  ultimately show ?thesis using nf assms(1,4,5)
    by (auto simp: intq_putc_def intq_full_def signal_intq_def intq_empty_def intr_get_level_def
        get_waiter_def set_waiter_def)
qed

theorem intq_putc_wakes_witness:
  "\<exists>q' k'. intq_putc (sample_intq\<lparr>not_empty := 16384\<rparr>) 5 (sample_kernel THREAD_RUNNING) =
      Some (Some (), q', k') \<and> not_empty q' = NULL \<and> ready_list k' = [8192, 12288, 16384]"
  using intq_putc_wakes [of "sample_kernel THREAD_RUNNING" "sample_intq\<lparr>not_empty := 16384\<rparr>" 16384 5]
  by (fastforce simp: intq_ok_def sample_intq_def INTQ_BUFSIZE_def q_len_def is_thread_def
      sample_kernel_def sample_thread_def zero_kernel_def zero_thread_def)

end
