(* ===== verification/C_String.thy ===== *)
theory C_String
  imports Prelude
begin

text \<open>
  Memory and the string functions of \<open>lib/string.c\<close>.  Memory is a function from addresses to bytes.
  A loop over a null-terminated string is a \<open>partial_function (option)\<close>: it does not return on a
  memory that never holds a zero.
\<close>

type_synonym mem = "ptr \<Rightarrow> u8"

section \<open>Definitions\<close>

subsection \<open>Blocks of memory\<close>

primrec copy_up :: "nat \<Rightarrow> mem \<Rightarrow> ptr \<Rightarrow> ptr \<Rightarrow> mem" where
  "copy_up 0 m dst src = m"
| "copy_up (Suc n) m dst src = copy_up n (m(dst := m src)) (dst + 1) (src + 1)"

text \<open>The loop that copies from the last byte down; \<open>dst\<close> and \<open>src\<close> point past the end.\<close>

primrec copy_down :: "nat \<Rightarrow> mem \<Rightarrow> ptr \<Rightarrow> ptr \<Rightarrow> mem" where
  "copy_down 0 m dst src = m"
| "copy_down (Suc n) m dst src = copy_down n (m(dst - 1 := m (src - 1))) (dst - 1) (src - 1)"

definition memcpy :: "mem \<Rightarrow> ptr \<Rightarrow> ptr \<Rightarrow> nat \<Rightarrow> (ptr \<times> mem) option" where
  "memcpy m dst src n = do {
     ASSERT (dst \<noteq> NULL \<or> n = 0);
     ASSERT (src \<noteq> NULL \<or> n = 0);
     Some (dst, copy_up n m dst src) }"

text \<open>\<open>memmove\<close> returns the variable \<open>dst\<close>, which the upward loop has advanced.\<close>

definition memmove :: "mem \<Rightarrow> ptr \<Rightarrow> ptr \<Rightarrow> nat \<Rightarrow> (ptr \<times> mem) option" where
  "memmove m dst src n = do {
     ASSERT (dst \<noteq> NULL \<or> n = 0);
     ASSERT (src \<noteq> NULL \<or> n = 0);
     if dst < src then Some (dst + n, copy_up n m dst src)
     else Some (dst, copy_down n m (dst + n) (src + n)) }"

primrec cmp_loop :: "nat \<Rightarrow> mem \<Rightarrow> ptr \<Rightarrow> ptr \<Rightarrow> int" where
  "cmp_loop 0 m a b = 0"
| "cmp_loop (Suc n) m a b =
     (if m a \<noteq> m b then (if m a > m b then 1 else - 1) else cmp_loop n m (a + 1) (b + 1))"

definition memcmp :: "mem \<Rightarrow> ptr \<Rightarrow> ptr \<Rightarrow> nat \<Rightarrow> int option" where
  "memcmp m a b n = do {
     ASSERT (a \<noteq> NULL \<or> n = 0);
     ASSERT (b \<noteq> NULL \<or> n = 0);
     Some (cmp_loop n m a b) }"

primrec chr_loop :: "nat \<Rightarrow> mem \<Rightarrow> ptr \<Rightarrow> u8 \<Rightarrow> ptr" where
  "chr_loop 0 m p c = NULL"
| "chr_loop (Suc n) m p c = (if m p = c then p else chr_loop n m (p + 1) c)"

definition memchr :: "mem \<Rightarrow> ptr \<Rightarrow> int \<Rightarrow> nat \<Rightarrow> ptr option" where
  "memchr m p ch n = do {
     ASSERT (p \<noteq> NULL \<or> n = 0);
     Some (chr_loop n m p (word_of_int ch)) }"

primrec set_loop :: "nat \<Rightarrow> mem \<Rightarrow> ptr \<Rightarrow> u8 \<Rightarrow> mem" where
  "set_loop 0 m dst v = m"
| "set_loop (Suc n) m dst v = set_loop n (m(dst := v)) (dst + 1) v"

definition memset :: "mem \<Rightarrow> ptr \<Rightarrow> int \<Rightarrow> nat \<Rightarrow> (ptr \<times> mem) option" where
  "memset m dst v n = do {
     ASSERT (dst \<noteq> NULL \<or> n = 0);
     Some (dst, set_loop n m dst (word_of_int v)) }"

subsection \<open>Null-terminated strings\<close>

partial_function (option) strcmp_loop :: "mem \<Rightarrow> ptr \<Rightarrow> ptr \<Rightarrow> int option" where
  "strcmp_loop m a b =
     (if m a \<noteq> 0 \<and> m a = m b then strcmp_loop m (a + 1) (b + 1)
      else Some (if m a < m b then - 1 else if m a > m b then 1 else 0))"

definition strcmp :: "mem \<Rightarrow> ptr \<Rightarrow> ptr \<Rightarrow> int option" where
  "strcmp m a b = do {
     ASSERT (a \<noteq> NULL);
     ASSERT (b \<noteq> NULL);
     strcmp_loop m a b }"

partial_function (option) strchr_loop :: "mem \<Rightarrow> ptr \<Rightarrow> u8 \<Rightarrow> ptr option" where
  "strchr_loop m p c =
     (if m p = c then Some p else if m p = 0 then Some NULL else strchr_loop m (p + 1) c)"

definition strchr :: "mem \<Rightarrow> ptr \<Rightarrow> u8 \<Rightarrow> ptr option" where
  "strchr m p c = do {
     ASSERT (p \<noteq> NULL);
     strchr_loop m p c }"

partial_function (option) strcspn_loop :: "mem \<Rightarrow> ptr \<Rightarrow> ptr \<Rightarrow> nat \<Rightarrow> nat option" where
  "strcspn_loop m p stop n =
     (if m (p + n) \<noteq> 0 then do {
        r \<leftarrow> strchr m stop (m (p + n));
        if r \<noteq> NULL then Some n else strcspn_loop m p stop (n + 1) }
      else Some n)"

definition strcspn :: "mem \<Rightarrow> ptr \<Rightarrow> ptr \<Rightarrow> nat option" where
  "strcspn m p stop = strcspn_loop m p stop 0"

partial_function (option) strpbrk :: "mem \<Rightarrow> ptr \<Rightarrow> ptr \<Rightarrow> ptr option" where
  "strpbrk m p stop =
     (if m p \<noteq> 0 then do {
        r \<leftarrow> strchr m stop (m p);
        if r \<noteq> NULL then Some p else strpbrk m (p + 1) stop }
      else Some NULL)"

partial_function (option) strrchr_loop :: "mem \<Rightarrow> ptr \<Rightarrow> u8 \<Rightarrow> ptr \<Rightarrow> ptr option" where
  "strrchr_loop m p c last_p =
     (if m p \<noteq> 0 then strrchr_loop m (p + 1) c (if m p = c then p else last_p) else Some last_p)"

definition strrchr :: "mem \<Rightarrow> ptr \<Rightarrow> u8 \<Rightarrow> ptr option" where
  "strrchr m p c = strrchr_loop m p c NULL"

partial_function (option) strspn_loop :: "mem \<Rightarrow> ptr \<Rightarrow> ptr \<Rightarrow> nat \<Rightarrow> nat option" where
  "strspn_loop m p skip n =
     (if m (p + n) \<noteq> 0 then do {
        r \<leftarrow> strchr m skip (m (p + n));
        if r = NULL then Some n else strspn_loop m p skip (n + 1) }
      else Some n)"

definition strspn :: "mem \<Rightarrow> ptr \<Rightarrow> ptr \<Rightarrow> nat option" where
  "strspn m p skip = strspn_loop m p skip 0"

partial_function (option) strlen_loop :: "mem \<Rightarrow> ptr \<Rightarrow> ptr option" where
  "strlen_loop m p = (if m p \<noteq> 0 then strlen_loop m (p + 1) else Some p)"

definition strlen :: "mem \<Rightarrow> ptr \<Rightarrow> nat option" where
  "strlen m p = do {
     ASSERT (p \<noteq> NULL);
     q \<leftarrow> strlen_loop m p;
     Some (q - p) }"

function strnlen_loop :: "mem \<Rightarrow> ptr \<Rightarrow> nat \<Rightarrow> nat \<Rightarrow> nat" where
  "strnlen_loop m p maxlen n =
     (if m (p + n) \<noteq> 0 \<and> n < maxlen then strnlen_loop m p maxlen (n + 1) else n)"
  by auto
termination by (relation "measure (\<lambda>(_, _, maxlen, n). maxlen - n)") auto

declare strnlen_loop.simps [simp del]

definition strnlen :: "mem \<Rightarrow> ptr \<Rightarrow> nat \<Rightarrow> nat" where
  "strnlen m p maxlen = strnlen_loop m p maxlen 0"

text \<open>The loop of \<open>strstr\<close> from \<open>i\<close>, with \<open>n\<close> positions left to try.\<close>

primrec strstr_loop :: "nat \<Rightarrow> mem \<Rightarrow> ptr \<Rightarrow> ptr \<Rightarrow> nat \<Rightarrow> nat \<Rightarrow> ptr option" where
  "strstr_loop 0 m haystack needle needle_len i = Some NULL"
| "strstr_loop (Suc n) m haystack needle needle_len i = do {
     c \<leftarrow> memcmp m (haystack + i) needle needle_len;
     if c = 0 then Some (haystack + i) else strstr_loop n m haystack needle needle_len (i + 1) }"

definition strstr :: "mem \<Rightarrow> ptr \<Rightarrow> ptr \<Rightarrow> ptr option" where
  "strstr m haystack needle = do {
     haystack_len \<leftarrow> strlen m haystack;
     needle_len \<leftarrow> strlen m needle;
     if haystack_len \<ge> needle_len then strstr_loop (haystack_len - needle_len + 1) m haystack needle needle_len 0
     else Some NULL }"

text \<open>The two loops of \<open>strtok_r\<close>: over the delimiters (\<open>Inl\<close> at the end of the string, \<open>Inr\<close> at the
  first other character), then over the token.\<close>

partial_function (option) skip_delims :: "mem \<Rightarrow> ptr \<Rightarrow> ptr \<Rightarrow> (ptr + ptr) option" where
  "skip_delims m delims s = do {
     r \<leftarrow> strchr m delims (m s);
     if r \<noteq> NULL then (if m s = 0 then Some (Inl s) else skip_delims m delims (s + 1))
     else Some (Inr s) }"

partial_function (option) token_end :: "mem \<Rightarrow> ptr \<Rightarrow> ptr \<Rightarrow> ptr option" where
  "token_end m delims s = do {
     r \<leftarrow> strchr m delims (m s);
     if r = NULL then token_end m delims (s + 1) else Some s }"

text \<open>The result: the token, the new value of \<open>*save_ptr\<close> and the memory.\<close>

definition strtok_r :: "mem \<Rightarrow> ptr \<Rightarrow> ptr \<Rightarrow> ptr \<Rightarrow> (ptr \<times> ptr \<times> mem) option" where
  "strtok_r m s delims save_ptr = do {
     ASSERT (delims \<noteq> NULL);
     let s = (if s = NULL then save_ptr else s);
     ASSERT (s \<noteq> NULL);
     r \<leftarrow> skip_delims m delims s;
     case r of
       Inl s \<Rightarrow> Some (NULL, s, m)
     | Inr token \<Rightarrow> do {
         s \<leftarrow> token_end m delims token;
         if m s \<noteq> 0 then Some (token, s + 1, m(s := 0)) else Some (token, s, m) } }"

definition strlcpy :: "mem \<Rightarrow> ptr \<Rightarrow> ptr \<Rightarrow> nat \<Rightarrow> (nat \<times> mem) option" where
  "strlcpy m dst src n = do {
     ASSERT (dst \<noteq> NULL);
     ASSERT (src \<noteq> NULL);
     src_len \<leftarrow> strlen m src;
     if n > 0 then do {
       let dst_len = (if src_len < n - 1 then src_len else n - 1);
       (_, m) \<leftarrow> memcpy m dst src dst_len;
       Some (src_len, m(dst + dst_len := 0)) }
     else Some (src_len, m) }"

definition strlcat :: "mem \<Rightarrow> ptr \<Rightarrow> ptr \<Rightarrow> nat \<Rightarrow> (nat \<times> mem) option" where
  "strlcat m dst src n = do {
     ASSERT (dst \<noteq> NULL);
     ASSERT (src \<noteq> NULL);
     src_len \<leftarrow> strlen m src;
     dst_len \<leftarrow> strlen m dst;
     if n > 0 \<and> dst_len < n then do {
       let copy_cnt = (if src_len < n - dst_len - 1 then src_len else n - dst_len - 1);
       (_, m) \<leftarrow> memcpy m (dst + dst_len) src copy_cnt;
       Some (src_len + dst_len, m(dst + dst_len + copy_cnt := 0)) }
     else Some (src_len + dst_len, m) }"

section \<open>Copying memory\<close>

lemma copy_up_apply:
  assumes "dst \<le> src \<or> src + n \<le> dst"
  shows "copy_up n m dst src a = (if dst \<le> a \<and> a < dst + n then m (src + (a - dst)) else m a)"
  using assms
proof (induction n arbitrary: m dst src)
  case (Suc n)
  have ih: "copy_up n (m(dst := m src)) (dst + 1) (src + 1) a =
    (if dst + 1 \<le> a \<and> a < dst + 1 + n then (m(dst := m src)) (src + 1 + (a - (dst + 1)))
     else (m(dst := m src)) a)"
    using Suc.prems by (intro Suc.IH) linarith
  show ?case
  proof (cases "dst < a \<and> a < dst + Suc n")
    case True
    then have "src + 1 + (a - (dst + 1)) = src + (a - dst)" "src + (a - dst) \<noteq> dst"
      using Suc.prems by linarith+
    then show ?thesis using True ih by simp
  next
    case False
    then show ?thesis using ih by auto
  qed
qed auto

lemma copy_down_apply:
  assumes "src \<le> dst"
  shows "copy_down n m (dst + n) (src + n) a = (if dst \<le> a \<and> a < dst + n then m (src + (a - dst)) else m a)"
  using assms
proof (induction n arbitrary: m)
  case (Suc n)
  let ?m = "m(dst + n := m (src + n))"
  have ih: "copy_down n ?m (dst + n) (src + n) a =
    (if dst \<le> a \<and> a < dst + n then ?m (src + (a - dst)) else ?m a)"
    using Suc.prems by (intro Suc.IH)
  show ?case
  proof (cases "dst \<le> a \<and> a < dst + n")
    case True
    then have "src + (a - dst) \<noteq> dst + n" using Suc.prems by linarith
    then show ?thesis using True ih by simp
  next
    case False
    then show ?thesis using ih by auto
  qed
qed auto

lemma set_loop_apply: "set_loop n m dst v a = (if dst \<le> a \<and> a < dst + n then v else m a)"
  by (induction n arbitrary: m dst) auto

text \<open>C19.  \<open>memmove\<close> copies correctly even when the two blocks overlap: afterwards the destination
  holds what the source held before, and no other byte has changed.  (The address returned is the
  destination only when it does not lie below the source.)\<close>

theorem memmove_overlap:
  assumes "dst \<noteq> NULL" "src \<noteq> NULL"
  shows "\<exists>m'. memmove m dst src n = Some (if dst < src then dst + n else dst, m') \<and>
    (\<forall>i < n. m' (dst + i) = m (src + i)) \<and> (\<forall>a. a < dst \<or> dst + n \<le> a \<longrightarrow> m' a = m a)"
  using assms copy_up_apply [of dst src n m] copy_down_apply [of src dst n m]
  by (auto simp: memmove_def)

theorem memmove_overlap_witness:
  "\<exists>m'. memmove (\<lambda>a. of_nat a) 11 10 3 = Some (11, m') \<and> m' 13 = 12"
  using memmove_overlap [of 11 10 "\<lambda>a. of_nat a" 3] by (auto dest: spec [of _ 2])

section \<open>Null-terminated strings in memory\<close>

primrec cstr :: "mem \<Rightarrow> ptr \<Rightarrow> u8 list \<Rightarrow> bool" where
  "cstr m p [] \<longleftrightarrow> m p = 0"
| "cstr m p (c # cs) \<longleftrightarrow> m p = c \<and> c \<noteq> 0 \<and> cstr m (p + 1) cs"

lemma cstr_nth: "cstr m p cs \<Longrightarrow> i < length cs \<Longrightarrow> m (p + i) = cs ! i"
proof (induction cs arbitrary: p i)
  case (Cons c cs)
  then show ?case by (cases i) (auto simp flip: add_Suc)
qed simp

lemma cstr_end: "cstr m p cs \<Longrightarrow> m (p + length cs) = 0"
  by (induction cs arbitrary: p) (auto simp flip: add_Suc)

lemma cstr_nz: "cstr m p cs \<Longrightarrow> c \<in> set cs \<Longrightarrow> c \<noteq> 0"
  by (induction cs arbitrary: p) auto

lemma cstr_intro:
  assumes "\<And>i. i < length cs \<Longrightarrow> m (p + i) = cs ! i" "m (p + length cs) = 0" "\<And>c. c \<in> set cs \<Longrightarrow> c \<noteq> 0"
  shows "cstr m p cs"
  using assms
proof (induction cs arbitrary: p)
  case (Cons c cs)
  have "cstr m (p + 1) cs"
    using Cons.prems(1) [of "Suc _"] Cons.prems(2,3) by (intro Cons.IH) auto
  then show ?case using Cons.prems(1) [of 0] Cons.prems(3) by auto
qed simp

lemma cstr_append: "cstr m p (xs @ ys) \<Longrightarrow> cstr m (p + length xs) ys"
  by (induction xs arbitrary: p) (auto simp flip: add_Suc)

lemma cstr_cong:
  assumes "cstr m p cs" "\<And>a. p \<le> a \<Longrightarrow> a \<le> p + length cs \<Longrightarrow> m' a = m a"
  shows "cstr m' p cs"
  using assms by (intro cstr_intro) (auto simp: cstr_nth cstr_end dest: cstr_nz)

lemma strlen_loop_cstr: "cstr m p cs \<Longrightarrow> strlen_loop m p = Some (p + length cs)"
proof (induction cs arbitrary: p)
  case Nil
  then show ?case by (subst strlen_loop.simps) simp
next
  case (Cons c cs)
  then show ?case by (subst strlen_loop.simps) auto
qed

lemma strlen_cstr: "cstr m p cs \<Longrightarrow> p \<noteq> NULL \<Longrightarrow> strlen m p = Some (length cs)"
  by (simp add: strlen_def strlen_loop_cstr)

lemma strchr_loop_cstr:
  assumes "cstr m p cs" "p \<noteq> NULL"
  shows "\<exists>r. strchr_loop m p c = Some r \<and> (r = NULL \<longleftrightarrow> c \<notin> set cs \<and> c \<noteq> 0) \<and>
    (r \<noteq> NULL \<longrightarrow> p \<le> r \<and> r \<le> p + length cs \<and> m r = c \<and> (\<forall>a. p \<le> a \<and> a < r \<longrightarrow> m a \<noteq> c))"
  using assms
proof (induction cs arbitrary: p)
  case Nil
  then show ?case by (subst strchr_loop.simps) auto
next
  case (Cons x cs)
  show ?case
  proof (cases "x = c")
    case True
    then show ?thesis using Cons.prems by (subst strchr_loop.simps) auto
  next
    case False
    have c: "cstr m (p + 1) cs" "p + 1 \<noteq> NULL" using Cons.prems by auto
    from Cons.IH [OF c] obtain r where r: "strchr_loop m (p + 1) c = Some r" "r = NULL \<longleftrightarrow> c \<notin> set cs \<and> c \<noteq> 0"
      "r \<noteq> NULL \<longrightarrow> p + 1 \<le> r \<and> r \<le> p + 1 + length cs \<and> m r = c \<and> (\<forall>a. p + 1 \<le> a \<and> a < r \<longrightarrow> m a \<noteq> c)"
      by blast
    have "m a \<noteq> c" if "r \<noteq> NULL" "p \<le> a" "a < r" for a
      using r(3) that False Cons.prems(1) by (cases "a = p") auto
    then show ?thesis using r False Cons.prems by (subst strchr_loop.simps) auto
  qed
qed

lemma strchr_found:
  assumes "cstr m p cs" "p \<noteq> NULL"
  obtains r where "strchr m p c = Some r" "r = NULL \<longleftrightarrow> c \<notin> set cs \<and> c \<noteq> 0"
  using strchr_loop_cstr [OF assms] assms(2) by (auto simp: strchr_def)

section \<open>Bounded copy and concatenation\<close>

lemma copy_terminated:
  assumes "cstr m src cs" "k \<le> length cs" "src + length cs < dst \<or> dst + k \<le> src"
  shows "cstr ((copy_up k m dst src)(dst + k := 0)) dst (take k cs)"
proof (rule cstr_intro)
  have d: "dst \<le> src \<or> src + k \<le> dst" using assms(2,3) by linarith
  show "((copy_up k m dst src)(dst + k := 0)) (dst + i) = take k cs ! i" if "i < length (take k cs)" for i
    using that assms(1,2) copy_up_apply [OF d, of m] by (simp add: cstr_nth)
  show "((copy_up k m dst src)(dst + k := 0)) (dst + length (take k cs)) = 0" using assms(2) by simp
  show "c \<noteq> 0" if "c \<in> set (take k cs)" for c using that cstr_nz [OF assms(1)] in_set_takeD by fastforce
qed

lemma copy_frame:
  assumes "k < n" "dst \<le> src \<or> src + k \<le> dst" "a < dst \<or> dst + n \<le> a"
  shows "((copy_up k m dst src)(dst + k := 0)) a = m a"
  using assms copy_up_apply [OF assms(2), of m] by auto

lemma strlcpy_cstr:
  assumes "cstr m src cs" "dst \<noteq> NULL" "src \<noteq> NULL" "src + length cs < dst \<or> dst + n \<le> src" "0 < n"
  obtains m' where "strlcpy m dst src n = Some (length cs, m')" "cstr m' dst (take (n - 1) cs)"
    "\<forall>a. a < dst \<or> dst + n \<le> a \<longrightarrow> m' a = m a"
proof -
  define k where "k = (if length cs < n - 1 then length cs else n - 1)"
  let ?m = "(copy_up k m dst src)(dst + k := 0)"
  have k: "k \<le> length cs" "k < n" "take k cs = take (n - 1) cs" using assms(5) by (auto simp: k_def)
  have sep: "src + length cs < dst \<or> dst + k \<le> src" "dst \<le> src \<or> src + k \<le> dst"
    using assms(4) k(1,2) by linarith+
  have "strlcpy m dst src n = Some (length cs, ?m)"
    using assms(2,3,5) strlen_cstr [OF assms(1,3)] by (simp add: strlcpy_def memcpy_def Let_def k_def)
  moreover have "cstr ?m dst (take (n - 1) cs)"
    using copy_terminated [OF assms(1) k(1) sep(1)] k(3) by simp
  moreover have "\<forall>a. a < dst \<or> dst + n \<le> a \<longrightarrow> ?m a = m a"
    using copy_frame [OF k(2) sep(2)] by blast
  ultimately show ?thesis using that by blast
qed

lemma cstr_join:
  assumes "cstr m dst ds" "\<And>a. a < dst + length ds \<Longrightarrow> m' a = m a" "cstr m' (dst + length ds) es"
  shows "cstr m' dst (ds @ es)"
proof (rule cstr_intro)
  show "m' (dst + i) = (ds @ es) ! i" if "i < length (ds @ es)" for i
  proof (cases "i < length ds")
    case True
    then show ?thesis using assms(2) [of "dst + i"] cstr_nth [OF assms(1) True] by (simp add: nth_append)
  next
    case False
    then have "i - length ds < length es" "dst + length ds + (i - length ds) = dst + i" using that by auto
    then show ?thesis using cstr_nth [OF assms(3)] False by (metis nth_append)
  qed
  show "m' (dst + length (ds @ es)) = 0" using cstr_end [OF assms(3)] by (simp add: add.assoc)
  show "c \<noteq> 0" if "c \<in> set (ds @ es)" for c
    using that cstr_nz [OF assms(1)] cstr_nz [OF assms(3)] by auto
qed

text \<open>C20.  \<open>strlcat\<close> appends as much of the source as fits: whatever the lengths, the destination is a
  terminated string afterwards, no byte outside its \<open>n\<close> bytes is written, and the result tells
  whether the source was truncated.\<close>

theorem strlcat_bounded:
  assumes "cstr m src cs" "cstr m dst ds" "dst \<noteq> NULL" "src \<noteq> NULL" "length ds < n"
    and "src + length cs < dst \<or> dst + n \<le> src"
  shows "\<exists>m'. strlcat m dst src n = Some (length cs + length ds, m') \<and>
    cstr m' dst (ds @ take (n - length ds - 1) cs) \<and> (\<forall>a. a < dst \<or> dst + n \<le> a \<longrightarrow> m' a = m a)"
proof -
  define r where "r = n - length ds"
  define k where "k = (if length cs < r - 1 then length cs else r - 1)"
  let ?d = "dst + length ds"
  let ?m = "(copy_up k m ?d src)(?d + k := 0)"
  have r: "?d + r = dst + n" "0 < r" using assms(5) by (simp_all add: r_def)
  have k: "k \<le> length cs" "k < r" "take k cs = take (r - 1) cs" using r(2) by (auto simp: k_def)
  have sep: "src + length cs < ?d \<or> ?d + k \<le> src" "?d \<le> src \<or> src + k \<le> ?d"
    using assms(6) k(1,2) r(1) by linarith+
  have "strlcat m dst src n = Some (length cs + length ds, ?m)"
    using assms(3,4,5) strlen_cstr [OF assms(1,4)] strlen_cstr [OF assms(2,3)]
    by (simp add: strlcat_def memcpy_def Let_def k_def r_def)
  moreover have frame: "?m a = m a" if "a < ?d \<or> ?d + r \<le> a" for a
    using copy_frame [OF k(2) sep(2) that] .
  moreover have "cstr ?m dst (ds @ take (r - 1) cs)"
    using copy_terminated [OF assms(1) k(1) sep(1)] unfolding k(3)
    by (intro cstr_join [OF assms(2)] frame) auto
  ultimately show ?thesis using r(1) unfolding r_def [symmetric] by fastforce
qed

theorem strlcat_bounded_witness:
  "\<exists>m'. strlcat (\<lambda>a. if a = 10 then 65 else if a = 20 \<or> a = 21 then 66 else 0) 10 20 3 = Some (3, m') \<and>
     cstr m' 10 [65, 66]"
  using strlcat_bounded [of "\<lambda>a. if a = 10 then 65 else if a = 20 \<or> a = 21 then 66 else 0" 20 "[66, 66]" 10 "[65]" 3]
  by auto

section \<open>Tokens\<close>

lemma strchr_delim:
  assumes "cstr m d ds" "d \<noteq> NULL"
  shows "\<exists>r. strchr m d c = Some r \<and> (r = NULL \<longleftrightarrow> c \<notin> set ds \<and> c \<noteq> 0)"
  using strchr_found [OF assms] by metis

lemma skip_delims_cstr:
  assumes "cstr m d ds" "d \<noteq> NULL" "cstr m s cs"
  defines "ys \<equiv> dropWhile (\<lambda>c. c \<in> set ds) cs"
  shows "skip_delims m d s = Some (if ys = [] then Inl (s + length cs) else Inr (s + (length cs - length ys)))"
  using assms(3) unfolding ys_def
proof (induction cs arbitrary: s)
  case Nil
  obtain r where "strchr m d 0 = Some r" "r \<noteq> NULL" using strchr_delim [OF assms(1,2), of 0] by auto
  then show ?case using Nil by (subst skip_delims.simps) simp
next
  case (Cons c cs)
  obtain r where r: "strchr m d c = Some r" "r = NULL \<longleftrightarrow> c \<notin> set ds \<and> c \<noteq> 0"
    using strchr_delim [OF assms(1,2), of c] by auto
  have c: "m s = c" "c \<noteq> 0" "cstr m (s + 1) cs" using Cons.prems by auto
  show ?case
  proof (cases "c \<in> set ds")
    case True
    then show ?thesis using Cons.IH [OF c(3)] r c(1,2) length_dropWhile_le [of "\<lambda>c. c \<in> set ds" cs]
      by (subst skip_delims.simps) (simp add: Suc_diff_le)
  next
    case False
    then show ?thesis using r c(1,2) by (subst skip_delims.simps) simp
  qed
qed

lemma token_end_cstr:
  assumes "cstr m d ds" "d \<noteq> NULL" "cstr m s cs"
  shows "token_end m d s = Some (s + length (takeWhile (\<lambda>c. c \<notin> set ds) cs))"
  using assms(3)
proof (induction cs arbitrary: s)
  case Nil
  obtain r where "strchr m d 0 = Some r" "r \<noteq> NULL" using strchr_delim [OF assms(1,2), of 0] by auto
  then show ?case using Nil by (subst token_end.simps) simp
next
  case (Cons c cs)
  obtain r where r: "strchr m d c = Some r" "r = NULL \<longleftrightarrow> c \<notin> set ds \<and> c \<noteq> 0"
    using strchr_delim [OF assms(1,2), of c] by auto
  have c: "m s = c" "c \<noteq> 0" "cstr m (s + 1) cs" using Cons.prems by auto
  show ?case using Cons.IH [OF c(3)] r c(1,2) by (subst token_end.simps) simp
qed

text \<open>C21.  \<open>strtok_r\<close> returns the next token of the string: it skips the delimiters, returns the null
  pointer when nothing else is left, and otherwise leaves a terminated string holding exactly the
  characters up to the next delimiter, and saves a pointer to the rest of the string, so that the
  following call continues there.\<close>

theorem strtok_r_token:
  assumes "cstr m d ds" "d \<noteq> NULL" "cstr m s cs" "s \<noteq> NULL"
  defines "ys \<equiv> dropWhile (\<lambda>c. c \<in> set ds) cs"
  defines "tok \<equiv> takeWhile (\<lambda>c. c \<notin> set ds) ys" and "rest \<equiv> dropWhile (\<lambda>c. c \<notin> set ds) ys"
  shows "\<exists>p save m'. strtok_r m s d any = Some (p, save, m') \<and>
    (if ys = [] then p = NULL \<and> m' = m \<and> cstr m' save []
     else p \<noteq> NULL \<and> cstr m' p tok \<and> cstr m' save (tl rest)) \<and>
    (\<forall>a. a < s \<or> s + length cs \<le> a \<longrightarrow> m' a = m a)"
proof (cases "ys = []")
  case True
  then show ?thesis
    using skip_delims_cstr [OF assms(1-3)] assms(2,4) cstr_end [OF assms(3)]
    by (simp add: strtok_r_def ys_def)
next
  case False
  define pre where "pre = takeWhile (\<lambda>c. c \<in> set ds) cs"
  define p where "p = s + length pre"
  have cs: "cs = pre @ ys" "ys = tok @ rest" unfolding pre_def ys_def tok_def rest_def by simp_all
  have "length cs - length ys = length pre" using cs(1) by simp
  then have sk: "skip_delims m d s = Some (Inr p)"
    using skip_delims_cstr [OF assms(1-3)] False unfolding ys_def p_def by simp
  have y: "cstr m p ys" using cstr_append [of m s pre ys] assms(3) cs(1) unfolding p_def by simp
  let ?e = "p + length tok"
  have te: "token_end m d p = Some ?e" using token_end_cstr [OF assms(1,2) y] unfolding tok_def .
  have r: "cstr m ?e rest" using cstr_append [of m p tok rest] y cs(2) by simp
  have p0: "p \<noteq> NULL" using assms(4) by (simp add: p_def)
  show ?thesis
  proof (cases rest)
    case Nil
    then have "m ?e = 0" "tok = ys" using r cs(2) by auto
    then show ?thesis using sk te p0 assms(2,4) False y Nil r by (simp add: strtok_r_def)
  next
    case (Cons c cs')
    let ?m = "m(?e := 0)"
    have "m ?e \<noteq> 0" "cstr m (?e + 1) cs'" using r Cons by auto
    then have st: "strtok_r m s d any = Some (p, ?e + 1, ?m)"
      using sk te assms(2,4) by (simp add: strtok_r_def)
    have "cstr ?m (?e + 1) cs'" using \<open>cstr m (?e + 1) cs'\<close> by (rule cstr_cong) simp
    moreover have "cstr ?m p tok"
      using cstr_nth [OF y] cstr_nz [OF y] cs(2) by (intro cstr_intro) (auto simp: nth_append)
    moreover have "\<forall>a. a < s \<or> s + length cs \<le> a \<longrightarrow> ?m a = m a"
      using Cons unfolding cs p_def by auto
    ultimately show ?thesis using st p0 False Cons by auto
  qed
qed

definition sample_mem :: mem where
  "sample_mem a = (if a = 10 \<or> a = 12 then 32 else if a = 11 then 65 else if a = 13 then 66 else if a = 20 then 32 else 0)"

theorem strtok_r_token_witness:
  "\<exists>p save m'. strtok_r sample_mem 10 20 0 = Some (p, save, m') \<and> cstr m' p [65] \<and> cstr m' save [66]"
  using strtok_r_token [of sample_mem 20 "[32]" 10 "[32, 65, 32, 66]" 0]
  by (auto simp: sample_mem_def)

end
