(* ===== verification/Machine.thy ===== *)
theory Machine
  imports Bitmap C_String
begin

text \<open>
  The memory of the machine as the page allocator and the page tables see it: 32-bit words in
  memory, the address arithmetic of \<open>threads/vaddr.h\<close> and \<open>threads/pte.h\<close>, and the state record.

  Addresses are naturals; an address computation that could leave the 32-bit range is reduced.
  Where a routine takes a lock for the time of a few statements, the lock is a flag of the state that
  says whether it is held: taking a held lock stops the model, so that a path that forgets to release
  one shows.
\<close>

section \<open>Words in memory\<close>

definition load32 :: "mem \<Rightarrow> ptr \<Rightarrow> u32" where
  "load32 m a = ucast (m a) OR push_bit 8 (ucast (m (a + 1))) OR
     push_bit 16 (ucast (m (a + 2))) OR push_bit 24 (ucast (m (a + 3)))"

definition store32 :: "mem \<Rightarrow> ptr \<Rightarrow> u32 \<Rightarrow> mem" where
  "store32 m a v = m(a := ucast v, a + 1 := ucast (drop_bit 8 v),
     a + 2 := ucast (drop_bit 16 v), a + 3 := ucast (drop_bit 24 v))"

lemma bytes_of_word: "(ucast (ucast v :: u8) :: u32) OR push_bit 8 (ucast (ucast (drop_bit 8 v) :: u8)) OR
     push_bit 16 (ucast (ucast (drop_bit 16 v) :: u8)) OR push_bit 24 (ucast (ucast (drop_bit 24 v) :: u8)) = v"
proof (rule bit_word_eqI)
  fix n
  assume "n < LENGTH(32)"
  then have "n < 8 \<or> 8 \<le> n \<and> n < 16 \<or> 16 \<le> n \<and> n < 24 \<or> 24 \<le> n \<and> n < 32" by auto
  then show "bit ((ucast (ucast v :: u8) :: u32) OR push_bit 8 (ucast (ucast (drop_bit 8 v) :: u8)) OR
     push_bit 16 (ucast (ucast (drop_bit 16 v) :: u8)) OR push_bit 24 (ucast (ucast (drop_bit 24 v) :: u8))) n = bit v n"
    by (elim disjE) (auto simp: bit_or_iff bit_push_bit_iff bit_unsigned_iff bit_drop_bit_eq)
qed

lemma load32_store32_same [simp]: "load32 (store32 m a v) a = v"
  unfolding load32_def store32_def by (simp add: bytes_of_word)

lemma load32_cong: "(\<And>b. a \<le> b \<Longrightarrow> b < a + 4 \<Longrightarrow> m' b = m b) \<Longrightarrow> load32 m' a = load32 m a"
  by (simp add: load32_def)

lemma store32_other: "b < a \<or> a + 4 \<le> b \<Longrightarrow> store32 m a v b = m b"
  by (auto simp: store32_def)

lemma load32_store32_other: "b + 4 \<le> a \<or> a + 4 \<le> b \<Longrightarrow> load32 (store32 m a v) b = load32 m b"
  by (rule load32_cong) (auto intro: store32_other)

section \<open>Virtual addresses\<close>

definition PGBITS :: nat where
  "PGBITS = 12"

definition PGSIZE :: nat where
  "PGSIZE = 2 ^ PGBITS"

definition PHYS_BASE :: nat where
  "PHYS_BASE = 0xc0000000"

definition pg_ofs :: "ptr \<Rightarrow> nat" where
  "pg_ofs va = va mod 2 ^ PGBITS"

definition pg_no :: "ptr \<Rightarrow> nat" where
  "pg_no va = va div 2 ^ PGBITS"

definition pg_round_up :: "ptr \<Rightarrow> ptr" where
  "pg_round_up va = ((va + PGSIZE - 1) mod 2 ^ 32) div 2 ^ PGBITS * 2 ^ PGBITS"

definition pg_round_down :: "ptr \<Rightarrow> ptr" where
  "pg_round_down va = va div 2 ^ PGBITS * 2 ^ PGBITS"

definition is_user_vaddr :: "ptr \<Rightarrow> bool" where
  "is_user_vaddr va \<longleftrightarrow> va < PHYS_BASE"

definition is_kernel_vaddr :: "ptr \<Rightarrow> bool" where
  "is_kernel_vaddr va \<longleftrightarrow> va \<ge> PHYS_BASE"

definition ptov :: "nat \<Rightarrow> ptr option" where
  "ptov paddr = do {
     ASSERT (paddr < PHYS_BASE);
     Some ((paddr + PHYS_BASE) mod 2 ^ 32) }"

definition vtop :: "ptr \<Rightarrow> nat option" where
  "vtop va = do {
     ASSERT (is_kernel_vaddr va);
     Some (va - PHYS_BASE) }"

section \<open>The state\<close>

record pool =
  p_lock :: bool
  used_map :: bitmap
  p_base :: ptr

record machine =
  m_mem :: mem
  kernel_pool :: pool
  user_pool :: pool
  init_ram_pages :: nat
  init_page_dir :: ptr
  cr3 :: nat

text \<open>Taking and releasing the lock of a pool.\<close>

definition pool_acquire :: "pool \<Rightarrow> pool option" where
  "pool_acquire p = do {
     ASSERT (\<not> p_lock p);
     Some (p\<lparr>p_lock := True\<rparr>) }"

definition pool_release :: "pool \<Rightarrow> pool option" where
  "pool_release p = do {
     ASSERT (p_lock p);
     Some (p\<lparr>p_lock := False\<rparr>) }"

section \<open>Properties of addresses\<close>

lemma ptov_vtop: "vtop va = Some pa \<Longrightarrow> va < 2 ^ 32 \<Longrightarrow> ptov pa = Some va"
  by (auto simp: vtop_def ptov_def is_kernel_vaddr_def PHYS_BASE_def split: if_splits)

lemma pg_split: "pg_no va * PGSIZE + pg_ofs va = va"
  unfolding pg_no_def pg_ofs_def PGSIZE_def by (rule div_mult_mod_eq)

lemma pg_round_down_no: "pg_round_down va = pg_no va * PGSIZE" "pg_ofs (pg_round_down va) = 0"
  by (simp_all add: pg_round_down_def pg_no_def PGSIZE_def pg_ofs_def)

end
