(* ===== verification/Palloc.thy ===== *)
theory Palloc
  imports Machine
begin

text \<open>
  The page allocator (\<open>threads/palloc.c\<close>): two pools of pages, each with a bitmap of the pages in use.
\<close>

section \<open>Definitions\<close>

record palloc_flags =
  PAL_ASSERT :: bool
  PAL_ZERO :: bool
  PAL_USER :: bool

text \<open>\<open>init_pool\<close>: \<open>block\<close> is what the memory at \<open>base\<close> holds.\<close>

definition init_pool :: "ptr \<Rightarrow> nat \<Rightarrow> u32 list \<Rightarrow> pool option" where
  "init_pool base page_cnt block = do {
     let bm_pages = DIV_ROUND_UP (bitmap_buf_size page_cnt) PGSIZE;
     ASSERT (\<not> bm_pages > page_cnt);
     let page_cnt = page_cnt - bm_pages;
     m \<leftarrow> bitmap_create_in_buf page_cnt block (bm_pages * PGSIZE);
     Some \<lparr>p_lock = False, used_map = m, p_base = base + bm_pages * PGSIZE\<rparr> }"

definition words_at :: "mem \<Rightarrow> ptr \<Rightarrow> nat \<Rightarrow> u32 list" where
  "words_at m a n = map (\<lambda>i. load32 m (a + 4 * i)) [0..<n]"

text \<open>\<open>palloc_init\<close> also hands the number of user pages and the base of the user pool to
  \<open>init_frame_table\<close>: these are the second component of the result.\<close>

definition palloc_init :: "nat \<Rightarrow> machine \<Rightarrow> (machine \<times> nat \<times> ptr) option" where
  "palloc_init user_page_limit s = do {
     free_start \<leftarrow> ptov (1024 * 1024);
     free_end \<leftarrow> ptov (init_ram_pages s * PGSIZE);
     let free_pages = (free_end - free_start) div PGSIZE;
     let user_pages = free_pages div 2;
     let user_pages = (if user_pages > user_page_limit then user_page_limit else user_pages);
     let kernel_pages = free_pages - user_pages;
     kp \<leftarrow> init_pool free_start kernel_pages (words_at (m_mem s) free_start (kernel_pages * 1024));
     let ubase = free_start + kernel_pages * PGSIZE;
     up \<leftarrow> init_pool ubase user_pages (words_at (m_mem s) ubase (user_pages * 1024));
     Some (s\<lparr>kernel_pool := kp, user_pool := up\<rparr>, user_pages, p_base up) }"

definition get_pool :: "palloc_flags \<Rightarrow> machine \<Rightarrow> pool" where
  "get_pool flags s = (if PAL_USER flags then user_pool s else kernel_pool s)"

definition set_pool :: "palloc_flags \<Rightarrow> pool \<Rightarrow> machine \<Rightarrow> machine" where
  "set_pool flags p s = (if PAL_USER flags then s\<lparr>user_pool := p\<rparr> else s\<lparr>kernel_pool := p\<rparr>)"

definition palloc_get_multiple :: "palloc_flags \<Rightarrow> nat \<Rightarrow> machine \<Rightarrow> (ptr \<times> machine) option" where
  "palloc_get_multiple flags page_cnt s =
     (if page_cnt = 0 then Some (NULL, s)
      else do {
        p \<leftarrow> pool_acquire (get_pool flags s);
        (page_idx, bm) \<leftarrow> bitmap_scan_and_flip (used_map p) 0 page_cnt False;
        p \<leftarrow> pool_release (p\<lparr>used_map := bm\<rparr>);
        let s = set_pool flags p s;
        let pages = (if page_idx \<noteq> BITMAP_ERROR then p_base p + PGSIZE * page_idx else NULL);
        if pages \<noteq> NULL then
          (if PAL_ZERO flags then do {
             (_, m) \<leftarrow> memset (m_mem s) pages 0 (PGSIZE * page_cnt);
             Some (pages, s\<lparr>m_mem := m\<rparr>) }
           else Some (pages, s))
        else do {
          ASSERT (\<not> PAL_ASSERT flags);
          Some (pages, s) } })"

definition palloc_get_page :: "palloc_flags \<Rightarrow> machine \<Rightarrow> (ptr \<times> machine) option" where
  "palloc_get_page flags s = palloc_get_multiple flags 1 s"

definition page_from_pool :: "pool \<Rightarrow> ptr \<Rightarrow> bool" where
  "page_from_pool p page \<longleftrightarrow>
     pg_no page \<ge> pg_no (p_base p) \<and> pg_no page < pg_no (p_base p) + bitmap_size (used_map p)"

text \<open>Which of the two pools a page to be freed belongs to.\<close>

definition plain_flags :: "bool \<Rightarrow> palloc_flags" where
  "plain_flags user = \<lparr>PAL_ASSERT = False, PAL_ZERO = False, PAL_USER = user\<rparr>"

definition palloc_free_multiple :: "ptr \<Rightarrow> nat \<Rightarrow> machine \<Rightarrow> machine option" where
  "palloc_free_multiple pages page_cnt s = do {
     ASSERT (pg_ofs pages = 0);
     if pages = NULL \<or> page_cnt = 0 then Some s
     else do {
       flags \<leftarrow> (if page_from_pool (kernel_pool s) pages then Some (plain_flags False)
               else if page_from_pool (user_pool s) pages then Some (plain_flags True)
               else None);
       let p = get_pool flags s;
       let page_idx = pg_no pages - pg_no (p_base p);
       (_, m) \<leftarrow> memset (m_mem s) pages 0xcc (PGSIZE * page_cnt);
       full \<leftarrow> bitmap_all (used_map p) page_idx page_cnt;
       ASSERT full;
       bm \<leftarrow> bitmap_set_multiple (used_map p) page_idx page_cnt False;
       Some (set_pool flags (p\<lparr>used_map := bm\<rparr>) (s\<lparr>m_mem := m\<rparr>)) } }"

definition palloc_free_page :: "ptr \<Rightarrow> machine \<Rightarrow> machine option" where
  "palloc_free_page page s = palloc_free_multiple page 1 s"

section \<open>Pages in use\<close>

definition pool_wf :: "pool \<Rightarrow> bool" where
  "pool_wf p \<longleftrightarrow> bitmap_wf (used_map p) \<and> \<not> p_lock p \<and> pg_ofs (p_base p) = 0 \<and> p_base p \<ge> PHYS_BASE \<and>
     p_base p + bit_cnt (used_map p) * PGSIZE \<le> 2 ^ 32"

text \<open>The addresses of the pages a pool has handed out.\<close>

definition pages_in_use :: "pool \<Rightarrow> ptr set" where
  "pages_in_use p = (\<lambda>i. p_base p + PGSIZE * i) ` used_bits (used_map p)"

definition pool_pages :: "pool \<Rightarrow> ptr set" where
  "pool_pages p = (\<lambda>i. p_base p + PGSIZE * i) ` {..<bit_cnt (used_map p)}"

definition run_of :: "ptr \<Rightarrow> nat \<Rightarrow> ptr set" where
  "run_of pages n = (\<lambda>i. pages + PGSIZE * i) ` {..<n}"

text \<open>The pools of a machine do not overlap, and no lock is held.\<close>

definition machine_wf :: "machine \<Rightarrow> bool" where
  "machine_wf s \<longleftrightarrow> pool_wf (kernel_pool s) \<and> pool_wf (user_pool s) \<and>
     p_base (kernel_pool s) + bit_cnt (used_map (kernel_pool s)) * PGSIZE \<le> p_base (user_pool s)"

lemma PGSIZE_pos [simp]: "0 < PGSIZE"
  by (simp add: PGSIZE_def)

lemma page_inj: "b + PGSIZE * i = b + PGSIZE * j \<longleftrightarrow> i = j"
  by (simp add: PGSIZE_def)

lemma image_page_Int: "(\<lambda>i. b + PGSIZE * i) ` A \<inter> (\<lambda>i. b + PGSIZE * i) ` B = (\<lambda>i. b + PGSIZE * i) ` (A \<inter> B)"
  by (rule image_Int [symmetric]) (simp add: inj_on_def PGSIZE_def)

lemma image_page_Diff: "(\<lambda>i. b + PGSIZE * i) ` (A - B) = (\<lambda>i. b + PGSIZE * i) ` A - (\<lambda>i. b + PGSIZE * i) ` B"
  by (rule image_set_diff) (simp add: inj_on_def PGSIZE_def)

lemma run_of_range: "run_of (b + PGSIZE * i) n = (\<lambda>i. b + PGSIZE * i) ` range_set (i, n)"
proof -
  have "range_set (i, n) = (\<lambda>j. i + j) ` {..<n}"
    by (simp add: range_set_def lessThan_atLeast0 add.commute)
  then show ?thesis by (simp add: run_of_def image_image add_mult_distrib2 add.assoc)
qed

lemma page_aligned: "pg_ofs b = 0 \<Longrightarrow> pg_ofs (b + PGSIZE * i) = 0"
  by (simp add: pg_ofs_def PGSIZE_def mod_add_eq [symmetric])

lemma machine_wf_pool: "machine_wf s \<Longrightarrow> pool_wf (get_pool flags s)"
  by (simp add: machine_wf_def get_pool_def)

lemma machine_wf_set_pool:
  assumes "machine_wf s" "pool_wf p" "p_base p = p_base (get_pool flags s)"
    and "bit_cnt (used_map p) = bit_cnt (used_map (get_pool flags s))"
  shows "machine_wf (set_pool flags p s)"
  using assms by (auto simp: machine_wf_def set_pool_def get_pool_def split: if_splits)

lemma get_set_pool [simp]: "get_pool flags (set_pool flags p s) = p" "m_mem (set_pool flags p s) = m_mem s"
  by (simp_all add: get_pool_def set_pool_def)

lemma get_pool_mem [simp]: "get_pool flags (s\<lparr>m_mem := m\<rparr>) = get_pool flags s"
  by (simp add: get_pool_def)

lemma machine_wf_mem [simp]: "machine_wf (s\<lparr>m_mem := m\<rparr>) = machine_wf s"
  by (simp add: machine_wf_def)

text \<open>Taking pages from one pool.\<close>

definition pool_taken :: "pool \<Rightarrow> nat \<Rightarrow> ptr \<Rightarrow> pool \<Rightarrow> bool" where
  "pool_taken p n pages p' \<longleftrightarrow> pool_wf p' \<and> p_base p' = p_base p \<and>
     bit_cnt (used_map p') = bit_cnt (used_map p) \<and>
     (if pages = NULL then pages_in_use p' = pages_in_use p \<and>
        (\<forall>q. run_of q n \<subseteq> pool_pages p \<longrightarrow> run_of q n \<inter> pages_in_use p \<noteq> {})
      else pg_ofs pages = 0 \<and> run_of pages n \<subseteq> pool_pages p \<and> run_of pages n \<inter> pages_in_use p = {} \<and>
        pages_in_use p' = pages_in_use p \<union> run_of pages n)"

lemma run_in_pool:
  assumes "run_of q n \<subseteq> pool_pages p" "0 < n"
  obtains i where "q = p_base p + PGSIZE * i" "i + n \<le> bit_cnt (used_map p)"
proof -
  have "q + PGSIZE * 0 \<in> run_of q n" using assms(2) unfolding run_of_def by blast
  then obtain i where i: "q = p_base p + PGSIZE * i" using assms(1) unfolding pool_pages_def by auto
  have "q + PGSIZE * (n - 1) \<in> run_of q n" using assms(2) unfolding run_of_def by auto
  then obtain j where j: "q + PGSIZE * (n - 1) = p_base p + PGSIZE * j" "j < bit_cnt (used_map p)"
    using assms(1) unfolding pool_pages_def by auto
  then have "PGSIZE * (i + (n - 1)) = PGSIZE * j" using i by (simp add: add_mult_distrib2)
  then have "i + (n - 1) = j" by (simp add: PGSIZE_def)
  then have "i + n \<le> bit_cnt (used_map p)" using j(2) assms(2) by linarith
  then show ?thesis using that i by blast
qed

lemma scan_taken:
  assumes "pool_wf p" "0 < n" "bitmap_scan_and_flip (used_map p) 0 n False = Some (i, bm)"
  shows "pool_taken p n (if i \<noteq> BITMAP_ERROR then p_base p + PGSIZE * i else NULL) (p\<lparr>used_map := bm\<rparr>)"
proof -
  have wf: "bitmap_wf (used_map p)" "PHYS_BASE \<le> p_base p" "pg_ofs (p_base p) = 0"
    using assms(1) by (auto simp: pool_wf_def)
  have b: "bitmap_wf bm" "bit_cnt bm = bit_cnt (used_map p)"
    using bm.alloc_total [OF wf(1), of n] assms(3) by auto
  have nz: "p_base p \<noteq> 0" using wf(2) by (auto simp: PHYS_BASE_def)
  show ?thesis
  proof (cases "i = BITMAP_ERROR")
    case True
    note err = bm.alloc_err [OF wf(1) assms(3) [unfolded True]]
    have "run_of q n \<inter> pages_in_use p \<noteq> {}" if q: "run_of q n \<subseteq> pool_pages p" for q
    proof -
      obtain k where k: "q = p_base p + PGSIZE * k" "k + n \<le> bit_cnt (used_map p)"
        using run_in_pool [OF q assms(2)] .
      then have "range_set (k, n) \<inter> used_bits (used_map p) \<noteq> {}" using err by blast
      then show ?thesis unfolding k(1) run_of_range pages_in_use_def image_page_Int by simp
    qed
    then show ?thesis using True err b assms(1)
      by (simp add: pool_taken_def pool_wf_def pages_in_use_def)
  next
    case False
    note ok = bm.alloc_ok [OF wf(1) assms(3) False]
    have "range_set (i, n) \<subseteq> {..<bit_cnt (used_map p)}" using ok by (auto simp: range_set_def)
    then have "run_of (p_base p + PGSIZE * i) n \<subseteq> pool_pages p"
      unfolding run_of_range pool_pages_def by (rule image_mono)
    moreover have "run_of (p_base p + PGSIZE * i) n \<inter> pages_in_use p = {}"
      unfolding run_of_range pages_in_use_def image_page_Int using ok by simp
    moreover have "pages_in_use (p\<lparr>used_map := bm\<rparr>) = pages_in_use p \<union> run_of (p_base p + PGSIZE * i) n"
      unfolding run_of_range pages_in_use_def using ok by (simp add: image_Un)
    ultimately show ?thesis using False b assms(1) nz page_aligned [OF wf(3)]
      by (simp add: pool_taken_def pool_wf_def)
  qed
qed

lemma palloc_get_taken:
  assumes "machine_wf s" "0 < n" "palloc_get_multiple flags n s = Some (pages, s')"
  shows "pool_taken (get_pool flags s) n pages (get_pool flags s')"
    and "machine_wf s'"
    and "s' = set_pool flags (get_pool flags s') (s\<lparr>m_mem := m_mem s'\<rparr>)"
    and "m_mem s' = (if pages \<noteq> NULL \<and> PAL_ZERO flags then set_loop (PGSIZE * n) (m_mem s) pages 0 else m_mem s)"
proof -
  let ?p = "get_pool flags s"
  note wf = machine_wf_pool [OF assms(1), of flags]
  obtain i bm where i: "bitmap_scan_and_flip (used_map ?p) 0 n False = Some (i, bm)"
    using bm.alloc_total [of "used_map (get_pool flags s)" n] wf by (auto simp: pool_wf_def)
  let ?pg = "if i \<noteq> BITMAP_ERROR then p_base ?p + PGSIZE * i else NULL"
  have p: "?p\<lparr>used_map := bm\<rparr>\<lparr>p_lock := False\<rparr> = ?p\<lparr>used_map := bm\<rparr>"
    using wf by (simp add: pool_wf_def)
  note t = scan_taken [OF wf assms(2) i]
  have r: "pages = ?pg" "s' = set_pool flags (?p\<lparr>used_map := bm\<rparr>)
      (if ?pg \<noteq> NULL \<and> PAL_ZERO flags then s\<lparr>m_mem := set_loop (PGSIZE * n) (m_mem s) ?pg 0\<rparr> else s)"
    using assms(2,3) i wf p
    by (auto simp: palloc_get_multiple_def pool_acquire_def pool_release_def pool_wf_def memset_def Let_def
        set_pool_def split: if_splits)
  have g: "get_pool flags s' = ?p\<lparr>used_map := bm\<rparr>" unfolding r by simp
  show "pool_taken ?p n pages (get_pool flags s')" using t unfolding g r(1) .
  then show "machine_wf s'"
    unfolding r(2) using assms(1) unfolding pool_taken_def g by (intro machine_wf_set_pool) auto
  show m: "m_mem s' = (if pages \<noteq> NULL \<and> PAL_ZERO flags then set_loop (PGSIZE * n) (m_mem s) pages 0 else m_mem s)"
    unfolding r by simp
  show "s' = set_pool flags (get_pool flags s') (s\<lparr>m_mem := m_mem s'\<rparr>)"
    using r(2) unfolding g m r(1) by (cases "?pg \<noteq> NULL \<and> PAL_ZERO flags") (simp_all only: if_True if_False machine.surjective machine.update_convs simp_thms, simp_all)
qed

lemma palloc_get_total:
  assumes "machine_wf s" "\<not> PAL_ASSERT flags"
  obtains pages s' where "palloc_get_multiple flags n s = Some (pages, s')"
proof -
  note wf = machine_wf_pool [OF assms(1), of flags]
  obtain i bm where i: "bitmap_scan_and_flip (used_map (get_pool flags s)) 0 n False = Some (i, bm)"
    using bm.alloc_total [of "used_map (get_pool flags s)" n] wf by (auto simp: pool_wf_def)
  then have "\<exists>r. palloc_get_multiple flags n s = Some r"
    using assms(2) wf
    by (auto simp: palloc_get_multiple_def pool_acquire_def pool_release_def pool_wf_def memset_def Let_def)
  then show ?thesis using that by auto
qed

lemma palloc_get_null:
  assumes "machine_wf s" "0 < n" "palloc_get_multiple flags n s = Some (NULL, s')"
  shows "s' = s"
proof -
  let ?p = "get_pool flags s"
  have wf: "pool_wf ?p" "bitmap_wf (used_map ?p)" "p_base ?p \<noteq> 0" "\<not> p_lock ?p"
    using machine_wf_pool [OF assms(1), of flags] by (auto simp: pool_wf_def PHYS_BASE_def)
  obtain i bm where i: "bitmap_scan_and_flip (used_map ?p) 0 n False = Some (i, bm)"
    using bm.alloc_total [OF wf(2), of n] by blast
  have err: "i = BITMAP_ERROR" "s' = set_pool flags (?p\<lparr>used_map := bm, p_lock := False\<rparr>) s"
    using assms(2,3) i wf(3,4)
    by (auto simp: palloc_get_multiple_def pool_acquire_def pool_release_def memset_def Let_def split: if_splits)
  have "bm = used_map ?p" using scan_and_flip_error [OF wf(2) le0] i unfolding err(1) by blast
  then have "?p\<lparr>used_map := bm, p_lock := False\<rparr> = ?p" using wf(4) by simp
  then show ?thesis unfolding err(2) by (simp add: set_pool_def get_pool_def)
qed

section \<open>Freeing pages\<close>

lemma pg_no_page: "pg_ofs b = 0 \<Longrightarrow> pg_no (b + PGSIZE * i) = pg_no b + i"
  by (simp add: pg_ofs_def pg_no_def PGSIZE_def)

lemma pg_no_le: "a \<le> b \<Longrightarrow> pg_no a \<le> pg_no b"
  by (simp add: pg_no_def div_le_mono)

lemma in_use_pool: "pages_in_use p \<subseteq> pool_pages p"
  by (auto simp: pages_in_use_def pool_pages_def used_bits_def)

lemma page_from_pool_iff:
  assumes "pool_wf p" "pg_ofs q = 0"
  shows "page_from_pool p q \<longleftrightarrow> q \<in> pool_pages p"
proof
  assume "page_from_pool p q"
  then have q: "pg_no (p_base p) \<le> pg_no q" "pg_no q - pg_no (p_base p) < bit_cnt (used_map p)"
    by (auto simp: page_from_pool_def bitmap_size_def)
  have b: "p_base p = pg_no (p_base p) * PGSIZE" "q = pg_no q * PGSIZE"
    using pg_split [of q] pg_split [of "p_base p"] assms by (simp_all add: pool_wf_def)
  have "pg_no q = pg_no (p_base p) + (pg_no q - pg_no (p_base p))" using q(1) by simp
  then have "q = p_base p + PGSIZE * (pg_no q - pg_no (p_base p))"
    using b by (metis add_mult_distrib mult.commute)
  then show "q \<in> pool_pages p" using q(2) unfolding pool_pages_def by blast
next
  assume "q \<in> pool_pages p"
  then show "page_from_pool p q"
    using assms by (auto simp: pool_pages_def page_from_pool_def pg_no_page pool_wf_def bitmap_size_def)
qed

lemma pools_disjoint: "machine_wf s \<Longrightarrow> pool_pages (kernel_pool s) \<inter> pool_pages (user_pool s) = {}"
proof -
  assume wf: "machine_wf s"
  have "q < q'" if q: "q \<in> pool_pages (kernel_pool s)" "q' \<in> pool_pages (user_pool s)" for q q'
  proof -
    obtain i where i: "q = p_base (kernel_pool s) + PGSIZE * i" "i < bit_cnt (used_map (kernel_pool s))"
      using q(1) by (auto simp: pool_pages_def)
    then have "q < p_base (kernel_pool s) + bit_cnt (used_map (kernel_pool s)) * PGSIZE" by simp
    then show ?thesis using wf q(2) by (auto simp: machine_wf_def pool_pages_def)
  qed
  then show ?thesis by blast
qed

lemma palloc_free_ok:
  assumes "machine_wf s" "0 < n" "run_of pages n \<subseteq> pages_in_use (get_pool (plain_flags u) s)"
  obtains s' where "palloc_free_multiple pages n s = Some s'" "machine_wf s'"
    "s' = set_pool (plain_flags u) (get_pool (plain_flags u) s') (s\<lparr>m_mem := set_loop (PGSIZE * n) (m_mem s) pages 0xcc\<rparr>)"
    "pages_in_use (get_pool (plain_flags u) s') = pages_in_use (get_pool (plain_flags u) s) - run_of pages n"
proof -
  let ?f = "plain_flags u"
  let ?p = "get_pool ?f s"
  have wf: "pool_wf ?p" "bitmap_wf (used_map ?p)"
    using machine_wf_pool [OF assms(1), of ?f] by (auto simp: pool_wf_def)
  obtain i where i: "pages = p_base ?p + PGSIZE * i" "i + n \<le> bit_cnt (used_map ?p)"
    using run_in_pool [OF subset_trans [OF assms(3) in_use_pool] assms(2)] .
  have ofs: "pg_ofs pages = 0" "pages \<noteq> NULL" "pg_no pages - pg_no (p_base ?p) = i"
    using wf(1) i(1) page_aligned [of "p_base ?p" i] pg_no_page [of "p_base ?p" i]
    by (auto simp: pool_wf_def PHYS_BASE_def)
  have mem: "pages \<in> pool_pages ?p" using i assms(2) by (auto simp: pool_pages_def)
  have sel: "(if page_from_pool (kernel_pool s) pages then Some (plain_flags False)
      else if page_from_pool (user_pool s) pages then Some (plain_flags True) else None) = Some ?f"
    using mem pools_disjoint [OF assms(1)] assms(1) ofs(1)
    by (cases u) (auto simp: machine_wf_def page_from_pool_iff plain_flags_def get_pool_def)
  have "(\<lambda>i. p_base ?p + PGSIZE * i) ` range_set (i, n) \<subseteq> (\<lambda>i. p_base ?p + PGSIZE * i) ` used_bits (used_map ?p)"
    using assms(3) unfolding i(1) run_of_range pages_in_use_def .
  then have used: "range_set (i, n) \<subseteq> used_bits (used_map ?p)"
    by (simp add: inj_image_subset_iff inj_def PGSIZE_def)
  have all: "bitmap_all (used_map ?p) i n = Some True"
    using bitmap_contains_spec [OF wf(2) i(2)] used by (force simp: bitmap_all_def range_set_def used_bits_def)
  obtain bm where bm: "bitmap_set_multiple (used_map ?p) i n False = Some bm" "bitmap_wf bm"
    "bit_cnt bm = bit_cnt (used_map ?p)" "used_bits bm = used_bits (used_map ?p) - range_set (i, n)"
    using bm.release_ok [OF wf(2) i(2)] by blast
  define s' where "s' = set_pool ?f (?p\<lparr>used_map := bm\<rparr>) (s\<lparr>m_mem := set_loop (PGSIZE * n) (m_mem s) pages 0xcc\<rparr>)"
  have "palloc_free_multiple pages n s = Some s'"
    using ofs assms(2) all bm(1) unfolding palloc_free_multiple_def s'_def sel bind.bind_lunit
    by (simp add: memset_def)
  moreover have "machine_wf s'"
    unfolding s'_def using assms(1) wf(1) bm by (intro machine_wf_set_pool) (auto simp: pool_wf_def)
  moreover have "pages_in_use (get_pool ?f s') = pages_in_use ?p - run_of pages n"
    unfolding s'_def i(1) run_of_range pages_in_use_def get_set_pool using bm(4) by (simp add: image_page_Diff)
  ultimately show ?thesis using that unfolding s'_def by simp
qed

section \<open>The allocator is safe\<close>

text \<open>C22.  A request for pages always returns (unless it was made with \<open>PAL_ASSERT\<close>).  Either the pages
  returned are an aligned run of the right pool of which no page was in use, they and only they are
  in use afterwards in addition, and with \<open>PAL_ZERO\<close> exactly their bytes are zeroed, while the other
  pool and every other part of the machine are as before; or the null pointer is returned, the whole
  machine is as before and the pool has no such run.  The lock of the pool is free again in every case.\<close>

theorem palloc_get_fresh:
  assumes "machine_wf s" "0 < n" "\<not> PAL_ASSERT flags"
  shows "\<exists>pages s'. palloc_get_multiple flags n s = Some (pages, s') \<and> machine_wf s' \<and>
    (if pages = NULL then s' = s \<and>
       (\<forall>q. run_of q n \<subseteq> pool_pages (get_pool flags s) \<longrightarrow> run_of q n \<inter> pages_in_use (get_pool flags s) \<noteq> {})
     else pg_ofs pages = 0 \<and> run_of pages n \<subseteq> pool_pages (get_pool flags s) \<and>
       run_of pages n \<inter> pages_in_use (get_pool flags s) = {} \<and>
       pages_in_use (get_pool flags s') = pages_in_use (get_pool flags s) \<union> run_of pages n \<and>
       pool_pages (get_pool flags s') = pool_pages (get_pool flags s) \<and>
       s' = (if PAL_USER flags then s\<lparr>m_mem := m_mem s', user_pool := user_pool s'\<rparr>
             else s\<lparr>m_mem := m_mem s', kernel_pool := kernel_pool s'\<rparr>) \<and>
       (\<forall>a. m_mem s' a = (if PAL_ZERO flags \<and> pages \<le> a \<and> a < pages + PGSIZE * n then 0 else m_mem s a)))"
proof -
  obtain pages s' where g: "palloc_get_multiple flags n s = Some (pages, s')"
    using palloc_get_total [OF assms(1,3)] .
  note t = palloc_get_taken [OF assms(1,2) g]
  have frame: "s' = (if PAL_USER flags then s\<lparr>m_mem := m_mem s', user_pool := user_pool s'\<rparr>
      else s\<lparr>m_mem := m_mem s', kernel_pool := kernel_pool s'\<rparr>)"
    using t(3) by (cases "PAL_USER flags") (simp_all add: set_pool_def get_pool_def)
  have same: "pool_pages (get_pool flags s') = pool_pages (get_pool flags s)"
    using t(1) by (simp add: pool_taken_def pool_pages_def)
  show ?thesis
  proof (cases "pages = NULL")
    case True
    then show ?thesis using g t(1) palloc_get_null [OF assms(1,2)] assms(1) by (auto simp: pool_taken_def)
  next
    case False
    then show ?thesis using g t(1,2,4) frame same
      by (intro exI [of _ pages] exI [of _ s'] conjI) (simp_all add: pool_taken_def set_loop_apply)
  qed
qed

definition sample_pool :: "ptr \<Rightarrow> pool" where
  "sample_pool b = \<lparr>p_lock = False, used_map = \<lparr>bit_cnt = 3, bits = [1]\<rparr>, p_base = b\<rparr>"

definition sample_machine :: machine where
  "sample_machine = \<lparr>m_mem = (\<lambda>_. 7), kernel_pool = sample_pool 0xc0100000, user_pool = sample_pool 0xc0200000,
     init_ram_pages = 1024, init_page_dir = 0xc0100000, cr3 = 0x100000\<rparr>"

lemma sample_machine_wf: "machine_wf sample_machine"
  by (simp add: machine_wf_def pool_wf_def sample_machine_def sample_pool_def bitmap_wf_def elem_cnt_def
      size_add_def PHYS_BASE_def PGSIZE_def PGBITS_def pg_ofs_def)

theorem palloc_get_fresh_witness:
  "\<exists>pages s'. palloc_get_multiple \<lparr>PAL_ASSERT = False, PAL_ZERO = True, PAL_USER = True\<rparr> 2 sample_machine =
     Some (pages, s') \<and> machine_wf s' \<and> kernel_pool s' = kernel_pool sample_machine \<and> cr3 s' = cr3 sample_machine"
proof -
  let ?f = "\<lparr>PAL_ASSERT = False, PAL_ZERO = True, PAL_USER = True\<rparr>"
  obtain pages s' where r: "palloc_get_multiple ?f 2 sample_machine = Some (pages, s')" "machine_wf s'"
    "s' = sample_machine \<or> s' = sample_machine\<lparr>m_mem := m_mem s', user_pool := user_pool s'\<rparr>"
    using palloc_get_fresh [OF sample_machine_wf, of 2 ?f] by (auto split: if_splits)
  have "kernel_pool s' = kernel_pool sample_machine \<and> cr3 s' = cr3 sample_machine"
    using r(3) by (metis machine.select_convs machine.surjective machine.update_convs)
  then show ?thesis using r(1,2) by blast
qed

text \<open>C23.  Freeing the pages just allocated succeeds, and restores exactly the set of pages in use of
  both pools.\<close>

theorem palloc_roundtrip:
  assumes "machine_wf s" "0 < n" "palloc_get_multiple flags n s = Some (pages, s')" "pages \<noteq> NULL"
  shows "\<exists>s''. palloc_free_multiple pages n s' = Some s'' \<and> machine_wf s'' \<and>
    pages_in_use (kernel_pool s'') = pages_in_use (kernel_pool s) \<and>
    pages_in_use (user_pool s'') = pages_in_use (user_pool s)"
proof -
  let ?f = "plain_flags (PAL_USER flags)"
  have same: "get_pool ?f x = get_pool flags x" "set_pool ?f p x = set_pool flags p x" for x p
    by (simp_all add: get_pool_def set_pool_def plain_flags_def)
  note t = palloc_get_taken [OF assms(1-3)]
  have u: "run_of pages n \<inter> pages_in_use (get_pool flags s) = {}"
    "pages_in_use (get_pool flags s') = pages_in_use (get_pool flags s) \<union> run_of pages n"
    using t(1) assms(4) by (auto simp: pool_taken_def)
  then have "run_of pages n \<subseteq> pages_in_use (get_pool ?f s')" by (simp add: same)
  then obtain s'' where s'': "palloc_free_multiple pages n s' = Some s''" "machine_wf s''"
    "s'' = set_pool flags (get_pool flags s'') (s'\<lparr>m_mem := set_loop (PGSIZE * n) (m_mem s') pages 0xcc\<rparr>)"
    "pages_in_use (get_pool flags s'') = pages_in_use (get_pool flags s') - run_of pages n"
    using palloc_free_ok [OF t(2) assms(2), of pages "PAL_USER flags"] unfolding same by blast
  have restored: "pages_in_use (get_pool flags s'') = pages_in_use (get_pool flags s)"
    unfolding s''(4) u(2) using u(1) by blast
  have other: "PAL_USER flags \<Longrightarrow> kernel_pool s'' = kernel_pool s"
    "\<not> PAL_USER flags \<Longrightarrow> user_pool s'' = user_pool s"
    using arg_cong [OF s''(3), of kernel_pool] arg_cong [OF s''(3), of user_pool]
      arg_cong [OF t(3), of kernel_pool] arg_cong [OF t(3), of user_pool]
    by (simp_all add: set_pool_def)
  show ?thesis using s''(1,2) restored other by (cases "PAL_USER flags") (auto simp: get_pool_def)
qed

lemma sample_in_use: "pages_in_use (sample_pool b) = {b}" "pool_pages (sample_pool b) = {b, b + PGSIZE, b + 2 * PGSIZE}"
proof -
  have "get_bit (used_map (sample_pool b)) j \<longleftrightarrow> j = 0" if "j < 3" for j
    using that by (simp add: get_bit_def sample_pool_def bit_1_iff)
  then have "used_bits (used_map (sample_pool b)) = {0}"
    unfolding used_bits_def by (auto simp: sample_pool_def)
  then show "pages_in_use (sample_pool b) = {b}" by (simp add: pages_in_use_def sample_pool_def)
  have "{..<3::nat} = {0, 1, 2}" by auto
  then show "pool_pages (sample_pool b) = {b, b + PGSIZE, b + 2 * PGSIZE}"
    by (simp add: pool_pages_def sample_pool_def mult.commute)
qed

theorem palloc_roundtrip_witness:
  "\<exists>pages s' s''. pages \<noteq> NULL \<and> palloc_get_multiple (plain_flags True) 2 sample_machine = Some (pages, s') \<and>
    palloc_free_multiple pages 2 s' = Some s'' \<and>
    pages_in_use (user_pool s'') = pages_in_use (user_pool sample_machine)"
proof -
  obtain pages s' where s': "palloc_get_multiple (plain_flags True) 2 sample_machine = Some (pages, s')"
    using palloc_get_total [OF sample_machine_wf, of "plain_flags True" 2] by (auto simp: plain_flags_def)
  have "{..<2::nat} = {0, 1}" by auto
  then have r: "run_of 0xc0201000 2 = {0xc0201000, 0xc0202000}" by (simp add: run_of_def PGSIZE_def PGBITS_def)
  have p: "get_pool (plain_flags True) sample_machine = sample_pool 0xc0200000"
    by (simp add: get_pool_def plain_flags_def sample_machine_def)
  have "run_of 0xc0201000 2 \<subseteq> pool_pages (sample_pool 0xc0200000)"
    "run_of 0xc0201000 2 \<inter> pages_in_use (sample_pool 0xc0200000) = {}"
    unfolding r sample_in_use by (simp_all add: PGSIZE_def PGBITS_def)
  then have "pages \<noteq> NULL"
    using palloc_get_taken(1) [OF sample_machine_wf _ s'] unfolding pool_taken_def p by (cases "pages = NULL") auto
  then show ?thesis using palloc_roundtrip [OF sample_machine_wf _ s'] s' by auto
qed

end
