(* ===== verification/Pagedir.thy ===== *)
theory Pagedir
  imports Palloc
begin

text \<open>
  Page directories and page tables (\<open>threads/pte.h\<close>, \<open>userprog/pagedir.c\<close>).  They live in the
  memory of the machine: a page of 1024 words each.  Pointers to entries are addresses, the null
  pointer is 0.  The release of the supplemental page table in \<open>pagedir_destroy\<close> is an argument.
\<close>

section \<open>Definitions\<close>

subsection \<open>Entries\<close>

abbreviation (input) PTE_ADDR :: u32 where "PTE_ADDR \<equiv> 0xfffff000"
abbreviation (input) PTE_P :: u32 where "PTE_P \<equiv> 0x1"
abbreviation (input) PTE_W :: u32 where "PTE_W \<equiv> 0x2"
abbreviation (input) PTE_U :: u32 where "PTE_U \<equiv> 0x4"
abbreviation (input) PTE_A :: u32 where "PTE_A \<equiv> 0x20"
abbreviation (input) PTE_D :: u32 where "PTE_D \<equiv> 0x40"

definition pt_no :: "ptr \<Rightarrow> nat" where
  "pt_no va = va div 2 ^ 12 mod 2 ^ 10"

definition pd_no :: "ptr \<Rightarrow> nat" where
  "pd_no va = va div 2 ^ 22"

definition pde_create :: "ptr \<Rightarrow> u32 option" where
  "pde_create pt = do {
     ASSERT (pg_ofs pt = 0);
     p \<leftarrow> vtop pt;
     Some (of_nat p OR PTE_U OR PTE_P OR PTE_W) }"

definition pde_get_pt :: "u32 \<Rightarrow> ptr option" where
  "pde_get_pt pde = do {
     ASSERT (pde AND PTE_P \<noteq> 0);
     ptov (unat (pde AND PTE_ADDR)) }"

definition pte_create_kernel :: "ptr \<Rightarrow> bool \<Rightarrow> u32 option" where
  "pte_create_kernel page writable = do {
     ASSERT (pg_ofs page = 0);
     p \<leftarrow> vtop page;
     Some (of_nat p OR PTE_P OR (if writable then PTE_W else 0)) }"

definition pte_create_user :: "ptr \<Rightarrow> bool \<Rightarrow> u32 option" where
  "pte_create_user page writable = do {
     pte \<leftarrow> pte_create_kernel page writable;
     Some (pte OR PTE_U) }"

definition pte_get_page :: "u32 \<Rightarrow> ptr option" where
  "pte_get_page pte = ptov (unat (pte AND PTE_ADDR))"

subsection \<open>Page directories\<close>

definition store_word :: "ptr \<Rightarrow> u32 \<Rightarrow> machine \<Rightarrow> machine" where
  "store_word a v s = s\<lparr>m_mem := store32 (m_mem s) a v\<rparr>"

definition pagedir_create :: "machine \<Rightarrow> (ptr \<times> machine) option" where
  "pagedir_create s = do {
     (pd, s) \<leftarrow> palloc_get_page (plain_flags False) s;
     if pd \<noteq> NULL then do {
       (_, m) \<leftarrow> memcpy (m_mem s) pd (init_page_dir s) PGSIZE;
       Some (pd, s\<lparr>m_mem := m\<rparr>) }
     else Some (pd, s) }"

text \<open>The inner loop of \<open>pagedir_destroy\<close> over the entries of a page table, \<open>n\<close> of them left.\<close>

primrec free_table_pages :: "nat \<Rightarrow> ptr \<Rightarrow> machine \<Rightarrow> machine option" where
  "free_table_pages 0 pte s = Some s"
| "free_table_pages (Suc n) pte s = do {
     let e = load32 (m_mem s) pte;
     s \<leftarrow> (if \<not> (e AND PTE_U \<noteq> 0) \<and> e AND PTE_P \<noteq> 0 then do {
            page \<leftarrow> pte_get_page e;
            palloc_free_page page s }
          else Some s);
     free_table_pages n (pte + 4) s }"

primrec free_tables :: "nat \<Rightarrow> ptr \<Rightarrow> machine \<Rightarrow> machine option" where
  "free_tables 0 pde s = Some s"
| "free_tables (Suc n) pde s = do {
     let e = load32 (m_mem s) pde;
     s \<leftarrow> (if e AND PTE_P \<noteq> 0 then do {
            pt \<leftarrow> pde_get_pt e;
            s \<leftarrow> free_table_pages (PGSIZE div 4) pt s;
            palloc_free_page pt s }
          else Some s);
     free_tables n (pde + 4) s }"

definition pagedir_destroy :: "(machine \<Rightarrow> machine option) \<Rightarrow> ptr \<Rightarrow> machine \<Rightarrow> machine option" where
  "pagedir_destroy free_spte_table pd s =
     (if pd = NULL then Some s
      else do {
        ASSERT (pd \<noteq> init_page_dir s);
        s \<leftarrow> free_tables (pd_no PHYS_BASE) pd s;
        s \<leftarrow> free_spte_table s;
        palloc_free_page pd s })"

definition lookup_page :: "ptr \<Rightarrow> ptr \<Rightarrow> bool \<Rightarrow> machine \<Rightarrow> (ptr \<times> machine) option" where
  "lookup_page pd vaddr create s = do {
     ASSERT (pd \<noteq> NULL);
     ASSERT (\<not> create \<or> is_user_vaddr vaddr);
     let pde = pd + 4 * pd_no vaddr;
     (found, s) \<leftarrow>
       (if load32 (m_mem s) pde = 0 then
          (if create then do {
             (pt, s) \<leftarrow> palloc_get_page \<lparr>PAL_ASSERT = False, PAL_ZERO = True, PAL_USER = False\<rparr> s;
             if pt = NULL then Some (False, s)
             else do {
               e \<leftarrow> pde_create pt;
               Some (True, store_word pde e s) } }
           else Some (False, s))
        else Some (True, s));
     if found then do {
       pt \<leftarrow> pde_get_pt (load32 (m_mem s) pde);
       Some (pt + 4 * pt_no vaddr, s) }
     else Some (NULL, s) }"

definition pagedir_activate :: "ptr \<Rightarrow> machine \<Rightarrow> machine option" where
  "pagedir_activate pd s = do {
     let pd = (if pd = NULL then init_page_dir s else pd);
     p \<leftarrow> vtop pd;
     Some (s\<lparr>cr3 := p\<rparr>) }"

definition active_pd :: "machine \<Rightarrow> ptr option" where
  "active_pd s = ptov (cr3 s)"

definition invalidate_pagedir :: "ptr \<Rightarrow> machine \<Rightarrow> machine option" where
  "invalidate_pagedir pd s = do {
     a \<leftarrow> active_pd s;
     if a = pd then pagedir_activate pd s else Some s }"

definition pagedir_set_page :: "ptr \<Rightarrow> ptr \<Rightarrow> ptr \<Rightarrow> bool \<Rightarrow> machine \<Rightarrow> (bool \<times> machine) option" where
  "pagedir_set_page pd upage kpage writable s = do {
     ASSERT (pg_ofs upage = 0);
     ASSERT (pg_ofs kpage = 0);
     ASSERT (is_user_vaddr upage);
     p \<leftarrow> vtop kpage;
     ASSERT (p div 2 ^ 12 < init_ram_pages s);
     ASSERT (pd \<noteq> init_page_dir s);
     (pte, s) \<leftarrow> lookup_page pd upage True s;
     if pte \<noteq> NULL then do {
       ASSERT (load32 (m_mem s) pte AND PTE_P = 0);
       e \<leftarrow> pte_create_user kpage writable;
       Some (True, store_word pte e s) }
     else Some (False, s) }"

definition pagedir_get_page :: "ptr \<Rightarrow> ptr \<Rightarrow> machine \<Rightarrow> ptr option" where
  "pagedir_get_page pd uaddr s = do {
     ASSERT (is_user_vaddr uaddr);
     (pte, s) \<leftarrow> lookup_page pd uaddr False s;
     if pte \<noteq> NULL \<and> load32 (m_mem s) pte AND PTE_P \<noteq> 0 then do {
       page \<leftarrow> pte_get_page (load32 (m_mem s) pte);
       Some (page + pg_ofs uaddr) }
     else Some NULL }"

definition pagedir_clear_page :: "ptr \<Rightarrow> ptr \<Rightarrow> machine \<Rightarrow> machine option" where
  "pagedir_clear_page pd upage s = do {
     ASSERT (pg_ofs upage = 0);
     ASSERT (is_user_vaddr upage);
     (pte, s) \<leftarrow> lookup_page pd upage False s;
     if pte \<noteq> NULL \<and> load32 (m_mem s) pte AND PTE_P \<noteq> 0 then
       invalidate_pagedir pd (store_word pte (load32 (m_mem s) pte AND NOT PTE_P) s)
     else Some s }"

definition pagedir_is_present :: "ptr \<Rightarrow> ptr \<Rightarrow> machine \<Rightarrow> bool option" where
  "pagedir_is_present pd upage s = do {
     ASSERT (pg_ofs upage = 0);
     ASSERT (is_user_vaddr upage);
     (pte, s) \<leftarrow> lookup_page pd upage False s;
     Some (pte \<noteq> NULL \<and> load32 (m_mem s) pte AND PTE_P \<noteq> 0) }"

definition pagedir_is_dirty :: "ptr \<Rightarrow> ptr \<Rightarrow> machine \<Rightarrow> bool option" where
  "pagedir_is_dirty pd vpage s = do {
     (pte, s) \<leftarrow> lookup_page pd vpage False s;
     Some (pte \<noteq> NULL \<and> load32 (m_mem s) pte AND PTE_D \<noteq> 0) }"

definition pagedir_set_dirty :: "ptr \<Rightarrow> ptr \<Rightarrow> bool \<Rightarrow> machine \<Rightarrow> machine option" where
  "pagedir_set_dirty pd vpage dirty s = do {
     (pte, s) \<leftarrow> lookup_page pd vpage False s;
     if pte \<noteq> NULL then
       (if dirty then Some (store_word pte (load32 (m_mem s) pte OR PTE_D) s)
        else invalidate_pagedir pd (store_word pte (load32 (m_mem s) pte AND NOT PTE_D) s))
     else Some s }"

definition pagedir_is_accessed :: "ptr \<Rightarrow> ptr \<Rightarrow> machine \<Rightarrow> bool option" where
  "pagedir_is_accessed pd vpage s = do {
     (pte, s) \<leftarrow> lookup_page pd vpage False s;
     Some (pte \<noteq> NULL \<and> load32 (m_mem s) pte AND PTE_A \<noteq> 0) }"

definition pagedir_set_accessed :: "ptr \<Rightarrow> ptr \<Rightarrow> bool \<Rightarrow> machine \<Rightarrow> machine option" where
  "pagedir_set_accessed pd vpage accessed s = do {
     (pte, s) \<leftarrow> lookup_page pd vpage False s;
     if pte \<noteq> NULL then
       (if accessed then Some (store_word pte (load32 (m_mem s) pte OR PTE_A) s)
        else invalidate_pagedir pd (store_word pte (load32 (m_mem s) pte AND NOT PTE_A) s))
     else Some s }"

definition pagedir_is_writeable :: "ptr \<Rightarrow> ptr \<Rightarrow> machine \<Rightarrow> bool option" where
  "pagedir_is_writeable pd vpage s = do {
     (pte, s) \<leftarrow> lookup_page pd vpage False s;
     ASSERT (pte \<noteq> NULL);
     Some (load32 (m_mem s) pte AND PTE_W \<noteq> 0) }"

section \<open>Entries\<close>

lemma PTE_ADDR_mask: "(0xfffff000 :: u32) = NOT (mask 12)"
  by (simp add: mask_eq_exp_minus_1)

lemma addr_bits:
  assumes "p mod 4096 = 0" "p < 2 ^ 32"
  shows "(of_nat p :: u32) AND NOT (mask 12) = of_nat p" "\<not> bit (of_nat p :: u32) 0"
    "unat (of_nat p :: u32) = p"
proof -
  define q where "q = p div 4096"
  have q: "p = q * 2 ^ 12" using assms(1) div_mult_mod_eq [of p 4096] by (simp add: q_def)
  have w: "(of_nat p :: u32) = push_bit 12 (of_nat q)" unfolding q by (simp add: push_bit_eq_mult)
  show "(of_nat p :: u32) AND NOT (mask 12) = of_nat p"
    unfolding w by (rule bit_word_eqI) (auto simp: bit_and_iff bit_not_iff bit_mask_iff bit_push_bit_iff)
  show "\<not> bit (of_nat p :: u32) 0" unfolding w by (simp add: bit_push_bit_iff)
  show "unat (of_nat p :: u32) = p" using assms(2) by (simp add: unsigned_of_nat take_bit_nat_eq_self)
qed

lemma addr_flag:
  assumes "p mod 4096 = 0" "p < 2 ^ 32"
  shows "(of_nat p :: u32) AND 2 = 0"
proof -
  have "(of_nat p :: u32) AND 2 = of_nat p AND (NOT (mask 12) AND 2)"
    by (subst addr_bits(1) [OF assms, symmetric]) (simp only: and.assoc)
  then show ?thesis by (simp flip: PTE_ADDR_mask)
qed

lemma flags_addr:
  assumes "p mod 4096 = 0" "p < 2 ^ 32" "f AND NOT (mask 12) = 0"
  shows "unat ((of_nat p OR f) AND 0xfffff000 :: u32) = p"
  unfolding PTE_ADDR_mask bit.conj_disj_distrib2 addr_bits(1) [OF assms(1,2)] assms(3)
  using addr_bits(3) [OF assms(1,2)] by simp

text \<open>A page in the kernel's part of memory.\<close>

definition kernel_page :: "ptr \<Rightarrow> bool" where
  "kernel_page q \<longleftrightarrow> pg_ofs q = 0 \<and> PHYS_BASE \<le> q \<and> q + PGSIZE \<le> 2 ^ 32"

lemma kernel_page_phys:
  assumes "kernel_page q"
  shows "vtop q = Some (q - PHYS_BASE)" "(q - PHYS_BASE) mod 4096 = 0" "q - PHYS_BASE < 2 ^ 32"
    "ptov (q - PHYS_BASE) = Some q"
proof -
  have q: "q mod 4096 = 0" "0xc0000000 \<le> q" "q + 4096 \<le> 2 ^ 32"
    using assms by (auto simp: kernel_page_def pg_ofs_def PGSIZE_def PGBITS_def PHYS_BASE_def)
  show "vtop q = Some (q - PHYS_BASE)" using q by (simp add: vtop_def is_kernel_vaddr_def PHYS_BASE_def)
  show "(q - PHYS_BASE) mod 4096 = 0" using q(1,2) by (simp add: PHYS_BASE_def mod_eq_0_iff_dvd dvd_diff_nat)
  show "q - PHYS_BASE < 2 ^ 32" "ptov (q - PHYS_BASE) = Some q" using q by (auto simp: ptov_def PHYS_BASE_def)
qed

lemma pde_roundtrip:
  assumes "kernel_page pt"
  obtains e where "pde_create pt = Some e" "pde_get_pt e = Some pt" "e \<noteq> 0" "e AND 1 \<noteq> 0"
proof -
  note k = kernel_page_phys [OF assms]
  let ?e = "of_nat (pt - PHYS_BASE) OR 7 :: u32"
  have "pde_create pt = Some ?e" using assms k(1) by (simp add: pde_create_def kernel_page_def or.assoc)
  moreover have b: "bit ?e 0" by (simp add: bit_or_iff)
  then have "?e AND 1 \<noteq> 0" "?e \<noteq> 0" by (auto simp: and_one_eq odd_iff_mod_2_eq_one bit_0)
  moreover have "unat (?e AND 0xfffff000) = pt - PHYS_BASE" using k(2,3) by (intro flags_addr) (simp_all flip: PTE_ADDR_mask)
  ultimately show ?thesis using that k(4) by (simp add: pde_get_pt_def)
qed

lemma pte_roundtrip:
  assumes "kernel_page page"
  obtains e where "pte_create_user page w = Some e" "pte_get_page e = Some page" "e AND 1 \<noteq> 0"
    "e AND 2 \<noteq> 0 \<longleftrightarrow> w"
proof -
  note k = kernel_page_phys [OF assms]
  let ?f = "1 OR (if w then 2 else 0) OR 4 :: u32"
  let ?e = "of_nat (page - PHYS_BASE) OR ?f :: u32"
  have "pte_create_user page w = Some ?e"
    using assms k(1) by (simp add: pte_create_user_def pte_create_kernel_def kernel_page_def or.assoc)
  moreover have "bit ?e 0" by (simp add: bit_or_iff)
  then have "?e AND 1 \<noteq> 0" by (auto simp: and_one_eq odd_iff_mod_2_eq_one bit_0)
  moreover have "unat (?e AND 0xfffff000) = page - PHYS_BASE" using k(2,3) by (intro flags_addr) (simp_all flip: PTE_ADDR_mask)
  moreover have "?e AND 2 \<noteq> 0 \<longleftrightarrow> w"
    unfolding bit.conj_disj_distrib2 addr_flag [OF k(2,3)] by simp
  ultimately show ?thesis using that k(4) by (simp add: pte_get_page_def)
qed

section \<open>A page directory is a map from pages to entries\<close>

definition pde_val :: "machine \<Rightarrow> ptr \<Rightarrow> nat \<Rightarrow> u32" where
  "pde_val s pd i = load32 (m_mem s) (pd + 4 * i)"

definition table_ok :: "machine \<Rightarrow> ptr \<Rightarrow> u32 \<Rightarrow> bool" where
  "table_ok s pd e \<longleftrightarrow> (\<exists>pt. pde_create pt = Some e \<and> kernel_page pt \<and> pt \<in> pages_in_use (kernel_pool s) \<and> pt \<noteq> pd)"

text \<open>The directory and its page tables are pages of the kernel pool that are in use, all different.\<close>

definition pd_wf :: "machine \<Rightarrow> ptr \<Rightarrow> bool" where
  "pd_wf s pd \<longleftrightarrow> kernel_page pd \<and> pd \<in> pages_in_use (kernel_pool s) \<and>
     (\<forall>i < 768. pde_val s pd i \<noteq> 0 \<longrightarrow> table_ok s pd (pde_val s pd i)) \<and>
     (\<forall>i < 768. \<forall>j < 768. i \<noteq> j \<longrightarrow> pde_val s pd i \<noteq> 0 \<longrightarrow> pde_val s pd i \<noteq> pde_val s pd j)"

definition table_of :: "machine \<Rightarrow> ptr \<Rightarrow> nat \<Rightarrow> ptr" where
  "table_of s pd i = (if pde_val s pd i = 0 then NULL else the (pde_get_pt (pde_val s pd i)))"

text \<open>The address of the entry of a page (by number), and the entry; 0 where there is no table.\<close>

definition pte_ptr :: "machine \<Rightarrow> ptr \<Rightarrow> nat \<Rightarrow> ptr" where
  "pte_ptr s pd n = (let pt = table_of s pd (n div 1024) in if pt = NULL then NULL else pt + 4 * (n mod 1024))"

definition entry :: "machine \<Rightarrow> ptr \<Rightarrow> nat \<Rightarrow> u32" where
  "entry s pd n = (if pte_ptr s pd n = NULL then 0 else load32 (m_mem s) (pte_ptr s pd n))"

definition user_pages :: nat where
  "user_pages = 786432"

lemma user_page_no: "is_user_vaddr va \<longleftrightarrow> pg_no va < user_pages"
  by (auto simp: is_user_vaddr_def PHYS_BASE_def pg_no_def PGBITS_def user_pages_def div_less_iff_less_mult)

lemma pd_pt_no: "pd_no va = pg_no va div 1024" "pt_no va = pg_no va mod 1024"
proof -
  have "va div 2 ^ 22 = va div (2 ^ 12 * 2 ^ 10)" by simp
  then show "pd_no va = pg_no va div 1024" by (simp only: div_mult2_eq pd_no_def pg_no_def PGBITS_def) simp
qed (simp add: pt_no_def pg_no_def PGBITS_def)

lemma user_pd: "n < user_pages \<Longrightarrow> n div 1024 < 768"
  by (simp add: user_pages_def div_less_iff_less_mult)

lemma kernel_page_sep: "kernel_page p \<Longrightarrow> kernel_page q \<Longrightarrow> p \<noteq> q \<Longrightarrow> p + 4096 \<le> q \<or> q + 4096 \<le> p"
proof -
  assume pq: "kernel_page p" "kernel_page q" "p \<noteq> q"
  have e: "p = pg_no p * PGSIZE" "q = pg_no q * PGSIZE"
    using pg_split [of p] pg_split [of q] pq(1,2) by (simp_all add: kernel_page_def)
  then have "pg_no p \<noteq> pg_no q" using pq(3) by metis
  then have "Suc (pg_no p) \<le> pg_no q \<or> Suc (pg_no q) \<le> pg_no p" by linarith
  then have "Suc (pg_no p) * PGSIZE \<le> pg_no q * PGSIZE \<or> Suc (pg_no q) * PGSIZE \<le> pg_no p * PGSIZE"
    using mult_le_mono1 by blast
  then show ?thesis using e by (simp add: PGSIZE_def PGBITS_def add.commute)
qed

lemma table_okD:
  assumes "table_ok s pd e"
  obtains pt where "pde_create pt = Some e" "pde_get_pt e = Some pt" "e \<noteq> 0" "kernel_page pt"
    "pt \<in> pages_in_use (kernel_pool s)" "pt \<noteq> pd" "pt \<noteq> NULL"
proof -
  obtain pt where pt: "pde_create pt = Some e" "kernel_page pt" "pt \<in> pages_in_use (kernel_pool s)" "pt \<noteq> pd"
    using assms by (auto simp: table_ok_def)
  obtain e' where "pde_create pt = Some e'" "pde_get_pt e' = Some pt" "e' \<noteq> 0"
    using pde_roundtrip [OF pt(2)] .
  moreover have "pt \<noteq> NULL" using pt(2) by (auto simp: kernel_page_def PHYS_BASE_def)
  ultimately show ?thesis using that pt by simp
qed

lemma table_of_wf:
  assumes "pd_wf s pd" "i < 768" "pde_val s pd i \<noteq> 0"
  shows "pde_get_pt (pde_val s pd i) = Some (table_of s pd i)" "pde_create (table_of s pd i) = Some (pde_val s pd i)"
    "kernel_page (table_of s pd i)" "table_of s pd i \<in> pages_in_use (kernel_pool s)" "table_of s pd i \<noteq> pd"
    "table_of s pd i \<noteq> NULL"
proof -
  have "table_ok s pd (pde_val s pd i)" using assms by (auto simp: pd_wf_def)
  then show "pde_get_pt (pde_val s pd i) = Some (table_of s pd i)"
    "pde_create (table_of s pd i) = Some (pde_val s pd i)"
    "kernel_page (table_of s pd i)" "table_of s pd i \<in> pages_in_use (kernel_pool s)" "table_of s pd i \<noteq> pd"
    "table_of s pd i \<noteq> NULL"
    using assms(3) by (auto elim!: table_okD simp: table_of_def)
qed

lemma table_of_inj:
  assumes "pd_wf s pd" "i < 768" "j < 768" "i \<noteq> j" "pde_val s pd i \<noteq> 0" "pde_val s pd j \<noteq> 0"
  shows "table_of s pd i \<noteq> table_of s pd j"
proof
  assume "table_of s pd i = table_of s pd j"
  then have "pde_val s pd i = pde_val s pd j"
    using table_of_wf(2) [OF assms(1,2,5)] table_of_wf(2) [OF assms(1,3,6)] by simp
  then show False using assms unfolding pd_wf_def by metis
qed

lemma table_of_NULL: "pd_wf s pd \<Longrightarrow> i < 768 \<Longrightarrow> table_of s pd i = NULL \<longleftrightarrow> pde_val s pd i = 0"
  using table_of_wf(6) [of s pd i] by (auto simp: table_of_def)

lemma lookup_no_create:
  assumes "pd_wf s pd" "is_user_vaddr va"
  shows "lookup_page pd va False s = Some (pte_ptr s pd (pg_no va), s)"
proof -
  have i: "pd_no va < 768" "pg_no va div 1024 = pd_no va" "pg_no va mod 1024 = pt_no va"
    using user_pd [of "pg_no va"] assms(2) by (simp_all add: user_page_no pd_pt_no)
  have pd: "pd \<noteq> NULL" using assms(1) by (auto simp: pd_wf_def kernel_page_def PHYS_BASE_def)
  show ?thesis
    using table_of_wf [OF assms(1) i(1)] table_of_NULL [OF assms(1) i(1)] pd
    unfolding lookup_page_def pte_ptr_def Let_def i pde_val_def by (cases "load32 (m_mem s) (pd + 4 * pd_no va) = 0") auto
qed

text \<open>The entries of different pages do not overlap, and no entry overlaps the directory.\<close>

lemma pte_sep:
  assumes "pd_wf s pd" "n < user_pages" "n' < user_pages" "n \<noteq> n'"
    and "pte_ptr s pd n \<noteq> NULL" "pte_ptr s pd n' \<noteq> NULL"
  shows "pte_ptr s pd n + 4 \<le> pte_ptr s pd n' \<or> pte_ptr s pd n' + 4 \<le> pte_ptr s pd n"
proof -
  let ?i = "n div 1024" and ?j = "n' div 1024"
  have ij: "?i < 768" "?j < 768" using assms(2,3) user_pd by auto
  have nz: "pde_val s pd ?i \<noteq> 0" "pde_val s pd ?j \<noteq> 0"
    using assms(5,6) by (auto simp: pte_ptr_def Let_def table_of_def split: if_splits)
  note ti = table_of_wf [OF assms(1) ij(1) nz(1)] and tj = table_of_wf [OF assms(1) ij(2) nz(2)]
  have p: "pte_ptr s pd n = table_of s pd ?i + 4 * (n mod 1024)" "pte_ptr s pd n' = table_of s pd ?j + 4 * (n' mod 1024)"
    using ti(6) tj(6) by (simp_all add: pte_ptr_def)
  show ?thesis
  proof (cases "?i = ?j")
    case True
    then have "n mod 1024 \<noteq> n' mod 1024" using assms(4) by (metis div_mult_mod_eq)
    then show ?thesis unfolding p True by linarith
  next
    case False
    have "n mod 1024 < 1024" "n' mod 1024 < 1024" by simp_all
    then show ?thesis
      using kernel_page_sep [OF ti(3) tj(3) table_of_inj [OF assms(1) ij False nz]] unfolding p by linarith
  qed
qed

lemma pte_pd_sep:
  assumes "pd_wf s pd" "n < user_pages" "pte_ptr s pd n \<noteq> NULL" "i < 1024"
  shows "pd + 4 * i + 4 \<le> pte_ptr s pd n \<or> pte_ptr s pd n + 4 \<le> pd + 4 * i"
proof -
  let ?i = "n div 1024"
  have nz: "pde_val s pd ?i \<noteq> 0" using assms(3) by (auto simp: pte_ptr_def Let_def table_of_def split: if_splits)
  note t = table_of_wf [OF assms(1) user_pd [OF assms(2)] nz]
  have "pte_ptr s pd n = table_of s pd ?i + 4 * (n mod 1024)" "n mod 1024 < 1024" using t(6) by (simp_all add: pte_ptr_def)
  moreover have "kernel_page pd" using assms(1) by (simp add: pd_wf_def)
  ultimately show ?thesis using kernel_page_sep [OF t(3) _ t(5)] assms(4) by fastforce
qed

section \<open>Changing one entry\<close>

lemma pd_wf_cong:
  assumes "pd_wf s pd" "\<And>i. i < 768 \<Longrightarrow> pde_val s' pd i = pde_val s pd i"
    and "pages_in_use (kernel_pool s) \<subseteq> pages_in_use (kernel_pool s')"
  shows "pd_wf s' pd"
  using assms unfolding pd_wf_def table_ok_def by (simp add: subset_iff) metis

lemma pte_ptr_cong:
  assumes "\<And>i. i < 768 \<Longrightarrow> pde_val s' pd i = pde_val s pd i" "n < user_pages"
  shows "pte_ptr s' pd n = pte_ptr s pd n"
  using assms user_pd [OF assms(2)] by (simp add: pte_ptr_def table_of_def)

lemma kernel_pool_store [simp]: "kernel_pool (store_word a v s) = kernel_pool s"
  "user_pool (store_word a v s) = user_pool s" "init_page_dir (store_word a v s) = init_page_dir s"
  "init_ram_pages (store_word a v s) = init_ram_pages s" "cr3 (store_word a v s) = cr3 s"
  "m_mem (store_word a v s) = store32 (m_mem s) a v"
  by (simp_all add: store_word_def)

lemma machine_wf_store [simp]: "machine_wf (store_word a v s) = machine_wf s"
  by (simp add: store_word_def)

lemma entry_store:
  fixes v :: u32
  assumes "pd_wf s pd" "n < user_pages" "pte_ptr s pd n \<noteq> NULL"
  defines "s' \<equiv> store_word (pte_ptr s pd n) v s"
  shows "pd_wf s' pd" "m < user_pages \<Longrightarrow> entry s' pd m = (if m = n then v else entry s pd m)"
proof -
  have pde: "pde_val s' pd i = pde_val s pd i" if "i < 768" for i
    unfolding pde_val_def s'_def kernel_pool_store
    using pte_pd_sep [OF assms(1-3), of i] that by (intro load32_store32_other) linarith
  show "pd_wf s' pd" by (rule pd_wf_cong [OF assms(1) pde]) (simp_all add: s'_def)
  assume m: "m < user_pages"
  have p: "pte_ptr s' pd m = pte_ptr s pd m" using pde m by (rule pte_ptr_cong)
  show "entry s' pd m = (if m = n then v else entry s pd m)"
  proof (cases "m = n \<or> pte_ptr s pd m = NULL")
    case True
    then show ?thesis using assms(3) unfolding entry_def p by (auto simp: s'_def)
  next
    case False
    then have "load32 (m_mem s') (pte_ptr s pd m) = load32 (m_mem s) (pte_ptr s pd m)"
      unfolding s'_def kernel_pool_store using pte_sep [OF assms(1,2) m _ assms(3)] by (intro load32_store32_other) auto
    then show ?thesis using False unfolding entry_def p by simp
  qed
qed

lemma load32_zero: "(\<And>b. a \<le> b \<Longrightarrow> b < a + 4 \<Longrightarrow> m b = 0) \<Longrightarrow> load32 m a = 0"
  by (simp add: load32_def)

lemma in_use_kernel_page:
  assumes "pool_wf p" "q \<in> pool_pages p"
  shows "kernel_page q"
proof -
  obtain i where i: "q = p_base p + PGSIZE * i" "i < bit_cnt (used_map p)" using assms(2) by (auto simp: pool_pages_def)
  have "Suc i * PGSIZE \<le> bit_cnt (used_map p) * PGSIZE" using i(2) by (intro mult_le_mono1) simp
  then have "q + PGSIZE \<le> p_base p + bit_cnt (used_map p) * PGSIZE" unfolding i(1) by (simp add: mult.commute)
  then show ?thesis using assms(1) page_aligned [of "p_base p" i] i(1) by (auto simp: kernel_page_def pool_wf_def)
qed

abbreviation zero_flags :: palloc_flags where
  "zero_flags \<equiv> \<lparr>PAL_ASSERT = False, PAL_ZERO = True, PAL_USER = False\<rparr>"

text \<open>A fresh zeroed page of the kernel pool.\<close>

lemma get_zero_page:
  assumes "machine_wf s"
  obtains pt s1 where "palloc_get_page zero_flags s = Some (pt, s1)" "machine_wf s1"
    "init_page_dir s1 = init_page_dir s" "init_ram_pages s1 = init_ram_pages s" "cr3 s1 = cr3 s" "user_pool s1 = user_pool s"
    "pt = NULL \<Longrightarrow> pages_in_use (kernel_pool s1) = pages_in_use (kernel_pool s) \<and> m_mem s1 = m_mem s \<and>
       pages_in_use (kernel_pool s) = pool_pages (kernel_pool s)"
    "pt \<noteq> NULL \<Longrightarrow> kernel_page pt \<and> pt \<notin> pages_in_use (kernel_pool s) \<and>
       pages_in_use (kernel_pool s1) = insert pt (pages_in_use (kernel_pool s)) \<and>
       (\<forall>a. m_mem s1 a = (if pt \<le> a \<and> a < pt + 4096 then 0 else m_mem s a))"
proof -
  obtain pt s1 where g: "palloc_get_multiple zero_flags 1 s = Some (pt, s1)"
    using palloc_get_total [OF assms, of zero_flags 1] by auto
  note t = palloc_get_taken [OF assms zero_less_one g]
  have r: "run_of q (Suc 0) = {q}" for q by (auto simp: run_of_def)
  have gp: "get_pool zero_flags x = kernel_pool x" for x by (simp add: get_pool_def)
  have same: "init_page_dir s1 = init_page_dir s" "init_ram_pages s1 = init_ram_pages s" "cr3 s1 = cr3 s"
    "user_pool s1 = user_pool s"
    by (subst t(3); simp add: set_pool_def)+
  have wf: "pool_wf (kernel_pool s)" using assms by (simp add: machine_wf_def)
  show ?thesis
  proof (rule that [OF _ t(2) same])
    show "palloc_get_page zero_flags s = Some (pt, s1)" using g by (simp add: palloc_get_page_def)
    show "pages_in_use (kernel_pool s1) = pages_in_use (kernel_pool s) \<and> m_mem s1 = m_mem s \<and>
       pages_in_use (kernel_pool s) = pool_pages (kernel_pool s)" if "pt = NULL"
      using that t(1,4) in_use_pool [of "kernel_pool s"] by (auto simp: pool_taken_def gp r)
    show "kernel_page pt \<and> pt \<notin> pages_in_use (kernel_pool s) \<and>
       pages_in_use (kernel_pool s1) = insert pt (pages_in_use (kernel_pool s)) \<and>
       (\<forall>a. m_mem s1 a = (if pt \<le> a \<and> a < pt + 4096 then 0 else m_mem s a))" if "pt \<noteq> NULL"
      using that t(1,4) in_use_kernel_page [OF wf, of pt]
      by (auto simp: pool_taken_def gp r set_loop_apply PGSIZE_def PGBITS_def)
  qed
qed

text \<open>Adding an empty page table for a slot of the directory that has none.\<close>

lemma add_table:
  assumes "pd_wf s pd" "i < 768" "pde_val s pd i = 0" "kernel_page pt" "pt \<notin> pages_in_use (kernel_pool s)"
    and "pages_in_use (kernel_pool s1) = insert pt (pages_in_use (kernel_pool s))"
    and "\<forall>a. m_mem s1 a = (if pt \<le> a \<and> a < pt + 4096 then 0 else m_mem s a)"
    and "pde_create pt = Some e"
  defines "s2 \<equiv> store_word (pd + 4 * i) e s1"
  shows "pd_wf s2 pd" "n < user_pages \<Longrightarrow> entry s2 pd n = entry s pd n"
    "table_of s2 pd i = pt"
proof -
  have pd: "kernel_page pd" "pd \<in> pages_in_use (kernel_pool s)" using assms(1) by (auto simp: pd_wf_def)
  then have ne: "pt \<noteq> pd" using assms(5) by auto
  have e: "pde_get_pt e = Some pt" "e \<noteq> 0" using pde_roundtrip [OF assms(4)] assms(8) by auto
  note sep = kernel_page_sep [OF pd(1) assms(4) ne [symmetric]]
  have mem: "load32 (m_mem s1) a = load32 (m_mem s) a" if "a + 4 \<le> pt \<or> pt + 4096 \<le> a" for a
    using that assms(7) by (intro load32_cong) auto
  have pde: "pde_val s2 pd j = (if j = i then e else pde_val s pd j)" if "j < 768" for j
  proof (cases "j = i")
    case False
    then have "load32 (m_mem s2) (pd + 4 * j) = load32 (m_mem s1) (pd + 4 * j)"
      unfolding s2_def kernel_pool_store by (intro load32_store32_other) auto
    also have "\<dots> = load32 (m_mem s) (pd + 4 * j)" using sep that by (intro mem) auto
    finally show ?thesis using False by (simp add: pde_val_def)
  qed (simp add: pde_val_def s2_def)
  show t: "table_of s2 pd i = pt" using pde [OF assms(2)] e by (simp add: table_of_def)
  have tab: "table_of s2 pd j = table_of s pd j" if "j < 768" "j \<noteq> i" for j
    using pde [OF that(1)] that by (simp add: table_of_def)
  have tne: "pde_val s pd j \<noteq> e" if "j < 768" "pde_val s pd j \<noteq> 0" for j
    using table_of_wf [OF assms(1) that] assms(5,8) e(1) by auto
  have ok: "table_ok s2 pd (pde_val s pd j)" if "j < 768" "pde_val s pd j \<noteq> 0" for j
  proof -
    have "table_ok s pd (pde_val s pd j)" using assms(1) that by (simp add: pd_wf_def)
    then show ?thesis using assms(6) by (auto simp: table_ok_def s2_def)
  qed
  have "table_ok s2 pd e" using assms(4,6,8) ne by (auto simp: table_ok_def s2_def)
  moreover have "pd \<in> pages_in_use (kernel_pool s2)" using pd(2) assms(6) by (simp add: s2_def)
  moreover have "pde_val s pd j \<noteq> pde_val s pd k" if "j < 768" "k < 768" "j \<noteq> k" "pde_val s pd j \<noteq> 0" for j k
    using assms(1) that unfolding pd_wf_def by metis
  moreover have "pde_val s2 pd j \<noteq> pde_val s2 pd k" if "j < 768" "k < 768" "j \<noteq> k" "pde_val s2 pd j \<noteq> 0" for j k
    using that tne [of j] tne [of k] e(2) calculation(3) [of j k] unfolding pde [OF that(1)] pde [OF that(2)]
    by (cases "j = i"; cases "k = i"; cases "pde_val s pd k = 0") auto
  moreover have "table_ok s2 pd (pde_val s2 pd j)" if "j < 768" "pde_val s2 pd j \<noteq> 0" for j
    using that ok [of j] calculation(1) unfolding pde [OF that(1)] by (cases "j = i") auto
  ultimately show wf: "pd_wf s2 pd" unfolding pd_wf_def using pd(1) by blast
  assume n: "n < user_pages"
  show "entry s2 pd n = entry s pd n"
  proof (cases "n div 1024 = i")
    case True
    have nz: "pt \<noteq> NULL" using assms(4) by (auto simp: kernel_page_def PHYS_BASE_def)
    have lt: "n mod 1024 < 1024" by simp
    have "m_mem s1 b = 0" if "pt + 4 * (n mod 1024) \<le> b" "b < pt + 4 * (n mod 1024) + 4" for b
    proof -
      have "pt \<le> b" "b < pt + 4096" using that lt by linarith+
      then show ?thesis using assms(7) by simp
    qed
    then have "load32 (m_mem s1) (pt + 4 * (n mod 1024)) = 0" by (rule load32_zero)
    then have "load32 (m_mem s2) (pt + 4 * (n mod 1024)) = 0"
      unfolding s2_def kernel_pool_store using sep assms(2) by (subst load32_store32_other) auto
    then have "entry s2 pd n = 0" using True t nz by (simp add: entry_def pte_ptr_def)
    moreover have "entry s pd n = 0" using True assms(3) by (simp add: entry_def pte_ptr_def table_of_def)
    ultimately show ?thesis by simp
  next
    case False
    have p: "pte_ptr s2 pd n = pte_ptr s pd n" using tab [OF user_pd [OF n] False] by (simp add: pte_ptr_def)
    show ?thesis
    proof (cases "pte_ptr s pd n = NULL")
      case nn: False
      let ?t = "table_of s pd (n div 1024)"
      have nz: "pde_val s pd (n div 1024) \<noteq> 0"
        using nn by (auto simp: pte_ptr_def Let_def table_of_def split: if_splits)
      note w = table_of_wf [OF assms(1) user_pd [OF n] nz]
      have pp: "pte_ptr s pd n = ?t + 4 * (n mod 1024)" "n mod 1024 < 1024" using w(6) by (simp_all add: pte_ptr_def)
      have "?t \<noteq> pt" using w(4) assms(5) by auto
      then have "load32 (m_mem s1) (pte_ptr s pd n) = load32 (m_mem s) (pte_ptr s pd n)"
        using kernel_page_sep [OF w(3) assms(4)] pp by (intro mem) linarith
      moreover have "load32 (m_mem s2) (pte_ptr s pd n) = load32 (m_mem s1) (pte_ptr s pd n)"
        unfolding s2_def kernel_pool_store using pte_pd_sep [OF assms(1) n nn, of i] assms(2)
        by (intro load32_store32_other) linarith
      ultimately show ?thesis using p nn by (simp add: entry_def)
    qed (simp add: entry_def p)
  qed
qed

lemma lookup_create:
  assumes "machine_wf s" "pd_wf s pd" "is_user_vaddr va"
  obtains a s' where "lookup_page pd va True s = Some (a, s')" "machine_wf s'" "pd_wf s' pd"
    "\<And>n. n < user_pages \<Longrightarrow> entry s' pd n = entry s pd n"
    "init_page_dir s' = init_page_dir s" "init_ram_pages s' = init_ram_pages s"
    "a = pte_ptr s' pd (pg_no va)"
    "a = NULL \<Longrightarrow> pages_in_use (kernel_pool s) = pool_pages (kernel_pool s)"
proof -
  let ?i = "pd_no va"
  have i: "?i < 768" "pg_no va div 1024 = ?i" "pg_no va mod 1024 = pt_no va"
    using user_pd [of "pg_no va"] assms(3) by (simp_all add: user_page_no pd_pt_no)
  have pd: "pd \<noteq> NULL" using assms(2) by (auto simp: pd_wf_def kernel_page_def PHYS_BASE_def)
  show ?thesis
  proof (cases "pde_val s pd ?i = 0")
    case False
    note t = table_of_wf [OF assms(2) i(1) False]
    have "lookup_page pd va True s = Some (table_of s pd ?i + 4 * pt_no va, s)"
      using False t(1) pd assms(3) by (simp add: lookup_page_def pde_val_def)
    then show ?thesis using that [of _ s] assms(1,2) t(6) by (simp add: pte_ptr_def i)
  next
    case True
    obtain pt s1 where g: "palloc_get_page zero_flags s = Some (pt, s1)" "machine_wf s1"
      "init_page_dir s1 = init_page_dir s" "init_ram_pages s1 = init_ram_pages s"
      "pt = NULL \<Longrightarrow> pages_in_use (kernel_pool s1) = pages_in_use (kernel_pool s) \<and> m_mem s1 = m_mem s \<and>
         pages_in_use (kernel_pool s) = pool_pages (kernel_pool s)"
      "pt \<noteq> NULL \<Longrightarrow> kernel_page pt \<and> pt \<notin> pages_in_use (kernel_pool s) \<and>
         pages_in_use (kernel_pool s1) = insert pt (pages_in_use (kernel_pool s)) \<and>
         (\<forall>a. m_mem s1 a = (if pt \<le> a \<and> a < pt + 4096 then 0 else m_mem s a))"
      using get_zero_page [OF assms(1)] by metis
    show ?thesis
    proof (cases "pt = NULL")
      case n: True
      have same: "pde_val s1 pd j = pde_val s pd j" for j using g(5) n by (simp add: pde_val_def)
      have wf1: "pd_wf s1 pd" by (rule pd_wf_cong [OF assms(2) same]) (use g(5) n in simp)
      have ent: "entry s1 pd m = entry s pd m" "pte_ptr s1 pd m = pte_ptr s pd m" for m
        using g(5) n same by (simp_all add: entry_def pte_ptr_def table_of_def)
      have "lookup_page pd va True s = Some (NULL, s1)"
        using True g(1) n pd assms(3) by (simp add: lookup_page_def pde_val_def)
      moreover have "pte_ptr s pd (pg_no va) = NULL" using True by (simp add: pte_ptr_def table_of_def i)
      ultimately show ?thesis using that g(2-5) wf1 ent n by auto
    next
      case n: False
      note p = g(6) [OF n]
      obtain e where e: "pde_create pt = Some e" "pde_get_pt e = Some pt" using pde_roundtrip p by metis
      let ?s = "store_word (pd + 4 * ?i) e s1"
      note t = add_table [OF assms(2) i(1) True, of pt s1 e] p e(1)
      have "lookup_page pd va True s = Some (pt + 4 * pt_no va, ?s)"
        using True g(1) n pd assms(3) e by (simp add: lookup_page_def pde_val_def)
      moreover have "pte_ptr ?s pd (pg_no va) = pt + 4 * pt_no va" using t n by (simp add: pte_ptr_def i)
      ultimately show ?thesis using that [of _ ?s] g(2-4) t n by auto
    qed
  qed
qed

lemma get_page_entry:
  assumes "pd_wf s pd" "is_user_vaddr va"
  shows "pagedir_get_page pd va s = (if entry s pd (pg_no va) AND 1 \<noteq> 0
    then map_option (\<lambda>p. p + pg_ofs va) (pte_get_page (entry s pd (pg_no va))) else Some NULL)"
  using lookup_no_create [OF assms] assms(2)
  by (cases "pte_ptr s pd (pg_no va) = NULL")
    (auto simp: pagedir_get_page_def entry_def map_conv_bind_option comp_def split: Option.bind_splits)

lemma set_page_entry:
  assumes "machine_wf s" "pd_wf s pd" "pg_ofs upage = 0" "is_user_vaddr upage"
    and "kernel_page kpage" "(kpage - PHYS_BASE) div 4096 < init_ram_pages s" "pd \<noteq> init_page_dir s"
    and "entry s pd (pg_no upage) AND 1 = 0"
  obtains ok s' e where "pagedir_set_page pd upage kpage w s = Some (ok, s')" "machine_wf s'" "pd_wf s' pd"
    "pte_create_user kpage w = Some e" "pte_get_page e = Some kpage" "e AND 1 \<noteq> 0" "e AND 2 \<noteq> 0 \<longleftrightarrow> w"
    "\<And>n. n < user_pages \<Longrightarrow> entry s' pd n = (if ok \<and> n = pg_no upage then e else entry s pd n)"
    "\<not> ok \<Longrightarrow> pages_in_use (kernel_pool s) = pool_pages (kernel_pool s)"
proof -
  obtain a s1 where l: "lookup_page pd upage True s = Some (a, s1)" "machine_wf s1" "pd_wf s1 pd"
    "\<And>n. n < user_pages \<Longrightarrow> entry s1 pd n = entry s pd n" "a = pte_ptr s1 pd (pg_no upage)"
    "a = NULL \<Longrightarrow> pages_in_use (kernel_pool s) = pool_pages (kernel_pool s)"
    using lookup_create [OF assms(1,2,4)] by metis
  obtain e where e: "pte_create_user kpage w = Some e" "pte_get_page e = Some kpage" "e AND 1 \<noteq> 0" "e AND 2 \<noteq> 0 \<longleftrightarrow> w"
    using pte_roundtrip [OF assms(5)] .
  have n: "pg_no upage < user_pages" using assms(4) by (simp add: user_page_no)
  have guards: "vtop kpage = Some (kpage - PHYS_BASE)" "pg_ofs kpage = 0"
    using kernel_page_phys [OF assms(5)] assms(5) by (auto simp: kernel_page_def)
  show ?thesis
  proof (cases "a = NULL")
    case True
    then have "pagedir_set_page pd upage kpage w s = Some (False, s1)"
      using l(1) assms(3,4,6,7) guards by (simp add: pagedir_set_page_def)
    then show ?thesis using that l(2-6) e True by simp
  next
    case False
    have "load32 (m_mem s1) a = entry s pd (pg_no upage)"
      using l(4) [OF n] False unfolding l(5) by (simp add: entry_def)
    then have "pagedir_set_page pd upage kpage w s = Some (True, store_word a e s1)"
      using l(1) assms(3,4,6,7,8) guards e(1) False by (simp add: pagedir_set_page_def)
    then show ?thesis
      using that [of True "store_word a e s1" e] l(2,4) e entry_store [OF l(3) n, where v = e] False unfolding l(5) by simp
  qed
qed

section \<open>Mapping pages\<close>

lemma entry_update_invalidate:
  assumes "pd_wf s pd" "cr3 s < PHYS_BASE" "machine_wf s"
  obtains s' where "invalidate_pagedir pd s = Some s'" "pd_wf s' pd" "machine_wf s'" "cr3 s' < PHYS_BASE"
    "\<And>n. entry s' pd n = entry s pd n"
proof -
  have k: "vtop pd = Some (pd - PHYS_BASE)" "pd \<noteq> NULL" "pd - PHYS_BASE < PHYS_BASE"
    using assms(1) kernel_page_phys(1) [of pd] by (auto simp: pd_wf_def kernel_page_def PHYS_BASE_def)
  have c: "pd_wf (s\<lparr>cr3 := c\<rparr>) pd" "machine_wf (s\<lparr>cr3 := c\<rparr>)" "entry (s\<lparr>cr3 := c\<rparr>) pd n = entry s pd n" for c n
    using assms(1,3)
    by (simp_all add: pd_wf_def machine_wf_def entry_def pte_ptr_def table_of_def pde_val_def table_ok_def)
  obtain a where a: "active_pd s = Some a" using assms(2) by (auto simp: active_pd_def ptov_def)
  show ?thesis
  proof (cases "a = pd")
    case True
    then have "invalidate_pagedir pd s = Some (s\<lparr>cr3 := pd - PHYS_BASE\<rparr>)"
      using a k by (simp add: invalidate_pagedir_def pagedir_activate_def)
    then show ?thesis using that c k(3) by simp
  next
    case False
    then have "invalidate_pagedir pd s = Some s" using a by (simp add: invalidate_pagedir_def)
    then show ?thesis using that assms by simp
  qed
qed

lemma clear_page_entry:
  assumes "machine_wf s" "pd_wf s pd" "pg_ofs upage = 0" "is_user_vaddr upage" "cr3 s < PHYS_BASE"
  obtains s' where "pagedir_clear_page pd upage s = Some s'" "machine_wf s'" "pd_wf s' pd" "cr3 s' < PHYS_BASE"
    "\<And>n. n < user_pages \<Longrightarrow> entry s' pd n =
       (if n = pg_no upage then entry s pd n AND NOT 1 else entry s pd n)"
proof -
  have n: "pg_no upage < user_pages" using assms(4) by (simp add: user_page_no)
  let ?a = "pte_ptr s pd (pg_no upage)" and ?e = "entry s pd (pg_no upage)"
  have "?e = (?e AND 1) OR (?e AND NOT 1)" by (simp flip: bit.conj_disj_distrib)
  then have zero: "?e AND NOT 1 = ?e" if "?e AND 1 = 0" using that by simp
  show ?thesis
  proof (cases "?a \<noteq> NULL \<and> ?e AND 1 \<noteq> 0")
    case True
    let ?s = "store_word ?a (?e AND NOT 1) s"
    note st = entry_store [OF assms(2) n, where v = "?e AND NOT 1"]
    have "pd_wf ?s pd" "cr3 ?s < PHYS_BASE" "machine_wf ?s" using st True assms(1,5) by simp_all
    then obtain s' where s': "invalidate_pagedir pd ?s = Some s'" "pd_wf s' pd" "machine_wf s'" "cr3 s' < PHYS_BASE"
      "\<And>n. entry s' pd n = entry ?s pd n" using entry_update_invalidate by metis
    have "load32 (m_mem s) ?a = ?e" using True by (simp add: entry_def)
    then have "pagedir_clear_page pd upage s = Some s'"
      using lookup_no_create [OF assms(2,4)] assms(3,4) s'(1) True by (simp add: pagedir_clear_page_def)
    then show ?thesis using that [of s'] s' st True by simp
  next
    case False
    then have "pagedir_clear_page pd upage s = Some s"
      using lookup_no_create [OF assms(2,4)] assms(3,4) by (auto simp: pagedir_clear_page_def entry_def)
    moreover have "?e AND NOT 1 = ?e" using False zero by (cases "?e AND 1 = 0") (auto simp: entry_def)
    ultimately show ?thesis using that [of s] assms by simp
  qed
qed

text \<open>C24.  \<open>pagedir_set_page\<close> on a page that is not mapped makes \<open>pagedir_get_page\<close> translate every address
  of that page to the same offset in the frame, and leaves the translation of every other user
  address as it was; it fails only when a page table is needed and the kernel pool is exhausted, and
  then changes no translation.\<close>

theorem pagedir_set_get:
  assumes "machine_wf s" "pd_wf s pd" "pg_ofs upage = 0" "is_user_vaddr upage" "cr3 s < PHYS_BASE"
    and "kernel_page kpage" "(kpage - PHYS_BASE) div 4096 < init_ram_pages s" "pd \<noteq> init_page_dir s"
    and "pagedir_is_present pd upage s = Some False"
  shows "\<exists>ok s'. pagedir_set_page pd upage kpage w s = Some (ok, s') \<and> machine_wf s' \<and> pd_wf s' pd \<and>
    (ok \<or> pages_in_use (kernel_pool s) = pool_pages (kernel_pool s)) \<and>
    (\<forall>va. is_user_vaddr va \<longrightarrow> pagedir_get_page pd va s' =
       (if ok \<and> pg_no va = pg_no upage then Some (kpage + pg_ofs va) else pagedir_get_page pd va s))"
proof -
  have np: "entry s pd (pg_no upage) AND 1 = 0"
    using lookup_no_create [OF assms(2,4)] assms(3,4,9) by (auto simp: pagedir_is_present_def entry_def)
  obtain ok s' e where r: "pagedir_set_page pd upage kpage w s = Some (ok, s')" "machine_wf s'" "pd_wf s' pd"
    "pte_get_page e = Some kpage" "e AND 1 \<noteq> 0"
    "\<And>n. n < user_pages \<Longrightarrow> entry s' pd n = (if ok \<and> n = pg_no upage then e else entry s pd n)"
    "\<not> ok \<Longrightarrow> pages_in_use (kernel_pool s) = pool_pages (kernel_pool s)"
    using set_page_entry [OF assms(1-4,6-8) np, of w] by metis
  have "pagedir_get_page pd va s' =
      (if ok \<and> pg_no va = pg_no upage then Some (kpage + pg_ofs va) else pagedir_get_page pd va s)"
    if "is_user_vaddr va" for va
    using that r(4,5) r(6) [of "pg_no va"] get_page_entry [OF r(3) that] get_page_entry [OF assms(2) that]
    by (auto simp: user_page_no)
  then show ?thesis using r by blast
qed

definition sample_paging :: machine where
  "sample_paging = sample_machine\<lparr>m_mem := (\<lambda>_. 0), init_page_dir := 0xc0300000\<rparr>"

lemma sample_pd_wf: "pd_wf sample_paging 0xc0100000"
proof -
  have "pde_val sample_paging 0xc0100000 i = 0" for i
    by (simp add: pde_val_def sample_paging_def load32_def)
  then show ?thesis
    by (simp add: pd_wf_def sample_paging_def sample_machine_def sample_in_use kernel_page_def pg_ofs_def PGBITS_def
        PHYS_BASE_def PGSIZE_def)
qed

theorem pagedir_set_get_witness:
  "\<exists>ok s'. pagedir_set_page 0xc0100000 0x8048000 0xc0201000 True sample_paging = Some (ok, s') \<and> ok \<and>
     pagedir_get_page 0xc0100000 0x8048123 s' = Some 0xc0201123"
proof -
  have wf: "machine_wf sample_paging" using sample_machine_wf by (simp add: sample_paging_def machine_wf_def)
  have np: "pagedir_is_present 0xc0100000 0x8048000 sample_paging = Some False"
    by (simp add: pagedir_is_present_def lookup_page_def sample_paging_def load32_def pg_ofs_def PGBITS_def
        is_user_vaddr_def PHYS_BASE_def)
  have free: "pages_in_use (kernel_pool sample_paging) \<noteq> pool_pages (kernel_pool sample_paging)"
    by (simp add: sample_paging_def sample_machine_def sample_in_use PGSIZE_def)
  have h: "pg_ofs 0x8048000 = 0" "is_user_vaddr 0x8048000" "cr3 sample_paging < PHYS_BASE" "kernel_page 0xc0201000"
    "(0xc0201000 - PHYS_BASE) div 4096 < init_ram_pages sample_paging" "0xc0100000 \<noteq> init_page_dir sample_paging"
    by (simp_all add: pg_ofs_def PGBITS_def is_user_vaddr_def PHYS_BASE_def kernel_page_def PGSIZE_def
        sample_paging_def sample_machine_def)
  have va: "is_user_vaddr 0x8048123" "pg_no 0x8048123 = pg_no 0x8048000" "0xc0201000 + pg_ofs 0x8048123 = 0xc0201123"
    by (simp_all add: is_user_vaddr_def PHYS_BASE_def pg_no_def pg_ofs_def PGBITS_def)
  show ?thesis
    using pagedir_set_get [OF wf sample_pd_wf h np, of True] free va by metis
qed

end
