(* ===== verification/Hash_Table.thy ===== *)
theory Hash_Table
  imports Prelude
begin

text \<open>
  Hash tables with chaining (\<open>lib/kernel/hash.c\<close>).  The buckets are lists of elements; the element type
  is a parameter (in the kernel, pointers).  The hash and comparison functions, fields of the C
  structure, are arguments of the operations.  The parameter \<open>mem_ok\<close> says whether the call of
  \<open>malloc\<close> inside an operation succeeds.
\<close>

section \<open>Definitions\<close>

record 'e hash =
  h_elem_cnt :: nat
  h_bucket_cnt :: nat
  h_buckets :: "'e list list"

type_synonym 'e hash_func = "'e \<Rightarrow> u32"
type_synonym 'e less_func = "'e \<Rightarrow> 'e \<Rightarrow> bool"

subsection \<open>Hash functions\<close>

definition FNV_32_PRIME :: u32 where
  "FNV_32_PRIME = 16777619"

definition FNV_32_BASIS :: u32 where
  "FNV_32_BASIS = 2166136261"

primrec fnv_loop :: "u8 list \<Rightarrow> u32 \<Rightarrow> u32" where
  "fnv_loop [] h = h"
| "fnv_loop (b # bs) h = fnv_loop bs ((h * FNV_32_PRIME) XOR ucast b)"

definition hash_bytes :: "u8 list \<Rightarrow> u32" where
  "hash_bytes buf = fnv_loop buf FNV_32_BASIS"

text \<open>The characters of a string, without the terminating zero.\<close>

definition hash_string :: "u8 list \<Rightarrow> u32" where
  "hash_string s = fnv_loop (takeWhile (\<lambda>c. c \<noteq> 0) s) FNV_32_BASIS"

definition hash_int :: "u32 \<Rightarrow> u32" where
  "hash_int i = hash_bytes [ucast i, ucast (drop_bit 8 i), ucast (drop_bit 16 i), ucast (drop_bit 24 i)]"

subsection \<open>Buckets\<close>

definition find_bucket :: "'e hash_func \<Rightarrow> 'e hash \<Rightarrow> 'e \<Rightarrow> nat" where
  "find_bucket hf h e = unat (hf e) AND (h_bucket_cnt h - 1)"

definition equal_keys :: "'e less_func \<Rightarrow> 'e \<Rightarrow> 'e \<Rightarrow> bool" where
  "equal_keys lf a b \<longleftrightarrow> \<not> lf a b \<and> \<not> lf b a"

definition find_elem :: "'e less_func \<Rightarrow> 'e hash \<Rightarrow> nat \<Rightarrow> 'e \<Rightarrow> 'e option option" where
  "find_elem lf h bucket e = do {
     ASSERT (bucket < length (h_buckets h));
     Some (List.find (\<lambda>hi. equal_keys lf hi e) (h_buckets h ! bucket)) }"

definition turn_off_least_1bit :: "nat \<Rightarrow> nat" where
  "turn_off_least_1bit x = x AND (x - 1)"

definition is_power_of_2 :: "nat \<Rightarrow> bool" where
  "is_power_of_2 x \<longleftrightarrow> x \<noteq> 0 \<and> turn_off_least_1bit x = 0"

text \<open>The loop that rounds down to a power of 2; it would not end on 0.\<close>

partial_function (option) round_down_pow2 :: "nat \<Rightarrow> nat option" where
  "round_down_pow2 x = (if \<not> is_power_of_2 x then round_down_pow2 (turn_off_least_1bit x) else Some x)"

text \<open>Moving the elements of the old buckets, in order, to the fronts of their new buckets.\<close>

primrec move_elems :: "'e hash_func \<Rightarrow> 'e list \<Rightarrow> 'e hash \<Rightarrow> 'e hash option" where
  "move_elems hf [] h = Some h"
| "move_elems hf (e # es) h = do {
     let b = find_bucket hf h e;
     ASSERT (b < length (h_buckets h));
     move_elems hf es (h\<lparr>h_buckets := (h_buckets h)[b := e # h_buckets h ! b]\<rparr>) }"

definition rehash :: "'e hash_func \<Rightarrow> bool \<Rightarrow> 'e hash \<Rightarrow> 'e hash option" where
  "rehash hf mem_ok h = do {
     let n = h_elem_cnt h div 2;
     let n = (if n < 4 then 4 else n);
     n \<leftarrow> round_down_pow2 n;
     if n = h_bucket_cnt h then Some h
     else if \<not> mem_ok then Some h
     else move_elems hf (concat (h_buckets h)) (h\<lparr>h_buckets := replicate n [], h_bucket_cnt := n\<rparr>) }"

definition insert_elem :: "'e hash \<Rightarrow> nat \<Rightarrow> 'e \<Rightarrow> 'e hash" where
  "insert_elem h bucket e =
     h\<lparr>h_elem_cnt := h_elem_cnt h + 1, h_buckets := (h_buckets h)[bucket := e # h_buckets h ! bucket]\<rparr>"

text \<open>\<open>list_remove\<close> takes the element out of the list it is in.\<close>

definition remove_elem :: "'e hash \<Rightarrow> 'e \<Rightarrow> 'e hash" where
  "remove_elem h e = h\<lparr>h_elem_cnt := h_elem_cnt h - 1, h_buckets := map (remove1 e) (h_buckets h)\<rparr>"

subsection \<open>Operations\<close>

text \<open>Clearing with a destructor, which acts on a state of its own; without one the lists are only
  emptied.\<close>

primrec destroy_elems :: "('e \<Rightarrow> 's \<Rightarrow> 's option) \<Rightarrow> 'e list \<Rightarrow> 's \<Rightarrow> 's option" where
  "destroy_elems destructor [] s = Some s"
| "destroy_elems destructor (e # es) s = do {
     s \<leftarrow> destructor e s;
     destroy_elems destructor es s }"

definition hash_clear :: "('e \<Rightarrow> 's \<Rightarrow> 's option) option \<Rightarrow> 'e hash \<Rightarrow> 's \<Rightarrow> ('e hash \<times> 's) option" where
  "hash_clear destructor h s = do {
     s \<leftarrow> (case destructor of Some d \<Rightarrow> destroy_elems d (concat (h_buckets h)) s | None \<Rightarrow> Some s);
     Some (h\<lparr>h_buckets := replicate (h_bucket_cnt h) [], h_elem_cnt := 0\<rparr>, s) }"

definition hash_init :: "bool \<Rightarrow> (bool \<times> 'e hash) option" where
  "hash_init mem_ok =
     (if mem_ok then do {
        (h, _) \<leftarrow> hash_clear None \<lparr>h_elem_cnt = 0, h_bucket_cnt = 4, h_buckets = replicate 4 []\<rparr> ();
        Some (True, h) }
      else Some (False, \<lparr>h_elem_cnt = 0, h_bucket_cnt = 4, h_buckets = []\<rparr>))"

text \<open>After \<open>hash_destroy\<close> the table no longer exists: only the destructor's state remains.\<close>

definition hash_destroy :: "('e \<Rightarrow> 's \<Rightarrow> 's option) option \<Rightarrow> 'e hash \<Rightarrow> 's \<Rightarrow> 's option" where
  "hash_destroy destructor h s =
     (if destructor \<noteq> None then map_option snd (hash_clear destructor h s) else Some s)"

definition hash_insert :: "'e hash_func \<Rightarrow> 'e less_func \<Rightarrow> bool \<Rightarrow> 'e hash \<Rightarrow> 'e \<Rightarrow> ('e option \<times> 'e hash) option" where
  "hash_insert hf lf mem_ok h new = do {
     let bucket = find_bucket hf h new;
     old \<leftarrow> find_elem lf h bucket new;
     let h = (if old = None then insert_elem h bucket new else h);
     h \<leftarrow> rehash hf mem_ok h;
     Some (old, h) }"

definition hash_replace :: "'e hash_func \<Rightarrow> 'e less_func \<Rightarrow> bool \<Rightarrow> 'e hash \<Rightarrow> 'e \<Rightarrow> ('e option \<times> 'e hash) option" where
  "hash_replace hf lf mem_ok h new = do {
     let bucket = find_bucket hf h new;
     old \<leftarrow> find_elem lf h bucket new;
     let h = (case old of Some e \<Rightarrow> remove_elem h e | None \<Rightarrow> h);
     h \<leftarrow> rehash hf mem_ok (insert_elem h bucket new);
     Some (old, h) }"

definition hash_find :: "'e hash_func \<Rightarrow> 'e less_func \<Rightarrow> 'e hash \<Rightarrow> 'e \<Rightarrow> 'e option option" where
  "hash_find hf lf h e = find_elem lf h (find_bucket hf h e) e"

definition hash_delete :: "'e hash_func \<Rightarrow> 'e less_func \<Rightarrow> bool \<Rightarrow> 'e hash \<Rightarrow> 'e \<Rightarrow> ('e option \<times> 'e hash) option" where
  "hash_delete hf lf mem_ok h e = do {
     found \<leftarrow> find_elem lf h (find_bucket hf h e) e;
     case found of
       Some x \<Rightarrow> do {
         h \<leftarrow> rehash hf mem_ok (remove_elem h x);
         Some (found, h) }
     | None \<Rightarrow> Some (found, h) }"

definition hash_apply :: "('e \<Rightarrow> 's \<Rightarrow> 's option) \<Rightarrow> 'e hash \<Rightarrow> 's \<Rightarrow> 's option" where
  "hash_apply action h s = destroy_elems action (concat (h_buckets h)) s"

definition hash_size :: "'e hash \<Rightarrow> nat" where
  "hash_size h = h_elem_cnt h"

definition hash_empty :: "'e hash \<Rightarrow> bool" where
  "hash_empty h \<longleftrightarrow> h_elem_cnt h = 0"

subsection \<open>Iteration\<close>

text \<open>An iterator: the bucket and the position in it (0 is the list head); \<open>it_elem\<close> is the element
  there.\<close>

record 'e hash_iterator =
  it_bucket :: nat
  it_pos :: nat
  it_elem :: "'e option"

definition hash_first :: "'e hash \<Rightarrow> 'e hash_iterator" where
  "hash_first h = \<lparr>it_bucket = 0, it_pos = 0, it_elem = None\<rparr>"

text \<open>The loop of \<open>hash_next\<close>: position 0 or beyond the end of a bucket is its end.\<close>

function next_loop :: "'e hash \<Rightarrow> nat \<Rightarrow> nat \<Rightarrow> 'e hash_iterator" where
  "next_loop h b p =
     (if p < length (h_buckets h ! b) then \<lparr>it_bucket = b, it_pos = p + 1, it_elem = Some (h_buckets h ! b ! p)\<rparr>
      else if b + 1 \<ge> h_bucket_cnt h then \<lparr>it_bucket = b + 1, it_pos = p + 1, it_elem = None\<rparr>
      else next_loop h (b + 1) 0)"
  by auto
termination by (relation "measure (\<lambda>(h, b, _). h_bucket_cnt h - b)") auto

declare next_loop.simps [simp del]

definition hash_next :: "'e hash \<Rightarrow> 'e hash_iterator \<Rightarrow> 'e hash_iterator" where
  "hash_next h i = next_loop h (it_bucket i) (it_pos i)"

definition hash_cur :: "'e hash_iterator \<Rightarrow> 'e option" where
  "hash_cur i = it_elem i"

section \<open>Powers of two\<close>

lemma turn_off_even: "0 < y \<Longrightarrow> turn_off_least_1bit (2 * y) = 2 * turn_off_least_1bit y"
proof -
  have "(2 * y - 1) div 2 = y - 1" by arith
  then show ?thesis unfolding turn_off_least_1bit_def by (subst and_rec) simp
qed

lemma turn_off_odd: "turn_off_least_1bit (2 * y + 1) = 2 * y"
  unfolding turn_off_least_1bit_def by (subst and_rec) auto

lemma turn_off_less: "0 < x \<Longrightarrow> turn_off_least_1bit x < x"
proof (induction x rule: less_induct)
  case (less x)
  show ?case
  proof (cases "even x")
    case True
    then obtain y where y: "x = 2 * y" by blast
    then show ?thesis using less by (simp add: turn_off_even)
  next
    case False
    then obtain y where "x = 2 * y + 1" by (elim oddE)
    then show ?thesis using turn_off_odd [of y] by simp
  qed
qed

lemma is_power_of_2_pow: "is_power_of_2 x \<Longrightarrow> \<exists>k. x = 2 ^ k"
proof (induction x rule: less_induct)
  case (less x)
  then have x: "0 < x" "turn_off_least_1bit x = 0" by (auto simp: is_power_of_2_def)
  show ?case
  proof (cases "even x")
    case True
    then obtain y where y: "x = 2 * y" by blast
    then have "is_power_of_2 y" "y < x" using x turn_off_even [of y] by (auto simp: is_power_of_2_def)
    then obtain k where "y = 2 ^ k" using less.IH by blast
    then have "x = 2 ^ Suc k" using y by simp
    then show ?thesis by blast
  next
    case False
    then obtain y where y: "x = 2 * y + 1" by (elim oddE)
    then have "x = 2 ^ 0" using x(2) turn_off_odd [of y] by simp
    then show ?thesis by blast
  qed
qed

lemma round_down_pow2_ok: "0 < x \<Longrightarrow> \<exists>k. round_down_pow2 x = Some (2 ^ k) \<and> 2 ^ k \<le> x"
proof (induction x rule: less_induct)
  case (less x)
  show ?case
  proof (cases "is_power_of_2 x")
    case True
    then show ?thesis using is_power_of_2_pow [OF True] by (subst round_down_pow2.simps) auto
  next
    case False
    then have "0 < turn_off_least_1bit x" using less.prems by (auto simp: is_power_of_2_def)
    then obtain k where "round_down_pow2 (turn_off_least_1bit x) = Some (2 ^ k)" "2 ^ k \<le> turn_off_least_1bit x"
      using less.IH [OF turn_off_less [OF less.prems]] by blast
    then show ?thesis using False turn_off_less [OF less.prems] by (subst round_down_pow2.simps) (auto intro!: exI [of _ k])
  qed
qed

lemma and_pow2: "n AND (2 ^ k - 1) < (2 ^ k :: nat)"
proof -
  have "n AND (2 ^ k - 1) = take_bit k n" by (simp add: take_bit_eq_mask mask_eq_exp_minus_1)
  then show ?thesis by simp
qed

section \<open>The table as a set of elements with different keys\<close>

definition elems :: "'e hash \<Rightarrow> 'e list" where
  "elems h = concat (h_buckets h)"

definition buckets_ok :: "'e hash_func \<Rightarrow> 'e hash \<Rightarrow> bool" where
  "buckets_ok hf h \<longleftrightarrow> (\<exists>k. h_bucket_cnt h = 2 ^ k) \<and> length (h_buckets h) = h_bucket_cnt h \<and>
     (\<forall>i < h_bucket_cnt h. \<forall>e \<in> set (h_buckets h ! i). find_bucket hf h e = i)"

definition keys_ok :: "'e less_func \<Rightarrow> 'e hash \<Rightarrow> bool" where
  "keys_ok lf h \<longleftrightarrow> distinct (elems h) \<and> h_elem_cnt h = length (elems h) \<and>
     (\<forall>a \<in> set (elems h). \<forall>b \<in> set (elems h). equal_keys lf a b \<longrightarrow> a = b)"

definition hash_wf :: "'e hash_func \<Rightarrow> 'e less_func \<Rightarrow> 'e hash \<Rightarrow> bool" where
  "hash_wf hf lf h \<longleftrightarrow> buckets_ok hf h \<and> keys_ok lf h"

lemma find_bucket_less: "buckets_ok hf h \<Longrightarrow> find_bucket hf h e < length (h_buckets h)"
  using and_pow2 by (auto simp: buckets_ok_def find_bucket_def)

lemma mset_concat_update:
  assumes "b < length bs"
  shows "mset (concat (bs[b := xs])) + mset (bs ! b) = mset (concat bs) + mset xs"
  using assms
proof (induction bs arbitrary: b)
  case (Cons y bs)
  then show ?case by (cases b) (auto simp: ac_simps)
qed simp

lemma mset_concat_push:
  "b < length bs \<Longrightarrow> mset (concat (bs[b := e # bs ! b])) = add_mset e (mset (concat bs))"
  using mset_concat_update [of b bs "e # bs ! b"] by simp

lemma move_elems_ok:
  assumes "buckets_ok hf h"
  obtains h' where "move_elems hf es h = Some h'" "buckets_ok hf h'" "h_elem_cnt h' = h_elem_cnt h"
    "mset (elems h') = mset es + mset (elems h)"
proof -
  have "\<exists>h'. move_elems hf es h = Some h' \<and> buckets_ok hf h' \<and> h_elem_cnt h' = h_elem_cnt h \<and>
    mset (elems h') = mset es + mset (elems h)"
    using assms
  proof (induction es arbitrary: h)
    case (Cons e es)
    let ?b = "find_bucket hf h e"
    let ?h = "h\<lparr>h_buckets := (h_buckets h)[?b := e # h_buckets h ! ?b]\<rparr>"
    have b: "?b < length (h_buckets h)" using Cons.prems by (rule find_bucket_less)
    have "find_bucket hf ?h x = find_bucket hf h x" for x by (simp add: find_bucket_def)
    then have "buckets_ok hf ?h" using Cons.prems b by (auto simp: buckets_ok_def nth_list_update)
    then obtain h' where h': "move_elems hf es ?h = Some h'" "buckets_ok hf h'" "h_elem_cnt h' = h_elem_cnt ?h"
      "mset (elems h') = mset es + mset (elems ?h)" using Cons.IH by blast
    moreover have "mset (elems ?h) = add_mset e (mset (elems h))" using b by (simp add: elems_def mset_concat_push)
    ultimately show ?case using b by simp
  qed simp
  then show ?thesis using that by blast
qed

lemma keys_ok_cong:
  assumes "keys_ok lf h" "mset (elems h') = mset (elems h)" "h_elem_cnt h' = h_elem_cnt h"
  shows "keys_ok lf h'"
proof -
  have "set (elems h') = set (elems h)" "length (elems h') = length (elems h)" "distinct (elems h') = distinct (elems h)"
    using assms(2) by (metis set_mset_mset, metis size_mset, metis mset_eq_imp_distinct_iff)
  then show ?thesis using assms(1,3) by (simp add: keys_ok_def)
qed

lemma rehash_ok:
  assumes "hash_wf hf lf h"
  obtains h' where "rehash hf mem_ok h = Some h'" "hash_wf hf lf h'" "mset (elems h') = mset (elems h)"
proof -
  define n where "n = (if h_elem_cnt h div 2 < 4 then 4 else h_elem_cnt h div 2)"
  have "0 < n" by (simp add: n_def)
  then obtain k where k: "round_down_pow2 n = Some (2 ^ k)" using round_down_pow2_ok by blast
  have eq: "rehash hf mem_ok h = (if 2 ^ k = h_bucket_cnt h \<or> \<not> mem_ok then Some h
    else move_elems hf (elems h) (h\<lparr>h_buckets := replicate (2 ^ k) [], h_bucket_cnt := 2 ^ k\<rparr>))"
    using k by (simp add: rehash_def Let_def n_def elems_def)
  let ?h = "h\<lparr>h_buckets := replicate (2 ^ k) [], h_bucket_cnt := 2 ^ k\<rparr>"
  have "buckets_ok hf ?h" by (auto simp: buckets_ok_def)
  then obtain h' where h': "move_elems hf (elems h) ?h = Some h'" "buckets_ok hf h'" "h_elem_cnt h' = h_elem_cnt h"
    "mset (elems h') = mset (elems h)"
    by (rule move_elems_ok [of hf ?h "elems h"]) (auto simp: elems_def)
  then have "hash_wf hf lf h'" using assms keys_ok_cong by (auto simp: hash_wf_def)
  then show ?thesis using that eq h' assms by (cases "2 ^ k = h_bucket_cnt h \<or> \<not> mem_ok") auto
qed

lemma mset_concat_remove:
  assumes "distinct (concat bs)" "e \<in> set (concat bs)"
  shows "mset (concat (map (remove1 e) bs)) = mset (concat bs) - {#e#}"
  using assms
proof (induction bs)
  case (Cons b bs)
  show ?case
  proof (cases "e \<in> set b")
    case True
    then have "e \<notin> set (concat bs)" using Cons.prems by auto
    then have "map (remove1 e) bs = bs" by (auto intro!: map_idI remove1_idem)
    then show ?thesis using True by simp
  next
    case False
    then have "e \<in> set (concat bs)" using Cons.prems(2) by auto
    then show ?thesis using False Cons by (simp add: remove1_idem)
  qed
qed simp

section \<open>The contract of the hash and comparison functions\<close>

locale hash_fns =
  fixes hf :: "'e hash_func" and lf :: "'e less_func"
  assumes less_irrefl: "\<not> lf a a"
    and equal_trans: "equal_keys lf a b \<Longrightarrow> equal_keys lf b c \<Longrightarrow> equal_keys lf a c"
    and equal_hash: "equal_keys lf a b \<Longrightarrow> hf a = hf b"
begin

lemma equal_refl: "equal_keys lf a a"
  by (simp add: equal_keys_def less_irrefl)

lemma equal_sym: "equal_keys lf a b \<Longrightarrow> equal_keys lf b a"
  by (simp add: equal_keys_def)

text \<open>Looking for a key in its bucket is looking for it in the table.\<close>

definition found :: "'e hash \<Rightarrow> 'e \<Rightarrow> 'e option \<Rightarrow> bool" where
  "found h e r \<longleftrightarrow> (case r of None \<Rightarrow> \<forall>x \<in> set (elems h). \<not> equal_keys lf x e
     | Some x \<Rightarrow> x \<in> set (elems h) \<and> equal_keys lf x e)"

lemma find_elem_found:
  assumes "buckets_ok hf h"
  obtains r where "find_elem lf h (find_bucket hf h e) e = Some r" "found h e r"
proof -
  let ?b = "find_bucket hf h e"
  let ?r = "List.find (\<lambda>x. equal_keys lf x e) (h_buckets h ! ?b)"
  have b: "?b < length (h_buckets h)" using assms by (rule find_bucket_less)
  then have sub: "set (h_buckets h ! ?b) \<subseteq> set (elems h)" unfolding elems_def using nth_mem by fastforce
  have "x \<in> set (h_buckets h ! ?b)" if x: "x \<in> set (elems h)" "equal_keys lf x e" for x
  proof -
    obtain xs where "x \<in> set xs" "xs \<in> set (h_buckets h)" using x(1) by (auto simp: elems_def)
    then obtain i where i: "i < h_bucket_cnt h" "x \<in> set (h_buckets h ! i)"
      using assms by (metis buckets_ok_def in_set_conv_nth)
    then have "find_bucket hf h x = i" using assms by (auto simp: buckets_ok_def)
    moreover have "find_bucket hf h x = ?b" using equal_hash [OF x(2)] by (simp add: find_bucket_def)
    ultimately show ?thesis using i(2) by simp
  qed
  then have "found h e ?r"
    using sub by (auto simp: found_def find_None_iff find_Some_iff split: option.splits)
  then show ?thesis using that b by (simp add: find_elem_def)
qed

lemma hash_find_ok:
  assumes "hash_wf hf lf h"
  obtains r where "hash_find hf lf h e = Some r" "found h e r"
  using find_elem_found [of h e] assms by (auto simp: hash_find_def hash_wf_def)

lemma insert_elem_wf:
  assumes "hash_wf hf lf h" "\<forall>x \<in> set (elems h). \<not> equal_keys lf x e"
  shows "hash_wf hf lf (insert_elem h (find_bucket hf h e) e)"
    "mset (elems (insert_elem h (find_bucket hf h e) e)) = add_mset e (mset (elems h))"
proof -
  let ?h = "insert_elem h (find_bucket hf h e) e"
  have ok: "buckets_ok hf h" "keys_ok lf h" using assms(1) by (auto simp: hash_wf_def)
  have b: "find_bucket hf h e < length (h_buckets h)" using ok(1) by (rule find_bucket_less)
  show m: "mset (elems ?h) = add_mset e (mset (elems h))" using b by (simp add: elems_def insert_elem_def mset_concat_push)
  have fb: "find_bucket hf ?h x = find_bucket hf h x" for x by (simp add: find_bucket_def insert_elem_def)
  have "buckets_ok hf ?h"
    using ok(1) b fb by (auto simp: buckets_ok_def insert_elem_def nth_list_update)
  moreover have s: "set (elems ?h) = insert e (set (elems h))" using m by (metis set_mset_mset set_mset_add_mset_insert)
  have ne: "e \<notin> set (elems h)" using assms(2) equal_refl by blast
  have "distinct (elems ?h)"
    using m ne ok(2) by (metis distinct.simps(2) keys_ok_def mset.simps(2) mset_eq_imp_distinct_iff)
  moreover have "length (elems ?h) = Suc (length (elems h))" using m by (metis size_mset size_add_mset)
  ultimately show "hash_wf hf lf ?h"
    using ok(2) assms(2) s equal_sym by (auto simp: hash_wf_def keys_ok_def insert_elem_def)
qed

lemma hash_insert_ok:
  assumes "hash_wf hf lf h"
  obtains old h' where "hash_insert hf lf mem_ok h e = Some (old, h')" "hash_wf hf lf h'" "found h e old"
    "set (elems h') = (if old = None then insert e (set (elems h)) else set (elems h))"
    "h_elem_cnt h' = h_elem_cnt h + (if old = None then 1 else 0)"
proof -
  let ?b = "find_bucket hf h e"
  obtain old where old: "find_elem lf h ?b e = Some old" "found h e old"
    using find_elem_found assms by (auto simp: hash_wf_def)
  let ?h = "if old = None then insert_elem h ?b e else h"
  have ins: "hash_wf hf lf ?h" "mset (elems ?h) = (if old = None then add_mset e (mset (elems h)) else mset (elems h))"
    using insert_elem_wf [OF assms, of e] old(2) assms by (auto simp: found_def)
  obtain h' where h': "rehash hf mem_ok ?h = Some h'" "hash_wf hf lf h'" "mset (elems h') = mset (elems ?h)"
    using rehash_ok [OF ins(1)] .
  have "h_elem_cnt h' = size (mset (elems h'))" "h_elem_cnt h = size (mset (elems h))"
    using h'(2) assms by (auto simp: hash_wf_def keys_ok_def)
  moreover have "set (elems h') = (if old = None then insert e (set (elems h)) else set (elems h))"
    using h'(3) ins(2) by (metis set_mset_mset set_mset_add_mset_insert)
  ultimately show ?thesis using that [of old h'] old h' ins(2) by (simp add: hash_insert_def Let_def)
qed

lemma remove_elem_wf:
  assumes "hash_wf hf lf h" "x \<in> set (elems h)"
  shows "hash_wf hf lf (remove_elem h x)" "mset (elems (remove_elem h x)) = mset (elems h) - {#x#}"
    "set (elems (remove_elem h x)) = set (elems h) - {x}"
proof -
  let ?h = "remove_elem h x"
  have ok: "buckets_ok hf h" "keys_ok lf h" using assms(1) by (auto simp: hash_wf_def)
  have d: "distinct (elems h)" using ok(2) by (simp add: keys_ok_def)
  show m: "mset (elems ?h) = mset (elems h) - {#x#}"
    using mset_concat_remove [of "h_buckets h" x] d assms(2) by (simp add: elems_def remove_elem_def)
  then have m1: "mset (elems ?h) = mset (remove1 x (elems h))" by simp
  then show s: "set (elems ?h) = set (elems h) - {x}" using d by (metis set_mset_mset set_remove1_eq)
  have "find_bucket hf ?h y = find_bucket hf h y" for y by (simp add: find_bucket_def remove_elem_def)
  then have "buckets_ok hf ?h"
    using ok(1) set_remove1_subset by (fastforce simp: buckets_ok_def remove_elem_def)
  moreover have "distinct (elems ?h)" using m1 d by (metis distinct_remove1 mset_eq_imp_distinct_iff)
  moreover have "length (elems ?h) = length (elems h) - 1"
    using m1 assms(2) by (metis length_remove1 size_mset)
  ultimately show "hash_wf hf lf ?h"
    using ok(2) s by (auto simp: hash_wf_def keys_ok_def remove_elem_def)
qed

lemma found_unique:
  assumes "hash_wf hf lf h" "found h e (Some x)" "y \<in> set (elems h)" "equal_keys lf y e"
  shows "y = x"
proof -
  have x: "x \<in> set (elems h)" "equal_keys lf x e" using assms(2) by (auto simp: found_def)
  have "equal_keys lf y x" using equal_trans [OF assms(4) equal_sym [OF x(2)]] .
  then show ?thesis using assms(1,3) x(1) by (auto simp: hash_wf_def keys_ok_def)
qed

lemma hash_delete_ok:
  assumes "hash_wf hf lf h"
  obtains r h' where "hash_delete hf lf mem_ok h e = Some (r, h')" "hash_wf hf lf h'" "found h e r"
    "set (elems h') = {x \<in> set (elems h). \<not> equal_keys lf x e}"
proof -
  obtain r where r: "find_elem lf h (find_bucket hf h e) e = Some r" "found h e r"
    using find_elem_found assms by (auto simp: hash_wf_def)
  show ?thesis
  proof (cases r)
    case None
    then show ?thesis using that [of None h] r assms by (auto simp: hash_delete_def found_def)
  next
    case (Some x)
    have x: "x \<in> set (elems h)" "equal_keys lf x e" using r(2) Some by (auto simp: found_def)
    note rm = remove_elem_wf [OF assms x(1)]
    obtain h' where h': "rehash hf mem_ok (remove_elem h x) = Some h'" "hash_wf hf lf h'"
      "mset (elems h') = mset (elems (remove_elem h x))" using rehash_ok [OF rm(1)] .
    have "set (elems h') = set (elems h) - {x}" using h'(3) rm(3) by (metis set_mset_mset)
    also have "\<dots> = {y \<in> set (elems h). \<not> equal_keys lf y e}"
      using x found_unique [OF assms] r(2) Some by blast
    finally show ?thesis using that r h' Some by (simp add: hash_delete_def)
  qed
qed

lemma hash_replace_ok:
  assumes "hash_wf hf lf h"
  obtains old h' where "hash_replace hf lf mem_ok h e = Some (old, h')" "hash_wf hf lf h'" "found h e old"
    "set (elems h') = insert e {x \<in> set (elems h). \<not> equal_keys lf x e}"
proof -
  let ?b = "find_bucket hf h e"
  obtain old where old: "find_elem lf h ?b e = Some old" "found h e old"
    using find_elem_found assms by (auto simp: hash_wf_def)
  define h1 where "h1 = (case old of Some x \<Rightarrow> remove_elem h x | None \<Rightarrow> h)"
  have h1: "hash_wf hf lf h1 \<and> set (elems h1) = {x \<in> set (elems h). \<not> equal_keys lf x e}"
  proof (cases old)
    case None
    then show ?thesis using assms old(2) by (auto simp: h1_def found_def)
  next
    case (Some x)
    have x: "x \<in> set (elems h)" "equal_keys lf x e" using old(2) Some by (auto simp: found_def)
    have "set (elems h) - {x} = {y \<in> set (elems h). \<not> equal_keys lf y e}"
      using x found_unique [OF assms] old(2) Some by blast
    then show ?thesis using remove_elem_wf [OF assms x(1)] Some by (simp add: h1_def)
  qed
  have b: "find_bucket hf h1 e = ?b" by (simp add: h1_def find_bucket_def remove_elem_def split: option.splits)
  have ne: "\<forall>x \<in> set (elems h1). \<not> equal_keys lf x e" using h1 by simp
  note ins = insert_elem_wf [OF conjunct1 [OF h1] ne, unfolded b]
  obtain h' where h': "rehash hf mem_ok (insert_elem h1 ?b e) = Some h'" "hash_wf hf lf h'"
    "mset (elems h') = mset (elems (insert_elem h1 ?b e))" using rehash_ok [OF ins(1)] .
  have "set (elems h') = insert e (set (elems h1))"
    using h'(3) ins(2) by (metis set_mset_mset set_mset_add_mset_insert)
  then show ?thesis using that old h' h1 by (simp add: hash_replace_def Let_def h1_def)
qed

end

section \<open>Iteration visits every element once\<close>

text \<open>What is left to visit from a bucket and a position.\<close>

definition remaining :: "'e hash \<Rightarrow> nat \<Rightarrow> nat \<Rightarrow> 'e list" where
  "remaining h b p = drop p (h_buckets h ! b) @ concat (drop (Suc b) (h_buckets h))"

lemma next_loop_remaining:
  assumes "length (h_buckets h) = h_bucket_cnt h" "b < h_bucket_cnt h" "p \<le> length (h_buckets h ! b)"
  shows "case remaining h b p of
      [] \<Rightarrow> it_elem (next_loop h b p) = None
    | x # xs \<Rightarrow> it_elem (next_loop h b p) = Some x \<and>
        it_bucket (next_loop h b p) < h_bucket_cnt h \<and>
        it_pos (next_loop h b p) \<le> length (h_buckets h ! it_bucket (next_loop h b p)) \<and>
        remaining h (it_bucket (next_loop h b p)) (it_pos (next_loop h b p)) = xs"
  using assms
proof (induction h b p rule: next_loop.induct)
  case (1 h b p)
  show ?case
  proof (cases "p < length (h_buckets h ! b)")
    case True
    then have "next_loop h b p = \<lparr>it_bucket = b, it_pos = p + 1, it_elem = Some (h_buckets h ! b ! p)\<rparr>"
      by (subst next_loop.simps) simp
    then show ?thesis using True 1(3) by (simp add: remaining_def Cons_nth_drop_Suc [symmetric])
  next
    case False
    then have p: "p = length (h_buckets h ! b)" using 1(4) by simp
    show ?thesis
    proof (cases "b + 1 \<ge> h_bucket_cnt h")
      case True
      then have "it_elem (next_loop h b p) = None" using False by (subst next_loop.simps) simp
      then show ?thesis using p True 1(2) by (simp add: remaining_def)
    next
      case last: False
      have "remaining h b p = remaining h (b + 1) 0"
        using p last 1(2) by (simp add: remaining_def Cons_nth_drop_Suc [symmetric])
      moreover have "next_loop h b p = next_loop h (b + 1) 0" using False last by (subst next_loop.simps) simp
      moreover have "b + 1 < h_bucket_cnt h" using last by simp
      ultimately show ?thesis using 1(1) [OF False last 1(2)] by (simp only: le0)
    qed
  qed
qed

text \<open>The loop of a client, as the comment above \<open>hash_first\<close> prescribes it.\<close>

primrec iterate :: "nat \<Rightarrow> 'e hash \<Rightarrow> 'e hash_iterator \<Rightarrow> 'e list option" where
  "iterate 0 h i = None"
| "iterate (Suc n) h i =
     (let i = hash_next h i in
      case hash_cur i of None \<Rightarrow> Some [] | Some x \<Rightarrow> map_option (Cons x) (iterate n h i))"

lemma iterate_remaining:
  assumes "length (h_buckets h) = h_bucket_cnt h" "it_bucket i < h_bucket_cnt h"
    and "it_pos i \<le> length (h_buckets h ! it_bucket i)" "length (remaining h (it_bucket i) (it_pos i)) < n"
  shows "iterate n h i = Some (remaining h (it_bucket i) (it_pos i))"
  using assms(2-4)
proof (induction n arbitrary: i)
  case (Suc n)
  let ?r = "remaining h (it_bucket i) (it_pos i)" and ?i = "next_loop h (it_bucket i) (it_pos i)"
  note nl = next_loop_remaining [OF assms(1) Suc.prems(1,2)]
  show ?case
  proof (cases ?r)
    case Nil
    then show ?thesis using nl by (simp add: hash_next_def hash_cur_def)
  next
    case (Cons x xs)
    then have "iterate n h ?i = Some xs" using Suc.IH [of ?i] Suc.prems(3) nl by simp
    then show ?thesis using nl Cons by (simp add: hash_next_def hash_cur_def)
  qed
qed simp

lemma iterate_elems:
  assumes "hash_wf hf lf h"
  shows "iterate (Suc (hash_size h)) h (hash_first h) = Some (elems h)"
proof -
  have b: "length (h_buckets h) = h_bucket_cnt h" "0 < h_bucket_cnt h" "h_elem_cnt h = length (elems h)"
    using assms by (auto simp: hash_wf_def buckets_ok_def keys_ok_def)
  then have "remaining h 0 0 = elems h"
    by (cases "h_buckets h") (auto simp: remaining_def elems_def)
  then show ?thesis
    using iterate_remaining [OF b(1), of "hash_first h" "Suc (hash_size h)"] b(2,3)
    by (simp add: hash_first_def hash_size_def)
qed

end
