(* ===== verification/Block.thy ===== *)
theory Block
  imports Prelude
begin

text \<open>
  Block devices (\<open>devices/block.c\<close>).  A device is a record; what its driver stores is the field
  \<open>blk_store\<close>, a sector of 512 bytes for each sector number, which the driver's \<open>read\<close> and \<open>write\<close>
  operations return and replace.  Devices live at addresses, as the C structures do.
\<close>

section \<open>Definitions\<close>

definition BLOCK_SECTOR_SIZE :: nat where
  "BLOCK_SECTOR_SIZE = 512"

datatype block_type = BLOCK_KERNEL | BLOCK_FILESYS | BLOCK_SCRATCH | BLOCK_SWAP | BLOCK_RAW | BLOCK_FOREIGN

text \<open>The first four types are roles (\<open>role < BLOCK_ROLE_CNT\<close>).\<close>

definition is_role :: "block_type \<Rightarrow> bool" where
  "is_role t \<longleftrightarrow> t \<in> {BLOCK_KERNEL, BLOCK_FILESYS, BLOCK_SCRATCH, BLOCK_SWAP}"

definition block_type_name :: "block_type \<Rightarrow> string" where
  "block_type_name t = (case t of
     BLOCK_KERNEL \<Rightarrow> ''kernel'' | BLOCK_FILESYS \<Rightarrow> ''filesys'' | BLOCK_SCRATCH \<Rightarrow> ''scratch''
   | BLOCK_SWAP \<Rightarrow> ''swap'' | BLOCK_RAW \<Rightarrow> ''raw'' | BLOCK_FOREIGN \<Rightarrow> ''foreign'')"

record block =
  blk_name :: string
  blk_type :: block_type
  blk_size :: nat
  blk_store :: "nat \<Rightarrow> u8 list"
  read_cnt :: nat
  write_cnt :: nat

record blocks =
  block_at :: "ptr \<Rightarrow> block"
  all_blocks :: "ptr list"
  block_by_role :: "block_type \<Rightarrow> ptr"

definition block_get_role :: "block_type \<Rightarrow> blocks \<Rightarrow> ptr option" where
  "block_get_role role s = do {
     ASSERT (is_role role);
     Some (block_by_role s role) }"

definition block_set_role :: "block_type \<Rightarrow> ptr \<Rightarrow> blocks \<Rightarrow> blocks option" where
  "block_set_role role b s = do {
     ASSERT (is_role role);
     Some (s\<lparr>block_by_role := (block_by_role s)(role := b)\<rparr>) }"

text \<open>The element after a position of the list of devices, or the null pointer at the end.\<close>

definition list_elem_to_block :: "ptr list \<Rightarrow> ptr" where
  "list_elem_to_block rest = (case rest of [] \<Rightarrow> NULL | b # _ \<Rightarrow> b)"

definition block_first :: "blocks \<Rightarrow> ptr" where
  "block_first s = list_elem_to_block (all_blocks s)"

definition block_next :: "ptr \<Rightarrow> blocks \<Rightarrow> ptr" where
  "block_next b s = list_elem_to_block (tl (dropWhile (\<lambda>x. x \<noteq> b) (all_blocks s)))"

definition block_get_by_name :: "string \<Rightarrow> blocks \<Rightarrow> ptr" where
  "block_get_by_name name s =
     (case List.find (\<lambda>b. name = blk_name (block_at s b)) (all_blocks s) of None \<Rightarrow> NULL | Some b \<Rightarrow> b)"

definition check_sector :: "block \<Rightarrow> nat \<Rightarrow> unit option" where
  "check_sector b sector = ASSERT (\<not> sector \<ge> blk_size b)"

definition block_read :: "block \<Rightarrow> nat \<Rightarrow> (u8 list \<times> block) option" where
  "block_read b sector = do {
     check_sector b sector;
     Some (blk_store b sector, b\<lparr>read_cnt := (read_cnt b + 1) mod 2 ^ 64\<rparr>) }"

definition block_write :: "block \<Rightarrow> nat \<Rightarrow> u8 list \<Rightarrow> block option" where
  "block_write b sector buffer = do {
     check_sector b sector;
     ASSERT (blk_type b \<noteq> BLOCK_FOREIGN);
     Some (b\<lparr>blk_store := (blk_store b)(sector := buffer), write_cnt := (write_cnt b + 1) mod 2 ^ 64\<rparr>) }"

definition block_size :: "block \<Rightarrow> nat" where
  "block_size b = blk_size b"

definition block_name :: "block \<Rightarrow> string" where
  "block_name b = blk_name b"

definition block_type_of :: "block \<Rightarrow> block_type" where
  "block_type_of b = blk_type b"

text \<open>\<open>block_register\<close>: \<open>p\<close> is what \<open>malloc\<close> returns, \<open>store\<close> what the device holds.  The name is cut to
  15 characters by \<open>strlcpy\<close>.\<close>

definition block_register :: "ptr \<Rightarrow> string \<Rightarrow> block_type \<Rightarrow> nat \<Rightarrow> (nat \<Rightarrow> u8 list) \<Rightarrow> blocks \<Rightarrow> (ptr \<times> blocks) option" where
  "block_register p name type sz store s = do {
     ASSERT (p \<noteq> NULL);
     let b = \<lparr>blk_name = take 15 name, blk_type = type, blk_size = sz, blk_store = store, read_cnt = 0, write_cnt = 0\<rparr>;
     Some (p, s\<lparr>all_blocks := all_blocks s @ [p], block_at := (block_at s)(p := b)\<rparr>) }"

section \<open>Properties\<close>

lemma block_read_write:
  assumes "block_write b sector buffer = Some b'"
  shows "block_read b' sector = Some (buffer, b'\<lparr>read_cnt := (read_cnt b' + 1) mod 2 ^ 64\<rparr>)"
    "sector' \<noteq> sector \<Longrightarrow> map_option fst (block_read b' sector') = map_option fst (block_read b sector')"
  using assms by (auto simp: block_read_def block_write_def check_sector_def split: if_splits)

lemma block_register_found:
  assumes "block_register p name type sz store s = Some (q, s')" "p \<notin> set (all_blocks s)"
    and "\<forall>b \<in> set (all_blocks s). blk_name (block_at s b) \<noteq> take 15 name"
  shows "block_get_by_name (take 15 name) s' = p" "block_size (block_at s' p) = sz"
proof -
  have s': "s' = s\<lparr>all_blocks := all_blocks s @ [p], block_at := (block_at s)(p := \<lparr>blk_name = take 15 name,
      blk_type = type, blk_size = sz, blk_store = store, read_cnt = 0, write_cnt = 0\<rparr>)\<rparr>"
    using assms(1) by (auto simp: block_register_def split: if_splits)
  have *: "List.find P (xs @ [p]) = Some p" if "\<forall>x \<in> set xs. \<not> P x" "P p" for P and xs :: "ptr list"
    using that by (induction xs) auto
  have "List.find (\<lambda>b. take 15 name = blk_name (block_at s' b)) (all_blocks s') = Some p"
    unfolding s' using assms(2,3) by (auto intro!: *)
  then show "block_get_by_name (take 15 name) s' = p" by (simp add: block_get_by_name_def)
  show "block_size (block_at s' p) = sz" unfolding s' by (simp add: block_size_def)
qed

end
