(* ===== verification/Cache.thy ===== *)
theory Cache
  imports Block
begin

text \<open>
  The buffer cache of the file system (\<open>filesys/cache.c\<close>), as one thread runs it: a readers-writer lock is
  its writer flag and its number of readers, and acquiring one that another thread would have to release
  stops the model.  Shown: a cached read or write acts on the contents of the disk as the cache presents
  them (\<open>sector_view\<close>), eviction included; the search for a block to evict ends; and which blocks
  \<open>write_back_all\<close> really writes back.
\<close>

section \<open>Definitions\<close>

subsection \<open>State\<close>

definition CACHE_BLOCKS :: nat where
  "CACHE_BLOCKS = 64"

definition ASYNC_FETCH_SLOTS :: nat where
  "ASYNC_FETCH_SLOTS = 32"

definition ASYNC_FETCH_EMPTY :: nat where
  "ASYNC_FETCH_EMPTY = 2 ^ 32 - 1"

datatype cb_state = UNOCCUPIED | IN_IO | CLEAN | DIRTY

record rw_sems =
  rw_no_waiting :: nat
  rw_no_accessing :: nat
  rw_readers_lock :: nat
  rw_readers :: nat

record cached_block =
  cb_rw_lock :: rw_sems
  cb_sector :: nat
  cb_state :: cb_state
  cb_accessed :: bool
  cb_data :: "u8 list"

record cache =
  fs_device :: block
  fs_cache :: "cached_block list"
  sector_lock :: rw_sems
  fs_evict_lock :: bool
  fs_cache_arm :: nat
  async_fetch_list :: "nat list"
  async_fetch_arm :: nat
  async_fetch_lock :: bool

subsection \<open>Readers-writer locks of one thread\<close>

text \<open>The functions of \<open>threads/synch.c\<close> on the values of the lock's semaphores, where taking a semaphore
  of value 0, which makes the thread wait for another one, stops the model.\<close>

definition sema_take :: "nat \<Rightarrow> nat option" where
  "sema_take v = (if v = 0 then None else Some (v - 1))"

definition rw_lock_init1 :: rw_sems where
  "rw_lock_init1 = \<lparr>rw_no_waiting = 1, rw_no_accessing = 1, rw_readers_lock = 1, rw_readers = 0\<rparr>"

definition writer_acquire1 :: "rw_sems \<Rightarrow> rw_sems option" where
  "writer_acquire1 l = do {
     w \<leftarrow> sema_take (rw_no_waiting l);
     a \<leftarrow> sema_take (rw_no_accessing l);
     Some (l\<lparr>rw_no_accessing := a, rw_no_waiting := w + 1\<rparr>) }"

definition writer_try_acquire1 :: "rw_sems \<Rightarrow> bool \<times> rw_sems" where
  "writer_try_acquire1 l =
     (if rw_no_waiting l > 0 then
        (let w = rw_no_waiting l - 1 in
         if rw_no_accessing l > 0
         then (True, l\<lparr>rw_no_accessing := rw_no_accessing l - 1, rw_no_waiting := w + 1\<rparr>)
         else (False, l\<lparr>rw_no_waiting := w + 1\<rparr>))
      else (False, l))"

definition writer_release1 :: "rw_sems \<Rightarrow> rw_sems" where
  "writer_release1 l = l\<lparr>rw_no_accessing := rw_no_accessing l + 1\<rparr>"

definition reader_acquire1 :: "rw_sems \<Rightarrow> rw_sems option" where
  "reader_acquire1 l = do {
     w \<leftarrow> sema_take (rw_no_waiting l);
     r \<leftarrow> sema_take (rw_readers_lock l);
     let l = l\<lparr>rw_readers_lock := r + 1, rw_readers := rw_readers l + 1\<rparr>;
     a \<leftarrow> (if rw_readers l = 1 then sema_take (rw_no_accessing l) else Some (rw_no_accessing l));
     Some (l\<lparr>rw_no_accessing := a, rw_no_waiting := w + 1\<rparr>) }"

definition reader_release1 :: "rw_sems \<Rightarrow> rw_sems option" where
  "reader_release1 l = do {
     r \<leftarrow> sema_take (rw_readers_lock l);
     let l = l\<lparr>rw_readers_lock := r + 1, rw_readers := rw_readers l - 1\<rparr>;
     Some (if rw_readers l = 0 then l\<lparr>rw_no_accessing := rw_no_accessing l + 1\<rparr> else l) }"

definition rw_acquire1 :: "rw_sems \<Rightarrow> bool \<Rightarrow> rw_sems option" where
  "rw_acquire1 l write = (if write then writer_acquire1 l else reader_acquire1 l)"

definition rw_release1 :: "rw_sems \<Rightarrow> bool \<Rightarrow> rw_sems option" where
  "rw_release1 l write = (if write then Some (writer_release1 l) else reader_release1 l)"

subsection \<open>The operations\<close>

text \<open>\<open>junk i\<close> is what the uninitialised \<open>sector\<close> and buffer of block \<open>i\<close> hold.\<close>

definition init_fs_cache :: "block \<Rightarrow> (nat \<Rightarrow> nat \<times> u8 list) \<Rightarrow> cache" where
  "init_fs_cache dev junk =
     \<lparr>fs_device = dev,
      fs_cache = map (\<lambda>i. \<lparr>cb_rw_lock = rw_lock_init1, cb_sector = fst (junk i), cb_state = UNOCCUPIED,
                           cb_accessed = False, cb_data = snd (junk i)\<rparr>) [0..<CACHE_BLOCKS],
      sector_lock = rw_lock_init1, fs_evict_lock = False, fs_cache_arm = 0,
      async_fetch_list = replicate ASYNC_FETCH_SLOTS ASYNC_FETCH_EMPTY, async_fetch_arm = 0,
      async_fetch_lock = False\<rparr>"

abbreviation set_block :: "nat \<Rightarrow> cached_block \<Rightarrow> cache \<Rightarrow> cache" where
  "set_block i cb s \<equiv> s\<lparr>fs_cache := (fs_cache s)[i := cb]\<rparr>"

definition write_back :: "nat \<Rightarrow> cache \<Rightarrow> cache option" where
  "write_back i s = do {
     let cb = fs_cache s ! i;
     ASSERT (cb_state cb \<noteq> IN_IO);
     if cb_state cb = DIRTY then do {
       dev \<leftarrow> block_write (fs_device s) (cb_sector cb) (cb_data cb);
       Some (set_block i (cb\<lparr>cb_state := CLEAN\<rparr>) (s\<lparr>fs_device := dev\<rparr>)) }
     else Some s }"

text \<open>The loop of \<open>get_free_block\<close>: the clock over the blocks.  The block it returns is locked for writing.\<close>

partial_function (option) get_free_loop :: "cache \<Rightarrow> (nat \<times> cache) option" where
  "get_free_loop s = (do {
     let i = fs_cache_arm s;
     let s = s\<lparr>fs_cache_arm := (i + 1) mod CACHE_BLOCKS\<rparr>;
     let cb = fs_cache s ! i;
     let (acquired, l) = writer_try_acquire1 (cb_rw_lock cb);
     if acquired then do {
         ASSERT (cb_state cb \<noteq> IN_IO);
         if cb_state cb = UNOCCUPIED
         then Some (i, set_block i (cb\<lparr>cb_rw_lock := l\<rparr>) (s\<lparr>fs_evict_lock := False\<rparr>))
         else if \<not> cb_accessed cb then do {
           s \<leftarrow> write_back i (set_block i (cb\<lparr>cb_rw_lock := l\<rparr>) (s\<lparr>fs_evict_lock := False\<rparr>));
           Some (i, set_block i ((fs_cache s ! i)\<lparr>cb_state := UNOCCUPIED\<rparr>) s) }
         else get_free_loop (set_block i (cb\<lparr>cb_accessed := False, cb_rw_lock := writer_release1 l\<rparr>) s) }
     else get_free_loop (set_block i (cb\<lparr>cb_rw_lock := l\<rparr>) s) })"

definition get_free_block :: "cache \<Rightarrow> (nat \<times> cache) option" where
  "get_free_block s = do {
     ASSERT (\<not> fs_evict_lock s);
     get_free_loop (s\<lparr>fs_evict_lock := True\<rparr>) }"

definition find_cached_sector :: "cache \<Rightarrow> nat \<Rightarrow> nat option" where
  "find_cached_sector s sector =
     List.find (\<lambda>i. cb_sector (fs_cache s ! i) = sector \<and> cb_state (fs_cache s ! i) \<noteq> UNOCCUPIED) [0..<CACHE_BLOCKS]"

text \<open>The two \<open>memcpy\<close> of \<open>cached_read_write\<close>: into the block, which becomes dirty, or out of it.\<close>

definition copy_block :: "bool \<Rightarrow> nat \<Rightarrow> nat \<Rightarrow> u8 list \<Rightarrow> cached_block \<Rightarrow> (u8 list \<times> cached_block) option" where
  "copy_block write from to buffer cb =
     (if write then do {
        ASSERT (to - from \<le> length buffer);
        Some (buffer, cb\<lparr>cb_data := take from (cb_data cb) @ take (to - from) buffer @ drop to (cb_data cb),
                         cb_state := DIRTY\<rparr>) }
      else Some (take (to - from) (drop from (cb_data cb)), cb))"

partial_function (option) read_write_loop ::
  "nat \<Rightarrow> bool \<Rightarrow> nat \<Rightarrow> nat \<Rightarrow> u8 list \<Rightarrow> cache \<Rightarrow> (u8 list \<times> cache) option" where
  "read_write_loop sector write from to buffer s = (do {
     sl \<leftarrow> reader_acquire1 (sector_lock s);
     let s = s\<lparr>sector_lock := sl\<rparr>;
     case find_cached_sector s sector of
       Some i \<Rightarrow> do {
         sl \<leftarrow> reader_release1 (sector_lock s);
         let s = s\<lparr>sector_lock := sl\<rparr>;
         let cb = fs_cache s ! i;
         l \<leftarrow> rw_acquire1 (cb_rw_lock cb) write;
         let cb = cb\<lparr>cb_rw_lock := l\<rparr>;
         if cb_sector cb = sector \<and> (cb_state cb = CLEAN \<or> cb_state cb = DIRTY) then do {
           (buffer, cb) \<leftarrow> copy_block write from to buffer cb;
           let cb = cb\<lparr>cb_accessed := True\<rparr>;
           l \<leftarrow> rw_release1 (cb_rw_lock cb) write;
           Some (buffer, set_block i (cb\<lparr>cb_rw_lock := l\<rparr>) s) }
         else do {
           l \<leftarrow> rw_release1 (cb_rw_lock cb) write;
           read_write_loop sector write from to buffer (set_block i (cb\<lparr>cb_rw_lock := l\<rparr>) s) } }
     | None \<Rightarrow> do {
         (i, s) \<leftarrow> get_free_block s;
         sl \<leftarrow> reader_release1 (sector_lock s);
         sl \<leftarrow> writer_acquire1 sl;
         let s = s\<lparr>sector_lock := sl\<rparr>;
         if find_cached_sector s sector = None then do {
           let cb = (fs_cache s ! i)\<lparr>cb_sector := sector, cb_state := IN_IO\<rparr>;
           let s = s\<lparr>sector_lock := writer_release1 (sector_lock s)\<rparr>;
           (d, dev) \<leftarrow> block_read (fs_device s) (cb_sector cb);
           let cb = cb\<lparr>cb_data := d, cb_state := CLEAN\<rparr>;
           (buffer, cb) \<leftarrow> copy_block write from to buffer cb;
           let cb = cb\<lparr>cb_accessed := True\<rparr>;
           Some (buffer, set_block i (cb\<lparr>cb_rw_lock := writer_release1 (cb_rw_lock cb)\<rparr>) (s\<lparr>fs_device := dev\<rparr>)) }
         else do {
           let cb = fs_cache s ! i;
           read_write_loop sector write from to buffer
             (set_block i (cb\<lparr>cb_rw_lock := writer_release1 (cb_rw_lock cb)\<rparr>)
               (s\<lparr>sector_lock := writer_release1 (sector_lock s)\<rparr>)) } } })"

definition cached_read_write :: "nat \<Rightarrow> bool \<Rightarrow> nat \<Rightarrow> nat \<Rightarrow> u8 list \<Rightarrow> cache \<Rightarrow> (u8 list \<times> cache) option" where
  "cached_read_write sector write from to buffer s = do {
     ASSERT (from < to);
     ASSERT (to \<le> BLOCK_SECTOR_SIZE);
     read_write_loop sector write from to buffer s }"

definition cached_write :: "nat \<Rightarrow> nat \<Rightarrow> nat \<Rightarrow> u8 list \<Rightarrow> cache \<Rightarrow> cache option" where
  "cached_write sector from to buffer s = map_option snd (cached_read_write sector True from to buffer s)"

definition cached_read :: "nat \<Rightarrow> nat \<Rightarrow> nat \<Rightarrow> cache \<Rightarrow> (u8 list \<times> cache) option" where
  "cached_read sector from to s = cached_read_write sector False from to [] s"

text \<open>\<open>async_fetch\<close>: the scan of the request list from \<open>async_fetch_arm\<close> on.\<close>

fun async_fetch_loop :: "nat \<Rightarrow> nat list \<Rightarrow> cache \<Rightarrow> cache" where
  "async_fetch_loop sector [] s = s"
| "async_fetch_loop sector (i # is) s = (
     let idx = (async_fetch_arm s + i) mod ASYNC_FETCH_SLOTS in
     if async_fetch_list s ! idx = sector then s
     else if async_fetch_list s ! idx = ASYNC_FETCH_EMPTY then
       s\<lparr>async_fetch_list := (async_fetch_list s)[idx := sector]\<rparr>
     else async_fetch_loop sector is s)"

definition async_fetch :: "nat \<Rightarrow> cache \<Rightarrow> cache option" where
  "async_fetch sector s = do {
     ASSERT (\<not> async_fetch_lock s);
     Some (async_fetch_loop sector [0..<ASYNC_FETCH_SLOTS] s) }"

text \<open>The part of \<open>async_fetch_daemon\<close> that fetches a sector.\<close>

definition fetch_sector :: "nat \<Rightarrow> cache \<Rightarrow> cache option" where
  "fetch_sector sector s = do {
     sl \<leftarrow> writer_acquire1 (sector_lock s);
     let s = s\<lparr>sector_lock := sl\<rparr>;
     case find_cached_sector s sector of
       Some _ \<Rightarrow> Some (s\<lparr>sector_lock := writer_release1 (sector_lock s)\<rparr>)
     | None \<Rightarrow> do {
         (i, s) \<leftarrow> get_free_block s;
         let cb = (fs_cache s ! i)\<lparr>cb_sector := sector, cb_state := IN_IO\<rparr>;
         let s = s\<lparr>sector_lock := writer_release1 (sector_lock s)\<rparr>;
         (d, dev) \<leftarrow> block_read (fs_device s) (cb_sector cb);
         let cb = cb\<lparr>cb_data := d, cb_accessed := False, cb_state := CLEAN\<rparr>;
         Some (set_block i (cb\<lparr>cb_rw_lock := writer_release1 (cb_rw_lock cb)\<rparr>) (s\<lparr>fs_device := dev\<rparr>)) } }"

text \<open>One turn of the loop of \<open>async_fetch_daemon\<close>, which holds \<open>async_fetch_lock\<close> before and after it.
  The array has 32 elements and \<open>async_fetch_arm++\<close> never wraps, so the access is checked.  A turn that has
  to wait on \<open>async_list_nonempty\<close> does not continue here: the daemon starts it anew when it is signalled.\<close>

definition async_fetch_daemon_turn :: "cache \<Rightarrow> cache option" where
  "async_fetch_daemon_turn s = do {
     ASSERT (async_fetch_arm s < length (async_fetch_list s));
     let sector = async_fetch_list s ! async_fetch_arm s;
     if sector = ASYNC_FETCH_EMPTY then Some s
     else do {
       let s = s\<lparr>async_fetch_list := (async_fetch_list s)[async_fetch_arm s := ASYNC_FETCH_EMPTY],
                 async_fetch_arm := async_fetch_arm s + 1, async_fetch_lock := False\<rparr>;
       s \<leftarrow> fetch_sector sector s;
       Some (s\<lparr>async_fetch_lock := True\<rparr>) } }"

text \<open>The expression \<open>1 << i\<close> of \<open>write_back_all\<close> as the x86 computes it: an \<open>int\<close>, shifted by the low five
  bits of \<open>i\<close>, and extended with its sign to the 64 bits of \<open>wrote_back\<close>.\<close>

definition int_shift_1 :: "nat \<Rightarrow> u64" where
  "int_shift_1 i = scast (push_bit (i mod 32) (1 :: 32 word))"

fun write_back_pass :: "nat list \<Rightarrow> u64 \<Rightarrow> cache \<Rightarrow> (u64 \<times> cache) option" where
  "write_back_pass [] wrote s = Some (wrote, s)"
| "write_back_pass (i # is) wrote s =
     (if wrote AND int_shift_1 i = 0 then
        (let cb = fs_cache s ! i in
         let (acquired, l) = writer_try_acquire1 (cb_rw_lock cb) in
         if \<not> acquired then write_back_pass is wrote (set_block i (cb\<lparr>cb_rw_lock := l\<rparr>) s)
         else do {
             s \<leftarrow> write_back i (set_block i (cb\<lparr>cb_rw_lock := l\<rparr>) s);
             let cb = fs_cache s ! i;
             write_back_pass is (wrote OR int_shift_1 i)
               (set_block i (cb\<lparr>cb_rw_lock := writer_release1 (cb_rw_lock cb)\<rparr>) s) })
      else write_back_pass is wrote s)"

partial_function (option) write_back_loop :: "u64 \<Rightarrow> cache \<Rightarrow> cache option" where
  "write_back_loop wrote s =
     (if wrote = -1 then Some s
      else do {
        (wrote, s) \<leftarrow> write_back_pass [0..<64] wrote s;
        write_back_loop wrote s })"

definition write_back_all :: "cache \<Rightarrow> cache option" where
  "write_back_all s = write_back_loop 0 s"

section \<open>What the cache presents as the contents of the disk\<close>

abbreviation occupied :: "cached_block \<Rightarrow> bool" where
  "occupied cb \<equiv> cb_state cb \<noteq> UNOCCUPIED"

abbreviation holds :: "cached_block \<Rightarrow> nat \<Rightarrow> bool" where
  "holds cb sector \<equiv> cb_sector cb = sector \<and> occupied cb"

definition sector_view :: "cache \<Rightarrow> nat \<Rightarrow> u8 list" where
  "sector_view s sector = (case find_cached_sector s sector of
     Some i \<Rightarrow> cb_data (fs_cache s ! i)
   | None \<Rightarrow> blk_store (fs_device s) sector)"

definition device_ok :: "block \<Rightarrow> bool" where
  "device_ok dev \<longleftrightarrow> blk_type dev \<noteq> BLOCK_FOREIGN \<and>
     (\<forall>sector < blk_size dev. length (blk_store dev sector) = BLOCK_SECTOR_SIZE)"

definition block_ok :: "block \<Rightarrow> cached_block \<Rightarrow> bool" where
  "block_ok dev cb \<longleftrightarrow> cb_rw_lock cb = rw_lock_init1 \<and> cb_state cb \<noteq> IN_IO \<and>
     (occupied cb \<longrightarrow> length (cb_data cb) = BLOCK_SECTOR_SIZE \<and> cb_sector cb < blk_size dev) \<and>
     (cb_state cb = CLEAN \<longrightarrow> blk_store dev (cb_sector cb) = cb_data cb)"

definition blocks_unique :: "cached_block list \<Rightarrow> bool" where
  "blocks_unique cs \<longleftrightarrow> (\<forall>i < CACHE_BLOCKS. \<forall>j < CACHE_BLOCKS.
     occupied (cs ! i) \<longrightarrow> occupied (cs ! j) \<longrightarrow> cb_sector (cs ! i) = cb_sector (cs ! j) \<longrightarrow> i = j)"

text \<open>The invariant of the blocks, whatever the state of the locks outside them, and that of the idle cache.\<close>

definition blocks_ok :: "cache \<Rightarrow> bool" where
  "blocks_ok s \<longleftrightarrow> length (fs_cache s) = CACHE_BLOCKS \<and> fs_cache_arm s < CACHE_BLOCKS \<and> device_ok (fs_device s) \<and>
     (\<forall>i < CACHE_BLOCKS. block_ok (fs_device s) (fs_cache s ! i)) \<and> blocks_unique (fs_cache s)"

definition cache_ok :: "cache \<Rightarrow> bool" where
  "cache_ok s \<longleftrightarrow> blocks_ok s \<and> sector_lock s = rw_lock_init1 \<and> \<not> fs_evict_lock s"

definition same_device :: "cache \<Rightarrow> cache \<Rightarrow> bool" where
  "same_device s s' \<longleftrightarrow> blk_size (fs_device s') = blk_size (fs_device s) \<and> sector_lock s' = sector_lock s \<and>
     async_fetch_list s' = async_fetch_list s \<and> async_fetch_arm s' = async_fetch_arm s \<and>
     async_fetch_lock s' = async_fetch_lock s"

lemma same_device_refl [simp]: "same_device s s"
  by (simp add: same_device_def)

lemma same_device_trans: "same_device s t \<Longrightarrow> same_device t u \<Longrightarrow> same_device s u"
  by (simp add: same_device_def)

lemma find_cached_None:
  "find_cached_sector s sector = None \<longleftrightarrow> (\<forall>i < CACHE_BLOCKS. \<not> holds (fs_cache s ! i) sector)"
  by (auto simp: find_cached_sector_def find_None_iff)

lemma find_cached_SomeD:
  assumes "find_cached_sector s sector = Some i"
  shows "i < CACHE_BLOCKS" "holds (fs_cache s ! i) sector"
  using assms by (auto simp: find_cached_sector_def find_Some_iff)

lemma find_cached_SomeI:
  assumes "blocks_unique (fs_cache s)" "i < CACHE_BLOCKS" "holds (fs_cache s ! i) sector"
  shows "find_cached_sector s sector = Some i"
proof (cases "find_cached_sector s sector")
  case None then show ?thesis using assms find_cached_None by blast
next
  case (Some j)
  from find_cached_SomeD [OF Some] have "j = i" using assms unfolding blocks_unique_def by metis
  then show ?thesis using Some by simp
qed

lemma view_hit:
  assumes "blocks_unique (fs_cache s)" "i < CACHE_BLOCKS" "holds (fs_cache s ! i) sector"
  shows "sector_view s sector = cb_data (fs_cache s ! i)"
  using find_cached_SomeI [OF assms] by (simp add: sector_view_def)

lemma view_miss:
  assumes "\<forall>i < CACHE_BLOCKS. \<not> holds (fs_cache s ! i) sector"
  shows "sector_view s sector = blk_store (fs_device s) sector"
  using assms find_cached_None [of s sector] by (simp add: sector_view_def)

lemma find_cached_cong:
  "fs_cache s = fs_cache s' \<Longrightarrow> find_cached_sector s = find_cached_sector s'"
  by (rule ext) (simp add: find_cached_sector_def)

lemma sector_view_cong:
  "fs_cache s = fs_cache s' \<Longrightarrow> blk_store (fs_device s) = blk_store (fs_device s') \<Longrightarrow> sector_view s = sector_view s'"
  by (rule ext) (auto simp: sector_view_def find_cached_cong [of s s'] split: option.splits)

lemma blocks_ok_cong:
  assumes "blocks_ok s" "fs_cache s' = fs_cache s" "fs_cache_arm s' < CACHE_BLOCKS"
    and "blk_store (fs_device s') = blk_store (fs_device s)" "blk_size (fs_device s') = blk_size (fs_device s)"
    and "blk_type (fs_device s') = blk_type (fs_device s)"
  shows "blocks_ok s'"
  using assms by (simp add: blocks_ok_def device_ok_def block_ok_def)

text \<open>Replacing one block.\<close>

lemma blocks_ok_update:
  assumes ok: "blocks_ok s" and i: "i < CACHE_BLOCKS" and cb: "block_ok (fs_device s) cb"
    and uniq: "occupied cb \<Longrightarrow> \<forall>j < CACHE_BLOCKS. j \<noteq> i \<longrightarrow> \<not> holds (fs_cache s ! j) (cb_sector cb)"
  shows "blocks_ok (set_block i cb s)"
proof -
  have "blocks_unique ((fs_cache s)[i := cb])"
    unfolding blocks_unique_def
  proof (intro allI impI)
    fix a b assume ab: "a < CACHE_BLOCKS" "b < CACHE_BLOCKS" "occupied ((fs_cache s)[i := cb] ! a)"
      "occupied ((fs_cache s)[i := cb] ! b)" "cb_sector ((fs_cache s)[i := cb] ! a) = cb_sector ((fs_cache s)[i := cb] ! b)"
    have len: "length (fs_cache s) = CACHE_BLOCKS" and u: "blocks_unique (fs_cache s)"
      using ok by (simp_all add: blocks_ok_def)
    show "a = b"
    proof (cases "a = i \<or> b = i")
      case True
      then show ?thesis using ab uniq len i by (metis nth_list_update_eq nth_list_update_neq)
    next
      case False
      then have "occupied (fs_cache s ! a)" "occupied (fs_cache s ! b)" "cb_sector (fs_cache s ! a) = cb_sector (fs_cache s ! b)"
        using ab by simp_all
      then show ?thesis using u ab(1,2) unfolding blocks_unique_def by blast
    qed
  qed
  then show ?thesis using ok cb i by (auto simp: blocks_ok_def nth_list_update)
qed

lemma view_update:
  assumes ok: "blocks_ok s" and i: "i < CACHE_BLOCKS" and cb: "block_ok (fs_device s) cb" "occupied cb"
    and old: "occupied (fs_cache s ! i) \<Longrightarrow> cb_sector (fs_cache s ! i) = cb_sector cb"
    and uniq: "\<forall>j < CACHE_BLOCKS. j \<noteq> i \<longrightarrow> \<not> holds (fs_cache s ! j) (cb_sector cb)"
  shows "sector_view (set_block i cb s) = (sector_view s)(cb_sector cb := cb_data cb)"
proof (rule ext)
  fix x
  have len: "length (fs_cache s) = CACHE_BLOCKS" using ok by (simp add: blocks_ok_def)
  have ok': "blocks_ok (set_block i cb s)" using blocks_ok_update [OF ok i cb(1)] uniq by simp
  then have u': "blocks_unique (fs_cache (set_block i cb s))" by (simp add: blocks_ok_def)
  have u: "blocks_unique (fs_cache s)" using ok by (simp add: blocks_ok_def)
  show "sector_view (set_block i cb s) x = ((sector_view s)(cb_sector cb := cb_data cb)) x"
  proof (cases "x = cb_sector cb")
    case True
    have "sector_view (set_block i cb s) x = cb_data (fs_cache (set_block i cb s) ! i)"
      by (rule view_hit [OF u' i]) (use True cb len i in simp)
    then show ?thesis using True len i by simp
  next
    case False
    show ?thesis
    proof (cases "\<exists>j < CACHE_BLOCKS. holds (fs_cache s ! j) x")
      case True
      then obtain j where j: "j < CACHE_BLOCKS" "holds (fs_cache s ! j) x" by blast
      then have "j \<noteq> i" using False old by auto
      then have "sector_view (set_block i cb s) x = cb_data (fs_cache s ! j)"
        using view_hit [OF u' j(1), of x] j by simp
      then show ?thesis using view_hit [OF u j] False by simp
    next
      case none: False
      have "\<not> holds (fs_cache (set_block i cb s) ! j) x" if "j < CACHE_BLOCKS" for j
        using False none len that by (cases "j = i") auto
      then have "\<forall>j < CACHE_BLOCKS. \<not> holds (fs_cache (set_block i cb s) ! j) x" by blast
      from view_miss [OF this] show ?thesis using view_miss [of s x] none False by simp
    qed
  qed
qed

text \<open>A block whose data is on the disk may be given up.\<close>

lemma view_drop:
  assumes ok: "blocks_ok s" and i: "i < CACHE_BLOCKS" and clean: "cb_state (fs_cache s ! i) = CLEAN"
  shows "blocks_ok (set_block i ((fs_cache s ! i)\<lparr>cb_state := UNOCCUPIED\<rparr>) s)"
    and "sector_view (set_block i ((fs_cache s ! i)\<lparr>cb_state := UNOCCUPIED\<rparr>) s) = sector_view s"
proof -
  let ?cb = "(fs_cache s ! i)\<lparr>cb_state := UNOCCUPIED\<rparr>"
  have b: "block_ok (fs_device s) (fs_cache s ! i)" and len: "length (fs_cache s) = CACHE_BLOCKS"
    and u: "blocks_unique (fs_cache s)" using ok i by (simp_all add: blocks_ok_def)
  show ok': "blocks_ok (set_block i ?cb s)"
    using b blocks_ok_update [OF ok i, of ?cb] by (simp add: block_ok_def)
  then have u': "blocks_unique (fs_cache (set_block i ?cb s))" by (simp add: blocks_ok_def)
  show "sector_view (set_block i ?cb s) = sector_view s"
  proof (rule ext)
    fix x
    show "sector_view (set_block i ?cb s) x = sector_view s x"
    proof (cases "\<exists>j < CACHE_BLOCKS. j \<noteq> i \<and> holds (fs_cache s ! j) x")
      case True
      then obtain j where j: "j < CACHE_BLOCKS" "j \<noteq> i" "holds (fs_cache s ! j) x" by blast
      then show ?thesis using view_hit [OF u j(1,3)] view_hit [OF u' j(1), of x] by simp
    next
      case False
      then have "\<not> holds (fs_cache (set_block i ?cb s) ! j) x" if "j < CACHE_BLOCKS" for j
        using len that by (cases "j = i") auto
      then have "\<forall>j < CACHE_BLOCKS. \<not> holds (fs_cache (set_block i ?cb s) ! j) x" by blast
      then have v': "sector_view (set_block i ?cb s) x = blk_store (fs_device s) x" using view_miss by fastforce
      show ?thesis
      proof (cases "holds (fs_cache s ! i) x")
        case True
        then show ?thesis using view_hit [OF u i True] v' b clean by (simp add: block_ok_def)
      next
        case no: False
        have "sector_view s x = blk_store (fs_device s) x" by (rule view_miss) (use False no in blast)
        then show ?thesis using v' by simp
      qed
    qed
  qed
qed

section \<open>The operations act on the view\<close>

lemma block_write_ok:
  assumes "device_ok dev" "sector < blk_size dev"
  obtains dev' where "block_write dev sector d = Some dev'" "blk_store dev' = (blk_store dev)(sector := d)"
    "blk_size dev' = blk_size dev" "blk_type dev' = blk_type dev"
  using assms by (simp add: block_write_def check_sector_def device_ok_def)

lemma write_back_ok:
  assumes ok: "blocks_ok s" and i: "i < CACHE_BLOCKS"
  obtains s' where "write_back i s = Some s'" "blocks_ok s'" "sector_view s' = sector_view s" "same_device s s'"
    "fs_evict_lock s' = fs_evict_lock s"
    "fs_cache s' = (fs_cache s)[i := (fs_cache s ! i)\<lparr>cb_state := (if cb_state (fs_cache s ! i) = DIRTY then CLEAN
       else cb_state (fs_cache s ! i))\<rparr>]"
proof (cases "cb_state (fs_cache s ! i) = DIRTY")
  case False
  have "cb_state (fs_cache s ! i) \<noteq> IN_IO" using ok i by (simp add: blocks_ok_def block_ok_def)
  then show thesis using False that [of s] ok by (simp add: write_back_def)
next
  case True
  define cb where "cb = fs_cache s ! i"
  define cb' where "cb' = cb\<lparr>cb_state := CLEAN\<rparr>"
  have b: "block_ok (fs_device s) cb" and dev: "device_ok (fs_device s)" and len: "length (fs_cache s) = CACHE_BLOCKS"
    and u: "blocks_unique (fs_cache s)" using ok i by (simp_all add: blocks_ok_def cb_def)
  have dirty: "cb_state cb = DIRTY" using True by (simp add: cb_def)
  have lc: "length (cb_data cb) = BLOCK_SECTOR_SIZE" "cb_sector cb < blk_size (fs_device s)"
    using b dirty by (simp_all add: block_ok_def)
  obtain dev' where d: "block_write (fs_device s) (cb_sector cb) (cb_data cb) = Some dev'"
    "blk_store dev' = (blk_store (fs_device s))(cb_sector cb := cb_data cb)"
    "blk_size dev' = blk_size (fs_device s)" "blk_type dev' = blk_type (fs_device s)"
    using block_write_ok [OF dev lc(2)] by blast
  have others: "\<not> holds (fs_cache s ! j) (cb_sector cb)" if "j < CACHE_BLOCKS" "j \<noteq> i" for j
    using u that i dirty unfolding blocks_unique_def cb_def by (metis cb_state.distinct(5))
  have upd: "(fs_cache s)[i := c] ! j = (if j = i then c else fs_cache s ! j)" for c j
    using i len by (simp add: nth_list_update)
  define t where "t = set_block i cb' (s\<lparr>fs_device := dev'\<rparr>)"
  have okd: "block_ok dev' (fs_cache s ! j)" if "j < CACHE_BLOCKS" "j \<noteq> i" for j
    using ok others [OF that] that d by (auto simp: blocks_ok_def block_ok_def)
  have okt: "blocks_ok t"
  proof -
    have "blocks_unique ((fs_cache s)[i := cb'])"
      using u True by (auto simp: blocks_unique_def cb'_def cb_def upd)
    moreover have "block_ok dev' cb'" using b d lc dirty by (simp add: block_ok_def cb'_def)
    moreover have "device_ok dev'" using dev d lc by (auto simp: device_ok_def)
    ultimately show ?thesis using ok okd by (auto simp: blocks_ok_def t_def upd)
  qed
  have "sector_view t = sector_view s"
  proof (rule ext)
    fix x
    have f: "find_cached_sector t x = find_cached_sector s x"
      unfolding find_cached_sector_def t_def cb'_def cb_def using True
      by (intro arg_cong [where f = "\<lambda>P. List.find P _"] ext) (auto simp: upd)
    show "sector_view t x = sector_view s x"
    proof (cases "find_cached_sector s x")
      case None
      then have "x \<noteq> cb_sector cb" using find_cached_None [of s x] i dirty by (auto simp: cb_def)
      then show ?thesis using f None d by (simp add: sector_view_def t_def)
    next
      case (Some j)
      then show ?thesis using f by (simp add: sector_view_def) (simp add: t_def cb'_def cb_def upd)
    qed
  qed
  then show thesis using that [of t] okt d dirty True
    by (auto simp: write_back_def t_def cb'_def cb_def same_device_def Let_def)
qed

text \<open>Locking the block on the way does not matter.\<close>

definition absent :: "cache \<Rightarrow> nat \<Rightarrow> bool" where
  "absent s sector \<longleftrightarrow> (\<forall>j < CACHE_BLOCKS. \<not> holds (fs_cache s ! j) sector)"

text \<open>The lock of a block held for writing, and for reading by one thread.\<close>

definition rw_written :: rw_sems where
  "rw_written = rw_lock_init1\<lparr>rw_no_accessing := 0\<rparr>"

definition rw_read :: rw_sems where
  "rw_read = rw_lock_init1\<lparr>rw_no_accessing := 0, rw_readers := 1\<rparr>"

abbreviation lock_block :: "nat \<Rightarrow> cache \<Rightarrow> cache" where
  "lock_block i s \<equiv> set_block i ((fs_cache s ! i)\<lparr>cb_rw_lock := rw_written\<rparr>) s"

lemma cb_update_order [simp]:
  "cb\<lparr>cb_rw_lock := l, cb_state := x\<rparr> = cb\<lparr>cb_state := x, cb_rw_lock := l\<rparr>"
  "cb_rw_lock cb = l \<Longrightarrow> cb\<lparr>cb_accessed := a, cb_rw_lock := l\<rparr> = cb\<lparr>cb_accessed := a\<rparr>"
  by (cases cb; simp)+

lemma write_back_locked:
  assumes "i < length (fs_cache s)" "write_back i s = Some s'"
  shows "write_back i (lock_block i s) = Some (lock_block i s')"
  using assms by (auto simp: write_back_def Let_def split: if_splits elim!: bind_eq_SomeE)

lemma rw_lock_simps [simp]:
  "writer_try_acquire1 rw_lock_init1 = (True, rw_written)"
  "writer_release1 rw_written = rw_lock_init1"
  "reader_acquire1 rw_lock_init1 = Some rw_read"
  "writer_acquire1 rw_lock_init1 = Some rw_written"
  "reader_release1 rw_read = Some rw_lock_init1"
  by (simp_all add: writer_try_acquire1_def writer_acquire1_def reader_acquire1_def writer_release1_def
    reader_release1_def sema_take_def rw_lock_init1_def rw_written_def rw_read_def)

lemma filter_accessed_less:
  "cb_accessed cb \<Longrightarrow> length (filter cb_accessed (xs @ cb\<lparr>cb_accessed := False\<rparr> # ys)) < length (filter cb_accessed (xs @ cb # ys))"
  by simp

text \<open>The clock ends: each turn that does not return clears the accessed flag of a block.\<close>

lemma get_free_loop_ok:
  assumes "blocks_ok s"
  shows "\<exists>i s'. get_free_loop s = Some (i, lock_block i s') \<and> i < CACHE_BLOCKS \<and> blocks_ok s' \<and>
    \<not> occupied (fs_cache s' ! i) \<and> sector_view s' = sector_view s \<and> same_device s s' \<and> \<not> fs_evict_lock s' \<and>
    (\<forall>x. absent s x \<longrightarrow> absent s' x)"
  using assms
proof (induction "length (filter cb_accessed (fs_cache s))" arbitrary: s rule: less_induct)
  case less
  define i where "i = fs_cache_arm s"
  define cb where "cb = fs_cache s ! i"
  define t where "t = s\<lparr>fs_cache_arm := (i + 1) mod CACHE_BLOCKS\<rparr>"
  have i: "i < CACHE_BLOCKS" and len: "length (fs_cache s) = CACHE_BLOCKS" and b: "block_ok (fs_device s) cb"
    using less.prems by (simp_all add: blocks_ok_def i_def cb_def)
  have free: "cb_rw_lock cb = rw_lock_init1" "cb_state cb \<noteq> IN_IO" using b by (simp_all add: block_ok_def)
  have t: "blocks_ok t" "sector_view t = sector_view s"
    using blocks_ok_cong [OF less.prems, of t] sector_view_cong [of t s] i by (simp_all add: t_def CACHE_BLOCKS_def)
  have step: "get_free_loop s = (if cb_state cb = UNOCCUPIED
         then Some (i, lock_block i (t\<lparr>fs_evict_lock := False\<rparr>))
         else if \<not> cb_accessed cb then do {
           u \<leftarrow> write_back i (lock_block i (t\<lparr>fs_evict_lock := False\<rparr>));
           Some (i, set_block i ((fs_cache u ! i)\<lparr>cb_state := UNOCCUPIED\<rparr>) u) }
         else get_free_loop (set_block i (cb\<lparr>cb_accessed := False\<rparr>) t))"
    using free by (subst get_free_loop.simps) (simp add: i_def cb_def t_def Let_def)
  consider (empty) "cb_state cb = UNOCCUPIED" | (victim) "cb_state cb \<noteq> UNOCCUPIED" "\<not> cb_accessed cb"
    | (again) "cb_state cb \<noteq> UNOCCUPIED" "cb_accessed cb" by blast
  then show ?case
  proof cases
    case empty
    have "blocks_ok (t\<lparr>fs_evict_lock := False\<rparr>)" "sector_view (t\<lparr>fs_evict_lock := False\<rparr>) = sector_view s"
      using blocks_ok_cong [OF t(1), of "t\<lparr>fs_evict_lock := False\<rparr>"] t
        sector_view_cong [of "t\<lparr>fs_evict_lock := False\<rparr>" t] by (simp_all add: blocks_ok_def)
    then show ?thesis using empty i step
      by (intro exI [of _ i] exI [of _ "t\<lparr>fs_evict_lock := False\<rparr>"]) (auto simp: t_def cb_def same_device_def absent_def)
  next
    case again
    let ?u = "set_block i (cb\<lparr>cb_accessed := False\<rparr>) t"
    have cbt: "fs_cache t ! i = cb" by (simp add: t_def cb_def)
    have bt: "block_ok (fs_device t) (cb\<lparr>cb_accessed := False\<rparr>)" using b by (simp add: block_ok_def t_def)
    have uq: "\<forall>j < CACHE_BLOCKS. j \<noteq> i \<longrightarrow> \<not> holds (fs_cache t ! j) (cb_sector (cb\<lparr>cb_accessed := False\<rparr>))"
      using t(1) i again cbt unfolding blocks_ok_def blocks_unique_def by (metis cached_block.select_convs(2) cached_block.update_convs(4) cached_block.surjective)
    have u: "blocks_ok ?u" using blocks_ok_update [OF t(1) i bt] uq by simp
    have "sector_view ?u = (sector_view t)(cb_sector cb := cb_data cb)"
      using view_update [OF t(1) i bt _ _ uq] again cbt by simp
    moreover have "sector_view t (cb_sector cb) = cb_data cb"
      using view_hit [of t i "cb_sector cb"] t(1) i again cbt by (simp add: blocks_ok_def)
    ultimately have v: "sector_view ?u = sector_view s" using t(2) by (metis fun_upd_triv)
    have "length (filter cb_accessed (fs_cache ?u)) < length (filter cb_accessed (fs_cache s))"
    proof -
      have "fs_cache ?u = take i (fs_cache s) @ cb\<lparr>cb_accessed := False\<rparr> # drop (Suc i) (fs_cache s)"
        using i len by (simp add: t_def upd_conv_take_nth_drop)
      moreover have "fs_cache s = take i (fs_cache s) @ cb # drop (Suc i) (fs_cache s)"
        using i len by (simp add: cb_def id_take_nth_drop)
      ultimately show ?thesis using again(2) by (metis (no_types, lifting) filter_accessed_less)
    qed
    moreover have "absent s x \<longrightarrow> absent ?u x" for x
      using again i len by (auto simp: absent_def t_def cb_def nth_list_update)
    moreover have "same_device s r" if "same_device ?u r" for r using that by (simp add: same_device_def t_def)
    moreover have "get_free_loop s = get_free_loop ?u" using step again by simp
    ultimately show ?thesis using less.hyps [OF _ u] v by metis
  next
    case victim
    define r where "r = t\<lparr>fs_evict_lock := False\<rparr>"
    have r: "blocks_ok r" "sector_view r = sector_view s" "fs_cache r ! i = cb"
      using blocks_ok_cong [OF t(1), of r] t sector_view_cong [of r t] by (simp_all add: blocks_ok_def r_def t_def cb_def)
    obtain w where w: "write_back i r = Some w" "blocks_ok w" "sector_view w = sector_view r" "same_device r w"
      "fs_evict_lock w = fs_evict_lock r"
      "fs_cache w = (fs_cache r)[i := cb\<lparr>cb_state := (if cb_state cb = DIRTY then CLEAN else cb_state cb)\<rparr>]"
      using write_back_ok [OF r(1) i] r(3) by metis
    have len': "i < length (fs_cache r)" using i len by (simp add: r_def t_def)
    have clean: "cb_state (fs_cache w ! i) = CLEAN"
      using w(6) len' free(2) victim by (cases "cb_state cb") auto
    let ?v = "set_block i ((fs_cache w ! i)\<lparr>cb_state := UNOCCUPIED\<rparr>) w"
    have "get_free_loop s = Some (i, lock_block i ?v)"
      using step victim write_back_locked [OF len' w(1)] w(6) len' by (simp add: r_def)
    moreover have "blocks_ok ?v" "sector_view ?v = sector_view s"
      using view_drop [OF w(2) i clean] w(3) r(2) by simp_all
    moreover have "absent s x \<longrightarrow> absent ?v x" for x
      using w(6) len' i len by (auto simp: absent_def t_def r_def cb_def nth_list_update)
    ultimately show ?thesis using i w(4,5,6) len'
      by (intro exI [of _ i] exI [of _ ?v]) (auto simp: same_device_def r_def t_def)
  qed
qed

text \<open>The bytes \<open>d\<close> written over \<open>old\<close> from position \<open>from\<close> on.\<close>

definition overwrite :: "nat \<Rightarrow> u8 list \<Rightarrow> u8 list \<Rightarrow> u8 list" where
  "overwrite from d old = take from old @ d @ drop (from + length d) old"

lemma length_overwrite [simp]: "from + length d \<le> length old \<Longrightarrow> length (overwrite from d old) = length old"
  by (simp add: overwrite_def)

lemma install_ok:
  assumes ok: "blocks_ok s" and i: "i < CACHE_BLOCKS" and sec: "sector < blk_size (fs_device s)"
    and cb: "cb_rw_lock cb = rw_lock_init1" "cb_sector cb = sector" "length (cb_data cb) = BLOCK_SECTOR_SIZE"
      "cb_state cb = DIRTY \<or> cb_state cb = CLEAN \<and> blk_store (fs_device s) sector = cb_data cb"
    and slot: "holds (fs_cache s ! i) sector \<or>
      \<not> occupied (fs_cache s ! i) \<and> (\<forall>j < CACHE_BLOCKS. \<not> holds (fs_cache s ! j) sector)"
  shows "blocks_ok (set_block i cb s)" "sector_view (set_block i cb s) = (sector_view s)(sector := cb_data cb)"
proof -
  have b: "block_ok (fs_device s) cb" "occupied cb" using cb sec by (auto simp: block_ok_def)
  have uq: "\<forall>j < CACHE_BLOCKS. j \<noteq> i \<longrightarrow> \<not> holds (fs_cache s ! j) (cb_sector cb)"
    using slot ok i cb(2) unfolding blocks_ok_def blocks_unique_def by metis
  show "blocks_ok (set_block i cb s)" by (rule blocks_ok_update [OF ok i b(1) uq])
  have "occupied (fs_cache s ! i) \<Longrightarrow> cb_sector (fs_cache s ! i) = cb_sector cb" using slot cb(2) by auto
  from view_update [OF ok i b this uq] cb(2)
  show "sector_view (set_block i cb s) = (sector_view s)(sector := cb_data cb)" by simp
qed

lemma view_length:
  assumes "blocks_ok s" "sector < blk_size (fs_device s)"
  shows "length (sector_view s sector) = BLOCK_SECTOR_SIZE"
proof (cases "find_cached_sector s sector")
  case None
  then show ?thesis using assms by (simp add: sector_view_def blocks_ok_def device_ok_def)
next
  case (Some i)
  from find_cached_SomeD [OF Some] show ?thesis
    using assms Some by (simp add: sector_view_def blocks_ok_def block_ok_def)
qed

definition transfer_result :: "nat \<Rightarrow> bool \<Rightarrow> nat \<Rightarrow> nat \<Rightarrow> u8 list \<Rightarrow> cache \<Rightarrow> u8 list \<Rightarrow> cache \<Rightarrow> bool" where
  "transfer_result sector write from to buffer s out s' \<longleftrightarrow> cache_ok s' \<and> same_device s s' \<and>
     (if write then out = buffer \<and>
        sector_view s' = (sector_view s)(sector := overwrite from (take (to - from) buffer) (sector_view s sector))
      else out = take (to - from) (drop from (sector_view s sector)) \<and> sector_view s' = sector_view s)"

lemma copy_block_ok:
  assumes "from < to" "to \<le> BLOCK_SECTOR_SIZE" "write \<longrightarrow> to - from \<le> length buffer"
    and "cb_data cb = d" "cb_state cb = st" "cb_sector cb = x" "cb_rw_lock cb = l" "length d = BLOCK_SECTOR_SIZE"
  shows "\<exists>cb'. copy_block write from to buffer cb = Some (if write then buffer else take (to - from) (drop from d), cb') \<and>
    cb_data cb' = (if write then overwrite from (take (to - from) buffer) d else d) \<and>
    cb_state cb' = (if write then DIRTY else st) \<and> cb_sector cb' = x \<and> cb_rw_lock cb' = l \<and>
    length (cb_data cb') = BLOCK_SECTOR_SIZE"
  using assms by (cases "write") (auto simp: copy_block_def overwrite_def)

lemma read_write_hit:
  assumes ok: "cache_ok s" and args: "from < to" "to \<le> BLOCK_SECTOR_SIZE" "write \<longrightarrow> to - from \<le> length buffer"
    and hit: "find_cached_sector s sector = Some i"
  shows "\<exists>out s'. read_write_loop sector write from to buffer s = Some (out, s') \<and>
    transfer_result sector write from to buffer s out s'"
proof -
  define cb where "cb = fs_cache s ! i"
  have b: "blocks_ok s" and sl: "sector_lock s = rw_lock_init1" and ev: "\<not> fs_evict_lock s" using ok by (simp_all add: cache_ok_def)
  have i: "i < CACHE_BLOCKS" "holds cb sector" using find_cached_SomeD [OF hit] by (simp_all add: cb_def)
  have cb: "cb_rw_lock cb = rw_lock_init1" "cb_state cb = CLEAN \<or> cb_state cb = DIRTY" "length (cb_data cb) = BLOCK_SECTOR_SIZE"
    "cb_state cb = CLEAN \<Longrightarrow> blk_store (fs_device s) sector = cb_data cb" "sector < blk_size (fs_device s)"
    using b i by (cases "cb_state cb"; auto simp: blocks_ok_def block_ok_def cb_def)+
  have v: "sector_view s sector = cb_data cb" using hit by (simp add: sector_view_def cb_def)
  define l where "l = (if write then rw_written else rw_read)"
  have l: "rw_acquire1 rw_lock_init1 write = Some l" "rw_release1 l write = Some rw_lock_init1"
    by (cases "write"; simp add: l_def rw_acquire1_def rw_release1_def)+
  obtain cb' where cb': "copy_block write from to buffer (cb\<lparr>cb_rw_lock := l\<rparr>) =
      Some (if write then buffer else take (to - from) (drop from (cb_data cb)), cb')"
    "cb_data cb' = (if write then overwrite from (take (to - from) buffer) (cb_data cb) else cb_data cb)"
    "cb_state cb' = (if write then DIRTY else cb_state cb)" "cb_sector cb' = cb_sector cb"
    "cb_rw_lock cb' = l" "length (cb_data cb') = BLOCK_SECTOR_SIZE"
    using copy_block_ok [OF args, of "cb\<lparr>cb_rw_lock := l\<rparr>" "cb_data cb" "cb_state cb" "cb_sector cb" l] cb(3)
    by (elim exE conjE meta_impE) simp_all
  define cf where "cf = cb'\<lparr>cb_accessed := True, cb_rw_lock := rw_lock_init1\<rparr>"
  have s: "s\<lparr>sector_lock := rw_lock_init1\<rparr> = s" using sl by simp
  have run: "read_write_loop sector write from to buffer s =
    Some (if write then buffer else take (to - from) (drop from (cb_data cb)), set_block i cf s)"
    using hit sl cb i(2) l cb' s find_cached_cong [of "s\<lparr>sector_lock := rw_read\<rparr>" s]
    by (subst read_write_loop.simps) (simp add: cb_def [symmetric] cf_def)
  have "blocks_ok (set_block i cf s)" "sector_view (set_block i cf s) = (sector_view s)(sector := cb_data cf)"
    using install_ok [OF b i(1) cb(5), of cf] cb' cb(2,4) i(2) by (auto simp: cf_def cb_def)
  then show ?thesis using run sl ev v cb'(2)
    by (auto simp: transfer_result_def cache_ok_def same_device_def cf_def)
qed

lemma read_write_miss:
  assumes ok: "cache_ok s" and args: "from < to" "to \<le> BLOCK_SECTOR_SIZE" "write \<longrightarrow> to - from \<le> length buffer"
    and sec: "sector < blk_size (fs_device s)" and miss: "find_cached_sector s sector = None"
  shows "\<exists>out s'. read_write_loop sector write from to buffer s = Some (out, s') \<and>
    transfer_result sector write from to buffer s out s'"
proof -
  have b: "blocks_ok s" and sl: "sector_lock s = rw_lock_init1" and ev: "\<not> fs_evict_lock s" using ok by (simp_all add: cache_ok_def)
  define r where "r = s\<lparr>sector_lock := rw_read, fs_evict_lock := True\<rparr>"
  have "blocks_ok r" using blocks_ok_cong [OF b, of r] b by (simp add: r_def blocks_ok_def)
  then obtain i t where t: "get_free_loop r = Some (i, lock_block i t)" "i < CACHE_BLOCKS" "blocks_ok t"
    "\<not> occupied (fs_cache t ! i)" "sector_view t = sector_view r" "same_device r t" "\<not> fs_evict_lock t"
    "\<forall>x. absent r x \<longrightarrow> absent t x"
    using get_free_loop_ok [of r] by metis
  have vt: "sector_view t = sector_view s" using t(5) sector_view_cong [of r s] by (simp add: r_def)
  have szt: "blk_size (fs_device t) = blk_size (fs_device s)" "sector_lock t = rw_read"
    using t(6) by (simp_all add: same_device_def r_def)
  have get: "get_free_block (s\<lparr>sector_lock := rw_read\<rparr>) = Some (i, lock_block i t)"
    using t(1) ev by (simp add: get_free_block_def r_def)
  define dev where "dev = (fs_device t)\<lparr>read_cnt := (read_cnt (fs_device t) + 1) mod 2 ^ 64\<rparr>"
  define u where "u = t\<lparr>fs_device := dev, sector_lock := rw_lock_init1\<rparr>"
  have "absent r sector" using miss find_cached_None by (simp add: absent_def r_def)
  then have abt: "\<forall>j < CACHE_BLOCKS. \<not> holds (fs_cache t ! j) sector" using t(8) by (simp add: absent_def)
  then have st: "blk_store (fs_device t) sector = sector_view s sector" using view_miss [OF abt] vt by simp
  have bu: "blocks_ok u" and vu: "sector_view u = sector_view s"
    using blocks_ok_cong [OF t(3), of u] t(3) sector_view_cong [of u t] vt by (simp_all add: u_def dev_def blocks_ok_def)
  have vlen: "length (sector_view s sector) = BLOCK_SECTOR_SIZE" using view_length [OF b sec] .
  define cb where "cb = (fs_cache t ! i)\<lparr>cb_rw_lock := rw_written, cb_sector := sector,
    cb_state := IN_IO, cb_data := sector_view s sector, cb_state := CLEAN\<rparr>"
  obtain cb' where cb': "copy_block write from to buffer cb =
      Some (if write then buffer else take (to - from) (drop from (sector_view s sector)), cb')"
    "cb_data cb' = (if write then overwrite from (take (to - from) buffer) (sector_view s sector) else sector_view s sector)"
    "cb_state cb' = (if write then DIRTY else CLEAN)" "cb_sector cb' = sector"
    "cb_rw_lock cb' = rw_written" "length (cb_data cb') = BLOCK_SECTOR_SIZE"
    using copy_block_ok [OF args, of cb "sector_view s sector" CLEAN sector "rw_written"] vlen
    by (elim exE conjE meta_impE) (simp_all add: cb_def)
  define cf where "cf = cb'\<lparr>cb_accessed := True, cb_rw_lock := rw_lock_init1\<rparr>"
  have len: "i < length (fs_cache t)" using t(2,3) by (simp add: blocks_ok_def)
  have f0: "find_cached_sector (s\<lparr>sector_lock := rw_read\<rparr>) sector = None"
    using miss find_cached_cong [of "s\<lparr>sector_lock := rw_read\<rparr>" s] by simp
  have f1: "find_cached_sector ((lock_block i t)\<lparr>sector_lock := sl\<rparr>) sector = None" for sl
    using abt len by (auto simp: find_cached_None nth_list_update)
  have rd: "block_read (fs_device t) sector = Some (sector_view s sector, dev)"
    using sec szt st by (simp add: block_read_def check_sector_def dev_def)
  have run: "read_write_loop sector write from to buffer s =
    Some (if write then buffer else take (to - from) (drop from (sector_view s sector)), set_block i cf u)"
    using sl f0 get szt(2) f1 len rd cb'(1,5) unfolding cb_def
    by (subst read_write_loop.simps) (simp add: cf_def u_def)
  have "blocks_ok (set_block i cf u)" "sector_view (set_block i cf u) = (sector_view u)(sector := cb_data cf)"
    using install_ok [OF bu t(2), of sector cf] cb' t(4) abt sec szt st by (auto simp: cf_def u_def dev_def)
  then show ?thesis using run vu cb'(2) t(6,7) sl ev
    by (auto simp: transfer_result_def cache_ok_def same_device_def cf_def u_def dev_def r_def)
qed

lemma read_write_loop_ok:
  assumes "cache_ok s" "from < to" "to \<le> BLOCK_SECTOR_SIZE" "write \<longrightarrow> to - from \<le> length buffer"
    and "sector < blk_size (fs_device s)"
  shows "\<exists>out s'. read_write_loop sector write from to buffer s = Some (out, s') \<and>
    transfer_result sector write from to buffer s out s'"
  using read_write_miss [OF assms] read_write_hit [OF assms(1-4)] by (cases "find_cached_sector s sector") blast+

lemma cached_read_ok:
  assumes "cache_ok s" "from < to" "to \<le> BLOCK_SECTOR_SIZE" "sector < blk_size (fs_device s)"
  obtains s' where "cached_read sector from to s = Some (take (to - from) (drop from (sector_view s sector)), s')"
    "cache_ok s'" "sector_view s' = sector_view s" "same_device s s'"
  using assms read_write_loop_ok [of s "from" "to" False "[]" sector]
  by (auto simp: cached_read_def cached_read_write_def transfer_result_def)

lemma cached_write_ok:
  assumes "cache_ok s" "from < to" "to \<le> BLOCK_SECTOR_SIZE" "sector < blk_size (fs_device s)" "to - from \<le> length buffer"
  obtains s' where "cached_write sector from to buffer s = Some s'" "cache_ok s'" "same_device s s'"
    "sector_view s' = (sector_view s)(sector := overwrite from (take (to - from) buffer) (sector_view s sector))"
  using assms read_write_loop_ok [of s "from" "to" True buffer sector]
  by (auto simp: cached_write_def cached_read_write_def transfer_result_def)

lemma init_fs_cache_ok:
  assumes "device_ok dev"
  shows "cache_ok (init_fs_cache dev junk)" "sector_view (init_fs_cache dev junk) = blk_store dev"
  using assms by (auto simp: cache_ok_def blocks_ok_def init_fs_cache_def block_ok_def blocks_unique_def CACHE_BLOCKS_def
    intro!: ext view_miss [THEN trans])

section \<open>Writing everything back\<close>

lemma bit_int_shift_1:
  "bit (int_shift_1 i) n \<longleftrightarrow> n < 64 \<and> (if i mod 32 = 31 then 31 \<le> n else n = i mod 32)"
proof -
  have "bit (push_bit (i mod 32) (1 :: 32 word)) m \<longleftrightarrow> m = i mod 32" for m
    by (auto simp: bit_push_bit_iff bit_1_iff simp del: push_bit_of_1)
  then show ?thesis
    by (auto simp: int_shift_1_def bit_signed_iff min_def simp del: push_bit_of_1)
qed

definition wrote_mask :: "nat \<Rightarrow> u64" where
  "wrote_mask k = fold (\<lambda>i w. w OR int_shift_1 i) [0..<k] 0"

lemma bit_wrote_mask: "k \<le> 32 \<Longrightarrow> bit (wrote_mask k) n \<longleftrightarrow> n < 64 \<and> (n < k \<or> k = 32)"
  by (induction k) (auto simp: wrote_mask_def bit_or_iff bit_int_shift_1 less_Suc_eq)

lemma wrote_mask_step: "k < 32 \<Longrightarrow> wrote_mask k AND int_shift_1 k = 0"
  by (rule bit_word_eqI) (auto simp: bit_and_iff bit_wrote_mask bit_int_shift_1)

lemma wrote_mask_full: "wrote_mask 32 = -1"
  by (rule bit_word_eqI) (simp add: bit_wrote_mask)

lemma int_shift_1_nz: "int_shift_1 i \<noteq> 0"
proof -
  have "bit (int_shift_1 i) (i mod 32)"
    using mod_less_divisor [of 32 i] by (auto simp: bit_int_shift_1)
  then show ?thesis by (metis bit_0_eq bot_apply bot_bool_def)
qed

lemma write_back_pass_append:
  "write_back_pass (xs @ ys) w s = do { (w, s) \<leftarrow> write_back_pass xs w s; write_back_pass ys w s }"
  by (induction xs arbitrary: w s) (simp_all add: Let_def split: prod.split)

lemma write_back_pass_skip: "write_back_pass is (-1) s = Some (-1, s)"
  using int_shift_1_nz by (induction "is") auto

lemma write_back_one:
  assumes ok: "cache_ok s" and i: "i < CACHE_BLOCKS" and w: "w AND int_shift_1 i = 0"
  obtains s' where "write_back_pass [i] w s = Some (w OR int_shift_1 i, s')" "cache_ok s'"
    "sector_view s' = sector_view s" "same_device s s'"
    "fs_cache s' = (fs_cache s)[i := (fs_cache s ! i)\<lparr>cb_state := (if cb_state (fs_cache s ! i) = DIRTY then CLEAN
       else cb_state (fs_cache s ! i))\<rparr>]"
proof -
  have b: "blocks_ok s" and len: "i < length (fs_cache s)" and free: "cb_rw_lock (fs_cache s ! i) = rw_lock_init1"
    using ok i by (simp_all add: cache_ok_def blocks_ok_def block_ok_def)
  obtain t where t: "write_back i s = Some t" "blocks_ok t" "sector_view t = sector_view s" "same_device s t"
    "fs_evict_lock t = fs_evict_lock s"
    "fs_cache t = (fs_cache s)[i := (fs_cache s ! i)\<lparr>cb_state := (if cb_state (fs_cache s ! i) = DIRTY then CLEAN
       else cb_state (fs_cache s ! i))\<rparr>]"
    using write_back_ok [OF b i] by metis
  have "cb_rw_lock (fs_cache t ! i) = rw_lock_init1" using t(2) i by (simp add: blocks_ok_def block_ok_def)
  then have "(fs_cache t ! i)\<lparr>cb_rw_lock := rw_lock_init1\<rparr> = fs_cache t ! i" by (cases "fs_cache t ! i") simp
  then have "set_block i ((fs_cache t ! i)\<lparr>cb_rw_lock := rw_lock_init1\<rparr>) t = t" by simp
  then have "write_back_pass [i] w s = Some (w OR int_shift_1 i, t)"
    using w free write_back_locked [OF len t(1)] t(6) len by (simp add: Let_def)
  then show thesis using that [of t] t ok by (auto simp: cache_ok_def same_device_def)
qed

lemma write_back_first_half:
  assumes "cache_ok s" "k \<le> 32"
  shows "\<exists>s'. write_back_pass [0..<k] 0 s = Some (wrote_mask k, s') \<and> cache_ok s' \<and> sector_view s' = sector_view s \<and>
    same_device s s' \<and> (\<forall>i < k. cb_state (fs_cache s' ! i) \<noteq> DIRTY) \<and>
    (\<forall>i. k \<le> i \<longrightarrow> i < CACHE_BLOCKS \<longrightarrow> fs_cache s' ! i = fs_cache s ! i)"
  using assms(2)
proof (induction k)
  case 0 then show ?case using assms(1) by (simp add: wrote_mask_def)
next
  case (Suc k)
  then obtain t where t: "write_back_pass [0..<k] 0 s = Some (wrote_mask k, t)" "cache_ok t" "sector_view t = sector_view s"
    "same_device s t" "\<forall>i < k. cb_state (fs_cache t ! i) \<noteq> DIRTY"
    "\<forall>i. k \<le> i \<longrightarrow> i < CACHE_BLOCKS \<longrightarrow> fs_cache t ! i = fs_cache s ! i" by auto
  have k: "k < CACHE_BLOCKS" "k < 32" using Suc.prems by (simp_all add: CACHE_BLOCKS_def)
  obtain u where u: "write_back_pass [k] (wrote_mask k) t = Some (wrote_mask k OR int_shift_1 k, u)" "cache_ok u"
    "sector_view u = sector_view t" "same_device t u"
    "fs_cache u = (fs_cache t)[k := (fs_cache t ! k)\<lparr>cb_state := (if cb_state (fs_cache t ! k) = DIRTY then CLEAN
       else cb_state (fs_cache t ! k))\<rparr>]"
    by (rule write_back_one [OF t(2) k(1) wrote_mask_step [OF k(2)]])
  have len: "length (fs_cache t) = CACHE_BLOCKS" using t(2) by (simp add: cache_ok_def blocks_ok_def)
  have "write_back_pass [0..<Suc k] 0 s = Some (wrote_mask (Suc k), u)"
    using t(1) u(1) by (simp add: write_back_pass_append wrote_mask_def del: write_back_pass.simps)
  moreover have "\<forall>i < Suc k. cb_state (fs_cache u ! i) \<noteq> DIRTY"
    using t(5) u(5) len k by (auto simp: less_Suc_eq nth_list_update)
  moreover have "\<forall>i. Suc k \<le> i \<longrightarrow> i < CACHE_BLOCKS \<longrightarrow> fs_cache u ! i = fs_cache s ! i"
    using t(6) u(5) by (auto simp: nth_list_update)
  ultimately show ?case using u(2,3) t(3) same_device_trans [OF t(4) u(4)] by auto
qed

lemma write_back_all_ok:
  assumes "cache_ok s"
  obtains s' where "write_back_all s = Some s'" "cache_ok s'" "sector_view s' = sector_view s" "same_device s s'"
    "\<forall>i < 32. cb_state (fs_cache s' ! i) \<noteq> DIRTY"
    "\<forall>i. 32 \<le> i \<longrightarrow> i < CACHE_BLOCKS \<longrightarrow> fs_cache s' ! i = fs_cache s ! i"
proof -
  obtain t where t: "write_back_pass [0..<32] 0 s = Some (-1, t)" "cache_ok t" "sector_view t = sector_view s"
    "same_device s t" "\<forall>i < 32. cb_state (fs_cache t ! i) \<noteq> DIRTY"
    "\<forall>i. 32 \<le> i \<longrightarrow> i < CACHE_BLOCKS \<longrightarrow> fs_cache t ! i = fs_cache s ! i"
    using write_back_first_half [OF assms order_refl] by (auto simp: wrote_mask_full)
  have "[0..<64] = [0..<32] @ [32..<64]" using upt_add_eq_append [of 0 32 32] by simp
  then have "write_back_pass [0..<64] 0 s = Some (-1, t)"
    using t(1) write_back_pass_skip [of "[32..<64]" t] by (simp add: write_back_pass_append)
  then have "write_back_all s = Some t"
    unfolding write_back_all_def by (subst write_back_loop.simps) (simp add: write_back_loop.simps [of "-1"])
  then show thesis using that t by blast
qed

section \<open>The fetch daemon\<close>

lemma fetch_sector_ok:
  assumes ok: "cache_ok s" and sec: "sector < blk_size (fs_device s)"
  obtains s' where "fetch_sector sector s = Some s'" "cache_ok s'" "sector_view s' = sector_view s"
    "find_cached_sector s' sector \<noteq> None" "same_device s s'"
proof (cases "find_cached_sector s sector")
  case (Some i)
  have "find_cached_sector (s\<lparr>sector_lock := l\<rparr>) = find_cached_sector s" for l by (rule find_cached_cong) simp
  then have "fetch_sector sector s = Some s" using Some ok by (simp add: fetch_sector_def cache_ok_def)
  then show thesis using that [of s] ok Some by simp
next
  case None
  have b: "blocks_ok s" and sl: "sector_lock s = rw_lock_init1" and ev: "\<not> fs_evict_lock s" using ok by (simp_all add: cache_ok_def)
  define r where "r = s\<lparr>sector_lock := rw_written\<rparr>"
  have f: "find_cached_sector r = find_cached_sector s" by (rule find_cached_cong) (simp add: r_def)
  have br: "blocks_ok (r\<lparr>fs_evict_lock := True\<rparr>)"
    using blocks_ok_cong [OF b, of "r\<lparr>fs_evict_lock := True\<rparr>"] b by (simp add: r_def blocks_ok_def)
  obtain i t where t: "get_free_loop (r\<lparr>fs_evict_lock := True\<rparr>) = Some (i, lock_block i t)" "i < CACHE_BLOCKS"
    "blocks_ok t" "\<not> occupied (fs_cache t ! i)" "sector_view t = sector_view (r\<lparr>fs_evict_lock := True\<rparr>)"
    "same_device (r\<lparr>fs_evict_lock := True\<rparr>) t" "\<not> fs_evict_lock t" "\<forall>x. absent (r\<lparr>fs_evict_lock := True\<rparr>) x \<longrightarrow> absent t x"
    using get_free_loop_ok [OF br] by metis
  have abt: "\<forall>j < CACHE_BLOCKS. \<not> holds (fs_cache t ! j) sector"
    using t(8) None find_cached_None [of s sector] by (simp add: absent_def r_def)
  have vt: "sector_view t = sector_view s"
    using t(5) sector_view_cong [of "r\<lparr>fs_evict_lock := True\<rparr>" s] by (simp add: r_def)
  have st: "blk_store (fs_device t) sector = sector_view s sector" using view_miss [OF abt] vt by simp
  define dev where "dev = (fs_device t)\<lparr>read_cnt := (read_cnt (fs_device t) + 1) mod 2 ^ 64\<rparr>"
  define u where "u = t\<lparr>sector_lock := rw_lock_init1, fs_device := dev\<rparr>"
  have bu: "blocks_ok u" and vu: "sector_view u = sector_view s"
    using blocks_ok_cong [OF t(3), of u] t(3) sector_view_cong [of u t] vt by (simp_all add: u_def dev_def blocks_ok_def)
  define cb where "cb = (fs_cache t ! i)\<lparr>cb_sector := sector, cb_data := sector_view s sector,
    cb_accessed := False, cb_state := CLEAN, cb_rw_lock := rw_lock_init1\<rparr>"
  have sz: "blk_size (fs_device t) = blk_size (fs_device s)" "sector_lock t = rw_written"
    using t(6) by (simp_all add: same_device_def r_def)
  have rd: "block_read (fs_device t) sector = Some (sector_view s sector, dev)"
    using sec sz st by (simp add: block_read_def check_sector_def dev_def)
  have len: "i < length (fs_cache t)" using t(2,3) by (simp add: blocks_ok_def)
  have get: "get_free_block r = Some (i, lock_block i t)" using t(1) ev by (simp add: get_free_block_def r_def)
  have run: "fetch_sector sector s = Some (set_block i cb u)"
    using None f get len rd sz(2) sl by (simp add: fetch_sector_def u_def cb_def r_def)
  have "blocks_ok (set_block i cb u)" "sector_view (set_block i cb u) = (sector_view u)(sector := cb_data cb)"
    using install_ok [OF bu t(2), of sector cb] t(4) abt sec sz st view_length [OF b sec]
    by (auto simp: cb_def u_def dev_def)
  moreover have "find_cached_sector (set_block i cb u) sector \<noteq> None"
    using find_cached_None [of "set_block i cb u" sector] t(2) len by (auto simp: cb_def u_def)
  ultimately show thesis using that [OF run] vu t(6,7) sl by (simp add: u_def cb_def same_device_def r_def dev_def cache_ok_def)
qed

text \<open>A turn that serves a request leaves the sector in the cache and the view as it was.\<close>

lemma async_fetch_turn_ok:
  assumes ok: "cache_ok s" and arm: "async_fetch_arm s < length (async_fetch_list s)"
    and req: "async_fetch_list s ! async_fetch_arm s = sector" "sector \<noteq> ASYNC_FETCH_EMPTY" "sector < blk_size (fs_device s)"
  obtains s' where "async_fetch_daemon_turn s = Some s'" "cache_ok s'" "sector_view s' = sector_view s"
    "find_cached_sector s' sector \<noteq> None" "async_fetch_arm s' = async_fetch_arm s + 1"
    "async_fetch_list s' = (async_fetch_list s)[async_fetch_arm s := ASYNC_FETCH_EMPTY]"
proof -
  define r where "r = s\<lparr>async_fetch_list := (async_fetch_list s)[async_fetch_arm s := ASYNC_FETCH_EMPTY],
    async_fetch_arm := async_fetch_arm s + 1, async_fetch_lock := False\<rparr>"
  have r: "cache_ok r" "sector_view r = sector_view s"
    using ok blocks_ok_cong [of s r] sector_view_cong [of r s] by (auto simp: r_def cache_ok_def blocks_ok_def)
  obtain u where u: "fetch_sector sector r = Some u" "cache_ok u" "sector_view u = sector_view r"
    "find_cached_sector u sector \<noteq> None" "same_device r u"
    using fetch_sector_ok [OF r(1), of sector] req(3) by (auto simp: r_def)
  let ?v = "u\<lparr>async_fetch_lock := True\<rparr>"
  have "async_fetch_daemon_turn s = Some ?v" using arm req u(1) by (simp add: async_fetch_daemon_turn_def r_def)
  moreover have "cache_ok ?v" "sector_view ?v = sector_view u" "find_cached_sector ?v = find_cached_sector u"
    using u(2) blocks_ok_cong [of u ?v] sector_view_cong [of ?v u] find_cached_cong [of ?v u]
    by (auto simp: cache_ok_def blocks_ok_def)
  ultimately show thesis using that [of ?v] u r by (simp add: same_device_def r_def)
qed

text \<open>\<open>async_fetch_arm\<close> is not reduced modulo the number of slots: the turn after the one that serves the last
  slot accesses the array outside its bounds.\<close>

lemma async_fetch_arm_overflow:
  assumes "cache_ok s" "length (async_fetch_list s) = ASYNC_FETCH_SLOTS" "async_fetch_arm s = ASYNC_FETCH_SLOTS - 1"
    and "async_fetch_list s ! async_fetch_arm s = sector" "sector \<noteq> ASYNC_FETCH_EMPTY" "sector < blk_size (fs_device s)"
  shows "(async_fetch_daemon_turn s \<bind> async_fetch_daemon_turn) = None"
proof -
  have "async_fetch_arm s < length (async_fetch_list s)" using assms(2,3) by (simp add: ASYNC_FETCH_SLOTS_def)
  from async_fetch_turn_ok [OF assms(1) this assms(4-6)]
  obtain u where u: "async_fetch_daemon_turn s = Some u" "async_fetch_arm u = async_fetch_arm s + 1"
    "async_fetch_list u = (async_fetch_list s)[async_fetch_arm s := ASYNC_FETCH_EMPTY]" by metis
  have "async_fetch_daemon_turn u = None"
    using u(2,3) assms(2,3) by (simp add: async_fetch_daemon_turn_def ASYNC_FETCH_SLOTS_def)
  then show ?thesis using u(1) by simp
qed

section \<open>Properties\<close>

definition sample_device :: block where
  "sample_device = \<lparr>blk_name = ''hdb1'', blk_type = BLOCK_FILESYS, blk_size = 100,
     blk_store = (\<lambda>_. replicate 512 0), read_cnt = 0, write_cnt = 0\<rparr>"

definition sample_cache :: cache where
  "sample_cache = init_fs_cache sample_device (\<lambda>_. (0, []))"

lemma sample_cache_ok: "cache_ok sample_cache" "sector_view sample_cache = (\<lambda>_. replicate 512 0)"
  "blk_size (fs_device sample_cache) = 100"
proof -
  have "device_ok sample_device" by (simp add: device_ok_def sample_device_def BLOCK_SECTOR_SIZE_def)
  from init_fs_cache_ok [OF this] show "cache_ok sample_cache" "sector_view sample_cache = (\<lambda>_. replicate 512 0)"
    by (simp_all add: sample_cache_def) (simp add: sample_device_def)
  show "blk_size (fs_device sample_cache) = 100"
    by (simp add: sample_cache_def init_fs_cache_def sample_device_def)
qed

text \<open>C25. The cache is transparent: a write into a sector succeeds, and every later read of any range of any
  sector returns the bytes written there, or the bytes the disk presented before for what was not written,
  whatever the cache evicts and reloads on the way.\<close>

theorem cached_write_read:
  assumes "cache_ok s" "sector < blk_size (fs_device s)" "from < to" "to \<le> BLOCK_SECTOR_SIZE" "to - from \<le> length buffer"
  shows "\<exists>s'. cached_write sector from to buffer s = Some s' \<and> cache_ok s' \<and>
    (\<forall>x a b. x < blk_size (fs_device s) \<and> a < b \<and> b \<le> BLOCK_SECTOR_SIZE \<longrightarrow>
       map_option fst (cached_read x a b s') = Some (take (b - a) (drop a
         (if x = sector then overwrite from (take (to - from) buffer) (sector_view s sector) else sector_view s x))))"
proof -
  obtain s' where s': "cached_write sector from to buffer s = Some s'" "cache_ok s'" "same_device s s'"
    "sector_view s' = (sector_view s)(sector := overwrite from (take (to - from) buffer) (sector_view s sector))"
    using cached_write_ok [OF assms(1,3,4,2,5)] by blast
  have "map_option fst (cached_read x a b s') = Some (take (b - a) (drop a (sector_view s' x)))"
    if "x < blk_size (fs_device s)" "a < b" "b \<le> BLOCK_SECTOR_SIZE" for x a b
    using cached_read_ok [OF s'(2) that(2,3), of x] that(1) s'(3) by (auto simp: same_device_def)
  then show ?thesis using s' by (intro exI [of _ s']) simp
qed

theorem cached_write_read_witness:
  "\<exists>s'. cached_write 7 0 2 [1, 2] sample_cache = Some s' \<and> map_option fst (cached_read 7 0 3 s') = Some [1, 2, 0] \<and>
     map_option fst (cached_read 8 0 2 s') = Some [0, 0]"
proof -
  obtain s' where s': "cached_write 7 0 2 [1, 2] sample_cache = Some s'"
    "\<forall>x a b. x < blk_size (fs_device sample_cache) \<and> a < b \<and> b \<le> BLOCK_SECTOR_SIZE \<longrightarrow>
       map_option fst (cached_read x a b s') = Some (take (b - a) (drop a
         (if x = 7 then overwrite 0 (take (2 - 0) [1, 2]) (sector_view sample_cache 7) else sector_view sample_cache x)))"
    using cached_write_read [OF sample_cache_ok(1), of 7 0 2 "[1, 2]"] sample_cache_ok(3)
    unfolding BLOCK_SECTOR_SIZE_def by fastforce
  from s'(2) [rule_format, of 7 0 3] s'(2) [rule_format, of 8 0 2] show ?thesis
    using s'(1) by (simp add: sample_cache_ok BLOCK_SECTOR_SIZE_def overwrite_def numeral_2_eq_2)
qed

text \<open>C26. \<open>write_back_all\<close> ends on an idle cache and leaves the presented contents alone, but because of the
  \<open>int\<close> shift \<open>1 << i\<close> it writes back the first 32 blocks only: afterwards those agree with the disk, and the
  other 32 are exactly as they were, dirty ones included.\<close>

theorem write_back_all_half:
  assumes "cache_ok s"
  shows "\<exists>s'. write_back_all s = Some s' \<and> cache_ok s' \<and> sector_view s' = sector_view s \<and>
    (\<forall>i < 32. cb_state (fs_cache s' ! i) \<noteq> UNOCCUPIED \<longrightarrow>
       blk_store (fs_device s') (cb_sector (fs_cache s' ! i)) = cb_data (fs_cache s' ! i)) \<and>
    (\<forall>i. 32 \<le> i \<and> i < CACHE_BLOCKS \<longrightarrow> fs_cache s' ! i = fs_cache s ! i)"
proof -
  obtain s' where s': "write_back_all s = Some s'" "cache_ok s'" "sector_view s' = sector_view s"
    "\<forall>i < 32. cb_state (fs_cache s' ! i) \<noteq> DIRTY"
    "\<forall>i. 32 \<le> i \<longrightarrow> i < CACHE_BLOCKS \<longrightarrow> fs_cache s' ! i = fs_cache s ! i"
    using write_back_all_ok [OF assms] by metis
  have "blk_store (fs_device s') (cb_sector (fs_cache s' ! i)) = cb_data (fs_cache s' ! i)"
    if "i < 32" "cb_state (fs_cache s' ! i) \<noteq> UNOCCUPIED" for i
  proof -
    have "block_ok (fs_device s') (fs_cache s' ! i)"
      using s'(2) that(1) by (simp add: cache_ok_def blocks_ok_def CACHE_BLOCKS_def)
    moreover have "cb_state (fs_cache s' ! i) = CLEAN"
      using calculation s'(4) that by (cases "cb_state (fs_cache s' ! i)") (auto simp: block_ok_def)
    ultimately show ?thesis by (simp add: block_ok_def)
  qed
  then show ?thesis using s' by blast
qed

theorem write_back_all_half_witness:
  "\<exists>s'. write_back_all sample_cache = Some s' \<and> sector_view s' 3 = replicate 512 0"
  using write_back_all_half [OF sample_cache_ok(1)] sample_cache_ok(2) by auto

end
