(* ===== verification/Inode_Rw.thy ===== *)
theory Inode_Rw
  imports Cache
begin

text \<open>
  Inodes on disk and in memory, and the reading and writing of file contents through the buffer cache
  (\<open>filesys/inode.h\<close>, and the first half of \<open>filesys/inode.c\<close>).  Shown: \<open>inode_read_at\<close> returns, and
  \<open>inode_write_at\<close> replaces, the requested part of the file's contents, cut at the end of the file.
\<close>

section \<open>Definitions\<close>

subsection \<open>Numbers in memory\<close>

text \<open>A 32-bit unsigned number as four bytes, low byte first.\<close>

definition le32 :: "nat \<Rightarrow> u8 list" where
  "le32 n = map (\<lambda>i. word_of_nat (n div 256 ^ i)) [0..<4]"

definition of_le32 :: "u8 list \<Rightarrow> nat" where
  "of_le32 bs = (\<Sum>i \<leftarrow> [0..<4]. unat (bs ! i) * 256 ^ i)"

text \<open>A 32-bit \<open>int\<close>: the result of an operation wraps around.\<close>

definition s32 :: "int \<Rightarrow> int" where
  "s32 x = (x + 2 ^ 31) mod 2 ^ 32 - 2 ^ 31"

subsection \<open>Inodes\<close>

definition INODE_MAGIC :: nat where
  "INODE_MAGIC = 0x494e4f44"

record inode_disk =
  id_start :: nat
  id_length :: int
  id_magic :: nat
  id_unused :: "u8 list"

record inode =
  i_sector :: nat
  open_cnt :: int
  removed :: bool
  deny_write_cnt :: int
  i_data :: inode_disk

text \<open>The structure as the 512 bytes of its sector.\<close>

definition disk_bytes :: "inode_disk \<Rightarrow> u8 list" where
  "disk_bytes d = le32 (id_start d) @ le32 (nat (id_length d mod 2 ^ 32)) @ le32 (id_magic d) @ id_unused d"

definition of_disk_bytes :: "u8 list \<Rightarrow> inode_disk" where
  "of_disk_bytes bs =
     \<lparr>id_start = of_le32 bs, id_length = s32 (int (of_le32 (drop 4 bs))), id_magic = of_le32 (drop 8 bs),
      id_unused = drop 12 bs\<rparr>"

definition bytes_to_sectors :: "int \<Rightarrow> nat" where
  "bytes_to_sectors sz = nat ((s32 (sz + int BLOCK_SECTOR_SIZE - 1) sdiv int BLOCK_SECTOR_SIZE) mod 2 ^ 32)"

definition byte_to_sector :: "inode \<Rightarrow> int \<Rightarrow> nat" where
  "byte_to_sector inode pos =
     (if pos < id_length (i_data inode)
      then nat ((int (id_start (i_data inode)) + pos sdiv int BLOCK_SECTOR_SIZE) mod 2 ^ 32)
      else 2 ^ 32 - 1)"

definition inode_length :: "inode \<Rightarrow> int" where
  "inode_length inode = id_length (i_data inode)"

text \<open>An \<open>int\<close> passed as a \<open>uint32_t\<close>.\<close>

definition uint32 :: "int \<Rightarrow> nat" where
  "uint32 x = nat (x mod 2 ^ 32)"

text \<open>The size of the next chunk of \<open>inode_read_at\<close> and \<open>inode_write_at\<close>: the rest of the request, of the file,
  or of the sector.\<close>

definition chunk_size :: "inode \<Rightarrow> int \<Rightarrow> int \<Rightarrow> int" where
  "chunk_size inode sz offset =
     (let sector_ofs = offset smod int BLOCK_SECTOR_SIZE;
          inode_left = inode_length inode - offset;
          sector_left = int BLOCK_SECTOR_SIZE - sector_ofs;
          min_left = (if inode_left < sector_left then inode_left else sector_left)
      in if sz < min_left then sz else min_left)"

function read_at_loop :: "inode \<Rightarrow> int \<Rightarrow> int \<Rightarrow> cache \<Rightarrow> (u8 list \<times> cache) option" where
  "read_at_loop inode sz offset s =
     (if sz > 0 then
        (let sector_idx = byte_to_sector inode offset;
             sector_ofs = offset smod int BLOCK_SECTOR_SIZE;
             chunk = chunk_size inode sz offset
         in if chunk \<le> 0 then Some ([], s)
            else do {
              (d, s) \<leftarrow> cached_read sector_idx (uint32 sector_ofs) (uint32 (sector_ofs + chunk)) s;
              (rest, s) \<leftarrow> read_at_loop inode (sz - chunk) (offset + chunk) s;
              Some (d @ rest, s) })
      else Some ([], s))"
  by auto
termination by (relation "measure (\<lambda>(inode, sz, offset, s). nat sz)") auto

function write_at_loop :: "inode \<Rightarrow> u8 list \<Rightarrow> int \<Rightarrow> int \<Rightarrow> int \<Rightarrow> cache \<Rightarrow> (int \<times> cache) option" where
  "write_at_loop inode buffer sz offset bytes_written s =
     (if sz > 0 then
        (let sector_idx = byte_to_sector inode offset;
             sector_ofs = offset smod int BLOCK_SECTOR_SIZE;
             chunk = chunk_size inode sz offset
         in if chunk \<le> 0 then Some (bytes_written, s)
            else do {
              s \<leftarrow> cached_write sector_idx (uint32 sector_ofs) (uint32 (sector_ofs + chunk)) (drop (nat bytes_written) buffer) s;
              write_at_loop inode buffer (sz - chunk) (offset + chunk) (bytes_written + chunk) s })
      else Some (bytes_written, s))"
  by auto
termination by (relation "measure (\<lambda>(inode, buffer, sz, offset, b, s). nat sz)") auto

declare read_at_loop.simps [simp del] write_at_loop.simps [simp del]

section \<open>Encoding\<close>

lemma length_le32 [simp]: "length (le32 n) = 4"
  by (simp add: le32_def)

lemma base256_sum:
  "n = q1 * 256 + r0 \<Longrightarrow> q1 = q2 * 256 + r1 \<Longrightarrow> q2 = q3 * 256 + r2 \<Longrightarrow>
   r0 + (r1 * 256 + (r2 * 65536 + q3 * 16777216)) = (n :: nat)"
  by simp

lemma of_le32_le32: "n < 2 ^ 32 \<Longrightarrow> of_le32 (le32 n @ rest) = n"
proof -
  assume "n < 2 ^ 32"
  have "n div 65536 = n div 256 div 256" "n div 16777216 = n div 256 div 256 div 256"
    by (simp_all flip: div_mult2_eq)
  then have "n mod 256 + (n div 256 mod 256 * 256 + (n div 65536 mod 256 * 65536 + n div 16777216 * 16777216)) = n"
    using base256_sum [of n "n div 256" "n mod 256" "n div 256 div 256" "n div 256 mod 256"
      "n div 256 div 256 div 256" "n div 256 div 256 mod 256"] by (simp only: div_mult_mod_eq)
  then show ?thesis
    using \<open>n < 2 ^ 32\<close> by (simp add: of_le32_def le32_def upt_rec nth_Cons' unat_of_nat take_bit_eq_mod)
qed

lemma of_le32_append: "4 \<le> length bs \<Longrightarrow> of_le32 (bs @ rest) = of_le32 bs"
  by (auto simp: of_le32_def upt_rec nth_append)

lemma s32_id: "- (2 ^ 31) \<le> x \<Longrightarrow> x < 2 ^ 31 \<Longrightarrow> s32 x = x"
  by (simp add: s32_def)

definition disk_inode_wf :: "inode_disk \<Rightarrow> bool" where
  "disk_inode_wf d \<longleftrightarrow> id_start d < 2 ^ 32 \<and> - (2 ^ 31) \<le> id_length d \<and> id_length d < 2 ^ 31 \<and> id_magic d < 2 ^ 32 \<and>
     length (id_unused d) = 500"

lemma disk_bytes_roundtrip:
  assumes "disk_inode_wf d"
  shows "of_disk_bytes (disk_bytes d) = d" "length (disk_bytes d) = BLOCK_SECTOR_SIZE"
proof -
  have l: "s32 (int (nat (id_length d mod 2 ^ 32))) = id_length d"
  proof -
    have "(id_length d mod 2 ^ 32 + 2 ^ 31) mod 2 ^ 32 = (id_length d + 2 ^ 31) mod 2 ^ 32" by (simp only: mod_add_left_eq)
    also have "\<dots> = id_length d + 2 ^ 31" using assms by (intro mod_pos_pos_trivial) (simp_all add: disk_inode_wf_def)
    finally show ?thesis by (simp add: s32_def)
  qed
  have lt: "nat (id_length d mod 2 ^ 32) < 2 ^ 32" by (simp add: nat_less_iff)
  show "of_disk_bytes (disk_bytes d) = d"
    using assms l of_le32_le32 [OF lt] unfolding of_disk_bytes_def disk_bytes_def disk_inode_wf_def
    by (cases d) (simp add: of_le32_le32)
  show "length (disk_bytes d) = BLOCK_SECTOR_SIZE"
    using assms by (simp add: disk_bytes_def disk_inode_wf_def BLOCK_SECTOR_SIZE_def)
qed

section \<open>File contents\<close>

definition sector_cnt :: "inode_disk \<Rightarrow> nat" where
  "sector_cnt d = (nat (id_length d) + 511) div 512"

definition extent :: "inode_disk \<Rightarrow> nat set" where
  "extent d = {id_start d..<id_start d + sector_cnt d}"

definition extent_ok :: "nat \<Rightarrow> inode_disk \<Rightarrow> bool" where
  "extent_ok sectors d \<longleftrightarrow> 0 \<le> id_length d \<and> id_start d + sector_cnt d \<le> sectors \<and> sectors < 2 ^ 32"

text \<open>The bytes of a file when \<open>v\<close> gives the contents of the sectors.\<close>

definition file_bytes :: "(nat \<Rightarrow> u8 list) \<Rightarrow> inode_disk \<Rightarrow> u8 list" where
  "file_bytes v d = map (\<lambda>i. v (id_start d + i div 512) ! (i mod 512)) [0..<nat (id_length d)]"

lemma length_file_bytes [simp]: "length (file_bytes v d) = nat (id_length d)"
  by (simp add: file_bytes_def)

lemma nth_file_bytes [simp]:
  "i < nat (id_length d) \<Longrightarrow> file_bytes v d ! i = v (id_start d + i div 512) ! (i mod 512)"
  by (simp add: file_bytes_def)

lemma file_bytes_cong:
  assumes "\<And>x. x \<in> extent d \<Longrightarrow> v x = v' x"
  shows "file_bytes v d = file_bytes v' d"
proof (rule nth_equalityI)
  fix i assume "i < length (file_bytes v d)"
  then have "id_start d + i div 512 \<in> extent d" "i < nat (id_length d)" by (auto simp: extent_def sector_cnt_def)
  then show "file_bytes v d ! i = file_bytes v' d ! i" using assms by simp
qed simp

text \<open>The chunk of the loops lies in one sector of the file.\<close>

lemma chunk_facts:
  assumes d: "extent_ok sectors (i_data inode)" and o: "0 \<le> offset" and sz: "0 < sz"
    and c: "chunk_size inode sz offset = chunk" "0 < chunk"
  shows "chunk \<le> sz" "offset + chunk \<le> id_length (i_data inode)"
    "uint32 (offset smod int BLOCK_SECTOR_SIZE) = nat offset mod 512" "nat offset mod 512 + nat chunk \<le> BLOCK_SECTOR_SIZE"
    "byte_to_sector inode offset = id_start (i_data inode) + nat offset div 512"
    "id_start (i_data inode) + nat offset div 512 \<in> extent (i_data inode)"
    "id_start (i_data inode) + nat offset div 512 < sectors"
    "uint32 (offset smod int BLOCK_SECTOR_SIZE + chunk) = nat offset mod 512 + nat chunk"
proof -
  have m: "offset smod 512 = int (nat offset mod 512)" using o by (simp add: signed_modulo_int_def sgn_if zmod_int)
  have q: "offset sdiv 512 = int (nat offset div 512)" using o by (simp add: signed_divide_int_def sgn_if zdiv_int)
  have ml: "nat offset mod 512 < 512" by simp
  show le: "chunk \<le> sz" "offset + chunk \<le> id_length (i_data inode)"
    using c(1) by (auto simp: chunk_size_def inode_length_def Let_def split: if_splits)
  show "uint32 (offset smod int BLOCK_SECTOR_SIZE) = nat offset mod 512"
    using m ml by (simp add: uint32_def BLOCK_SECTOR_SIZE_def)
  have "chunk \<le> 512 - offset smod 512"
    using c(1) by (auto simp: chunk_size_def BLOCK_SECTOR_SIZE_def Let_def split: if_splits)
  then show top: "nat offset mod 512 + nat chunk \<le> BLOCK_SECTOR_SIZE" using m ml by (simp add: BLOCK_SECTOR_SIZE_def)
  have "offset smod int BLOCK_SECTOR_SIZE + chunk = int (nat offset mod 512 + nat chunk)"
    using m c(2) by (simp add: BLOCK_SECTOR_SIZE_def)
  then show "uint32 (offset smod int BLOCK_SECTOR_SIZE + chunk) = nat offset mod 512 + nat chunk"
    using top by (simp add: uint32_def BLOCK_SECTOR_SIZE_def del: of_nat_add)
  have in_ext: "nat offset div 512 < sector_cnt (i_data inode)"
  proof -
    have "nat offset < nat (id_length (i_data inode))" using le(2) c(2) o by simp
    then show ?thesis unfolding sector_cnt_def by linarith
  qed
  then show "id_start (i_data inode) + nat offset div 512 \<in> extent (i_data inode)" by (simp add: extent_def)
  show lt: "id_start (i_data inode) + nat offset div 512 < sectors" using d in_ext by (simp add: extent_ok_def)
  have "offset < id_length (i_data inode)" using le(2) c(2) by simp
  moreover have "id_start (i_data inode) + nat offset div 512 < 2 ^ 32" using lt d by (simp add: extent_ok_def)
  ultimately show "byte_to_sector inode offset = id_start (i_data inode) + nat offset div 512"
    using q by (simp add: byte_to_sector_def BLOCK_SECTOR_SIZE_def flip: of_nat_add)
qed

text \<open>At a negative offset inside a sector, \<open>sector_ofs\<close> is negative and becomes a large unsigned number, so that the
  assertions of the cache stop the kernel.\<close>

lemma negative_offset_stops:
  assumes "0 < sz" "0 < chunk_size inode sz offset" "offset smod int BLOCK_SECTOR_SIZE < 0"
  shows "read_at_loop inode sz offset s = None" "write_at_loop inode buffer sz offset b s = None"
proof -
  define o' where "o' = offset smod int BLOCK_SECTOR_SIZE"
  have "0 \<le> \<bar>offset\<bar> mod 512" "\<bar>offset\<bar> mod 512 < 512" by simp_all
  then have "- 512 < o'" "o' < 0"
    using assms(3) by (auto simp only: o'_def BLOCK_SECTOR_SIZE_def signed_modulo_int_def sgn_if of_nat_numeral abs_numeral split: if_splits)
  then have "(o' + 2 ^ 32) mod 2 ^ 32 = o' + 2 ^ 32" by (intro mod_pos_pos_trivial) simp_all
  then have "uint32 o' = nat (o' + 2 ^ 32)" by (simp add: uint32_def)
  then have "BLOCK_SECTOR_SIZE < uint32 o'" using \<open>- 512 < o'\<close> by (simp add: BLOCK_SECTOR_SIZE_def)
  then have "cached_read_write i w (uint32 o') x bs s = None" for i w x bs by (simp add: cached_read_write_def)
  then show "read_at_loop inode sz offset s = None" "write_at_loop inode buffer sz offset b s = None"
    using assms(1,2) by (simp_all add: read_at_loop.simps [of inode sz offset s] write_at_loop.simps [of inode buffer sz offset b s]
        cached_read_def cached_write_def o'_def Let_def)
qed

lemma chunk_none:
  assumes "extent_ok sectors (i_data inode)" "0 \<le> offset" "0 < sz" "chunk_size inode sz offset \<le> 0"
  shows "id_length (i_data inode) \<le> offset"
proof -
  have "offset smod 512 < 512" using assms(2) by (simp add: signed_modulo_int_def sgn_if)
  then show ?thesis
    using assms(3,4) by (auto simp: chunk_size_def inode_length_def BLOCK_SECTOR_SIZE_def Let_def split: if_splits)
qed

lemma same_sector:
  assumes "k < c" "a mod 512 + c \<le> (512 :: nat)"
  shows "(a + k) div 512 = a div 512" "(a + k) mod 512 = a mod 512 + k"
proof -
  have e: "a + k = (a mod 512 + k) + 512 * (a div 512)" by simp
  have lt: "a mod 512 + k < 512" using assms by linarith
  have "(x + 512 * q) div 512 = q" "(x + 512 * q) mod 512 = x" if "x < 512" for x q :: nat
    using that by simp_all
  from this [OF lt, of "a div 512"] show "(a + k) div 512 = a div 512" "(a + k) mod 512 = a mod 512 + k"
    unfolding e [symmetric] by simp_all
qed

lemma sector_slice:
  assumes "a + c \<le> nat (id_length d)" "a mod 512 + c \<le> 512" "length (v (id_start d + a div 512)) = 512"
  shows "take c (drop (a mod 512) (v (id_start d + a div 512))) = take c (drop a (file_bytes v d))"
  by (rule nth_equalityI) (use assms same_sector in auto)

lemma read_at_loop_ok:
  assumes "cache_ok s" "extent_ok (blk_size (fs_device s)) (i_data inode)" "0 \<le> offset"
  shows "\<exists>s'. read_at_loop inode sz offset s =
      Some (take (nat sz) (drop (nat offset) (file_bytes (sector_view s) (i_data inode))), s') \<and>
    cache_ok s' \<and> sector_view s' = sector_view s \<and> same_device s s'"
  using assms
proof (induction "nat sz" arbitrary: sz offset s rule: less_induct)
  case less
  define chunk where "chunk = chunk_size inode sz offset"
  note ok = less.prems
  let ?f = "file_bytes (sector_view s) (i_data inode)"
  consider (stop) "sz \<le> 0" | (cut) "0 < sz" "chunk \<le> 0" | (step) "0 < sz" "0 < chunk" by linarith
  then show ?case
  proof cases
    case stop
    then show ?thesis using ok by (auto simp: read_at_loop.simps)
  next
    case cut
    then have "id_length (i_data inode) \<le> offset" using chunk_none ok chunk_def by blast
    then show ?thesis using cut ok by (auto simp: read_at_loop.simps [of inode sz offset s] chunk_def Let_def)
  next
    case step
    note c = chunk_facts [OF ok(2,3) step(1) chunk_def [symmetric] step(2)]
    obtain t where t: "cached_read (byte_to_sector inode offset) (nat offset mod 512) (nat offset mod 512 + nat chunk) s =
        Some (take (nat chunk) (drop (nat offset mod 512) (sector_view s (byte_to_sector inode offset))), t)"
      "cache_ok t" "sector_view t = sector_view s" "same_device s t"
      using cached_read_ok [OF ok(1), of "nat offset mod 512" "nat offset mod 512 + nat chunk" "byte_to_sector inode offset"]
        c step(2) by auto
    have sz: "blk_size (fs_device t) = blk_size (fs_device s)" using t(4) by (simp add: same_device_def)
    obtain u where u: "read_at_loop inode (sz - chunk) (offset + chunk) t =
        Some (take (nat (sz - chunk)) (drop (nat (offset + chunk)) ?f), u)" "cache_ok u"
      "sector_view u = sector_view t" "same_device t u"
      using less.hyps [of "sz - chunk" t "offset + chunk"] t(2,3) sz ok(2,3) step by auto
    have "take (nat chunk) (drop (nat offset mod 512) (sector_view s (byte_to_sector inode offset))) =
        take (nat chunk) (drop (nat offset) ?f)"
      unfolding c(5) using c(2,4,7) ok(3) step(2) view_length [of s] ok(1)
      by (intro sector_slice) (auto simp: cache_ok_def BLOCK_SECTOR_SIZE_def)
    then have "take (nat chunk) (drop (nat offset mod 512) (sector_view s (byte_to_sector inode offset))) @
        take (nat (sz - chunk)) (drop (nat (offset + chunk)) ?f) = take (nat sz) (drop (nat offset) ?f)"
      using c(1) step(2) ok(3) take_add [of "nat chunk" "nat (sz - chunk)" "drop (nat offset) ?f"]
      by (simp add: nat_diff_distrib nat_add_distrib add.commute)
    then have "read_at_loop inode sz offset s = Some (take (nat sz) (drop (nat offset) ?f), u)"
      using t(1) u(1) step c(3,8) by (simp add: read_at_loop.simps [of inode sz offset s] chunk_def [symmetric])
    then show ?thesis using t(3) u(2,3) same_device_trans [OF t(4) u(4)] by simp
  qed
qed

lemma nth_overwrite:
  assumes "from + length d \<le> length old" "i < length old"
  shows "overwrite from d old ! i = (if from \<le> i \<and> i < from + length d then d ! (i - from) else old ! i)"
  using assms by (auto simp: overwrite_def nth_append)

text \<open>\<open>patched v' v d a n w\<close>: the contents \<open>v'\<close> of the disk differ from \<open>v\<close> in the \<open>n\<close> bytes of the file from \<open>a\<close> on only,
  and these are the bytes \<open>w\<close>.\<close>

definition patched :: "(nat \<Rightarrow> u8 list) \<Rightarrow> (nat \<Rightarrow> u8 list) \<Rightarrow> inode_disk \<Rightarrow> nat \<Rightarrow> u8 list \<Rightarrow> bool" where
  "patched v' v d a w \<longleftrightarrow> file_bytes v' d = overwrite a w (file_bytes v d) \<and> (\<forall>x. x \<notin> extent d \<longrightarrow> v' x = v x)"

lemma patched_Nil [simp]: "patched v v d a []"
  by (simp add: patched_def overwrite_def)

lemma overwrite_append:
  "a + length w + length w' \<le> length old \<Longrightarrow> overwrite (a + length w) w' (overwrite a w old) = overwrite a (w @ w') old"
  by (simp add: overwrite_def ac_simps)

lemma patched_append:
  assumes "patched v2 v1 d (a + length w) w'" "patched v1 v d a w" "a + length w + length w' \<le> nat (id_length d)"
  shows "patched v2 v d a (w @ w')"
  using assms overwrite_append [of a w w' "file_bytes v d"] by (simp add: patched_def)

text \<open>One chunk.\<close>

lemma patched_sector:
  assumes c: "a + length w \<le> nat (id_length d)" "a mod 512 + length w \<le> 512" "length (v (id_start d + a div 512)) = 512"
    and x: "id_start d + a div 512 \<in> extent d"
  shows "patched (v(id_start d + a div 512 := overwrite (a mod 512) w (v (id_start d + a div 512)))) v d a w"
    (is "patched ?v' v d a w")
proof -
  have "file_bytes ?v' d = overwrite a w (file_bytes v d)"
  proof (rule nth_equalityI)
    show "length (file_bytes ?v' d) = length (overwrite a w (file_bytes v d))" using c(1) by simp
    fix i assume "i < length (file_bytes ?v' d)"
    then have i: "i < nat (id_length d)" by simp
    have r: "overwrite a w (file_bytes v d) ! i =
        (if a \<le> i \<and> i < a + length w then w ! (i - a) else v (id_start d + i div 512) ! (i mod 512))"
      using nth_overwrite [of a w "file_bytes v d" i] c(1) i by simp
    show "file_bytes ?v' d ! i = overwrite a w (file_bytes v d) ! i"
    proof (cases "i div 512 = a div 512")
      case True
      have ia: "a mod 512 \<le> i mod 512 \<and> i mod 512 < a mod 512 + length w \<longleftrightarrow> a \<le> i \<and> i < a + length w"
        "i mod 512 - a mod 512 = i - a"
        using True div_mult_mod_eq [of i 512] div_mult_mod_eq [of a 512] by linarith+
      have "file_bytes ?v' d ! i = overwrite (a mod 512) w (v (id_start d + a div 512)) ! (i mod 512)"
        using i True by simp
      also have "\<dots> = (if a \<le> i \<and> i < a + length w then w ! (i - a) else v (id_start d + a div 512) ! (i mod 512))"
        using nth_overwrite [of "a mod 512" w "v (id_start d + a div 512)" "i mod 512"] c(2,3) ia by simp
      finally show ?thesis using r True by simp
    next
      case False
      then have "\<not> (a \<le> i \<and> i < a + length w)"
        using same_sector(1) [of "i - a" "length w" a] c(2) by fastforce
      then have "overwrite a w (file_bytes v d) ! i = v (id_start d + i div 512) ! (i mod 512)" using r by argo
      then show ?thesis using i False by simp
    qed
  qed
  then show ?thesis using x by (auto simp: patched_def)
qed

lemma write_at_loop_ok:
  assumes "cache_ok s" "extent_ok (blk_size (fs_device s)) (i_data inode)" "0 \<le> offset" "0 \<le> b"
    and "nat b + nat sz \<le> length buffer"
  shows "\<exists>n s'. write_at_loop inode buffer sz offset b s = Some (b + int n, s') \<and>
    n = nat (min sz (id_length (i_data inode) - offset)) \<and> cache_ok s' \<and> same_device s s' \<and>
    patched (sector_view s') (sector_view s) (i_data inode) (nat offset) (take n (drop (nat b) buffer))"
  using assms
proof (induction "nat sz" arbitrary: sz offset b s rule: less_induct)
  case less
  define chunk where "chunk = chunk_size inode sz offset"
  note ok = less.prems
  let ?d = "i_data inode"
  consider (stop) "sz \<le> 0" | (cut) "0 < sz" "chunk \<le> 0" | (step) "0 < sz" "0 < chunk" by linarith
  then show ?case
  proof cases
    case stop
    then show ?thesis using ok(1) by (simp add: write_at_loop.simps)
  next
    case cut
    then have "id_length ?d \<le> offset" using chunk_none ok chunk_def by blast
    then show ?thesis
      using cut ok(1) by (simp add: write_at_loop.simps [of inode buffer sz offset b s] chunk_def Let_def)
  next
    case step
    note c = chunk_facts [OF ok(2,3) step(1) chunk_def [symmetric] step(2)]
    define w where "w = take (nat chunk) (drop (nat b) buffer)"
    have lw: "length w = nat chunk" using ok(5) c(1) by (simp add: w_def)
    have lb: "nat chunk \<le> length (drop (nat b) buffer)" using ok(5) c(1) by simp
    obtain t where t: "cached_write (byte_to_sector inode offset) (nat offset mod 512) (nat offset mod 512 + nat chunk)
        (drop (nat b) buffer) s = Some t"
      "cache_ok t" "same_device s t" "sector_view t = (sector_view s)(byte_to_sector inode offset :=
        overwrite (nat offset mod 512) w (sector_view s (byte_to_sector inode offset)))"
    proof (rule cached_write_ok [OF ok(1), of "nat offset mod 512" "nat offset mod 512 + nat chunk" "byte_to_sector inode offset"
        "drop (nat b) buffer"])
      show "nat offset mod 512 < nat offset mod 512 + nat chunk" using step(2) by simp
      show "byte_to_sector inode offset < blk_size (fs_device s)" unfolding c(5) by (rule c(7))
      show "nat offset mod 512 + nat chunk - nat offset mod 512 \<le> length (drop (nat b) buffer)" using lb by simp
    qed (use c(4) that in \<open>simp_all add: w_def\<close>)
    have "length (sector_view s (byte_to_sector inode offset)) = 512"
      using view_length [of s "byte_to_sector inode offset"] ok(1) c(5,7) by (simp add: cache_ok_def BLOCK_SECTOR_SIZE_def)
    then have pt: "patched (sector_view t) (sector_view s) ?d (nat offset) w"
      unfolding t(4) c(5) using c(2,4,6) lw ok(3) step(2)
      by (intro patched_sector) (auto simp: BLOCK_SECTOR_SIZE_def)
    have szt: "blk_size (fs_device t) = blk_size (fs_device s)" using t(3) by (simp add: same_device_def)
    define n where "n = nat (min (sz - chunk) (id_length ?d - (offset + chunk)))"
    obtain u where u: "write_at_loop inode buffer (sz - chunk) (offset + chunk) (b + chunk) t = Some (b + chunk + int n, u)"
      "cache_ok u" "same_device t u"
      "patched (sector_view u) (sector_view t) ?d (nat (offset + chunk)) (take n (drop (nat (b + chunk)) buffer))"
      using less.hyps [of "sz - chunk" t "offset + chunk" "b + chunk"] t(2) szt ok(2-5) step c(1)
      by (auto simp: n_def nat_add_distrib nat_diff_distrib)
    have nn: "nat chunk + n = nat (min sz (id_length ?d - offset))" using c(1,2) step(2) unfolding n_def by linarith
    have e: "nat (offset + chunk) = nat offset + length w" "nat (b + chunk) = nat b + nat chunk"
      using lw ok(3,4) step(2) by (simp_all add: nat_add_distrib)
    have "patched (sector_view u) (sector_view s) ?d (nat offset) (w @ take n (drop (nat (b + chunk)) buffer))"
      using u(4) c(1,2) lw ok(3) step(2) unfolding e(1) by (intro patched_append [OF _ pt]) (auto simp: n_def)
    moreover have "w @ take n (drop (nat (b + chunk)) buffer) = take (nat chunk + n) (drop (nat b) buffer)"
      unfolding w_def e(2) take_add drop_drop by (simp add: add.commute)
    ultimately have "patched (sector_view u) (sector_view s) ?d (nat offset) (take (nat chunk + n) (drop (nat b) buffer))" by simp
    moreover have "write_at_loop inode buffer sz offset b s = Some (b + int (nat chunk + n), u)"
      using t(1) u(1) step c(3,8) by (simp add: write_at_loop.simps [of inode buffer sz offset b s] chunk_def [symmetric])
    ultimately show ?thesis using nn u(2) same_device_trans [OF t(3) u(3)] by metis
  qed
qed

end
