(* ===== verification/Inode.thy ===== *)
theory Inode
  imports Inode_Rw Bitmap
begin

text \<open>
  The in-memory state of the file system: open inodes (\<open>filesys/inode.c\<close>), the map of free sectors
  (\<open>filesys/free-map.c\<close>) and open files (\<open>filesys/file.c\<close>).  The three call one another: creating an inode
  allocates sectors, and allocating sectors writes the free map through its file.  Inodes, files and
  directories are structures on the heap, so an access to one that is not allocated stops the model.
  \<open>mallocs\<close> is what the successive calls of \<open>malloc\<close> and \<open>calloc\<close> will return.
\<close>

section \<open>Definitions\<close>

subsection \<open>State\<close>

definition FREE_MAP_SECTOR :: nat where
  "FREE_MAP_SECTOR = 0"

definition ROOT_DIR_SECTOR :: nat where
  "ROOT_DIR_SECTOR = 1"

record open_file =
  f_inode :: ptr
  f_pos :: int
  f_deny_write :: bool

record dir =
  d_inode :: ptr
  d_pos :: int

record filesys =
  fs_c :: cache
  open_inodes :: "ptr list"
  inodes :: "ptr \<rightharpoonup> inode"
  files :: "ptr \<rightharpoonup> open_file"
  dirs :: "ptr \<rightharpoonup> dir"
  free_map :: bitmap
  free_map_file :: ptr
  mallocs :: "ptr list"

definition new_block :: "filesys \<Rightarrow> ptr \<times> filesys" where
  "new_block s = (case mallocs s of [] \<Rightarrow> (NULL, s) | p # ps \<Rightarrow> (p, s\<lparr>mallocs := ps\<rparr>))"

definition set_inode :: "ptr \<Rightarrow> inode \<Rightarrow> filesys \<Rightarrow> filesys" where
  "set_inode p inode s = s\<lparr>inodes := (inodes s)(p \<mapsto> inode)\<rparr>"

definition set_file :: "ptr \<Rightarrow> open_file \<Rightarrow> filesys \<Rightarrow> filesys" where
  "set_file p f s = s\<lparr>files := (files s)(p \<mapsto> f)\<rparr>"

subsection \<open>Reading and writing\<close>

definition inode_read_at :: "ptr \<Rightarrow> int \<Rightarrow> int \<Rightarrow> filesys \<Rightarrow> (u8 list \<times> filesys) option" where
  "inode_read_at p sz offset s = do {
     inode \<leftarrow> inodes s p;
     (d, c) \<leftarrow> read_at_loop inode sz offset (fs_c s);
     Some (d, s\<lparr>fs_c := c\<rparr>) }"

definition inode_write_at :: "ptr \<Rightarrow> u8 list \<Rightarrow> int \<Rightarrow> int \<Rightarrow> filesys \<Rightarrow> (int \<times> filesys) option" where
  "inode_write_at p buffer sz offset s = do {
     inode \<leftarrow> inodes s p;
     if deny_write_cnt inode \<noteq> 0 then Some (0, s)
     else do {
       (n, c) \<leftarrow> write_at_loop inode buffer sz offset 0 (fs_c s);
       Some (n, s\<lparr>fs_c := c\<rparr>) } }"

definition file_read_at :: "ptr \<Rightarrow> int \<Rightarrow> int \<Rightarrow> filesys \<Rightarrow> (u8 list \<times> filesys) option" where
  "file_read_at f sz ofs s = do {
     file \<leftarrow> files s f;
     inode_read_at (f_inode file) sz ofs s }"

definition file_write_at :: "ptr \<Rightarrow> u8 list \<Rightarrow> int \<Rightarrow> int \<Rightarrow> filesys \<Rightarrow> (int \<times> filesys) option" where
  "file_write_at f buffer sz ofs s = do {
     file \<leftarrow> files s f;
     inode_write_at (f_inode file) buffer sz ofs s }"

subsection \<open>The free map\<close>

definition bitmap_bytes :: "bitmap \<Rightarrow> u8 list" where
  "bitmap_bytes b = concat (map (\<lambda>w. le32 (unat w)) (bits b))"

definition words_of :: "u8 list \<Rightarrow> u32 list" where
  "words_of bs = map (\<lambda>i. word_of_nat (of_le32 (drop (4 * i) bs))) [0..<length bs div 4]"

definition bitmap_write :: "bitmap \<Rightarrow> ptr \<Rightarrow> filesys \<Rightarrow> (bool \<times> filesys) option" where
  "bitmap_write b file s = do {
     let sz = int (byte_cnt (bit_cnt b));
     (n, s) \<leftarrow> file_write_at file (bitmap_bytes b) sz 0 s;
     Some (n = sz, s) }"

text \<open>\<open>bitmap_read\<close> with the file it reads: the bytes read replace the first bytes of the elements.\<close>

definition bitmap_read_file :: "bitmap \<Rightarrow> ptr \<Rightarrow> filesys \<Rightarrow> (bool \<times> bitmap \<times> filesys) option" where
  "bitmap_read_file b file s =
     (if bit_cnt b > 0 then do {
        (d, s) \<leftarrow> file_read_at file (int (byte_cnt (bit_cnt b))) 0 s;
        (ok, b) \<leftarrow> bitmap_read b (length d) (words_of (overwrite 0 d (bitmap_bytes b)));
        Some (ok, b, s) }
      else Some (True, b, s))"

text \<open>\<open>hdr\<close> and \<open>blk\<close> are the results of the two calls of \<open>malloc\<close> in \<open>bitmap_create\<close>.\<close>

definition free_map_init :: "bool \<Rightarrow> u32 list option \<Rightarrow> filesys \<Rightarrow> filesys option" where
  "free_map_init hdr blk s = do {
     r \<leftarrow> bitmap_create hdr blk (block_size (fs_device (fs_c s)));
     b \<leftarrow> r;
     b \<leftarrow> bitmap_mark b FREE_MAP_SECTOR;
     b \<leftarrow> bitmap_mark b ROOT_DIR_SECTOR;
     Some (s\<lparr>free_map := b\<rparr>) }"

text \<open>\<open>free_map_allocate\<close> returns the first sector (\<open>*sectorp\<close>), or \<open>None\<close> for \<open>false\<close>.\<close>

definition free_map_allocate :: "nat \<Rightarrow> filesys \<Rightarrow> (nat option \<times> filesys) option" where
  "free_map_allocate cnt s = do {
     (sector, b) \<leftarrow> bitmap_scan_and_flip (free_map s) 0 cnt False;
     let s = s\<lparr>free_map := b\<rparr>;
     (sector, s) \<leftarrow>
       (if sector \<noteq> BITMAP_ERROR \<and> free_map_file s \<noteq> NULL then do {
          (written, s) \<leftarrow> bitmap_write (free_map s) (free_map_file s) s;
          if \<not> written then do {
            b \<leftarrow> bitmap_set_multiple (free_map s) sector cnt False;
            Some (BITMAP_ERROR, s\<lparr>free_map := b\<rparr>) }
          else Some (sector, s) }
        else Some (sector, s));
     Some (if sector \<noteq> BITMAP_ERROR then Some sector else None, s) }"

definition free_map_release :: "nat \<Rightarrow> nat \<Rightarrow> filesys \<Rightarrow> filesys option" where
  "free_map_release sector cnt s = do {
     used \<leftarrow> bitmap_all (free_map s) sector cnt;
     ASSERT used;
     b \<leftarrow> bitmap_set_multiple (free_map s) sector cnt False;
     let s = s\<lparr>free_map := b\<rparr>;
     (_, s) \<leftarrow> bitmap_write (free_map s) (free_map_file s) s;
     Some s }"

subsection \<open>Inodes\<close>

definition inode_init :: "filesys \<Rightarrow> filesys" where
  "inode_init s = s\<lparr>open_inodes := []\<rparr>"

definition fs_write_sector :: "nat \<Rightarrow> u8 list \<Rightarrow> filesys \<Rightarrow> filesys option" where
  "fs_write_sector sector d s = do {
     c \<leftarrow> cached_write sector 0 BLOCK_SECTOR_SIZE d (fs_c s);
     Some (s\<lparr>fs_c := c\<rparr>) }"

fun write_zeros :: "nat \<Rightarrow> nat list \<Rightarrow> filesys \<Rightarrow> filesys option" where
  "write_zeros start [] s = Some s"
| "write_zeros start (i # is) s = do {
     s \<leftarrow> fs_write_sector ((start + i) mod 2 ^ 32) (replicate BLOCK_SECTOR_SIZE 0) s;
     write_zeros start is s }"

definition inode_create :: "nat \<Rightarrow> int \<Rightarrow> filesys \<Rightarrow> (bool \<times> filesys) option" where
  "inode_create sector len s = do {
     ASSERT (len \<ge> 0);
     let (p, s) = new_block s;
     if p \<noteq> NULL then do {
       let sectors = bytes_to_sectors len;
       (start, s) \<leftarrow> free_map_allocate sectors s;
       case start of
         None \<Rightarrow> Some (False, s)
       | Some start \<Rightarrow> do {
           s \<leftarrow> fs_write_sector sector
             (disk_bytes \<lparr>id_start = start, id_length = len, id_magic = INODE_MAGIC, id_unused = replicate 500 0\<rparr>) s;
           s \<leftarrow> (if sectors > 0 then write_zeros start [0..<sectors] s else Some s);
           Some (True, s) } }
     else Some (False, s) }"

definition inode_reopen :: "ptr \<Rightarrow> filesys \<Rightarrow> (ptr \<times> filesys) option" where
  "inode_reopen p s =
     (if p \<noteq> NULL then do {
        inode \<leftarrow> inodes s p;
        Some (p, set_inode p (inode\<lparr>open_cnt := open_cnt inode + 1\<rparr>) s) }
      else Some (p, s))"

text \<open>The search of \<open>inode_open\<close> in the list of open inodes.\<close>

fun find_open :: "nat \<Rightarrow> ptr list \<Rightarrow> filesys \<Rightarrow> ptr option option" where
  "find_open sector [] s = Some None"
| "find_open sector (p # ps) s = do {
     inode \<leftarrow> inodes s p;
     if i_sector inode = sector then Some (Some p) else find_open sector ps s }"

definition inode_open :: "nat \<Rightarrow> filesys \<Rightarrow> (ptr \<times> filesys) option" where
  "inode_open sector s = do {
     found \<leftarrow> find_open sector (open_inodes s) s;
     case found of
       Some p \<Rightarrow> inode_reopen p s
     | None \<Rightarrow> do {
         let (p, s) = new_block s;
         if p = NULL then Some (NULL, s)
         else do {
           let s = s\<lparr>open_inodes := p # open_inodes s\<rparr>;
           (d, c) \<leftarrow> cached_read sector 0 BLOCK_SECTOR_SIZE (fs_c s);
           let inode = \<lparr>i_sector = sector, open_cnt = 1, removed = False, deny_write_cnt = 0, i_data = of_disk_bytes d\<rparr>;
           Some (p, set_inode p inode (s\<lparr>fs_c := c\<rparr>)) } } }"

definition inode_get_inumber :: "ptr \<Rightarrow> filesys \<Rightarrow> nat option" where
  "inode_get_inumber p s = map_option i_sector (inodes s p)"

definition inode_close :: "ptr \<Rightarrow> filesys \<Rightarrow> filesys option" where
  "inode_close p s =
     (if p = NULL then Some s
      else do {
        inode \<leftarrow> inodes s p;
        let inode = inode\<lparr>open_cnt := open_cnt inode - 1\<rparr>;
        let s = set_inode p inode s;
        if open_cnt inode = 0 then do {
          let s = s\<lparr>open_inodes := remove1 p (open_inodes s)\<rparr>;
          s \<leftarrow> (if removed inode then do {
                 s \<leftarrow> free_map_release (i_sector inode) 1 s;
                 free_map_release (id_start (i_data inode)) (bytes_to_sectors (id_length (i_data inode))) s }
               else Some s);
          Some (s\<lparr>inodes := (inodes s)(p := None)\<rparr>) }
        else Some s })"

definition inode_remove :: "ptr \<Rightarrow> filesys \<Rightarrow> filesys option" where
  "inode_remove p s = do {
     ASSERT (p \<noteq> NULL);
     inode \<leftarrow> inodes s p;
     Some (set_inode p (inode\<lparr>removed := True\<rparr>) s) }"

definition inode_deny_write :: "ptr \<Rightarrow> filesys \<Rightarrow> filesys option" where
  "inode_deny_write p s = do {
     inode \<leftarrow> inodes s p;
     let inode = inode\<lparr>deny_write_cnt := deny_write_cnt inode + 1\<rparr>;
     ASSERT (deny_write_cnt inode \<le> open_cnt inode);
     Some (set_inode p inode s) }"

definition inode_allow_write :: "ptr \<Rightarrow> filesys \<Rightarrow> filesys option" where
  "inode_allow_write p s = do {
     inode \<leftarrow> inodes s p;
     ASSERT (deny_write_cnt inode > 0);
     ASSERT (deny_write_cnt inode \<le> open_cnt inode);
     Some (set_inode p (inode\<lparr>deny_write_cnt := deny_write_cnt inode - 1\<rparr>) s) }"

subsection \<open>Files\<close>

definition file_open :: "ptr \<Rightarrow> filesys \<Rightarrow> (ptr \<times> filesys) option" where
  "file_open p s = do {
     let (f, s) = new_block s;
     if p \<noteq> NULL \<and> f \<noteq> NULL
     then Some (f, set_file f \<lparr>f_inode = p, f_pos = 0, f_deny_write = False\<rparr> s)
     else do {
       s \<leftarrow> inode_close p s;
       Some (NULL, s) } }"

definition file_reopen :: "ptr \<Rightarrow> filesys \<Rightarrow> (ptr \<times> filesys) option" where
  "file_reopen f s = do {
     file \<leftarrow> files s f;
     (p, s) \<leftarrow> inode_reopen (f_inode file) s;
     file_open p s }"

definition file_allow_write :: "ptr \<Rightarrow> filesys \<Rightarrow> filesys option" where
  "file_allow_write f s = do {
     ASSERT (f \<noteq> NULL);
     file \<leftarrow> files s f;
     if f_deny_write file then inode_allow_write (f_inode file) (set_file f (file\<lparr>f_deny_write := False\<rparr>) s)
     else Some s }"

definition file_deny_write :: "ptr \<Rightarrow> filesys \<Rightarrow> filesys option" where
  "file_deny_write f s = do {
     ASSERT (f \<noteq> NULL);
     file \<leftarrow> files s f;
     if \<not> f_deny_write file then inode_deny_write (f_inode file) (set_file f (file\<lparr>f_deny_write := True\<rparr>) s)
     else Some s }"

definition file_close :: "ptr \<Rightarrow> filesys \<Rightarrow> filesys option" where
  "file_close f s =
     (if f \<noteq> NULL then do {
        s \<leftarrow> file_allow_write f s;
        file \<leftarrow> files s f;
        s \<leftarrow> inode_close (f_inode file) s;
        Some (s\<lparr>files := (files s)(f := None)\<rparr>) }
      else Some s)"

definition file_get_inode :: "ptr \<Rightarrow> filesys \<Rightarrow> ptr option" where
  "file_get_inode f s = map_option f_inode (files s f)"

definition file_read :: "ptr \<Rightarrow> int \<Rightarrow> filesys \<Rightarrow> (u8 list \<times> filesys) option" where
  "file_read f sz s = do {
     file \<leftarrow> files s f;
     (d, s) \<leftarrow> inode_read_at (f_inode file) sz (f_pos file) s;
     Some (d, set_file f (file\<lparr>f_pos := s32 (f_pos file + int (length d))\<rparr>) s) }"

definition file_write :: "ptr \<Rightarrow> u8 list \<Rightarrow> int \<Rightarrow> filesys \<Rightarrow> (int \<times> filesys) option" where
  "file_write f buffer sz s = do {
     file \<leftarrow> files s f;
     (n, s) \<leftarrow> inode_write_at (f_inode file) buffer sz (f_pos file) s;
     Some (n, set_file f (file\<lparr>f_pos := s32 (f_pos file + n)\<rparr>) s) }"

definition file_length :: "ptr \<Rightarrow> filesys \<Rightarrow> int option" where
  "file_length f s = do {
     ASSERT (f \<noteq> NULL);
     file \<leftarrow> files s f;
     inode \<leftarrow> inodes s (f_inode file);
     Some (inode_length inode) }"

definition file_seek :: "ptr \<Rightarrow> int \<Rightarrow> filesys \<Rightarrow> filesys option" where
  "file_seek f new_pos s = do {
     ASSERT (f \<noteq> NULL);
     ASSERT (new_pos \<ge> 0);
     file \<leftarrow> files s f;
     Some (set_file f (file\<lparr>f_pos := new_pos\<rparr>) s) }"

definition file_tell :: "ptr \<Rightarrow> filesys \<Rightarrow> int option" where
  "file_tell f s = do {
     ASSERT (f \<noteq> NULL);
     file \<leftarrow> files s f;
     Some (f_pos file) }"

subsection \<open>The file of the free map\<close>

definition free_map_open :: "filesys \<Rightarrow> filesys option" where
  "free_map_open s = do {
     (p, s) \<leftarrow> inode_open FREE_MAP_SECTOR s;
     (f, s) \<leftarrow> file_open p s;
     let s = s\<lparr>free_map_file := f\<rparr>;
     ASSERT (f \<noteq> NULL);
     (ok, b, s) \<leftarrow> bitmap_read_file (free_map s) f s;
     ASSERT ok;
     Some (s\<lparr>free_map := b\<rparr>) }"

definition free_map_close :: "filesys \<Rightarrow> filesys option" where
  "free_map_close s = file_close (free_map_file s) s"

definition free_map_create :: "filesys \<Rightarrow> filesys option" where
  "free_map_create s = do {
     (ok, s) \<leftarrow> inode_create FREE_MAP_SECTOR (s32 (int (bitmap_file_size (free_map s)))) s;
     ASSERT ok;
     (p, s) \<leftarrow> inode_open FREE_MAP_SECTOR s;
     (f, s) \<leftarrow> file_open p s;
     let s = s\<lparr>free_map_file := f\<rparr>;
     ASSERT (f \<noteq> NULL);
     (written, s) \<leftarrow> bitmap_write (free_map s) f s;
     ASSERT written;
     Some s }"

section \<open>Contents of open inodes\<close>

abbreviation dev_sectors :: "filesys \<Rightarrow> nat" where
  "dev_sectors s \<equiv> blk_size (fs_device (fs_c s))"

abbreviation fs_view :: "filesys \<Rightarrow> nat \<Rightarrow> u8 list" where
  "fs_view s \<equiv> sector_view (fs_c s)"

definition contents :: "filesys \<Rightarrow> inode \<Rightarrow> u8 list" where
  "contents s inode = file_bytes (fs_view s) (i_data inode)"

definition inode_ok :: "filesys \<Rightarrow> ptr \<Rightarrow> inode \<Rightarrow> bool" where
  "inode_ok s p inode \<longleftrightarrow> cache_ok (fs_c s) \<and> inodes s p = Some inode \<and> extent_ok (dev_sectors s) (i_data inode)"

text \<open>\<open>recached s s'\<close>: only the cache has changed, and it presents the same disk.\<close>

definition recached :: "filesys \<Rightarrow> filesys \<Rightarrow> bool" where
  "recached s s' \<longleftrightarrow> (\<exists>c. s' = s\<lparr>fs_c := c\<rparr> \<and> cache_ok c \<and> sector_view c = fs_view s \<and> same_device (fs_c s) c)"

lemma recached_refl: "cache_ok (fs_c s) \<Longrightarrow> recached s s"
  unfolding recached_def by (rule exI [of _ "fs_c s"]) simp

lemma recachedI: "cache_ok c \<Longrightarrow> sector_view c = fs_view s \<Longrightarrow> same_device (fs_c s) c \<Longrightarrow> recached s (s\<lparr>fs_c := c\<rparr>)"
  by (auto simp: recached_def)

lemma recached_trans:
  assumes "recached s t" "recached t u"
  shows "recached s u"
proof -
  obtain c where c: "t = s\<lparr>fs_c := c\<rparr>" "sector_view c = fs_view s" "same_device (fs_c s) c"
    using assms(1) by (auto simp: recached_def)
  obtain c' where c': "u = t\<lparr>fs_c := c'\<rparr>" "cache_ok c'" "sector_view c' = fs_view t" "same_device (fs_c t) c'"
    using assms(2) by (auto simp: recached_def)
  have "same_device (fs_c s) c'" using same_device_trans [of "fs_c s" c c'] c c' by simp
  then have "recached s (s\<lparr>fs_c := c'\<rparr>)" using c c' by (intro recachedI) simp_all
  then show ?thesis using c(1) c'(1) by simp
qed

lemma recachedD:
  assumes "recached s s'"
  shows "cache_ok (fs_c s')" "fs_view s' = fs_view s" "dev_sectors s' = dev_sectors s" "inodes s' = inodes s"
    "files s' = files s" "dirs s' = dirs s" "open_inodes s' = open_inodes s" "free_map s' = free_map s"
    "free_map_file s' = free_map_file s" "mallocs s' = mallocs s" "contents s' inode = contents s inode"
  using assms by (auto simp: recached_def same_device_def contents_def)

lemma inode_ok_recached: "inode_ok s p inode \<Longrightarrow> recached s s' \<Longrightarrow> inode_ok s' p inode"
  using recachedD [of s s'] by (simp add: inode_ok_def)

lemma inode_read_at_ok:
  assumes "inode_ok s p inode" "0 \<le> offset"
  obtains s' where "inode_read_at p sz offset s = Some (take (nat sz) (drop (nat offset) (contents s inode)), s')" "recached s s'"
proof -
  obtain c where "read_at_loop inode sz offset (fs_c s) = Some (take (nat sz) (drop (nat offset) (contents s inode)), c)"
    "cache_ok c" "sector_view c = fs_view s" "same_device (fs_c s) c"
    using read_at_loop_ok [of "fs_c s" inode offset sz] assms by (auto simp: inode_ok_def contents_def)
  then show thesis using that [of "s\<lparr>fs_c := c\<rparr>"] recachedI [of c s] assms by (simp add: inode_read_at_def inode_ok_def)
qed

lemma inode_write_at_ok:
  assumes "inode_ok s p inode" "0 \<le> offset" "nat sz \<le> length buffer" "deny_write_cnt inode = 0"
  obtains s' n where "inode_write_at p buffer sz offset s = Some (int n, s')"
    "n = nat (min sz (id_length (i_data inode) - offset))"
    "s' = s\<lparr>fs_c := fs_c s'\<rparr>" "cache_ok (fs_c s')" "same_device (fs_c s) (fs_c s')"
    "patched (fs_view s') (fs_view s) (i_data inode) (nat offset) (take n buffer)"
proof -
  obtain n c where "write_at_loop inode buffer sz offset 0 (fs_c s) = Some (int n, c)"
    "n = nat (min sz (id_length (i_data inode) - offset))" "cache_ok c" "same_device (fs_c s) c"
    "patched (sector_view c) (fs_view s) (i_data inode) (nat offset) (take n buffer)"
    using write_at_loop_ok [of "fs_c s" inode offset 0 sz buffer] assms by (auto simp: inode_ok_def)
  then show thesis using that [of n "s\<lparr>fs_c := c\<rparr>"] assms by (simp add: inode_write_at_def inode_ok_def)
qed

text \<open>Writing to a file leaves every file with a disjoint extent alone.\<close>

lemma patched_other:
  assumes "patched v' v d a w" "extent d \<inter> extent d' = {}"
  shows "file_bytes v' d' = file_bytes v d'"
  using assms by (intro file_bytes_cong) (auto simp: patched_def)

section \<open>The free map\<close>

lemma length_bitmap_bytes: "length (bitmap_bytes b) = 4 * length (bits b)"
  by (simp add: bitmap_bytes_def length_concat comp_def sum_list_triv)

lemma drop_bitmap_bytes: "drop (4 * i) (bitmap_bytes b) = concat (map (\<lambda>w. le32 (unat w)) (drop i (bits b)))"
proof -
  have "drop (4 * i) (concat (map (\<lambda>w. le32 (unat w)) ws)) = concat (map (\<lambda>w. le32 (unat w)) (drop i ws))" for ws :: "u32 list"
  proof (induction i arbitrary: ws)
    case (Suc i)
    then show ?case by (cases ws) (simp_all add: add.commute)
  qed simp
  then show ?thesis by (simp add: bitmap_bytes_def)
qed

lemma words_of_bitmap_bytes: "words_of (bitmap_bytes b) = bits b"
proof (rule nth_equalityI)
  show "length (words_of (bitmap_bytes b)) = length (bits b)" by (simp add: words_of_def length_bitmap_bytes)
  fix i assume "i < length (words_of (bitmap_bytes b))"
  then have i: "i < length (bits b)" by (simp add: words_of_def length_bitmap_bytes)
  then have "drop (4 * i) (bitmap_bytes b) = le32 (unat (bits b ! i)) @ concat (map (\<lambda>w. le32 (unat w)) (drop (Suc i) (bits b)))"
    using Cons_nth_drop_Suc [OF i, symmetric] by (simp add: drop_bitmap_bytes)
  moreover have "unat (bits b ! i) < 2 ^ 32" using unsigned_less [of "bits b ! i"] by simp
  ultimately have "of_le32 (drop (4 * i) (bitmap_bytes b)) = unat (bits b ! i)" by (simp add: of_le32_le32)
  then show "words_of (bitmap_bytes b) ! i = bits b ! i" using i by (simp add: words_of_def length_bitmap_bytes)
qed

lemma byte_cnt_length: "bitmap_wf b \<Longrightarrow> byte_cnt (bit_cnt b) = length (bitmap_bytes b)"
  by (simp add: byte_cnt_def bitmap_wf_def length_bitmap_bytes)

text \<open>The inode of the open free map file.\<close>

definition fm_inode :: "filesys \<Rightarrow> (ptr \<times> inode) option" where
  "fm_inode s = do {
     file \<leftarrow> files s (free_map_file s);
     inode \<leftarrow> inodes s (f_inode file);
     Some (f_inode file, inode) }"

definition free_map_ok :: "filesys \<Rightarrow> bool" where
  "free_map_ok s \<longleftrightarrow> cache_ok (fs_c s) \<and> bitmap_wf (free_map s) \<and> bit_cnt (free_map s) = dev_sectors s \<and>
     free_map_file s \<noteq> NULL \<and>
     (\<exists>p inode. fm_inode s = Some (p, inode) \<and> inode_ok s p inode \<and> deny_write_cnt inode = 0 \<and>
        id_length (i_data inode) = int (byte_cnt (bit_cnt (free_map s))))"

definition fm_extent :: "filesys \<Rightarrow> nat set" where
  "fm_extent s = (case fm_inode s of None \<Rightarrow> {} | Some (_, inode) \<Rightarrow> extent (i_data inode))"

text \<open>The file of the free map holds the map in memory.  Its contents are those that the file system reads, through the
  buffer cache: the disk itself has them once the cache has written the blocks of the file back.\<close>

definition free_map_in_file :: "filesys \<Rightarrow> bool" where
  "free_map_in_file s \<longleftrightarrow> (case fm_inode s of None \<Rightarrow> False | Some (_, inode) \<Rightarrow> contents s inode = bitmap_bytes (free_map s))"

text \<open>\<open>remapped s s'\<close>: only the free map and its file have changed.\<close>

definition remapped :: "filesys \<Rightarrow> filesys \<Rightarrow> bool" where
  "remapped s s' \<longleftrightarrow> (\<exists>c b. s' = s\<lparr>fs_c := c, free_map := b\<rparr> \<and> cache_ok c \<and> same_device (fs_c s) c \<and>
     bitmap_wf b \<and> bit_cnt b = bit_cnt (free_map s) \<and> (\<forall>x. x \<notin> fm_extent s \<longrightarrow> sector_view c x = fs_view s x))"

lemma remappedD:
  assumes "remapped s s'"
  shows "cache_ok (fs_c s')" "dev_sectors s' = dev_sectors s" "inodes s' = inodes s" "files s' = files s"
    "dirs s' = dirs s" "open_inodes s' = open_inodes s" "free_map_file s' = free_map_file s" "mallocs s' = mallocs s"
    "fm_inode s' = fm_inode s" "fm_extent s' = fm_extent s" "bit_cnt (free_map s') = bit_cnt (free_map s)"
    "bitmap_wf (free_map s')" "x \<notin> fm_extent s \<Longrightarrow> fs_view s' x = fs_view s x"
  using assms by (auto simp: remapped_def same_device_def fm_inode_def fm_extent_def)

lemma free_map_ok_remapped:
  assumes "free_map_ok s" "remapped s s'"
  shows "free_map_ok s'"
  using assms(1) remappedD [OF assms(2)] by (auto simp: free_map_ok_def inode_ok_def)

lemma write_free_map:
  assumes ok: "free_map_ok s" and b: "bitmap_wf b" "bit_cnt b = bit_cnt (free_map s)"
  obtains s' where "bitmap_write b (free_map_file s) (s\<lparr>free_map := b\<rparr>) = Some (True, s')" "remapped s s'"
    "free_map s' = b" "free_map_in_file s'"
proof -
  obtain p inode where i: "fm_inode s = Some (p, inode)" "inode_ok s p inode" "deny_write_cnt inode = 0"
    "id_length (i_data inode) = int (byte_cnt (bit_cnt (free_map s)))" using ok by (auto simp: free_map_ok_def)
  let ?s = "s\<lparr>free_map := b\<rparr>" and ?bs = "bitmap_bytes b"
  have iok: "inode_ok ?s p inode" using i(2) by (simp add: inode_ok_def)
  have len: "length ?bs = byte_cnt (bit_cnt b)" using byte_cnt_length [OF b(1)] by simp
  have pre: "nat (int (byte_cnt (bit_cnt b))) \<le> length ?bs" using len by simp
  obtain s' n where w: "inode_write_at p ?bs (int (byte_cnt (bit_cnt b))) 0 ?s = Some (int n, s')"
    "n = nat (min (int (byte_cnt (bit_cnt b))) (id_length (i_data inode) - 0))" "s' = ?s\<lparr>fs_c := fs_c s'\<rparr>"
    "cache_ok (fs_c s')" "same_device (fs_c ?s) (fs_c s')"
    "patched (fs_view s') (fs_view ?s) (i_data inode) (nat 0) (take n ?bs)"
    by (rule inode_write_at_ok [OF iok order_refl pre i(3)])
  have n: "n = byte_cnt (bit_cnt b)" using w(2) i(4) b(2) by simp
  obtain f where f: "files s (free_map_file s) = Some f" "f_inode f = p" "inodes s p = Some inode"
    using i(1) by (auto simp: fm_inode_def bind_eq_Some_conv)
  have run: "bitmap_write b (free_map_file s) ?s = Some (True, s')"
    using w(1) n f by (simp add: bitmap_write_def file_write_at_def)
  define c where "c = fs_c s'"
  have s': "s' = s\<lparr>fs_c := c, free_map := b\<rparr>" using w(3) unfolding c_def by (metis filesys.update_convs(1,6) filesys.surjective)
  have rem: "remapped s s'" unfolding remapped_def
    using s' w(4,5,6) b i(1) by (intro exI [of _ c] exI [of _ b]) (auto simp: c_def patched_def fm_extent_def)
  have "file_bytes (fs_view s') (i_data inode) = ?bs"
    using w(6) len n i(4) b(2) by (simp add: patched_def overwrite_def)
  then have "free_map_in_file s'"
    using remappedD(9) [OF rem] i(1) s' by (simp add: free_map_in_file_def contents_def)
  then show thesis using that [OF run rem] s' by simp
qed

lemma free_map_allocate_ok:
  assumes ok: "free_map_ok s"
  obtains r s' where "free_map_allocate cnt s = Some (r, s')"
    "case r of None \<Rightarrow> s' = s \<and> (\<forall>i. i + cnt \<le> dev_sectors s \<longrightarrow> range_set (i, cnt) \<inter> used_bits (free_map s) \<noteq> {})
     | Some start \<Rightarrow> remapped s s' \<and> free_map_in_file s' \<and> start + cnt \<le> dev_sectors s \<and>
         range_set (start, cnt) \<inter> used_bits (free_map s) = {} \<and>
         used_bits (free_map s') = used_bits (free_map s) \<union> range_set (start, cnt)"
proof -
  have wf: "bitmap_wf (free_map s)" "bit_cnt (free_map s) = dev_sectors s" "free_map_file s \<noteq> NULL"
    using ok by (simp_all add: free_map_ok_def)
  obtain i b where b: "bitmap_scan_and_flip (free_map s) 0 cnt False = Some (i, b)" "bitmap_wf b" "bit_cnt b = bit_cnt (free_map s)"
    using bm.alloc_total [OF wf(1)] by blast
  show thesis
  proof (cases "i = BITMAP_ERROR")
    case True
    have "b = free_map s" using scan_and_flip_error [OF wf(1) le0] b(1) True by blast
    moreover have "\<forall>i. i + cnt \<le> dev_sectors s \<longrightarrow> range_set (i, cnt) \<inter> used_bits (free_map s) \<noteq> {}"
      using bm.alloc_err [OF wf(1)] b(1) True wf(2) by metis
    ultimately show thesis using that [of None s] b(1) True by (simp add: free_map_allocate_def)
  next
    case False
    obtain s' where s': "bitmap_write b (free_map_file s) (s\<lparr>free_map := b\<rparr>) = Some (True, s')" "remapped s s'"
      "free_map s' = b" "free_map_in_file s'" using write_free_map [OF ok b(2,3)] by blast
    have "free_map_allocate cnt s = Some (Some i, s')" using b(1) False s'(1) wf(3) by (simp add: free_map_allocate_def)
    then show thesis using that [of "Some i" s'] s' bm.alloc_ok [OF wf(1) b(1) False] wf(2) by simp
  qed
qed

lemma free_map_release_ok:
  assumes ok: "free_map_ok s" and r: "sector + cnt \<le> dev_sectors s" "range_set (sector, cnt) \<subseteq> used_bits (free_map s)"
  obtains s' where "free_map_release sector cnt s = Some s'" "remapped s s'" "free_map_in_file s'"
    "used_bits (free_map s') = used_bits (free_map s) - range_set (sector, cnt)"
proof -
  have wf: "bitmap_wf (free_map s)" "bit_cnt (free_map s) = dev_sectors s"
    using ok by (simp_all add: free_map_ok_def)
  have all: "bitmap_all (free_map s) sector cnt = Some True"
    using bitmap_contains_spec [OF wf(1), of sector cnt False] r wf(2)
    by (auto simp: bitmap_all_def range_set_def used_bits_def subset_iff)
  obtain b where b: "bitmap_set_multiple (free_map s) sector cnt False = Some b" "bitmap_wf b" "bit_cnt b = bit_cnt (free_map s)"
    "used_bits b = used_bits (free_map s) - range_set (sector, cnt)"
    using bm.release_ok [OF wf(1), of sector cnt] r(1) wf(2) by auto
  obtain s' where s': "bitmap_write b (free_map_file s) (s\<lparr>free_map := b\<rparr>) = Some (True, s')" "remapped s s'"
    "free_map s' = b" "free_map_in_file s'" using write_free_map [OF ok b(2,3)] by blast
  then show thesis using that [of s'] all b by (simp add: free_map_release_def)
qed

section \<open>Properties\<close>

lemma read_fst:
  assumes "inode_ok s p inode" "0 \<le> offset"
  shows "map_option fst (inode_read_at p sz offset s) = Some (take (nat sz) (drop (nat offset) (contents s inode)))"
  using inode_read_at_ok [OF assms, of sz] by (metis fst_conv option.simps(9))

text \<open>A file system with one ordinary open file of 1000 bytes and the file of the free map.\<close>

definition sample_inode :: "nat \<Rightarrow> nat \<Rightarrow> int \<Rightarrow> inode" where
  "sample_inode sector start len = \<lparr>i_sector = sector, open_cnt = 1, removed = False, deny_write_cnt = 0,
     i_data = \<lparr>id_start = start, id_length = len, id_magic = INODE_MAGIC, id_unused = replicate 500 0\<rparr>\<rparr>"

definition sample_fs :: filesys where
  "sample_fs = \<lparr>fs_c = sample_cache, open_inodes = [16, 48], inodes = [16 \<mapsto> sample_inode 9 10 1000, 48 \<mapsto> sample_inode 0 2 16],
     files = [32 \<mapsto> \<lparr>f_inode = 48, f_pos = 0, f_deny_write = False\<rparr>], dirs = Map.empty,
     free_map = \<lparr>bit_cnt = 100, bits = [0xFFFF, 0, 0, 0]\<rparr>, free_map_file = 32, mallocs = []\<rparr>"

lemma sample_fs_ok:
  "inode_ok sample_fs 16 (sample_inode 9 10 1000)" "inode_ok sample_fs 48 (sample_inode 0 2 16)" "free_map_ok sample_fs"
proof -
  show a: "inode_ok sample_fs 16 (sample_inode 9 10 1000)" and b: "inode_ok sample_fs 48 (sample_inode 0 2 16)"
    using sample_cache_ok by (simp_all add: inode_ok_def sample_fs_def sample_inode_def extent_ok_def sector_cnt_def)
  have "fm_inode sample_fs = Some (48, sample_inode 0 2 16)" by (simp add: fm_inode_def sample_fs_def)
  then show "free_map_ok sample_fs" using b sample_cache_ok
    by (simp add: free_map_ok_def) (simp add: sample_fs_def bitmap_wf_def elem_cnt_def size_add_def byte_cnt_def sample_inode_def)
qed

text \<open>C27. Writing to an open file returns the number of bytes that fit before its end, and every later read of any
  range of the file returns its contents with exactly those bytes replaced; files on other sectors read as before.\<close>

theorem inode_write_read:
  assumes "inode_ok s p inode" "deny_write_cnt inode = 0" "0 \<le> offset" "nat sz \<le> length buffer"
  shows "\<exists>n s'. inode_write_at p buffer sz offset s = Some (int n, s') \<and>
    n = nat (min sz (id_length (i_data inode) - offset)) \<and>
    (\<forall>m ofs. 0 \<le> ofs \<longrightarrow> map_option fst (inode_read_at p m ofs s') =
       Some (take (nat m) (drop (nat ofs) (overwrite (nat offset) (take n buffer) (contents s inode))))) \<and>
    (\<forall>q other m ofs. inode_ok s q other \<and> extent (i_data inode) \<inter> extent (i_data other) = {} \<and> 0 \<le> ofs \<longrightarrow>
       map_option fst (inode_read_at q m ofs s') = map_option fst (inode_read_at q m ofs s))"
proof -
  obtain s' n where w: "inode_write_at p buffer sz offset s = Some (int n, s')"
    "n = nat (min sz (id_length (i_data inode) - offset))" "s' = s\<lparr>fs_c := fs_c s'\<rparr>" "cache_ok (fs_c s')"
    "same_device (fs_c s) (fs_c s')" "patched (fs_view s') (fs_view s) (i_data inode) (nat offset) (take n buffer)"
    by (rule inode_write_at_ok [OF assms(1,3,4,2)])
  have in': "inodes s' = inodes s" by (subst w(3)) simp
  have ok': "inode_ok s' q i" if "inode_ok s q i" for q i
    using that w(4,5) in' by (simp add: inode_ok_def same_device_def)
  have "contents s' inode = overwrite (nat offset) (take n buffer) (contents s inode)"
    using w(6) by (simp add: contents_def patched_def)
  then have "map_option fst (inode_read_at p m ofs s') =
      Some (take (nat m) (drop (nat ofs) (overwrite (nat offset) (take n buffer) (contents s inode))))" if "0 \<le> ofs" for m ofs
    using read_fst [OF ok' [OF assms(1)] that] by simp
  moreover have "map_option fst (inode_read_at q m ofs s') = map_option fst (inode_read_at q m ofs s)"
    if "inode_ok s q i" "extent (i_data inode) \<inter> extent (i_data i) = {}" "0 \<le> ofs" for q i m ofs
    using patched_other [OF w(6) that(2)] unfolding read_fst [OF ok' [OF that(1)] that(3)] read_fst [OF that(1,3)]
    by (simp add: contents_def)
  ultimately show ?thesis using w(1,2) by blast
qed

theorem inode_write_read_witness:
  "\<exists>s'. inode_write_at 16 [1, 2, 3] 3 998 sample_fs = Some (2, s') \<and>
     (\<exists>bs. map_option fst (inode_read_at 16 2 998 s') = Some bs \<and> length bs = 2)"
proof -
  obtain s' where s': "inode_write_at 16 [1, 2, 3] 3 998 sample_fs = Some (int 2, s')"
    "\<forall>m ofs. 0 \<le> ofs \<longrightarrow> map_option fst (inode_read_at 16 m ofs s') =
       Some (take (nat m) (drop (nat ofs) (overwrite (nat 998) (take 2 [1, 2, 3]) (contents sample_fs (sample_inode 9 10 1000)))))"
    using inode_write_read [OF sample_fs_ok(1), of 998 3 "[1, 2, 3]"] by (auto simp: sample_inode_def)
  have "length (take (nat 2) (drop (nat 998) (overwrite (nat 998) (take 2 [1, 2, 3])
      (contents sample_fs (sample_inode 9 10 1000))))) = 2" by (simp add: contents_def sample_inode_def)
  moreover have "(0 :: int) \<le> 998" by simp
  ultimately show ?thesis using s'(1) s'(2) [rule_format, of 998 2] by (metis of_nat_numeral)
qed

text \<open>C28. Allocating sectors returns a run of sectors that were all free, marks exactly them as used, and leaves a copy of
  the new map in the file of the free map, as the file system reads it through the buffer cache; it fails only when no run is
  free, and then changes nothing.  The contents of every sector outside that file stay as they were.  When the copy reaches the
  disk is up to the cache.\<close>

theorem free_map_allocate_fresh:
  assumes "free_map_ok s"
  shows "\<exists>r s'. free_map_allocate cnt s = Some (r, s') \<and>
    (case r of
       None \<Rightarrow> s' = s \<and> (\<forall>i. i + cnt \<le> dev_sectors s \<longrightarrow> range_set (i, cnt) \<inter> used_bits (free_map s) \<noteq> {})
     | Some start \<Rightarrow> free_map_ok s' \<and> free_map_in_file s' \<and> start + cnt \<le> dev_sectors s \<and>
         range_set (start, cnt) \<inter> used_bits (free_map s) = {} \<and>
         used_bits (free_map s') = used_bits (free_map s) \<union> range_set (start, cnt) \<and>
         (\<forall>x. x \<notin> fm_extent s \<longrightarrow> fs_view s' x = fs_view s x))"
proof -
  obtain r s' where r: "free_map_allocate cnt s = Some (r, s')"
    "case r of None \<Rightarrow> s' = s \<and> (\<forall>i. i + cnt \<le> dev_sectors s \<longrightarrow> range_set (i, cnt) \<inter> used_bits (free_map s) \<noteq> {})
     | Some start \<Rightarrow> remapped s s' \<and> free_map_in_file s' \<and> start + cnt \<le> dev_sectors s \<and>
         range_set (start, cnt) \<inter> used_bits (free_map s) = {} \<and>
         used_bits (free_map s') = used_bits (free_map s) \<union> range_set (start, cnt)"
    by (rule free_map_allocate_ok [OF assms])
  then show ?thesis
    using free_map_ok_remapped [OF assms] remappedD(13)
    by (intro exI [of _ r] exI [of _ s']) (auto split: option.splits)
qed

theorem free_map_allocate_fresh_witness:
  "\<exists>start s'. free_map_allocate 3 sample_fs = Some (Some start, s') \<and> free_map_in_file s' \<and>
     used_bits (free_map s') = used_bits (free_map sample_fs) \<union> range_set (start, 3)"
proof -
  have free: "j \<notin> used_bits (free_map sample_fs)" if "40 \<le> j" "j < 43" for j
  proof -
    have "j div 32 = 1" using that by linarith
    then show ?thesis by (simp add: used_bits_def sample_fs_def get_bit_def)
  qed
  have run: "range_set (40, 3) \<inter> used_bits (free_map sample_fs) = {}"
    using free by (simp add: range_set_def disjoint_iff)
  have dev: "40 + 3 \<le> dev_sectors sample_fs" using sample_fs_ok(3) by (simp add: free_map_ok_def sample_fs_def)
  obtain r s' where r: "free_map_allocate 3 sample_fs = Some (r, s')"
    "case r of
       None \<Rightarrow> \<forall>i. i + 3 \<le> dev_sectors sample_fs \<longrightarrow> range_set (i, 3) \<inter> used_bits (free_map sample_fs) \<noteq> {}
     | Some start \<Rightarrow> free_map_in_file s' \<and> used_bits (free_map s') = used_bits (free_map sample_fs) \<union> range_set (start, 3)"
    using free_map_allocate_fresh [OF sample_fs_ok(3), of 3] by (fastforce split: option.splits)
  have "r \<noteq> None"
  proof
    assume "r = None"
    then have "\<forall>i. i + 3 \<le> dev_sectors sample_fs \<longrightarrow> range_set (i, 3) \<inter> used_bits (free_map sample_fs) \<noteq> {}"
      using r(2) by (simp only: option.case)
    then show False using run dev by blast
  qed
  then show ?thesis using r by (cases r) simp_all
qed

end
