(* ===== verification/Directory.thy ===== *)
theory Directory
  imports Inode
begin

text \<open>
  Directories (\<open>filesys/directory.c\<close>) and the operations of the file system (\<open>filesys/filesys.c\<close>).  A
  directory is a file of 20-byte entries; names are the bytes before the terminating zero.
\<close>

section \<open>Definitions\<close>

definition NAME_MAX :: nat where
  "NAME_MAX = 14"

record dir_entry =
  e_inode_sector :: nat
  e_name :: "u8 list"
  e_in_use :: bool

text \<open>\<open>sizeof (struct dir_entry)\<close>: four bytes, the 15 of the name and one for the flag.\<close>

definition entry_size :: nat where
  "entry_size = 20"

definition entry_bytes :: "dir_entry \<Rightarrow> u8 list" where
  "entry_bytes e = le32 (e_inode_sector e) @ e_name e @ [if e_in_use e then 1 else 0]"

definition of_entry_bytes :: "u8 list \<Rightarrow> dir_entry" where
  "of_entry_bytes bs =
     \<lparr>e_inode_sector = of_le32 bs, e_name = take (NAME_MAX + 1) (drop 4 bs), e_in_use = (bs ! 19 \<noteq> 0)\<rparr>"

text \<open>\<open>strcmp (name, e.name) == 0\<close> for the characters of \<open>name\<close>; the array of the entry is read up to its
  first zero byte, and past its end if there is none.\<close>

definition name_matches :: "u8 list \<Rightarrow> u8 list \<Rightarrow> bool option" where
  "name_matches name array = do {
     ASSERT (0 \<in> set array);
     Some (takeWhile (\<lambda>c. c \<noteq> 0) array = name) }"

text \<open>\<open>strlcpy (e.name, name, sizeof e.name)\<close>: the bytes after the terminator stay.\<close>

definition name_copy :: "u8 list \<Rightarrow> u8 list \<Rightarrow> u8 list" where
  "name_copy array name = (let w = take NAME_MAX name @ [0] in w @ drop (length w) array)"

definition dir_create :: "nat \<Rightarrow> nat \<Rightarrow> filesys \<Rightarrow> (bool \<times> filesys) option" where
  "dir_create sector entry_cnt s = inode_create sector (s32 (int (entry_cnt * entry_size))) s"

definition dir_open :: "ptr \<Rightarrow> filesys \<Rightarrow> (ptr \<times> filesys) option" where
  "dir_open p s = do {
     let (d, s) = new_block s;
     if p \<noteq> NULL \<and> d \<noteq> NULL
     then Some (d, s\<lparr>dirs := (dirs s)(d \<mapsto> \<lparr>d_inode = p, d_pos = 0\<rparr>)\<rparr>)
     else do {
       s \<leftarrow> inode_close p s;
       Some (NULL, s) } }"

definition dir_open_root :: "filesys \<Rightarrow> (ptr \<times> filesys) option" where
  "dir_open_root s = do {
     (p, s) \<leftarrow> inode_open ROOT_DIR_SECTOR s;
     dir_open p s }"

definition dir_reopen :: "ptr \<Rightarrow> filesys \<Rightarrow> (ptr \<times> filesys) option" where
  "dir_reopen d s = do {
     dir \<leftarrow> dirs s d;
     (p, s) \<leftarrow> inode_reopen (d_inode dir) s;
     dir_open p s }"

definition dir_close :: "ptr \<Rightarrow> filesys \<Rightarrow> filesys option" where
  "dir_close d s =
     (if d \<noteq> NULL then do {
        dir \<leftarrow> dirs s d;
        s \<leftarrow> inode_close (d_inode dir) s;
        Some (s\<lparr>dirs := (dirs s)(d := None)\<rparr>) }
      else Some s)"

definition dir_get_inode :: "ptr \<Rightarrow> filesys \<Rightarrow> ptr option" where
  "dir_get_inode d s = map_option d_inode (dirs s d)"

text \<open>The loop of \<open>lookup\<close>: the entry and its offset, if there is one.\<close>

partial_function (option) lookup_loop :: "ptr \<Rightarrow> u8 list \<Rightarrow> nat \<Rightarrow> filesys \<Rightarrow> ((dir_entry \<times> nat) option \<times> filesys) option" where
  "lookup_loop p name ofs s = do {
     (bs, s) \<leftarrow> inode_read_at p (int entry_size) (s32 (int ofs)) s;
     if length bs = entry_size then do {
       let e = of_entry_bytes bs;
       m \<leftarrow> (if e_in_use e then name_matches name (e_name e) else Some False);
       if m then Some (Some (e, ofs), s)
       else lookup_loop p name ((ofs + entry_size) mod 2 ^ 32) s }
     else Some (None, s) }"

definition lookup :: "ptr \<Rightarrow> u8 list \<Rightarrow> filesys \<Rightarrow> ((dir_entry \<times> nat) option \<times> filesys) option" where
  "lookup d name s = do {
     ASSERT (d \<noteq> NULL);
     dir \<leftarrow> dirs s d;
     lookup_loop (d_inode dir) name 0 s }"

definition dir_lookup :: "ptr \<Rightarrow> u8 list \<Rightarrow> filesys \<Rightarrow> (ptr \<times> filesys) option" where
  "dir_lookup d name s = do {
     ASSERT (d \<noteq> NULL);
     (found, s) \<leftarrow> lookup d name s;
     case found of
       Some (e, _) \<Rightarrow> inode_open (e_inode_sector e) s
     | None \<Rightarrow> Some (NULL, s) }"

text \<open>The loop of \<open>dir_add\<close> that looks for an unused entry: what it leaves in \<open>e\<close>, and the offset.\<close>

partial_function (option) free_slot_loop :: "ptr \<Rightarrow> int \<Rightarrow> u8 list \<Rightarrow> filesys \<Rightarrow> (u8 list \<times> int \<times> filesys) option" where
  "free_slot_loop p ofs old s = do {
     (bs, s) \<leftarrow> inode_read_at p (int entry_size) ofs s;
     let e = overwrite 0 bs old;
     if length bs = entry_size then
       (if \<not> e_in_use (of_entry_bytes e) then Some (e, ofs, s)
        else free_slot_loop p (s32 (ofs + int entry_size)) e s)
     else Some (e, ofs, s) }"

text \<open>\<open>junk\<close> is what the uninitialised entry \<open>e\<close> holds.\<close>

definition dir_add :: "u8 list \<Rightarrow> ptr \<Rightarrow> u8 list \<Rightarrow> nat \<Rightarrow> filesys \<Rightarrow> (bool \<times> filesys) option" where
  "dir_add junk d name inode_sector s = do {
     ASSERT (d \<noteq> NULL);
     dir \<leftarrow> dirs s d;
     if name = [] \<or> length name > NAME_MAX then Some (False, s)
     else do {
       (found, s) \<leftarrow> lookup d name s;
       if found \<noteq> None then Some (False, s)
       else do {
         (bs, ofs, s) \<leftarrow> free_slot_loop (d_inode dir) 0 junk s;
         let e = of_entry_bytes bs;
         let e = e\<lparr>e_in_use := True, e_name := name_copy (e_name e) name, e_inode_sector := inode_sector\<rparr>;
         (n, s) \<leftarrow> inode_write_at (d_inode dir) (entry_bytes e) (int entry_size) ofs s;
         Some (n = int entry_size, s) } } }"

definition dir_remove :: "ptr \<Rightarrow> u8 list \<Rightarrow> filesys \<Rightarrow> (bool \<times> filesys) option" where
  "dir_remove d name s = do {
     ASSERT (d \<noteq> NULL);
     dir \<leftarrow> dirs s d;
     (found, s) \<leftarrow> lookup d name s;
     case found of
       None \<Rightarrow> do { s \<leftarrow> inode_close NULL s; Some (False, s) }
     | Some (e, ofs) \<Rightarrow> do {
         (p, s) \<leftarrow> inode_open (e_inode_sector e) s;
         if p = NULL then do { s \<leftarrow> inode_close p s; Some (False, s) }
         else do {
           (n, s) \<leftarrow> inode_write_at (d_inode dir) (entry_bytes (e\<lparr>e_in_use := False\<rparr>)) (int entry_size) (int ofs) s;
           if n \<noteq> int entry_size then do { s \<leftarrow> inode_close p s; Some (False, s) }
           else do {
             s \<leftarrow> inode_remove p s;
             s \<leftarrow> inode_close p s;
             Some (True, s) } } } }"

text \<open>\<open>dir_readdir\<close> returns the name it finds.\<close>

partial_function (option) readdir_loop :: "ptr \<Rightarrow> filesys \<Rightarrow> (u8 list option \<times> filesys) option" where
  "readdir_loop d s = do {
     dir \<leftarrow> dirs s d;
     (bs, s) \<leftarrow> inode_read_at (d_inode dir) (int entry_size) (d_pos dir) s;
     if length bs = entry_size then do {
       let s = s\<lparr>dirs := (dirs s)(d \<mapsto> dir\<lparr>d_pos := s32 (d_pos dir + int entry_size)\<rparr>)\<rparr>;
       let e = of_entry_bytes bs;
       if e_in_use e then do {
         ASSERT (0 \<in> set (e_name e));
         Some (Some (takeWhile (\<lambda>c. c \<noteq> 0) (e_name e)), s) }
       else readdir_loop d s }
     else Some (None, s) }"

definition dir_readdir :: "ptr \<Rightarrow> filesys \<Rightarrow> (u8 list option \<times> filesys) option" where
  "dir_readdir d s = readdir_loop d s"

subsection \<open>File system operations\<close>

definition filesys_create :: "u8 list \<Rightarrow> u8 list \<Rightarrow> int \<Rightarrow> filesys \<Rightarrow> (bool \<times> filesys) option" where
  "filesys_create junk name initial_size s = do {
     (d, s) \<leftarrow> dir_open_root s;
     (success, inode_sector, s) \<leftarrow>
       (if d = NULL then Some (False, 0, s)
        else do {
          (r, s) \<leftarrow> free_map_allocate 1 s;
          case r of
            None \<Rightarrow> Some (False, 0, s)
          | Some inode_sector \<Rightarrow> do {
              (ok, s) \<leftarrow> inode_create inode_sector initial_size s;
              if \<not> ok then Some (False, inode_sector, s)
              else do {
                (ok, s) \<leftarrow> dir_add junk d name inode_sector s;
                Some (ok, inode_sector, s) } } });
     s \<leftarrow> (if \<not> success \<and> inode_sector \<noteq> 0 then free_map_release inode_sector 1 s else Some s);
     s \<leftarrow> dir_close d s;
     Some (success, s) }"

definition filesys_open :: "u8 list \<Rightarrow> filesys \<Rightarrow> (ptr \<times> filesys) option" where
  "filesys_open name s = do {
     (d, s) \<leftarrow> dir_open_root s;
     (p, s) \<leftarrow> (if d \<noteq> NULL then dir_lookup d name s else Some (NULL, s));
     s \<leftarrow> dir_close d s;
     file_open p s }"

definition filesys_remove :: "u8 list \<Rightarrow> filesys \<Rightarrow> (bool \<times> filesys) option" where
  "filesys_remove name s = do {
     (d, s) \<leftarrow> dir_open_root s;
     (success, s) \<leftarrow> (if d \<noteq> NULL then dir_remove d name s else Some (False, s));
     s \<leftarrow> dir_close d s;
     Some (success, s) }"

definition do_format :: "filesys \<Rightarrow> filesys option" where
  "do_format s = do {
     s \<leftarrow> free_map_create s;
     (ok, s) \<leftarrow> dir_create ROOT_DIR_SECTOR 16 s;
     ASSERT ok;
     free_map_close s }"

text \<open>\<open>filesys_init\<close> on the device that has the role; \<open>hdr\<close>, \<open>blk\<close> and \<open>junk\<close> are the results of the allocations
  of the free map and of the cache, \<open>ps\<close> those that follow.  The two daemons it starts run on their own.\<close>

definition filesys_init :: "bool \<Rightarrow> block option \<Rightarrow> bool \<Rightarrow> u32 list option \<Rightarrow> (nat \<Rightarrow> nat \<times> u8 list) \<Rightarrow> ptr list \<Rightarrow> filesys option" where
  "filesys_init format dev hdr blk junk ps = do {
     dev \<leftarrow> dev;
     let s = inode_init \<lparr>fs_c = init_fs_cache dev junk, open_inodes = [], inodes = Map.empty, files = Map.empty,
       dirs = Map.empty, free_map = \<lparr>bit_cnt = 0, bits = []\<rparr>, free_map_file = NULL, mallocs = ps\<rparr>;
     s \<leftarrow> free_map_init hdr blk s;
     s \<leftarrow> (if format then do_format s else Some s);
     free_map_open s }"

definition filesys_done :: "filesys \<Rightarrow> filesys option" where
  "filesys_done s = do {
     c \<leftarrow> write_back_all (fs_c s);
     free_map_close (s\<lparr>fs_c := c\<rparr>) }"

section \<open>The entries of a directory\<close>

definition name_of :: "dir_entry \<Rightarrow> u8 list" where
  "name_of e = takeWhile (\<lambda>c. c \<noteq> 0) (e_name e)"

definition dentry :: "u8 list \<Rightarrow> nat \<Rightarrow> dir_entry" where
  "dentry bs k = of_entry_bytes (take entry_size (drop (entry_size * k) bs))"

definition entry_cnt :: "u8 list \<Rightarrow> nat" where
  "entry_cnt bs = length bs div entry_size"

definition holds_name :: "u8 list \<Rightarrow> u8 list \<Rightarrow> nat \<Rightarrow> bool" where
  "holds_name bs name k \<longleftrightarrow> e_in_use (dentry bs k) \<and> name_of (dentry bs k) = name"

definition find_name :: "u8 list \<Rightarrow> u8 list \<Rightarrow> nat option" where
  "find_name bs name = List.find (holds_name bs name) [0..<entry_cnt bs]"

definition find_unused :: "u8 list \<Rightarrow> nat option" where
  "find_unused bs = List.find (\<lambda>k. \<not> e_in_use (dentry bs k)) [0..<entry_cnt bs]"

definition names_ok :: "u8 list \<Rightarrow> bool" where
  "names_ok bs \<longleftrightarrow> (\<forall>k < entry_cnt bs. e_in_use (dentry bs k) \<longrightarrow> 0 \<in> set (e_name (dentry bs k))) \<and>
     (\<forall>i < entry_cnt bs. \<forall>j < entry_cnt bs. e_in_use (dentry bs i) \<longrightarrow> e_in_use (dentry bs j) \<longrightarrow>
        name_of (dentry bs i) = name_of (dentry bs j) \<longrightarrow> i = j)"

definition dir_ok :: "filesys \<Rightarrow> ptr \<Rightarrow> inode \<Rightarrow> bool" where
  "dir_ok s p inode \<longleftrightarrow> inode_ok s p inode \<and> deny_write_cnt inode = 0 \<and> id_length (i_data inode) < 2 ^ 31 \<and>
     entry_size dvd nat (id_length (i_data inode)) \<and> names_ok (contents s inode)"

lemma entry_bytes_roundtrip:
  assumes "e_inode_sector e < 2 ^ 32" "length (e_name e) = NAME_MAX + 1"
  shows "of_entry_bytes (entry_bytes e) = e" "length (entry_bytes e) = entry_size"
  using assms by (cases e; simp add: of_entry_bytes_def entry_bytes_def of_le32_le32 nth_append NAME_MAX_def entry_size_def)+

lemma entry_overwrite:
  assumes "length w = entry_size" "entry_size * j + entry_size \<le> length bs" "entry_size * k + entry_size \<le> length bs"
  shows "dentry (overwrite (entry_size * j) w bs) k = (if k = j then of_entry_bytes w else dentry bs k)"
proof (cases "k = j")
  case True
  then show ?thesis using assms by (simp add: dentry_def overwrite_def)
next
  case False
  have "take entry_size (drop (entry_size * k) (overwrite (entry_size * j) w bs)) = take entry_size (drop (entry_size * k) bs)"
  proof (rule nth_equalityI)
    fix i assume "i < length (take entry_size (drop (entry_size * k) (overwrite (entry_size * j) w bs)))"
    then have i: "i < entry_size" by simp
    have "\<not> (entry_size * j \<le> entry_size * k + i \<and> entry_size * k + i < entry_size * j + entry_size)"
      using False i unfolding entry_size_def by linarith
    then have "overwrite (entry_size * j) w bs ! (entry_size * k + i) = bs ! (entry_size * k + i)"
      using nth_overwrite [of "entry_size * j" w bs "entry_size * k + i"] i assms by (metis add_less_cancel_left less_le_trans)
    then show "take entry_size (drop (entry_size * k) (overwrite (entry_size * j) w bs)) ! i =
        take entry_size (drop (entry_size * k) bs) ! i"
      using i assms by simp
  qed (use assms in simp)
  then show ?thesis using False by (simp add: dentry_def)
qed

lemma entry_full:
  assumes "k < entry_cnt bs"
  shows "entry_size * k + entry_size \<le> length bs" "length (take entry_size (drop (entry_size * k) bs)) = entry_size"
proof -
  have "Suc k * entry_size \<le> length bs"
    using assms less_eq_div_iff_mult_less_eq [of entry_size "Suc k" "length bs"] by (simp add: entry_cnt_def entry_size_def)
  then show "entry_size * k + entry_size \<le> length bs" by (simp add: algebra_simps)
  then show "length (take entry_size (drop (entry_size * k) bs)) = entry_size" by simp
qed

lemma entry_none:
  assumes "entry_cnt bs \<le> k"
  shows "length (take entry_size (drop (entry_size * k) bs)) < entry_size"
proof -
  have "length bs < Suc k * entry_size"
    using assms div_less_iff_less_mult [of entry_size "length bs" "Suc k"] by (simp add: entry_cnt_def entry_size_def)
  then show ?thesis by (simp add: entry_size_def min_def)
qed

lemma find_upt_rec: "k < n \<Longrightarrow> List.find P [k..<n] = (if P k then Some k else List.find P [Suc k..<n])"
  by (simp add: upt_conv_Cons)

lemma read_entry:
  assumes "inode_ok s p inode"
  obtains t where "inode_read_at p (int entry_size) (int (entry_size * k)) s =
      Some (take entry_size (drop (entry_size * k) (contents s inode)), t)" "recached s t"
  by (rule inode_read_at_ok [OF assms of_nat_0_le_iff, of "int entry_size" "entry_size * k", unfolded nat_int])

lemma lookup_loop_ok:
  assumes "inode_ok s p inode" "id_length (i_data inode) < 2 ^ 31" "k \<le> entry_cnt (contents s inode)" "names_ok (contents s inode)"
  shows "\<exists>s'. lookup_loop p name (entry_size * k) s =
      Some (map_option (\<lambda>j. (dentry (contents s inode) j, entry_size * j))
        (List.find (holds_name (contents s inode) name) [k..<entry_cnt (contents s inode)]), s') \<and> recached s s'"
  using assms
proof (induction "entry_cnt (contents s inode) - k" arbitrary: k s rule: less_induct)
  case less
  define bs where "bs = contents s inode"
  define n where "n = entry_cnt bs"
  have lbs: "length bs < 2 ^ 31" using less.prems(1,2) by (simp add: bs_def contents_def inode_ok_def extent_ok_def)
  have kn: "entry_size * k \<le> length bs"
  proof -
    have "entry_size * k \<le> entry_size * n" using less.prems(3) by (simp add: n_def bs_def)
    also have "\<dots> \<le> length bs" unfolding n_def entry_cnt_def by (rule times_div_less_eq_dividend)
    finally show ?thesis .
  qed
  have ofs: "s32 (int (entry_size * k)) = int (entry_size * k)" 
    using kn lbs by (intro s32_id) (simp_all add: entry_size_def)
  obtain t where t: "inode_read_at p (int entry_size) (int (entry_size * k)) s = Some (take entry_size (drop (entry_size * k) bs), t)"
    "recached s t" by (rule read_entry [OF less.prems(1), folded bs_def])
  show ?case
  proof (cases "k < n")
    case False
    then have "n \<le> k" "length (take entry_size (drop (entry_size * k) bs)) \<noteq> entry_size"
      using entry_none [of bs k] n_def by simp_all
    then show ?thesis unfolding bs_def [symmetric] n_def [symmetric]
      using t ofs by (subst lookup_loop.simps) (simp del: length_take)
  next
    case True
    note full = entry_full [of k bs, folded n_def, OF True]
    have tail: "(entry_size * k + entry_size) mod 2 ^ 32 = entry_size * Suc k" using full(1) lbs by simp
    have nm: "e_in_use (dentry bs k) \<Longrightarrow> name_matches name (e_name (dentry bs k)) = Some (name_of (dentry bs k) = name)"
      using less.prems(4) True by (simp add: names_ok_def name_matches_def name_of_def bs_def n_def)
    have step: "lookup_loop p name (entry_size * k) s =
        (if holds_name bs name k then Some (Some (dentry bs k, entry_size * k), t) else lookup_loop p name (entry_size * Suc k) t)"
      using t(1) ofs full(2) nm tail by (subst lookup_loop.simps) (simp add: holds_name_def dentry_def [symmetric] Let_def del: length_take)
    have bt: "contents t inode = bs" using recachedD(11) [OF t(2)] bs_def by simp
    show ?thesis
    proof (cases "holds_name bs name k")
      case hold: True
      then show ?thesis unfolding bs_def [symmetric] n_def [symmetric]
        using step t(2) True by (simp add: find_upt_rec)
    next
      case no: False
      have "entry_cnt bs - Suc k < entry_cnt bs - k" using True by (simp add: n_def)
      then obtain u where u: "lookup_loop p name (entry_size * Suc k) t = Some (map_option (\<lambda>j. (dentry bs j, entry_size * j))
          (List.find (holds_name bs name) [Suc k..<n]), u)" "recached t u"
        using less.hyps [of t "Suc k"] inode_ok_recached [OF less.prems(1) t(2)] less.prems(2,4) True
        unfolding bt n_def bs_def [symmetric] by auto
      have "lookup_loop p name (entry_size * k) s = lookup_loop p name (entry_size * Suc k) t" using step no by (simp only: if_False)
      moreover have "List.find (holds_name bs name) [k..<n] = List.find (holds_name bs name) [Suc k..<n]"
        using no find_upt_rec [OF True, of "holds_name bs name"] by simp
      ultimately show ?thesis unfolding bs_def [symmetric] n_def [symmetric]
        using u(1) recached_trans [OF t(2) u(2)] by (metis (no_types))
    qed
  qed
qed

lemma lookup_ok:
  assumes "dir_ok s (d_inode dir) inode" "d \<noteq> NULL" "dirs s d = Some dir"
  obtains s' where "lookup d name s = Some (map_option (\<lambda>j. (dentry (contents s inode) j, entry_size * j))
    (find_name (contents s inode) name), s')" "recached s s'"
  using lookup_loop_ok [of s "d_inode dir" inode 0 name] assms by (auto simp: lookup_def dir_ok_def find_name_def)

text \<open>The search for an unused entry: its bytes and offset, or the end of the directory.\<close>

lemma free_slot_loop_ok:
  assumes "inode_ok s p inode" "id_length (i_data inode) < 2 ^ 31" "entry_size dvd nat (id_length (i_data inode))"
    and "k \<le> entry_cnt (contents s inode)" "length old = entry_size"
  shows "\<exists>bs s'. free_slot_loop p (int (entry_size * k)) old s =
      Some (bs, int (entry_size * (case List.find (\<lambda>j. \<not> e_in_use (dentry (contents s inode) j)) [k..<entry_cnt (contents s inode)] of
        None \<Rightarrow> entry_cnt (contents s inode) | Some j \<Rightarrow> j)), s') \<and> length bs = entry_size \<and> recached s s'"
  using assms
proof (induction "entry_cnt (contents s inode) - k" arbitrary: k s old rule: less_induct)
  case less
  define bs where "bs = contents s inode"
  define n where "n = entry_cnt bs"
  have lbs: "length bs < 2 ^ 31" "entry_size * n = length bs"
    using less.prems(1-3) by (simp_all add: bs_def contents_def inode_ok_def extent_ok_def n_def entry_cnt_def)
  obtain t where t: "inode_read_at p (int entry_size) (int (entry_size * k)) s = Some (take entry_size (drop (entry_size * k) bs), t)"
    "recached s t" by (rule read_entry [OF less.prems(1), folded bs_def])
  show ?case
  proof (cases "k < n")
    case False
    then have k: "k = n" using less.prems(4) by (simp add: n_def bs_def)
    have "take entry_size (drop (entry_size * k) bs) = []" using k lbs(2) by simp
    moreover have "overwrite 0 [] old = old" "entry_size \<noteq> 0" by (simp_all add: overwrite_def entry_size_def)
    ultimately have "free_slot_loop p (int (entry_size * k)) old s = Some (old, int (entry_size * n), t)"
      using t(1) k by (subst free_slot_loop.simps) (simp del: of_nat_mult)
    then show ?thesis unfolding bs_def [symmetric] n_def [symmetric] using k t(2) less.prems(5) by simp
  next
    case True
    note full = entry_full [of k bs, folded n_def, OF True]
    have ov: "overwrite 0 (take entry_size (drop (entry_size * k) bs)) old = take entry_size (drop (entry_size * k) bs)"
      using full(2) less.prems(5) by (simp add: overwrite_def)
    have nx: "s32 (int (entry_size * k) + int entry_size) = int (entry_size * Suc k)"
      using full(1) lbs(1) by (subst s32_id) (simp_all add: entry_size_def)
    have step: "free_slot_loop p (int (entry_size * k)) old s =
        (if \<not> e_in_use (dentry bs k) then Some (take entry_size (drop (entry_size * k) bs), int (entry_size * k), t)
         else free_slot_loop p (int (entry_size * Suc k)) (take entry_size (drop (entry_size * k) bs)) t)"
      using t(1) full(2) ov nx
      by (subst free_slot_loop.simps) (simp add: dentry_def [symmetric] Let_def del: length_take of_nat_mult of_nat_add)
    show ?thesis
    proof (cases "e_in_use (dentry bs k)")
      case False
      then show ?thesis unfolding bs_def [symmetric] n_def [symmetric]
        using step t(2) full(2) find_upt_rec [OF True, of "\<lambda>j. \<not> e_in_use (dentry bs j)"] by (simp del: length_take)
    next
      case used: True
      have bt: "contents t inode = bs" using recachedD(11) [OF t(2)] bs_def by simp
      have "entry_cnt bs - Suc k < entry_cnt bs - k" using True by (simp add: n_def)
      then obtain w u where u: "free_slot_loop p (int (entry_size * Suc k)) (take entry_size (drop (entry_size * k) bs)) t =
          Some (w, int (entry_size * (case List.find (\<lambda>j. \<not> e_in_use (dentry bs j)) [Suc k..<n] of None \<Rightarrow> n | Some j \<Rightarrow> j)), u)"
        "length w = entry_size" "recached t u"
        using less.hyps [of t "Suc k" "take entry_size (drop (entry_size * k) bs)"] inode_ok_recached [OF less.prems(1) t(2)]
          less.prems(2,3) True full(2) unfolding bt n_def bs_def [symmetric] by (auto simp del: length_take of_nat_mult)
      have "List.find (\<lambda>j. \<not> e_in_use (dentry bs j)) [k..<n] = List.find (\<lambda>j. \<not> e_in_use (dentry bs j)) [Suc k..<n]"
        using used find_upt_rec [OF True, of "\<lambda>j. \<not> e_in_use (dentry bs j)"] by simp
      then show ?thesis unfolding bs_def [symmetric] n_def [symmetric]
        using u step used recached_trans [OF t(2) u(3)] by simp
    qed
  qed
qed

definition name_ok :: "u8 list \<Rightarrow> bool" where
  "name_ok name \<longleftrightarrow> name \<noteq> [] \<and> length name \<le> NAME_MAX \<and> 0 \<notin> set name"

lemma name_copy_ok:
  assumes "name_ok name" "length a = NAME_MAX + 1"
  shows "length (name_copy a name) = NAME_MAX + 1" "0 \<in> set (name_copy a name)"
    "takeWhile (\<lambda>c. c \<noteq> 0) (name_copy a name) = name"
proof -
  have "name_copy a name = name @ 0 # drop (Suc (length name)) a"
    using assms(1) by (simp add: name_copy_def name_ok_def)
  moreover have "takeWhile (\<lambda>c. c \<noteq> 0) (name @ 0 # r) = name" for r :: "u8 list"
    using assms(1) by (auto simp: name_ok_def intro: takeWhile_tail [THEN trans])
  ultimately show "length (name_copy a name) = NAME_MAX + 1" "0 \<in> set (name_copy a name)"
    "takeWhile (\<lambda>c. c \<noteq> 0) (name_copy a name) = name"
    using assms by (auto simp: name_ok_def)
qed

lemma entry_name_length: "length bs = entry_size \<Longrightarrow> length (e_name (of_entry_bytes bs)) = NAME_MAX + 1"
  by (simp add: of_entry_bytes_def entry_size_def NAME_MAX_def)

lemma entry_cnt_overwrite: "a + length w \<le> length bs \<Longrightarrow> entry_cnt (overwrite a w bs) = entry_cnt bs"
  by (simp add: entry_cnt_def)

text \<open>Replacing one entry of a directory.\<close>

lemma replace_entry_ok:
  assumes ok: "dir_ok s p inode" and j: "j < entry_cnt (contents s inode)"
    and e: "e_inode_sector e < 2 ^ 32" "length (e_name e) = NAME_MAX + 1"
  obtains s' where "inode_write_at p (entry_bytes e) (int entry_size) (int (entry_size * j)) s = Some (int entry_size, s')"
    "inode_ok s' p inode" "contents s' inode = overwrite (entry_size * j) (entry_bytes e) (contents s inode)"
    "\<forall>k < entry_cnt (contents s inode). dentry (contents s' inode) k = (if k = j then e else dentry (contents s inode) k)"
    "entry_cnt (contents s' inode) = entry_cnt (contents s inode)" "s' = s\<lparr>fs_c := fs_c s'\<rparr>"
    "\<forall>x. x \<notin> extent (i_data inode) \<longrightarrow> fs_view s' x = fs_view s x" "same_device (fs_c s) (fs_c s')"
proof -
  have iok: "inode_ok s p inode" and dw: "deny_write_cnt inode = 0" using ok by (simp_all add: dir_ok_def)
  note enc = entry_bytes_roundtrip [OF e]
  note full = entry_full [OF j]
  have lc: "length (contents s inode) = nat (id_length (i_data inode))" by (simp add: contents_def)
  have pre: "nat (int entry_size) \<le> length (entry_bytes e)" using enc(2) by simp
  obtain s' n where w: "inode_write_at p (entry_bytes e) (int entry_size) (int (entry_size * j)) s = Some (int n, s')"
    "n = nat (min (int entry_size) (id_length (i_data inode) - int (entry_size * j)))" "s' = s\<lparr>fs_c := fs_c s'\<rparr>"
    "cache_ok (fs_c s')" "same_device (fs_c s) (fs_c s')"
    "patched (fs_view s') (fs_view s) (i_data inode) (nat (int (entry_size * j))) (take n (entry_bytes e))"
    by (rule inode_write_at_ok [OF iok of_nat_0_le_iff pre dw])
  have n: "n = entry_size" using w(2) full(1) lc by linarith
  have c: "contents s' inode = overwrite (entry_size * j) (entry_bytes e) (contents s inode)"
    using w(6) n enc(2) by (simp add: patched_def contents_def del: of_nat_mult)
  have "inodes s' = inodes s" by (subst w(3)) simp
  then have ok': "inode_ok s' p inode" using iok w(4,5) by (simp add: inode_ok_def same_device_def)
  have fit: "entry_size * j + length (entry_bytes e) \<le> length (contents s inode)" using full(1) enc(2) by simp
  have "dentry (contents s' inode) k = (if k = j then e else dentry (contents s inode) k)"
    if "k < entry_cnt (contents s inode)" for k
    using entry_overwrite [OF enc(2) full(1), of k] entry_full(1) [OF that] c enc(1) by simp
  then show thesis using that [OF w(1) [unfolded n] ok' c] entry_cnt_overwrite [OF fit] c w(3,5,6) by (simp add: patched_def)
qed

lemma find_name_Some:
  assumes "names_ok bs"
  shows "find_name bs name = Some j \<longleftrightarrow> j < entry_cnt bs \<and> holds_name bs name j"
proof
  assume "find_name bs name = Some j"
  then show "j < entry_cnt bs \<and> holds_name bs name j" by (auto simp: find_name_def find_Some_iff)
next
  assume j: "j < entry_cnt bs \<and> holds_name bs name j"
  have u: "i = j" if "i < entry_cnt bs" "holds_name bs name i" for i
    using assms j that unfolding names_ok_def holds_name_def by metis
  show "find_name bs name = Some j"
  proof (cases "find_name bs name")
    case None
    then have "\<not> holds_name bs name j" using j unfolding find_name_def find_None_iff by auto
    then show ?thesis using j by simp
  next
    case (Some i)
    then have "i < entry_cnt bs \<and> holds_name bs name i" by (auto simp: find_name_def find_Some_iff)
    then show ?thesis using u Some by auto
  qed
qed

lemma find_name_None: "find_name bs name = None \<longleftrightarrow> (\<forall>j < entry_cnt bs. \<not> holds_name bs name j)"
  by (auto simp: find_name_def find_None_iff)

text \<open>The map from names to inode sectors that a directory stands for.\<close>

definition dir_map :: "u8 list \<Rightarrow> u8 list \<Rightarrow> nat option" where
  "dir_map bs name = map_option (\<lambda>j. e_inode_sector (dentry bs j)) (find_name bs name)"

lemma dir_map_insert:
  assumes bs: "names_ok bs" and cnt: "entry_cnt bs' = entry_cnt bs" and j: "j < entry_cnt bs" "\<not> e_in_use (dentry bs j)"
    and ent: "\<forall>k < entry_cnt bs. dentry bs' k = (if k = j then e else dentry bs k)"
    and e: "e_in_use e" "name_of e = name" "0 \<in> set (e_name e)" and new: "find_name bs name = None"
  shows "names_ok bs'" "dir_map bs' = (dir_map bs)(name \<mapsto> e_inode_sector e)"
proof -
  have nn: "\<not> holds_name bs name k" if "k < entry_cnt bs" for k using new that find_name_None by blast
  show ok': "names_ok bs'"
    unfolding names_ok_def cnt
  proof (intro conjI allI impI)
    fix k assume "k < entry_cnt bs" "e_in_use (dentry bs' k)"
    then show "0 \<in> set (e_name (dentry bs' k))" using ent e bs by (cases "k = j") (auto simp: names_ok_def)
  next
    fix a b assume ab: "a < entry_cnt bs" "b < entry_cnt bs" "e_in_use (dentry bs' a)" "e_in_use (dentry bs' b)"
      "name_of (dentry bs' a) = name_of (dentry bs' b)"
    have o: "holds_name bs (name_of (dentry bs' k)) k" if "k < entry_cnt bs" "e_in_use (dentry bs' k)" "k \<noteq> j" for k
      using ent that by (simp add: holds_name_def)
    consider "a = j" "b = j" | "a = j" "b \<noteq> j" | "a \<noteq> j" "b = j" | "a \<noteq> j" "b \<noteq> j" by blast
    then show "a = b"
    proof cases
      case 4
      then show ?thesis using ent ab bs unfolding names_ok_def by metis
    qed (use ent ab e nn o in auto)
  qed
  show "dir_map bs' = (dir_map bs)(name \<mapsto> e_inode_sector e)"
  proof
    fix m
    show "dir_map bs' m = ((dir_map bs)(name \<mapsto> e_inode_sector e)) m"
    proof (cases "m = name")
      case True
      then have "find_name bs' m = Some j" using find_name_Some [OF ok'] j cnt ent e by (simp add: holds_name_def)
      then show ?thesis using True ent j by (simp add: dir_map_def)
    next
      case False
      have "holds_name bs' m k \<longleftrightarrow> holds_name bs m k" if "k < entry_cnt bs" for k
        using ent that e(2) False j(2) by (simp add: holds_name_def)
      then have "find_name bs' m = find_name bs m" unfolding find_name_def cnt by (intro find_cong) auto
      moreover have "dentry bs' k = dentry bs k" if "find_name bs m = Some k" for k
        using that ent j(2) find_name_Some [OF bs] by (auto simp: holds_name_def)
      ultimately show ?thesis using False by (cases "find_name bs m") (simp_all add: dir_map_def)
    qed
  qed
qed

text \<open>\<open>rewritten s s' inode\<close>: only the data of one file may have changed.\<close>

definition rewritten :: "filesys \<Rightarrow> filesys \<Rightarrow> inode \<Rightarrow> bool" where
  "rewritten s s' inode \<longleftrightarrow> (\<exists>c. s' = s\<lparr>fs_c := c\<rparr> \<and> cache_ok c \<and> same_device (fs_c s) c \<and>
     (\<forall>x. x \<notin> extent (i_data inode) \<longrightarrow> sector_view c x = fs_view s x))"

lemma rewrittenI:
  assumes "s' = s\<lparr>fs_c := fs_c s'\<rparr>" "cache_ok (fs_c s')" "same_device (fs_c s) (fs_c s')"
    "\<forall>x. x \<notin> extent (i_data inode) \<longrightarrow> fs_view s' x = fs_view s x"
  shows "rewritten s s' inode"
  unfolding rewritten_def using assms by (intro exI [of _ "fs_c s'"]) simp

lemma recached_rewritten: "recached s s' \<Longrightarrow> rewritten s s' inode"
  by (auto simp: recached_def rewritten_def)

lemma rewritten_trans:
  assumes "rewritten s t inode" "rewritten t u inode"
  shows "rewritten s u inode"
proof -
  obtain c where c: "t = s\<lparr>fs_c := c\<rparr>" "same_device (fs_c s) c" "\<forall>x. x \<notin> extent (i_data inode) \<longrightarrow> sector_view c x = fs_view s x"
    using assms(1) by (auto simp: rewritten_def)
  obtain c' where c': "u = t\<lparr>fs_c := c'\<rparr>" "cache_ok c'" "same_device (fs_c t) c'"
    "\<forall>x. x \<notin> extent (i_data inode) \<longrightarrow> sector_view c' x = fs_view t x"
    using assms(2) by (auto simp: rewritten_def)
  have "same_device (fs_c s) c'" using same_device_trans [of "fs_c s" c c'] c c' by simp
  then show ?thesis using c c' by (auto simp: rewritten_def)
qed

lemma rewrittenD:
  assumes "rewritten s s' inode"
  shows "cache_ok (fs_c s')" "dev_sectors s' = dev_sectors s" "inodes s' = inodes s" "files s' = files s"
    "dirs s' = dirs s" "open_inodes s' = open_inodes s" "free_map s' = free_map s" "free_map_file s' = free_map_file s"
    "mallocs s' = mallocs s" "x \<notin> extent (i_data inode) \<Longrightarrow> fs_view s' x = fs_view s x"
  using assms by (auto simp: rewritten_def same_device_def)

lemma dir_ok_recached: "dir_ok s p inode \<Longrightarrow> recached s s' \<Longrightarrow> dir_ok s' p inode"
  using inode_ok_recached [of s p inode s'] recachedD(11) [of s s' inode] by (simp add: dir_ok_def)

text \<open>An entry that would start at the end of the directory is not written.\<close>

lemma write_at_end:
  assumes ok: "dir_ok s p inode" and w: "length w = entry_size"
  obtains s' where "inode_write_at p w (int entry_size) (int (entry_size * entry_cnt (contents s inode))) s = Some (0, s')"
    "rewritten s s' inode" "contents s' inode = contents s inode"
proof -
  have iok: "inode_ok s p inode" and dw: "deny_write_cnt inode = 0" using ok by (simp_all add: dir_ok_def)
  have len: "entry_size * entry_cnt (contents s inode) = nat (id_length (i_data inode))"
    using ok by (simp add: dir_ok_def entry_cnt_def contents_def)
  have pre: "nat (int entry_size) \<le> length w" using w by simp
  obtain s' n where r: "inode_write_at p w (int entry_size) (int (entry_size * entry_cnt (contents s inode))) s = Some (int n, s')"
    "n = nat (min (int entry_size) (id_length (i_data inode) - int (entry_size * entry_cnt (contents s inode))))"
    "s' = s\<lparr>fs_c := fs_c s'\<rparr>" "cache_ok (fs_c s')" "same_device (fs_c s) (fs_c s')"
    "patched (fs_view s') (fs_view s) (i_data inode) (nat (int (entry_size * entry_cnt (contents s inode)))) (take n w)"
    by (rule inode_write_at_ok [OF iok of_nat_0_le_iff pre dw])
  have n: "n = 0" using r(2) len by linarith
  have "rewritten s s' inode" using r(3-6) by (intro rewrittenI) (auto simp: patched_def)
  moreover have "contents s' inode = contents s inode" using r(6) n by (simp add: patched_def contents_def overwrite_def)
  ultimately show thesis using that r(1) n by simp
qed

lemma dir_add_ok:
  assumes ok: "dir_ok s (d_inode dir) inode" and d: "d \<noteq> NULL" "dirs s d = Some dir"
    and name: "name_ok name" and sector: "sector < 2 ^ 32" and junk: "length junk = entry_size"
  obtains r s' where "dir_add junk d name sector s = Some (r, s')" "rewritten s s' inode" "dir_ok s' (d_inode dir) inode"
    "r \<longleftrightarrow> dir_map (contents s inode) name = None \<and> find_unused (contents s inode) \<noteq> None"
    "dir_map (contents s' inode) = (if r then (dir_map (contents s inode))(name \<mapsto> sector) else dir_map (contents s inode))"
proof -
  define bs where "bs = contents s inode"
  obtain t where t: "lookup d name s = Some (map_option (\<lambda>j. (dentry bs j, entry_size * j)) (find_name bs name), t)" "recached s t"
    using lookup_ok [OF ok d] bs_def by blast
  have nm: "\<not> (name = [] \<or> length name > NAME_MAX)" using name by (auto simp: name_ok_def)
  have okt: "dir_ok t (d_inode dir) inode" and bt: "contents t inode = bs"
    using dir_ok_recached [OF ok t(2)] recachedD(11) [OF t(2)] bs_def by simp_all
  show thesis
  proof (cases "find_name bs name")
    case (Some j)
    then have "dir_add junk d name sector s = Some (False, t)" using t(1) nm d by (simp add: dir_add_def)
    then show thesis
      using that [of False t] recached_rewritten [OF t(2)] okt bt Some bs_def by (simp add: dir_map_def)
  next
    case None
    obtain w u where u: "free_slot_loop (d_inode dir) (int (entry_size * 0)) junk t =
        Some (w, int (entry_size * (case find_unused bs of None \<Rightarrow> entry_cnt bs | Some j \<Rightarrow> j)), u)"
      "length w = entry_size" "recached t u"
      using free_slot_loop_ok [of t "d_inode dir" inode 0 junk] okt junk bt by (auto simp: dir_ok_def find_unused_def)
    have oku: "dir_ok u (d_inode dir) inode" and bu: "contents u inode = bs"
      using dir_ok_recached [OF okt u(3)] recachedD(11) [OF u(3)] bt by simp_all
    have su: "rewritten s u inode" using recached_rewritten recached_trans t(2) u(3) by blast
    define e where "e = (of_entry_bytes w)\<lparr>e_in_use := True, e_name := name_copy (e_name (of_entry_bytes w)) name,
      e_inode_sector := sector\<rparr>"
    note nc = name_copy_ok [OF name entry_name_length [OF u(2)]]
    have e: "e_inode_sector e < 2 ^ 32" "length (e_name e) = NAME_MAX + 1" "e_in_use e" "name_of e = name" "0 \<in> set (e_name e)"
      using nc sector by (simp_all add: e_def name_of_def)
    have run: "dir_add junk d name sector s = do {
        (n, s) \<leftarrow> inode_write_at (d_inode dir) (entry_bytes e) (int entry_size)
          (int (entry_size * (case find_unused bs of None \<Rightarrow> entry_cnt bs | Some j \<Rightarrow> j))) u;
        Some (n = int entry_size, s) }"
      using t(1) nm d None u(1) by (simp add: dir_add_def e_def Let_def)
    have dm: "dir_map bs name = None" using None by (simp add: dir_map_def)
    show thesis
    proof (cases "find_unused bs")
      case full: None
      obtain v where v: "inode_write_at (d_inode dir) (entry_bytes e) (int entry_size) (int (entry_size * entry_cnt bs)) u = Some (0, v)"
        "rewritten u v inode" "contents v inode = bs"
        using write_at_end [OF oku entry_bytes_roundtrip(2) [OF e(1,2)]] bu by metis
      have "dir_ok v (d_inode dir) inode"
        using oku v(3) bu rewrittenD(1-3) [OF v(2)] by (simp add: dir_ok_def inode_ok_def)
      moreover have "dir_add junk d name sector s = Some (False, v)" using run full v(1) by (simp add: entry_size_def)
      ultimately show thesis using that [of False v] rewritten_trans [OF su v(2)] v(3) full by (simp add: bs_def)
    next
      case (Some j)
      then have j: "j < entry_cnt bs" "\<not> e_in_use (dentry bs j)" by (auto simp: find_unused_def find_Some_iff)
      obtain v where v: "inode_write_at (d_inode dir) (entry_bytes e) (int entry_size) (int (entry_size * j)) u = Some (int entry_size, v)"
        "inode_ok v (d_inode dir) inode" "contents v inode = overwrite (entry_size * j) (entry_bytes e) bs"
        "\<forall>k < entry_cnt bs. dentry (contents v inode) k = (if k = j then e else dentry bs k)"
        "entry_cnt (contents v inode) = entry_cnt bs" "v = u\<lparr>fs_c := fs_c v\<rparr>"
        "\<forall>x. x \<notin> extent (i_data inode) \<longrightarrow> fs_view v x = fs_view u x" "same_device (fs_c u) (fs_c v)"
        using replace_entry_ok [OF oku _ e(1,2), of j] j bu by metis
      have "names_ok bs" using ok by (simp add: dir_ok_def bs_def)
      note ins = dir_map_insert [OF this v(5) j v(4) e(3-5) None]
      have "rewritten u v inode" using v(2,6-8) by (intro rewrittenI) (auto simp: inode_ok_def)
      then have "rewritten s v inode" using su rewritten_trans by blast
      moreover have "dir_ok v (d_inode dir) inode" using ok v(2) ins(1) by (simp add: dir_ok_def)
      moreover have "dir_add junk d name sector s = Some (True, v)" using run Some v(1) by simp
      ultimately show thesis using that [of True v] ins(2) dm Some by (simp add: bs_def e_def)
    qed
  qed
qed

section \<open>Properties\<close>

text \<open>What \<open>lookup\<close> finds: the sector of the inode with that name, if any.\<close>

definition lookup_sector :: "ptr \<Rightarrow> u8 list \<Rightarrow> filesys \<Rightarrow> nat option option" where
  "lookup_sector d name s = map_option (\<lambda>(r, _). map_option (\<lambda>(e, _). e_inode_sector e) r) (lookup d name s)"

lemma lookup_sector_ok:
  assumes "dir_ok s (d_inode dir) inode" "d \<noteq> NULL" "dirs s d = Some dir"
  shows "lookup_sector d name s = Some (dir_map (contents s inode) name)"
proof -
  obtain t where "lookup d name s = Some (map_option (\<lambda>j. (dentry (contents s inode) j, entry_size * j))
    (find_name (contents s inode) name), t)" by (rule lookup_ok [OF assms])
  then show ?thesis by (cases "find_name (contents s inode) name") (simp_all add: lookup_sector_def dir_map_def)
qed

text \<open>An empty directory of 16 entries, open at address 64.\<close>

definition sample_dir_fs :: filesys where
  "sample_dir_fs = sample_fs\<lparr>inodes := (inodes sample_fs)(80 \<mapsto> sample_inode 1 20 320), dirs := [64 \<mapsto> \<lparr>d_inode = 80, d_pos = 0\<rparr>]\<rparr>"

lemma sample_dir_ok: "dir_ok sample_dir_fs 80 (sample_inode 1 20 320)"
proof -
  have c: "contents sample_dir_fs (sample_inode 1 20 320) = replicate 320 0"
    using sample_cache_ok(2) by (intro nth_equalityI) (simp_all add: contents_def sample_dir_fs_def sample_fs_def sample_inode_def)
  have "\<not> e_in_use (dentry (replicate 320 0) k)" if "k < 16" for k
    using that by (simp add: dentry_def of_entry_bytes_def entry_size_def)
  then have "names_ok (replicate 320 0)" by (auto simp: names_ok_def entry_cnt_def entry_size_def)
  moreover have "inode_ok sample_dir_fs 80 (sample_inode 1 20 320)"
    using sample_cache_ok by (simp add: inode_ok_def sample_dir_fs_def sample_fs_def sample_inode_def extent_ok_def sector_cnt_def)
  ultimately show ?thesis unfolding dir_ok_def c by (simp add: sample_inode_def entry_size_def)
qed

text \<open>C29. Adding a name to a directory succeeds exactly when the name is new and there is an unused entry.  Afterwards
  \<open>lookup\<close> finds the new inode under the name, and under every other name what it found before; after a failure it
  finds everything as before.\<close>

theorem dir_add_lookup:
  assumes "dir_ok s (d_inode dir) inode" "d \<noteq> NULL" "dirs s d = Some dir"
    and "name_ok name" "sector < 2 ^ 32" "length junk = entry_size"
  shows "\<exists>r s'. dir_add junk d name sector s = Some (r, s') \<and> dir_ok s' (d_inode dir) inode \<and>
    (r \<longleftrightarrow> lookup_sector d name s = Some None \<and> find_unused (contents s inode) \<noteq> None) \<and>
    (\<forall>m. lookup_sector d m s' = (if r \<and> m = name then Some (Some sector) else lookup_sector d m s))"
proof -
  obtain r s' where r: "dir_add junk d name sector s = Some (r, s')" "rewritten s s' inode" "dir_ok s' (d_inode dir) inode"
    "r \<longleftrightarrow> dir_map (contents s inode) name = None \<and> find_unused (contents s inode) \<noteq> None"
    "dir_map (contents s' inode) = (if r then (dir_map (contents s inode))(name \<mapsto> sector) else dir_map (contents s inode))"
    by (rule dir_add_ok [OF assms])
  have "dirs s' d = Some dir" using rewrittenD(5) [OF r(2)] assms(3) by simp
  then have "lookup_sector d m s' = Some (dir_map (contents s' inode) m)" for m
    using lookup_sector_ok [OF r(3) assms(2)] by blast
  then show ?thesis using r lookup_sector_ok [OF assms(1-3)] by auto
qed

theorem dir_add_lookup_witness:
  "\<exists>r s'. dir_add (replicate 20 7) 64 [97, 98] 33 sample_dir_fs = Some (r, s') \<and>
     lookup_sector 64 [99] s' = lookup_sector 64 [99] sample_dir_fs"
proof -
  have "dirs sample_dir_fs 64 = Some \<lparr>d_inode = 80, d_pos = 0\<rparr>" by (simp add: sample_dir_fs_def)
  then show ?thesis
    using dir_add_lookup [of sample_dir_fs "\<lparr>d_inode = 80, d_pos = 0\<rparr>" "sample_inode 1 20 320" 64 "[97, 98]" 33 "replicate 20 7"]
      sample_dir_ok by (auto simp: name_ok_def NAME_MAX_def entry_size_def)
qed

end
