(* ===== verification/Swap.thy ===== *)
theory Swap
  imports Machine Block
begin

text \<open>
  The swap table (\<open>vm/swap.c\<close>): a stack of free slots, each of the eight sectors of a page on the swap device.
  Shown: the table is a store of pages, in which a slot handed out was free and keeps its page until it is read
  back.
\<close>

section \<open>Definitions\<close>

definition SECTORS_PER_PAGE :: nat where
  "SECTORS_PER_PAGE = PGSIZE div BLOCK_SECTOR_SIZE"

record swap =
  swap_block :: block
  swap_table :: "nat list"
  swap_slots :: nat
  swap_top :: int
  swap_lock :: bool

text \<open>\<open>dev\<close> is the device with the role of swap, if there is one, and \<open>mem_ok\<close> says whether \<open>malloc\<close> succeeds.\<close>

definition init_swap_table :: "block option \<Rightarrow> bool \<Rightarrow> swap option" where
  "init_swap_table dev mem_ok = do {
     b \<leftarrow> dev;
     let slots = block_size b div SECTORS_PER_PAGE;
     ASSERT mem_ok;
     Some \<lparr>swap_block = b, swap_table = [0..<slots], swap_slots = slots, swap_top = int slots - 1, swap_lock = False\<rparr> }"

definition bytes_at :: "mem \<Rightarrow> ptr \<Rightarrow> nat \<Rightarrow> u8 list" where
  "bytes_at m a n = map (\<lambda>i. m (a + i)) [0..<n]"

definition put_bytes :: "mem \<Rightarrow> ptr \<Rightarrow> u8 list \<Rightarrow> mem" where
  "put_bytes m a bs = (\<lambda>x. if a \<le> x \<and> x < a + length bs then bs ! (x - a) else m x)"

fun write_sectors :: "mem \<Rightarrow> ptr \<Rightarrow> nat \<Rightarrow> nat list \<Rightarrow> block \<Rightarrow> block option" where
  "write_sectors m kaddr slot [] b = Some b"
| "write_sectors m kaddr slot (i # is) b = do {
     let sector = (slot * SECTORS_PER_PAGE + i) mod 2 ^ 32;
     let buffer = kaddr + i * BLOCK_SECTOR_SIZE;
     b \<leftarrow> block_write b sector (bytes_at m buffer BLOCK_SECTOR_SIZE);
     write_sectors m kaddr slot is b }"

definition write_to_swap :: "mem \<Rightarrow> ptr \<Rightarrow> swap \<Rightarrow> (nat \<times> swap) option" where
  "write_to_swap m kaddr s = do {
     ASSERT (\<not> swap_lock s);
     ASSERT (\<not> swap_top s < 0);
     ASSERT (nat (swap_top s) < length (swap_table s));
     let slot = swap_table s ! nat (swap_top s);
     let s = s\<lparr>swap_table := (swap_table s)[nat (swap_top s) := 0xBADC0DE5], swap_top := swap_top s - 1\<rparr>;
     b \<leftarrow> write_sectors m kaddr slot [0..<SECTORS_PER_PAGE] (swap_block s);
     Some (slot, s\<lparr>swap_block := b\<rparr>) }"

definition free_slot :: "nat \<Rightarrow> swap \<Rightarrow> swap option" where
  "free_slot slot s = do {
     ASSERT (\<not> swap_lock s);
     let s = s\<lparr>swap_top := swap_top s + 1\<rparr>;
     ASSERT (swap_top s < int (swap_slots s));
     Some (s\<lparr>swap_table := (swap_table s)[nat (swap_top s) := slot]\<rparr>) }"

fun read_sectors :: "ptr \<Rightarrow> nat \<Rightarrow> nat list \<Rightarrow> mem \<Rightarrow> block \<Rightarrow> (mem \<times> block) option" where
  "read_sectors kaddr slot [] m b = Some (m, b)"
| "read_sectors kaddr slot (i # is) m b = do {
     let sector = (slot * SECTORS_PER_PAGE + i) mod 2 ^ 32;
     let buffer = kaddr + i * BLOCK_SECTOR_SIZE;
     (d, b) \<leftarrow> block_read b sector;
     read_sectors kaddr slot is (put_bytes m buffer d) b }"

definition read_from_swap :: "ptr \<Rightarrow> nat \<Rightarrow> mem \<Rightarrow> swap \<Rightarrow> (mem \<times> swap) option" where
  "read_from_swap kaddr slot m s = do {
     (m, b) \<leftarrow> read_sectors kaddr slot [0..<SECTORS_PER_PAGE] m (swap_block s);
     s \<leftarrow> free_slot slot (s\<lparr>swap_block := b\<rparr>);
     Some (m, s) }"

section \<open>The table as a store of pages\<close>

definition free_slots :: "swap \<Rightarrow> nat list" where
  "free_slots s = take (nat (swap_top s + 1)) (swap_table s)"

definition swap_ok :: "swap \<Rightarrow> bool" where
  "swap_ok s \<longleftrightarrow> length (swap_table s) = swap_slots s \<and> - 1 \<le> swap_top s \<and> swap_top s < int (swap_slots s) \<and>
     distinct (free_slots s) \<and> set (free_slots s) \<subseteq> {..<swap_slots s} \<and> \<not> swap_lock s \<and>
     swap_slots s * SECTORS_PER_PAGE \<le> blk_size (swap_block s) \<and> blk_size (swap_block s) \<le> 2 ^ 32 \<and>
     blk_type (swap_block s) \<noteq> BLOCK_FOREIGN \<and>
     (\<forall>x < blk_size (swap_block s). length (blk_store (swap_block s) x) = BLOCK_SECTOR_SIZE)"

definition in_use :: "swap \<Rightarrow> nat set" where
  "in_use s = {..<swap_slots s} - set (free_slots s)"

definition slot_page :: "block \<Rightarrow> nat \<Rightarrow> u8 list" where
  "slot_page b slot = concat (map (\<lambda>i. blk_store b (slot * SECTORS_PER_PAGE + i)) [0..<SECTORS_PER_PAGE])"

text \<open>The abstract store: the pages of the slots in use.\<close>

definition pages :: "swap \<Rightarrow> nat \<rightharpoonup> u8 list" where
  "pages s slot = (if slot \<in> in_use s then Some (slot_page (swap_block s) slot) else None)"

lemma sectors_8: "SECTORS_PER_PAGE = 8"
  by (simp add: SECTORS_PER_PAGE_def PGSIZE_def PGBITS_def BLOCK_SECTOR_SIZE_def)

lemma length_bytes_at [simp]: "length (bytes_at m a n) = n"
  by (simp add: bytes_at_def)

lemma bytes_at_append: "bytes_at m a (j + n) = bytes_at m a j @ bytes_at m (a + j) n"
  by (induction n) (simp_all add: bytes_at_def add.assoc)

lemma write_sectors_ok:
  assumes "k \<le> 8" "slot * 8 + 8 \<le> blk_size b" "blk_size b \<le> 2 ^ 32" "blk_type b \<noteq> BLOCK_FOREIGN"
  shows "\<exists>b'. write_sectors m kaddr slot [0..<k] b = Some b' \<and> blk_size b' = blk_size b \<and> blk_type b' = blk_type b \<and>
    (\<forall>x. blk_store b' x = (if slot * 8 \<le> x \<and> x < slot * 8 + k then bytes_at m (kaddr + (x - slot * 8) * 512) 512 else blk_store b x))"
proof -
  have app: "write_sectors m kaddr slot (xs @ ys) b = (write_sectors m kaddr slot xs b \<bind> write_sectors m kaddr slot ys)" for xs ys b
    by (induction xs arbitrary: b) (simp_all add: Let_def cong: Option.bind_cong)
  show ?thesis using assms(1)
  proof (induction k)
    case 0 then show ?case by auto
  next
    case (Suc k)
    then obtain c where c: "write_sectors m kaddr slot [0..<k] b = Some c" "blk_size c = blk_size b" "blk_type c = blk_type b"
      "\<forall>x. blk_store c x = (if slot * 8 \<le> x \<and> x < slot * 8 + k then bytes_at m (kaddr + (x - slot * 8) * 512) 512 else blk_store b x)"
      by auto
    have "slot * 8 + k < blk_size b" using Suc.prems assms(2) by simp
    then have "(slot * 8 + k) mod 2 ^ 32 = slot * 8 + k" "\<not> blk_size c \<le> slot * 8 + k" using assms(3) c(2) by simp_all
    then have "write_sectors m kaddr slot [k] c = Some (c\<lparr>blk_store := (blk_store c)(slot * 8 + k := bytes_at m (kaddr + k * 512) 512),
        write_cnt := (write_cnt c + 1) mod 2 ^ 64\<rparr>)"
      using assms(4) c(3) by (simp add: block_write_def check_sector_def sectors_8 BLOCK_SECTOR_SIZE_def Let_def)
    then show ?case using c app [of "[0..<k]" "[k]" b] by (auto simp del: write_sectors.simps)
  qed
qed

lemma slot_page_8: "slot_page b slot = concat (map (\<lambda>i. blk_store b (slot * 8 + i)) [0..<8])"
  by (simp add: slot_page_def sectors_8)

lemma slot_page_written:
  assumes "\<forall>x. blk_store b' x = (if slot * 8 \<le> x \<and> x < slot * 8 + 8 then bytes_at m (kaddr + (x - slot * 8) * 512) 512 else blk_store b x)"
  shows "slot_page b' slot = bytes_at m kaddr 4096" "other \<noteq> slot \<Longrightarrow> slot_page b' other = slot_page b other"
proof -
  have "concat (map (\<lambda>i. bytes_at m (kaddr + i * 512) 512) [0..<n]) = bytes_at m kaddr (n * 512)" for n
  proof (induction n)
    case (Suc n)
    have "bytes_at m kaddr (Suc n * 512) = bytes_at m kaddr (n * 512) @ bytes_at m (kaddr + n * 512) 512"
      using bytes_at_append [of m kaddr "n * 512" 512] by (simp add: add.commute)
    then show ?case using Suc by simp
  qed (simp add: bytes_at_def)
  from this [of 8] have "concat (map (\<lambda>i. bytes_at m (kaddr + i * 512) 512) [0..<8]) = bytes_at m kaddr 4096" by simp
  moreover have "map (\<lambda>i. blk_store b' (slot * 8 + i)) [0..<8] = map (\<lambda>i. bytes_at m (kaddr + i * 512) 512) [0..<8]"
    using assms by (intro map_cong) auto
  ultimately show "slot_page b' slot = bytes_at m kaddr 4096" by (simp only: slot_page_8)
  show "slot_page b' other = slot_page b other" if "other \<noteq> slot"
  proof -
    have "\<not> (slot * 8 \<le> other * 8 + i \<and> other * 8 + i < slot * 8 + 8)" if "i < 8" for i using that \<open>other \<noteq> slot\<close> by linarith
    then show ?thesis unfolding slot_page_8 using assms by (intro arg_cong [where f = concat] map_cong) auto
  qed
qed

lemma read_sectors_ok:
  assumes "k \<le> 8" "slot * 8 + 8 \<le> blk_size b" "blk_size b \<le> 2 ^ 32" "\<forall>x < blk_size b. length (blk_store b x) = 512"
  shows "\<exists>b'. read_sectors kaddr slot [0..<k] m b =
      Some (put_bytes m kaddr (concat (map (\<lambda>i. blk_store b (slot * 8 + i)) [0..<k])), b') \<and>
    blk_size b' = blk_size b \<and> blk_type b' = blk_type b \<and> blk_store b' = blk_store b"
proof -
  have app: "read_sectors kaddr slot (xs @ ys) m b = (read_sectors kaddr slot xs m b \<bind> (\<lambda>(m, b). read_sectors kaddr slot ys m b))" for xs ys m b
    by (induction xs arbitrary: m b) (simp_all add: Let_def split_def cong: Option.bind_cong)
  show ?thesis using assms(1)
  proof (induction k)
    case 0 then show ?case by (auto simp: put_bytes_def intro!: ext)
  next
    case (Suc k)
    let ?c = "concat (map (\<lambda>i. blk_store b (slot * 8 + i)) [0..<k])"
    obtain c where c: "read_sectors kaddr slot [0..<k] m b = Some (put_bytes m kaddr ?c, c)"
      "blk_size c = blk_size b" "blk_type c = blk_type b" "blk_store c = blk_store b" using Suc by auto
    have lt: "slot * 8 + i < blk_size b" if "i \<le> k" for i using Suc.prems assms(2) that by simp
    have "map (\<lambda>i. length (blk_store b (slot * 8 + i))) [0..<k] = map (\<lambda>i. 512) [0..<k]"
      using assms(4) lt by (intro map_cong) auto
    then have lc: "length ?c = k * 512" by (simp add: length_concat comp_def map_replicate_const sum_list_replicate)
    have "put_bytes (put_bytes m kaddr ?c) (kaddr + k * 512) d = put_bytes m kaddr (?c @ d)" for d
      unfolding put_bytes_def using lc by (rule_tac ext) (auto simp: nth_append)
    moreover have "read_sectors kaddr slot [k] m' c = Some (put_bytes m' (kaddr + k * 512) (blk_store b (slot * 8 + k)),
        c\<lparr>read_cnt := (read_cnt c + 1) mod 2 ^ 64\<rparr>)" for m'
      using lt [of k] assms(3) c(2,4) by (simp add: block_read_def check_sector_def sectors_8 BLOCK_SECTOR_SIZE_def Let_def)
    ultimately show ?case using c app [of "[0..<k]" "[k]" m b] by (simp del: read_sectors.simps)
  qed
qed

lemma init_swap_table_ok:
  assumes "blk_size b \<le> 2 ^ 32" "blk_type b \<noteq> BLOCK_FOREIGN" "\<forall>x < blk_size b. length (blk_store b x) = BLOCK_SECTOR_SIZE"
  shows "\<exists>s. init_swap_table (Some b) True = Some s \<and> swap_ok s \<and> pages s = Map.empty \<and>
    swap_slots s = blk_size b div SECTORS_PER_PAGE"
proof -
  have "blk_size b div 8 * 8 \<le> blk_size b" by simp
  then show ?thesis using assms
    by (auto simp: init_swap_table_def swap_ok_def free_slots_def pages_def in_use_def block_size_def sectors_8 Let_def intro!: ext)
qed

lemma write_to_swap_ok:
  assumes ok: "swap_ok s" and some: "0 \<le> swap_top s"
  obtains slot s' where "write_to_swap m kaddr s = Some (slot, s')" "swap_ok s'" "slot < swap_slots s" "pages s slot = None"
    "pages s' = (pages s)(slot \<mapsto> bytes_at m kaddr PGSIZE)" "swap_top s' = swap_top s - 1" "swap_slots s' = swap_slots s"
proof -
  define t where "t = nat (swap_top s)"
  define slot where "slot = swap_table s ! t"
  have len: "length (swap_table s) = swap_slots s" "t < swap_slots s" "swap_top s = int t"
    using ok some by (auto simp: swap_ok_def t_def)
  have fs: "free_slots s = take t (swap_table s) @ [slot]"
    using len by (simp add: free_slots_def take_Suc_conv_app_nth slot_def nat_add_distrib)
  have slot: "slot < swap_slots s" "slot \<notin> set (take t (swap_table s))" "distinct (take t (swap_table s))"
    using ok unfolding swap_ok_def fs by auto
  have room: "slot * 8 + 8 \<le> blk_size (swap_block s)"
  proof -
    have "Suc slot * 8 \<le> swap_slots s * 8" using slot(1) by (intro mult_le_mono1) simp
    then show ?thesis using ok by (simp add: swap_ok_def sectors_8)
  qed
  obtain b where b: "write_sectors m kaddr slot [0..<8] (swap_block s) = Some b" "blk_size b = blk_size (swap_block s)"
    "blk_type b = blk_type (swap_block s)"
    "\<forall>x. blk_store b x = (if slot * 8 \<le> x \<and> x < slot * 8 + 8 then bytes_at m (kaddr + (x - slot * 8) * 512) 512 else blk_store (swap_block s) x)"
    using write_sectors_ok [of 8 slot "swap_block s" m kaddr] room ok by (auto simp: swap_ok_def)
  define s' where "s' = s\<lparr>swap_table := (swap_table s)[t := 0xBADC0DE5], swap_top := swap_top s - 1, swap_block := b\<rparr>"
  have run: "write_to_swap m kaddr s = Some (slot, s')"
    using ok some len b(1) [folded sectors_8] by (simp add: write_to_swap_def swap_ok_def slot_def s'_def Let_def)
  have fs': "free_slots s' = take t (swap_table s)" using len by (simp add: free_slots_def s'_def)
  have ok': "swap_ok s'" using ok slot fs' b(2,3,4) len unfolding swap_ok_def fs
    by (auto simp: s'_def BLOCK_SECTOR_SIZE_def)
  have use': "in_use s' = insert slot (in_use s)" using slot fs fs' by (auto simp: in_use_def s'_def)
  have "pages s' = (pages s)(slot \<mapsto> bytes_at m kaddr PGSIZE)"
    using slot_page_written [OF b(4)] use' by (auto simp: pages_def s'_def PGSIZE_def PGBITS_def intro!: ext)
  moreover have "pages s slot = None" using fs by (simp add: pages_def in_use_def)
  ultimately show thesis using that [OF run ok' slot(1)] by (simp add: s'_def)
qed

lemma read_from_swap_ok:
  assumes ok: "swap_ok s" and page: "pages s slot = Some p"
  obtains m' s' where "read_from_swap kaddr slot m s = Some (m', s')" "swap_ok s'" "m' = put_bytes m kaddr p" "length p = PGSIZE"
    "pages s' = (pages s)(slot := None)"
proof -
  have use: "slot < swap_slots s" "slot \<notin> set (free_slots s)" and p: "p = slot_page (swap_block s) slot"
    using page by (auto simp: pages_def in_use_def split: if_splits)
  have room: "slot * 8 + 8 \<le> blk_size (swap_block s)"
  proof -
    have "Suc slot * 8 \<le> swap_slots s * 8" using use(1) by (intro mult_le_mono1) simp
    then show ?thesis using ok by (simp add: swap_ok_def sectors_8)
  qed
  obtain b where b: "read_sectors kaddr slot [0..<8] m (swap_block s) = Some (put_bytes m kaddr p, b)"
    "blk_size b = blk_size (swap_block s)" "blk_type b = blk_type (swap_block s)" "blk_store b = blk_store (swap_block s)"
    using read_sectors_ok [of 8 slot "swap_block s" kaddr m] room ok by (auto simp: swap_ok_def p slot_page_8 BLOCK_SECTOR_SIZE_def)
  have "map (\<lambda>i. length (blk_store (swap_block s) (slot * 8 + i))) [0..<8] = map (\<lambda>i. 512) [0..<8]"
    using ok room by (intro map_cong) (auto simp: swap_ok_def BLOCK_SECTOR_SIZE_def)
  then have lp: "length p = PGSIZE"
    by (simp add: p slot_page_8 length_concat comp_def map_replicate_const sum_list_replicate PGSIZE_def PGBITS_def del: upt_conv_Cons)
  define t where "t = nat (swap_top s + 1)"
  have len: "length (swap_table s) = swap_slots s" "swap_top s + 1 = int t" "t \<le> swap_slots s"
    using ok by (auto simp: swap_ok_def t_def)
  have "length (free_slots s) = t" using len by (simp add: free_slots_def t_def)
  then have "t < swap_slots s"
  proof -
    have "card (set (free_slots s)) = t" using ok \<open>length (free_slots s) = t\<close> by (simp add: swap_ok_def distinct_card)
    moreover have "card (insert slot (set (free_slots s))) \<le> card {..<swap_slots s}"
      using ok use(1) by (intro card_mono) (auto simp: swap_ok_def)
    ultimately show ?thesis using use(2) by simp
  qed
  define s' where "s' = s\<lparr>swap_block := b, swap_top := int t, swap_table := (swap_table s)[t := slot]\<rparr>"
  have run: "read_from_swap kaddr slot m s = Some (put_bytes m kaddr p, s')"
    using ok b(1) [folded sectors_8] len \<open>t < swap_slots s\<close>
    by (simp add: read_from_swap_def free_slot_def swap_ok_def s'_def Let_def)
  have fs': "free_slots s' = free_slots s @ [slot]"
    using len \<open>t < swap_slots s\<close> by (simp add: free_slots_def s'_def take_Suc_conv_app_nth nat_add_distrib)
  have ok': "swap_ok s'" using ok use fs' b(2-4) len \<open>t < swap_slots s\<close> unfolding swap_ok_def by (auto simp: s'_def)
  have "in_use s' = in_use s - {slot}" using fs' by (auto simp: in_use_def s'_def)
  then have "pages s' = (pages s)(slot := None)" using b(4) by (intro ext) (auto simp: pages_def s'_def slot_page_def)
  then show thesis using that [OF run ok' refl lp] by simp
qed

section \<open>Properties\<close>

definition sample_swap :: swap where
  "sample_swap = \<lparr>swap_block = \<lparr>blk_name = ''hdc1'', blk_type = BLOCK_SWAP, blk_size = 24, blk_store = (\<lambda>_. replicate 512 0),
     read_cnt = 0, write_cnt = 0\<rparr>, swap_table = [0, 1, 2], swap_slots = 3, swap_top = 2, swap_lock = False\<rparr>"

lemma sample_swap_ok: "swap_ok sample_swap"
  by (auto simp: swap_ok_def sample_swap_def free_slots_def sectors_8 BLOCK_SECTOR_SIZE_def)

text \<open>C30. While a slot is free, writing a page to swap takes a slot that held none, and no slot in use changes.  Whatever
  address the page is later read to, the bytes that arrive there are the page, nothing else in memory changes, the slot is
  free again, and the other slots keep their pages.\<close>

theorem swap_roundtrip:
  assumes "swap_ok s" "0 \<le> swap_top s"
  shows "\<exists>slot s'. write_to_swap m kaddr s = Some (slot, s') \<and> swap_ok s' \<and> pages s slot = None \<and>
    pages s' = (pages s)(slot \<mapsto> bytes_at m kaddr PGSIZE) \<and>
    (\<forall>m2 kaddr2. \<exists>s2. read_from_swap kaddr2 slot m2 s' = Some (put_bytes m2 kaddr2 (bytes_at m kaddr PGSIZE), s2) \<and>
       swap_ok s2 \<and> pages s2 = pages s)"
proof -
  obtain slot s' where w: "write_to_swap m kaddr s = Some (slot, s')" "swap_ok s'" "slot < swap_slots s" "pages s slot = None"
    "pages s' = (pages s)(slot \<mapsto> bytes_at m kaddr PGSIZE)" "swap_top s' = swap_top s - 1" "swap_slots s' = swap_slots s"
    by (rule write_to_swap_ok [OF assms])
  have "\<exists>s2. read_from_swap kaddr2 slot m2 s' = Some (put_bytes m2 kaddr2 (bytes_at m kaddr PGSIZE), s2) \<and>
       swap_ok s2 \<and> pages s2 = pages s" for m2 kaddr2
  proof -
    have "pages s' slot = Some (bytes_at m kaddr PGSIZE)" using w(5) by simp
    then obtain m' s2 where r: "read_from_swap kaddr2 slot m2 s' = Some (m', s2)" "swap_ok s2"
      "m' = put_bytes m2 kaddr2 (bytes_at m kaddr PGSIZE)" "pages s2 = (pages s')(slot := None)"
      using read_from_swap_ok [OF w(2)] by metis
    have "pages s2 = pages s" using r(4) w(4,5) by auto
    then show ?thesis using r by blast
  qed
  then show ?thesis using w by blast
qed

theorem swap_roundtrip_witness:
  "\<exists>slot s'. write_to_swap (\<lambda>a. of_nat a) 8192 sample_swap = Some (slot, s') \<and> pages sample_swap slot = None"
  using swap_roundtrip [OF sample_swap_ok, of "\<lambda>a. of_nat a" 8192] by (auto simp: sample_swap_def)

end
