(* ===== verification/Page.thy ===== *)
theory Page
  imports Directory Pagedir Swap Hash_Table
begin

text \<open>
  The supplemental page table (\<open>vm/page.c\<close>) without the functions that call the frame table, and the state of the
  virtual memory system.  A lock is the address of the thread that holds it (0 when it is free); the operations are those
  of the running thread \<open>vm_cur\<close>, and taking a lock that is held stops the model.  A function that may end in
  \<open>thread_exit\<close> returns \<open>Inl\<close> of the state then.
\<close>

section \<open>Definitions\<close>

subsection \<open>State\<close>

datatype page_location = SWAP_PAGE | FILE_PAGE | MMAPED_PAGE

text \<open>The field \<open>frame\<close> of a page is the index of its frame in the frame table.\<close>

record spte =
  page_lock :: ptr
  location :: page_location
  owner_thread :: ptr
  page_id :: ptr
  sp_frame :: "nat option"
  is_writeable :: bool
  is_loaded :: bool
  file_ptr :: ptr
  offset_in_file :: int
  read_bytes :: nat
  zero_bytes :: nat
  swap_index :: nat

record frame =
  resident_page :: ptr
  physical_mem_frame_base :: ptr
  frame_lock :: ptr

record uthread =
  u_pagedir :: ptr
  pagedir_lock :: ptr
  spte_table :: "ptr hash"
  exit_status :: int

record vm =
  vm_m :: machine
  vm_swap :: swap
  vm_fs :: filesys
  file_system_lock :: ptr
  sptes :: "ptr \<rightharpoonup> spte"
  frame_table :: "frame list"
  first_frame :: ptr
  frame_evict_lock :: ptr
  clock_hand :: nat
  uthreads :: "ptr \<rightharpoonup> uthread"
  vm_cur :: ptr
  vm_mallocs :: "ptr list"

subsection \<open>Locks\<close>

definition lock_take :: "ptr \<Rightarrow> ptr \<Rightarrow> ptr option" where
  "lock_take holder cur = do { ASSERT (holder = NULL); Some cur }"

definition lock_drop :: "ptr \<Rightarrow> ptr \<Rightarrow> ptr option" where
  "lock_drop holder cur = do { ASSERT (holder = cur); Some NULL }"

definition set_spte :: "ptr \<Rightarrow> spte \<Rightarrow> vm \<Rightarrow> vm" where
  "set_spte p e s = s\<lparr>sptes := (sptes s)(p \<mapsto> e)\<rparr>"

definition set_frame :: "nat \<Rightarrow> frame \<Rightarrow> vm \<Rightarrow> vm" where
  "set_frame i f s = s\<lparr>frame_table := (frame_table s)[i := f]\<rparr>"

definition get_frame :: "nat \<Rightarrow> vm \<Rightarrow> frame option" where
  "get_frame i s = (if i < length (frame_table s) then Some (frame_table s ! i) else None)"

definition lock_page :: "ptr \<Rightarrow> vm \<Rightarrow> vm option" where
  "lock_page p s = do {
     e \<leftarrow> sptes s p;
     l \<leftarrow> lock_take (page_lock e) (vm_cur s);
     Some (set_spte p (e\<lparr>page_lock := l\<rparr>) s) }"

definition unlock_page :: "ptr \<Rightarrow> vm \<Rightarrow> vm option" where
  "unlock_page p s = do {
     e \<leftarrow> sptes s p;
     l \<leftarrow> lock_drop (page_lock e) (vm_cur s);
     Some (set_spte p (e\<lparr>page_lock := l\<rparr>) s) }"

definition lock_frame :: "nat \<Rightarrow> vm \<Rightarrow> vm option" where
  "lock_frame i s = do {
     f \<leftarrow> get_frame i s;
     l \<leftarrow> lock_take (frame_lock f) (vm_cur s);
     Some (set_frame i (f\<lparr>frame_lock := l\<rparr>) s) }"

definition unlock_frame :: "nat \<Rightarrow> vm \<Rightarrow> vm option" where
  "unlock_frame i s = do {
     f \<leftarrow> get_frame i s;
     l \<leftarrow> lock_drop (frame_lock f) (vm_cur s);
     Some (set_frame i (f\<lparr>frame_lock := l\<rparr>) s) }"

definition lock_pagedir :: "ptr \<Rightarrow> vm \<Rightarrow> vm option" where
  "lock_pagedir t s = do {
     u \<leftarrow> uthreads s t;
     l \<leftarrow> lock_take (pagedir_lock u) (vm_cur s);
     Some (s\<lparr>uthreads := (uthreads s)(t \<mapsto> u\<lparr>pagedir_lock := l\<rparr>)\<rparr>) }"

definition unlock_pagedir :: "ptr \<Rightarrow> vm \<Rightarrow> vm option" where
  "unlock_pagedir t s = do {
     u \<leftarrow> uthreads s t;
     l \<leftarrow> lock_drop (pagedir_lock u) (vm_cur s);
     Some (s\<lparr>uthreads := (uthreads s)(t \<mapsto> u\<lparr>pagedir_lock := l\<rparr>)\<rparr>) }"

definition lock_fs :: "vm \<Rightarrow> vm option" where
  "lock_fs s = do {
     l \<leftarrow> lock_take (file_system_lock s) (vm_cur s);
     Some (s\<lparr>file_system_lock := l\<rparr>) }"

definition unlock_fs :: "vm \<Rightarrow> vm option" where
  "unlock_fs s = do {
     l \<leftarrow> lock_drop (file_system_lock s) (vm_cur s);
     Some (s\<lparr>file_system_lock := l\<rparr>) }"

definition vm_new :: "vm \<Rightarrow> ptr \<times> vm" where
  "vm_new s = (case vm_mallocs s of [] \<Rightarrow> (NULL, s) | p # ps \<Rightarrow> (p, s\<lparr>vm_mallocs := ps\<rparr>))"

text \<open>The exit of the running thread after an error: \<open>exit_status = -1\<close> and \<open>thread_exit\<close>.\<close>

definition fail_thread :: "vm \<Rightarrow> vm option" where
  "fail_thread s = do {
     u \<leftarrow> uthreads s (vm_cur s);
     Some (s\<lparr>uthreads := (uthreads s)(vm_cur s \<mapsto> u\<lparr>exit_status := -1\<rparr>)\<rparr>) }"

subsection \<open>Pages\<close>

definition assert_spte_consistency :: "ptr \<Rightarrow> vm \<Rightarrow> unit option" where
  "assert_spte_consistency p s = do {
     ASSERT (p \<noteq> NULL);
     e \<leftarrow> sptes s p;
     ASSERT (location e = SWAP_PAGE \<or> (read_bytes e + zero_bytes e) mod 2 ^ 32 = PGSIZE);
     case sp_frame e of
       None \<Rightarrow> Some ()
     | Some i \<Rightarrow> do {
         f \<leftarrow> get_frame i s;
         ASSERT (physical_mem_frame_base f \<ge> PHYS_BASE) } }"

text \<open>The hash and comparison functions read the page address of an entry from the heap of entries.\<close>

definition page_id_of :: "(ptr \<rightharpoonup> spte) \<Rightarrow> ptr \<Rightarrow> ptr" where
  "page_id_of h p = (case h p of None \<Rightarrow> 0 | Some e \<Rightarrow> page_id e)"

definition hash_func :: "(ptr \<rightharpoonup> spte) \<Rightarrow> ptr hash_func" where
  "hash_func h p = hash_int (of_nat (page_id_of h p))"

definition less_func :: "(ptr \<rightharpoonup> spte) \<Rightarrow> ptr less_func" where
  "less_func h a b \<longleftrightarrow> page_id_of h a < page_id_of h b"

text \<open>\<open>create_spte_and_add_to_table\<close> returns the entry, locked; \<open>Inl\<close> when the page exists already.\<close>

definition create_spte_and_add_to_table ::
  "page_location \<Rightarrow> ptr \<Rightarrow> bool \<Rightarrow> bool \<Rightarrow> ptr \<Rightarrow> int \<Rightarrow> nat \<Rightarrow> nat \<Rightarrow> vm \<Rightarrow> (vm + ptr \<times> vm) option" where
  "create_spte_and_add_to_table loc page writeable loaded fp ofs rd zero s = do {
     let (p, s) = vm_new s;
     if p = NULL then Some (Inr (NULL, s))
     else do {
       let e = \<lparr>page_lock = NULL, location = loc, owner_thread = vm_cur s, page_id = page, sp_frame = None,
                is_writeable = writeable, is_loaded = loaded, file_ptr = fp, offset_in_file = ofs, read_bytes = rd,
                zero_bytes = zero, swap_index = 0\<rparr>;
       s \<leftarrow> lock_page p (set_spte p e s);
       u \<leftarrow> uthreads s (vm_cur s);
       let (q, s) = vm_new s;
       (outcome, h) \<leftarrow> hash_insert (hash_func (sptes s)) (less_func (sptes s)) (q \<noteq> NULL) (spte_table u) p;
       let s = s\<lparr>uthreads := (uthreads s)(vm_cur s \<mapsto> u\<lparr>spte_table := h\<rparr>)\<rparr>;
       if outcome \<noteq> None then do { s \<leftarrow> fail_thread s; Some (Inl s) }
       else do {
         assert_spte_consistency p s;
         Some (Inr (p, s)) } } }"

definition free_spte :: "ptr \<Rightarrow> vm \<Rightarrow> vm option" where
  "free_spte p s = do {
     assert_spte_consistency p s;
     Some (s\<lparr>sptes := (sptes s)(p := None)\<rparr>) }"

text \<open>The kernel address of the frame of a page (\<open>spte->frame->physical_mem_frame_base\<close>).\<close>

definition base_of :: "ptr \<Rightarrow> vm \<Rightarrow> ptr option" where
  "base_of p s = do {
     e \<leftarrow> sptes s p;
     i \<leftarrow> sp_frame e;
     f \<leftarrow> get_frame i s;
     Some (physical_mem_frame_base f) }"

definition set_mem :: "mem \<Rightarrow> vm \<Rightarrow> vm" where
  "set_mem m s = s\<lparr>vm_m := (vm_m s)\<lparr>m_mem := m\<rparr>\<rparr>"

definition load_swap_page :: "ptr \<Rightarrow> vm \<Rightarrow> vm option" where
  "load_swap_page p s = do {
     assert_spte_consistency p s;
     e \<leftarrow> sptes s p;
     base \<leftarrow> base_of p s;
     (m, sw) \<leftarrow> read_from_swap base (swap_index e) (m_mem (vm_m s)) (vm_swap s);
     let s = set_mem m (s\<lparr>vm_swap := sw\<rparr>);
     assert_spte_consistency p s;
     Some s }"

definition load_file_page :: "ptr \<Rightarrow> vm \<Rightarrow> (vm + vm) option" where
  "load_file_page p s = do {
     assert_spte_consistency p s;
     e \<leftarrow> sptes s p;
     base \<leftarrow> base_of p s;
     if zero_bytes e = PGSIZE then do {
       (_, m) \<leftarrow> memset (m_mem (vm_m s)) base 0 PGSIZE;
       Some (Inr (set_mem m s)) }
     else do {
       s \<leftarrow> lock_fs s;
       (d, fs) \<leftarrow> file_read_at (file_ptr e) (int (read_bytes e)) (offset_in_file e) (vm_fs s);
       let s = set_mem (put_bytes (m_mem (vm_m s)) base d) (s\<lparr>vm_fs := fs\<rparr>);
       s \<leftarrow> unlock_fs s;
       if length d \<noteq> read_bytes e then do { s \<leftarrow> fail_thread s; Some (Inl s) }
       else do {
         s \<leftarrow> (if read_bytes e \<noteq> PGSIZE then do {
                (_, m) \<leftarrow> memset (m_mem (vm_m s)) (base + read_bytes e) 0 (zero_bytes e);
                Some (set_mem m s) }
              else Some s);
         assert_spte_consistency p s;
         Some (Inr s) } } }"

definition load_mmaped_page :: "ptr \<Rightarrow> vm \<Rightarrow> (vm + vm) option" where
  "load_mmaped_page p s = load_file_page p s"

definition install_page :: "ptr \<Rightarrow> ptr \<Rightarrow> bool \<Rightarrow> vm \<Rightarrow> (bool \<times> vm) option" where
  "install_page upage kpage writable s = do {
     s \<leftarrow> lock_pagedir (vm_cur s) s;
     u \<leftarrow> uthreads s (vm_cur s);
     present \<leftarrow> pagedir_get_page (u_pagedir u) upage (vm_m s);
     (ok, m) \<leftarrow> (if present = NULL then pagedir_set_page (u_pagedir u) upage kpage writable (vm_m s) else Some (False, vm_m s));
     s \<leftarrow> unlock_pagedir (vm_cur s) (s\<lparr>vm_m := m\<rparr>);
     Some (ok, s) }"

definition clear_page :: "ptr \<Rightarrow> ptr \<Rightarrow> vm \<Rightarrow> vm option" where
  "clear_page upage t s = do {
     s \<leftarrow> lock_pagedir t s;
     u \<leftarrow> uthreads s t;
     m \<leftarrow> (if u_pagedir u \<noteq> NULL then pagedir_clear_page (u_pagedir u) upage (vm_m s) else Some (vm_m s));
     unlock_pagedir t (s\<lparr>vm_m := m\<rparr>) }"

definition load_page_into_physical_memory :: "ptr \<Rightarrow> bool \<Rightarrow> vm \<Rightarrow> (vm + bool \<times> vm) option" where
  "load_page_into_physical_memory p is_fresh_stack_page s = do {
     assert_spte_consistency p s;
     e \<leftarrow> sptes s p;
     i \<leftarrow> sp_frame e;
     f \<leftarrow> get_frame i s;
     ASSERT (frame_lock f = vm_cur s);
     r \<leftarrow> (if is_fresh_stack_page then Some (Inr s)
          else (case location e of
                  SWAP_PAGE \<Rightarrow> map_option Inr (load_swap_page p s)
                | FILE_PAGE \<Rightarrow> load_file_page p s
                | MMAPED_PAGE \<Rightarrow> load_mmaped_page p s));
     case r of
       Inl s \<Rightarrow> Some (Inl s)
     | Inr s \<Rightarrow> do {
         base \<leftarrow> base_of p s;
         (success, s) \<leftarrow> install_page (page_id e) base (is_writeable e) s;
         assert_spte_consistency p s;
         Some (Inr (success, s)) } }"

definition evict_swap_page :: "ptr \<Rightarrow> vm \<Rightarrow> vm option" where
  "evict_swap_page p s = do {
     assert_spte_consistency p s;
     base \<leftarrow> base_of p s;
     (slot, sw) \<leftarrow> write_to_swap (m_mem (vm_m s)) base (vm_swap s);
     e \<leftarrow> sptes s p;
     let s = set_spte p (e\<lparr>swap_index := slot\<rparr>) (s\<lparr>vm_swap := sw\<rparr>);
     assert_spte_consistency p s;
     Some s }"

text \<open>\<open>evict_file_page\<close> asks for the dirty bit of the page that is resident in the frame.\<close>

definition evict_file_page :: "ptr \<Rightarrow> vm \<Rightarrow> vm option" where
  "evict_file_page p s = do {
     assert_spte_consistency p s;
     e \<leftarrow> sptes s p;
     s \<leftarrow> lock_pagedir (owner_thread e) s;
     u \<leftarrow> uthreads s (owner_thread e);
     i \<leftarrow> sp_frame e;
     f \<leftarrow> get_frame i s;
     r \<leftarrow> sptes s (resident_page f);
     dirty \<leftarrow> pagedir_is_dirty (u_pagedir u) (page_id r) (vm_m s);
     s \<leftarrow> unlock_pagedir (owner_thread e) s;
     s \<leftarrow> (if dirty then evict_swap_page p (set_spte p (e\<lparr>location := SWAP_PAGE\<rparr>) s) else Some s);
     assert_spte_consistency p s;
     Some s }"

definition evict_mmaped_page :: "ptr \<Rightarrow> vm \<Rightarrow> vm option" where
  "evict_mmaped_page p s = do {
     assert_spte_consistency p s;
     e \<leftarrow> sptes s p;
     s \<leftarrow> lock_pagedir (owner_thread e) s;
     u \<leftarrow> uthreads s (owner_thread e);
     dirty \<leftarrow> pagedir_is_dirty (u_pagedir u) (page_id e) (vm_m s);
     s \<leftarrow> (if dirty then do {
            m \<leftarrow> pagedir_set_dirty (u_pagedir u) (page_id e) False (vm_m s);
            s \<leftarrow> unlock_pagedir (owner_thread e) (s\<lparr>vm_m := m\<rparr>);
            s \<leftarrow> lock_fs s;
            base \<leftarrow> base_of p s;
            (_, fs) \<leftarrow> file_write_at (file_ptr e) (bytes_at (m_mem (vm_m s)) base (read_bytes e)) (int (read_bytes e))
                        (offset_in_file e) (vm_fs s);
            unlock_fs (s\<lparr>vm_fs := fs\<rparr>) }
          else unlock_pagedir (owner_thread e) s);
     assert_spte_consistency p s;
     Some s }"

definition evict_page_from_physical_memory :: "ptr \<Rightarrow> vm \<Rightarrow> vm option" where
  "evict_page_from_physical_memory p s = do {
     assert_spte_consistency p s;
     e \<leftarrow> sptes s p;
     s \<leftarrow> clear_page (page_id e) (owner_thread e) s;
     s \<leftarrow> (case location e of
            SWAP_PAGE \<Rightarrow> evict_swap_page p s
          | FILE_PAGE \<Rightarrow> evict_file_page p s
          | MMAPED_PAGE \<Rightarrow> evict_mmaped_page p s);
     assert_spte_consistency p s;
     Some s }"

text \<open>\<open>find_spte\<close>: the local \<open>dummy\<close> is at an address no allocated entry has.\<close>

definition find_spte :: "ptr \<Rightarrow> ptr \<Rightarrow> vm \<Rightarrow> ptr option" where
  "find_spte virtual_address t s = do {
     let spte_id = pg_round_down virtual_address;
     let dummy = \<lparr>page_lock = NULL, location = SWAP_PAGE, owner_thread = NULL, page_id = spte_id, sp_frame = None,
                  is_writeable = False, is_loaded = False, file_ptr = NULL, offset_in_file = 0, read_bytes = 0,
                  zero_bytes = 0, swap_index = 0\<rparr>;
     u \<leftarrow> uthreads s t;
     let h = (sptes s)(NULL \<mapsto> dummy);
     match \<leftarrow> hash_find (hash_func h) (less_func h) (spte_table u) NULL;
     Some (case match of Some p \<Rightarrow> p | None \<Rightarrow> NULL) }"

text \<open>\<open>init_spte_table\<close> for the running thread.\<close>

definition init_spte_table :: "vm \<Rightarrow> (vm + vm) option" where
  "init_spte_table s = do {
     let (q, s) = vm_new s;
     (success, h) \<leftarrow> hash_init (q \<noteq> NULL);
     u \<leftarrow> uthreads s (vm_cur s);
     let s = s\<lparr>uthreads := (uthreads s)(vm_cur s \<mapsto> u\<lparr>spte_table := h\<rparr>)\<rparr>;
     if \<not> success then do { s \<leftarrow> fail_thread s; Some (Inl s) } else Some (Inr s) }"

definition PUSHA_BYTE_DEPTH :: nat where
  "PUSHA_BYTE_DEPTH = 32"

definition PUSH_BYTE_DEPTH :: nat where
  "PUSH_BYTE_DEPTH = 4"

definition MAX_STACK_SIZE_IN_BYTES :: nat where
  "MAX_STACK_SIZE_IN_BYTES = 8392000"

definition is_valid_stack_access :: "ptr \<Rightarrow> ptr \<Rightarrow> bool" where
  "is_valid_stack_access esp user_virtual_address =
     (let stack_bottom_limit = PHYS_BASE - MAX_STACK_SIZE_IN_BYTES in
      if user_virtual_address < stack_bottom_limit then False
      else if user_virtual_address \<ge> PHYS_BASE then False
      else if user_virtual_address \<ge> esp then True
      else if int user_virtual_address = (int esp - int PUSHA_BYTE_DEPTH) mod 2 ^ 32 then True
      else if int user_virtual_address = (int esp - int PUSH_BYTE_DEPTH) mod 2 ^ 32 then True
      else False)"

section \<open>The table of a thread\<close>

lemma less_func_equal: "equal_keys (less_func h) a b \<longleftrightarrow> page_id_of h a = page_id_of h b"
  by (auto simp: equal_keys_def less_func_def)

interpretation sp: hash_fns "hash_func h" "less_func h" for h
  by unfold_locales (auto simp: less_func_equal less_func_def hash_func_def)

definition spt_ok :: "(ptr \<rightharpoonup> spte) \<Rightarrow> ptr hash \<Rightarrow> bool" where
  "spt_ok h tab \<longleftrightarrow> hash_wf (hash_func h) (less_func h) tab \<and> (\<forall>p \<in> set (elems tab). p \<noteq> NULL \<and> p \<in> dom h)"

text \<open>The invariant depends on the page addresses of the entries only.\<close>

lemma spt_ok_cong:
  assumes "spt_ok h tab" "\<And>p. p \<in> set (elems tab) \<Longrightarrow> p \<in> dom h' \<and> page_id_of h' p = page_id_of h p"
  shows "spt_ok h' tab"
proof -
  have in_elems: "e \<in> set (elems tab)" if "i < h_bucket_cnt tab" "e \<in> set (h_buckets tab ! i)" for i e
    using that assms(1) nth_mem [of i "h_buckets tab"] by (auto simp: elems_def spt_ok_def hash_wf_def buckets_ok_def)
  have "find_bucket (hash_func h') tab e = find_bucket (hash_func h) tab e" if "e \<in> set (elems tab)" for e
    using assms(2) [OF that] by (simp add: find_bucket_def hash_func_def)
  then have "buckets_ok (hash_func h') tab"
    using assms(1) in_elems by (auto simp: spt_ok_def hash_wf_def buckets_ok_def)
  moreover have "keys_ok (less_func h') tab"
    using assms by (auto simp: spt_ok_def hash_wf_def keys_ok_def less_func_equal)
  ultimately show ?thesis using assms by (simp add: spt_ok_def hash_wf_def)
qed

lemma found_page:
  "sp.found h tab e r \<longleftrightarrow> (case r of None \<Rightarrow> \<forall>x \<in> set (elems tab). page_id_of h x \<noteq> page_id_of h e
     | Some x \<Rightarrow> x \<in> set (elems tab) \<and> page_id_of h x = page_id_of h e)"
  by (auto simp: sp.found_def less_func_equal split: option.splits)

text \<open>\<open>find_spte\<close> returns the entry of the page that contains the address.\<close>

lemma find_spte_ok:
  assumes "uthreads s t = Some u" "spt_ok (sptes s) (spte_table u)"
  obtains p where "find_spte va t s = Some p"
    "if p = NULL then \<forall>q \<in> set (elems (spte_table u)). page_id_of (sptes s) q \<noteq> pg_round_down va
     else p \<in> set (elems (spte_table u)) \<and> page_id_of (sptes s) p = pg_round_down va"
proof -
  define dummy where "dummy = \<lparr>page_lock = NULL, location = SWAP_PAGE, owner_thread = NULL, page_id = pg_round_down va, sp_frame = None,
                  is_writeable = False, is_loaded = False, file_ptr = NULL, offset_in_file = 0, read_bytes = 0,
                  zero_bytes = 0, swap_index = 0\<rparr>"
  define h where "h = (sptes s)(NULL \<mapsto> dummy)"
  have same: "page_id_of h q = page_id_of (sptes s) q" "q \<noteq> NULL" if "q \<in> set (elems (spte_table u))" for q
    using assms(2) that by (auto simp: spt_ok_def h_def page_id_of_def)
  have "spt_ok h (spte_table u)"
    using assms(2) same by (intro spt_ok_cong [OF assms(2)]) (auto simp: spt_ok_def h_def)
  then have wf: "hash_wf (hash_func h) (less_func h) (spte_table u)" by (simp add: spt_ok_def)
  obtain r where r: "hash_find (hash_func h) (less_func h) (spte_table u) NULL = Some r" "sp.found h (spte_table u) NULL r"
    by (rule sp.hash_find_ok [OF wf])
  have "find_spte va t s = Some (case r of Some p \<Rightarrow> p | None \<Rightarrow> NULL)"
    using assms(1) r(1) by (simp add: find_spte_def dummy_def h_def Let_def)
  moreover have "page_id_of h NULL = pg_round_down va" by (simp add: h_def page_id_of_def dummy_def)
  moreover have "a \<noteq> NULL" if "r = Some a" for a using that r(2) same(2) by (auto simp: found_page)
  ultimately show thesis using that r(2) same(1) by (cases r) (auto simp: found_page)
qed

lemma find_spte_eqI:
  assumes "uthreads s t = Some u" "spt_ok (sptes s) (spte_table u)" "p \<in> set (elems (spte_table u))"
    and "page_id_of (sptes s) p = pg_round_down va"
  shows "find_spte va t s = Some p"
proof -
  obtain q where q: "find_spte va t s = Some q" "if q = NULL then \<forall>q \<in> set (elems (spte_table u)). page_id_of (sptes s) q \<noteq> pg_round_down va
     else q \<in> set (elems (spte_table u)) \<and> page_id_of (sptes s) q = pg_round_down va"
    by (rule find_spte_ok [OF assms(1,2)])
  have "q \<noteq> NULL" using q(2) assms(3,4) by (cases "q = NULL") auto
  then have "q \<in> set (elems (spte_table u))" "page_id_of (sptes s) q = page_id_of (sptes s) p" using q(2) assms(4) by simp_all
  moreover have "a = b" if "a \<in> set (elems (spte_table u))" "b \<in> set (elems (spte_table u))"
    "page_id_of (sptes s) a = page_id_of (sptes s) b" for a b
    using that assms(2) unfolding spt_ok_def hash_wf_def keys_ok_def less_func_equal by blast
  ultimately show ?thesis using q(1) assms(3) by blast
qed

lemma find_spte_NULL:
  assumes "uthreads s t = Some u" "spt_ok (sptes s) (spte_table u)"
  shows "find_spte va t s = Some NULL \<longleftrightarrow> (\<forall>q \<in> set (elems (spte_table u)). page_id_of (sptes s) q \<noteq> pg_round_down va)"
proof -
  obtain q where "find_spte va t s = Some q" "if q = NULL then \<forall>q \<in> set (elems (spte_table u)). page_id_of (sptes s) q \<noteq> pg_round_down va
     else q \<in> set (elems (spte_table u)) \<and> page_id_of (sptes s) q = pg_round_down va"
    by (rule find_spte_ok [OF assms])
  then show ?thesis by (auto split: if_splits)
qed

lemma create_spte_ok:
  fixes s :: vm and page p :: ptr and loc :: page_location and writeable loaded :: bool and fp :: ptr and ofs :: int
    and rd zero :: nat
  defines "h \<equiv> (sptes s)(p \<mapsto> \<lparr>page_lock = vm_cur s, location = loc, owner_thread = vm_cur s, page_id = page, sp_frame = None,
    is_writeable = writeable, is_loaded = loaded, file_ptr = fp, offset_in_file = ofs, read_bytes = rd, zero_bytes = zero,
    swap_index = 0\<rparr>)"
  assumes u: "uthreads s (vm_cur s) = Some u" "spt_ok (sptes s) (spte_table u)"
    and p: "vm_mallocs s = p # ps" "p \<noteq> NULL" "p \<notin> dom (sptes s)"
    and ok: "loc = SWAP_PAGE \<or> rd + zero = PGSIZE"
  shows "if \<forall>q \<in> set (elems (spte_table u)). page_id_of (sptes s) q \<noteq> page
    then \<exists>tab s'. create_spte_and_add_to_table loc page writeable loaded fp ofs rd zero s = Some (Inr (p, s')) \<and>
      sptes s' = h \<and> uthreads s' = (uthreads s)(vm_cur s \<mapsto> u\<lparr>spte_table := tab\<rparr>) \<and> spt_ok h tab \<and>
      set (elems tab) = insert p (set (elems (spte_table u))) \<and> vm_cur s' = vm_cur s
    else \<exists>s'. create_spte_and_add_to_table loc page writeable loaded fp ofs rd zero s = Some (Inl s')"
proof -
  have same: "page_id_of h q = page_id_of (sptes s) q" "q \<noteq> p" "q \<noteq> NULL" "q \<in> dom h" if "q \<in> set (elems (spte_table u))" for q
    using u(2) that p(3) by (auto simp: spt_ok_def h_def page_id_of_def)
  have "spt_ok h (spte_table u)" using same by (intro spt_ok_cong [OF u(2)]) auto
  then have wf: "hash_wf (hash_func h) (less_func h) (spte_table u)" by (simp add: spt_ok_def)
  have idp: "page_id_of h p = page" by (simp add: h_def page_id_of_def)
  define q where "q = (case ps of [] \<Rightarrow> NULL | x # _ \<Rightarrow> x)"
  obtain old tab where r: "hash_insert (hash_func h) (less_func h) (q \<noteq> NULL) (spte_table u) p = Some (old, tab)"
    "hash_wf (hash_func h) (less_func h) tab" "sp.found h (spte_table u) p old"
    "set (elems tab) = (if old = None then insert p (set (elems (spte_table u))) else set (elems (spte_table u)))"
    by (rule sp.hash_insert_ok [OF wf])
  have old: "old = None \<longleftrightarrow> (\<forall>q \<in> set (elems (spte_table u)). page_id_of (sptes s) q \<noteq> page)"
    using r(3) same(1) idp by (cases old) (auto simp: found_page)
  define s' where "s' = s\<lparr>vm_mallocs := drop 1 ps, sptes := h, uthreads := (uthreads s)(vm_cur s \<mapsto> u\<lparr>spte_table := tab\<rparr>)\<rparr>"
  have run: "create_spte_and_add_to_table loc page writeable loaded fp ofs rd zero s =
    (if old \<noteq> None then do { s \<leftarrow> fail_thread s'; Some (Inl s) } else do { assert_spte_consistency p s'; Some (Inr (p, s')) })"
    using p u(1) r(1) unfolding create_spte_and_add_to_table_def s'_def q_def h_def
    by (cases s; cases ps) (simp_all add: vm_new_def lock_page_def lock_take_def set_spte_def Let_def)
  have "assert_spte_consistency p s' = Some ()"
    using p(2) ok by (auto simp: assert_spte_consistency_def s'_def h_def PGSIZE_def PGBITS_def)
  moreover have "\<exists>t. fail_thread s' = Some t" by (simp add: fail_thread_def s'_def)
  moreover have "spt_ok h tab" if "old = None"
    using r(2,4) that same p(2) by (auto simp: spt_ok_def h_def)
  moreover have "sptes s' = h" "uthreads s' = (uthreads s)(vm_cur s \<mapsto> u\<lparr>spte_table := tab\<rparr>)" "vm_cur s' = vm_cur s"
    by (simp_all add: s'_def)
  ultimately show ?thesis unfolding old [symmetric] using run r(4) by (cases old) auto
qed

definition sample_vm :: vm where
  "sample_vm = \<lparr>vm_m = sample_paging, vm_swap = sample_swap, vm_fs = sample_fs, file_system_lock = NULL, sptes = Map.empty,
     frame_table = [\<lparr>resident_page = NULL, physical_mem_frame_base = 0xc0201000, frame_lock = NULL\<rparr>], first_frame = 0xc0201000,
     frame_evict_lock = NULL, clock_hand = 0,
     uthreads = [8 \<mapsto> \<lparr>u_pagedir = 0xc0100000, pagedir_lock = NULL,
       spte_table = \<lparr>h_elem_cnt = 0, h_bucket_cnt = 4, h_buckets = [[], [], [], []]\<rparr>, exit_status = 0\<rparr>],
     vm_cur = 8, vm_mallocs = [64, 128]\<rparr>"

lemma sample_table_ok: "spt_ok h \<lparr>h_elem_cnt = 0, h_bucket_cnt = 4, h_buckets = [[], [], [], []]\<rparr>"
proof -
  have "(4 :: nat) = 2 ^ 2" by simp
  then have pow: "\<exists>k. (4 :: nat) = 2 ^ k" by blast
  show ?thesis using pow by (auto simp: spt_ok_def hash_wf_def buckets_ok_def keys_ok_def elems_def nth_Cons' split: if_splits)
qed

text \<open>C31. Adding a page to the table of the running thread: if the thread has an entry for the page it exits; otherwise
  the new entry is what \<open>find_spte\<close> returns for exactly the addresses of the page, every other address is looked up with the
  result it had before, and the table stays well formed.\<close>

theorem create_spte_find:
  assumes "uthreads s (vm_cur s) = Some u" "spt_ok (sptes s) (spte_table u)"
    and "vm_mallocs s = p # ps" "p \<noteq> NULL" "p \<notin> dom (sptes s)"
    and "loc = SWAP_PAGE \<or> rd + zero = PGSIZE" "pg_round_down page = page"
  shows "\<exists>r. create_spte_and_add_to_table loc page writeable loaded fp ofs rd zero s = Some r \<and>
    (case r of Inl s' \<Rightarrow> find_spte page (vm_cur s) s \<noteq> Some NULL
     | Inr (q, s') \<Rightarrow> q = p \<and> find_spte page (vm_cur s) s = Some NULL \<and>
         (\<exists>u'. uthreads s' (vm_cur s) = Some u' \<and> spt_ok (sptes s') (spte_table u')) \<and>
         (\<forall>va. find_spte va (vm_cur s) s' = (if pg_round_down va = page then Some p else find_spte va (vm_cur s) s)))"
proof (cases "\<forall>q \<in> set (elems (spte_table u)). page_id_of (sptes s) q \<noteq> page")
  case True
  obtain tab s' where r: "create_spte_and_add_to_table loc page writeable loaded fp ofs rd zero s = Some (Inr (p, s'))"
    and h: "sptes s' = (sptes s)(p \<mapsto> \<lparr>page_lock = vm_cur s, location = loc, owner_thread = vm_cur s, page_id = page, sp_frame = None,
      is_writeable = writeable, is_loaded = loaded, file_ptr = fp, offset_in_file = ofs, read_bytes = rd, zero_bytes = zero,
      swap_index = 0\<rparr>)"
    and u': "uthreads s' = (uthreads s)(vm_cur s \<mapsto> u\<lparr>spte_table := tab\<rparr>)"
    and tab: "spt_ok (sptes s') tab" "set (elems tab) = insert p (set (elems (spte_table u)))"
    using create_spte_ok [OF assms(1-6), of page writeable loaded fp ofs] unfolding if_P [OF True] by metis
  have ids: "page_id_of (sptes s') p = page" "\<And>q. q \<noteq> p \<Longrightarrow> page_id_of (sptes s') q = page_id_of (sptes s) q"
    unfolding h by (simp_all add: page_id_of_def)
  have tu: "uthreads s' (vm_cur s) = Some (u\<lparr>spte_table := tab\<rparr>)" unfolding u' by simp
  note r = r tu tab ids
  have notin: "p \<notin> set (elems (spte_table u))" using assms(2,5) by (auto simp: spt_ok_def)
  have "spt_ok (sptes s') (spte_table (u\<lparr>spte_table := tab\<rparr>))" using tab(1) by simp
  note new = tu this
  have "find_spte va (vm_cur s) s' = (if pg_round_down va = page then Some p else find_spte va (vm_cur s) s)" for va
  proof (cases "pg_round_down va = page")
    case False
    obtain q where q: "find_spte va (vm_cur s) s = Some q"
      "if q = NULL then \<forall>q \<in> set (elems (spte_table u)). page_id_of (sptes s) q \<noteq> pg_round_down va
       else q \<in> set (elems (spte_table u)) \<and> page_id_of (sptes s) q = pg_round_down va"
      by (rule find_spte_ok [OF assms(1,2)])
    have other: "page_id_of (sptes s') x = page_id_of (sptes s) x" if "x \<in> set (elems (spte_table u))" for x
      using notin that by (intro r(6)) auto
    show ?thesis
    proof (cases "q = NULL")
      case True
      have "find_spte va (vm_cur s) s' = Some NULL"
        unfolding find_spte_NULL [OF new] using q(2) True r(4,5) other False by auto
      then show ?thesis using q(1) True False by simp
    next
      case nn: False
      have "find_spte va (vm_cur s) s' = Some q"
        by (rule find_spte_eqI [OF new]) (use q(2) nn other r(4) in auto)
      then show ?thesis using q(1) False by simp
    qed
  qed (use find_spte_eqI [OF new, of p va] r(4,5) in simp)
  then show ?thesis using r(1-3) True find_spte_NULL [OF assms(1,2), of page] assms(7) by simp
next
  case False
  obtain s' where "create_spte_and_add_to_table loc page writeable loaded fp ofs rd zero s = Some (Inl s')"
    using create_spte_ok [OF assms(1-6), of page writeable loaded fp ofs] unfolding if_not_P [OF False] by metis
  moreover have "find_spte page (vm_cur s) s \<noteq> Some NULL" using False find_spte_NULL [OF assms(1,2), of page] assms(7) by simp
  ultimately show ?thesis by simp
qed

theorem create_spte_find_witness:
  "\<exists>s'. create_spte_and_add_to_table SWAP_PAGE 0x8048000 True False NULL 0 0 0 sample_vm = Some (Inr (64, s')) \<and>
     find_spte 0x8048123 8 s' = Some 64 \<and> find_spte 0x8049123 8 s' = Some NULL"
proof -
  let ?u = "the (uthreads sample_vm 8)"
  have u: "uthreads sample_vm (vm_cur sample_vm) = Some ?u" "spt_ok (sptes sample_vm) (spte_table ?u)"
    "elems (spte_table ?u) = []" "vm_cur sample_vm = 8"
    using sample_table_ok by (simp_all add: sample_vm_def elems_def)
  have none: "find_spte va 8 sample_vm = Some NULL" for va using find_spte_NULL [OF u(1,2)] u(3,4) by simp
  have m: "vm_mallocs sample_vm = 64 # [128]" "64 \<noteq> NULL" "64 \<notin> dom (sptes sample_vm)"
    "SWAP_PAGE = SWAP_PAGE \<or> 0 + 0 = PGSIZE" "pg_round_down 0x8048000 = 0x8048000"
    "pg_round_down 0x8048123 = 0x8048000" "pg_round_down 0x8049123 = 0x8049000"
    by (simp_all add: sample_vm_def pg_round_down_def PGSIZE_def PGBITS_def)
  obtain r where "create_spte_and_add_to_table SWAP_PAGE 0x8048000 True False NULL 0 0 0 sample_vm = Some r"
    "case r of Inl s' \<Rightarrow> find_spte 0x8048000 8 sample_vm \<noteq> Some NULL
     | Inr (q, s') \<Rightarrow> q = 64 \<and> (\<forall>va. find_spte va 8 s' = (if pg_round_down va = 0x8048000 then Some 64 else find_spte va 8 sample_vm))"
    using create_spte_find [OF u(1,2) m(1-5), of True False NULL 0] unfolding u(4) by (fastforce split: sum.splits)
  then show ?thesis using none m(6,7) by (cases r) auto
qed

end
