(* ===== verification/Frame.thy ===== *)
theory Frame
  imports Page
begin

text \<open>
  The frame table (\<open>vm/frame.c\<close>): frames of the user pool, the clock that chooses a frame to evict, and the functions
  of \<open>vm/page.c\<close> that use it.
\<close>

section \<open>Definitions\<close>

subsection \<open>The frame table\<close>

text \<open>\<open>mem_ok\<close> says whether the allocation of the table succeeds.\<close>

definition init_frame_table :: "bool \<Rightarrow> nat \<Rightarrow> ptr \<Rightarrow> vm \<Rightarrow> vm option" where
  "init_frame_table mem_ok num_frames frame_base s = do {
     ASSERT mem_ok;
     Some (s\<lparr>first_frame := frame_base, frame_evict_lock := NULL,
             frame_table := map (\<lambda>i. \<lparr>resident_page = NULL,
               physical_mem_frame_base = (frame_base + push_bit 12 i) mod 2 ^ 32, frame_lock = NULL\<rparr>) [0..<num_frames]\<rparr>) }"

definition lock_evict :: "vm \<Rightarrow> vm option" where
  "lock_evict s = do {
     l \<leftarrow> lock_take (frame_evict_lock s) (vm_cur s);
     Some (s\<lparr>frame_evict_lock := l\<rparr>) }"

definition unlock_evict :: "vm \<Rightarrow> vm option" where
  "unlock_evict s = do {
     l \<leftarrow> lock_drop (frame_evict_lock s) (vm_cur s);
     Some (s\<lparr>frame_evict_lock := l\<rparr>) }"

definition advance_clock_hand :: "vm \<Rightarrow> vm option" where
  "advance_clock_hand s = do {
     ASSERT (frame_evict_lock s = vm_cur s);
     let hand = (clock_hand s + 1) mod 2 ^ 32;
     Some (s\<lparr>clock_hand := (if hand \<ge> length (frame_table s) then 0 else hand)\<rparr>) }"

definition pass_frame :: "nat \<Rightarrow> vm \<Rightarrow> vm option" where
  "pass_frame i s = do {
     s \<leftarrow> lock_evict s;
     s \<leftarrow> unlock_frame i s;
     advance_clock_hand s }"

definition prepare_frame_to_return :: "nat \<Rightarrow> vm \<Rightarrow> vm option" where
  "prepare_frame_to_return i s = do {
     f \<leftarrow> get_frame i s;
     let p = resident_page f;
     s \<leftarrow> lock_page p s;
     s \<leftarrow> evict_page_from_physical_memory p s;
     e \<leftarrow> sptes s p;
     s \<leftarrow> unlock_page p (set_spte p (e\<lparr>sp_frame := None, is_loaded := False\<rparr>) s);
     f \<leftarrow> get_frame i s;
     Some (set_frame i (f\<lparr>resident_page := NULL\<rparr>) s) }"

definition check_frame_contents :: "nat \<Rightarrow> vm \<Rightarrow> (bool \<times> vm) option" where
  "check_frame_contents i s = do {
     f \<leftarrow> get_frame i s;
     if resident_page f = NULL then do { s \<leftarrow> pass_frame i s; Some (True, s) }
     else do {
       e \<leftarrow> sptes s (resident_page f);
       u \<leftarrow> uthreads s (owner_thread e);
       if u_pagedir u = NULL then do { s \<leftarrow> pass_frame i s; Some (True, s) }
       else Some (False, s) } }"

text \<open>The accessed bit of the page resident in a frame, read and cleared under the lock of its page directory.\<close>

definition test_accessed :: "nat \<Rightarrow> vm \<Rightarrow> (bool \<times> vm) option" where
  "test_accessed i s = do {
     f \<leftarrow> get_frame i s;
     e \<leftarrow> sptes s (resident_page f);
     s \<leftarrow> lock_pagedir (owner_thread e) s;
     u \<leftarrow> uthreads s (owner_thread e);
     accessed \<leftarrow> pagedir_is_accessed (u_pagedir u) (page_id e) (vm_m s);
     m \<leftarrow> pagedir_set_accessed (u_pagedir u) (page_id e) False (vm_m s);
     s \<leftarrow> unlock_pagedir (owner_thread e) (s\<lparr>vm_m := m\<rparr>);
     Some (accessed, s) }"

text \<open>The loop of \<open>evict_frame\<close>, with \<open>frame_evict_lock\<close> held; the frame returned is locked and the eviction lock free.\<close>

partial_function (option) evict_frame_loop :: "vm \<Rightarrow> (nat \<times> vm) option" where
  "evict_frame_loop s = do {
     let i = clock_hand s;
     f \<leftarrow> get_frame i s;
     if frame_lock f \<noteq> vm_cur s \<and> frame_lock f = NULL then do {
       s \<leftarrow> lock_frame i s;
       s \<leftarrow> unlock_evict s;
       (skip, s) \<leftarrow> check_frame_contents i s;
       if skip then evict_frame_loop s
       else do {
         (accessed, s) \<leftarrow> test_accessed i s;
         if accessed then do {
           s \<leftarrow> unlock_frame i s;
           s \<leftarrow> lock_evict s;
           s \<leftarrow> advance_clock_hand s;
           evict_frame_loop s }
         else do {
           s \<leftarrow> prepare_frame_to_return i s;
           Some (i, s) } } }
     else do {
       s \<leftarrow> advance_clock_hand s;
       evict_frame_loop s } }"

definition evict_frame :: "vm \<Rightarrow> (nat \<times> vm) option" where
  "evict_frame s = do {
     ASSERT (frame_evict_lock s = vm_cur s);
     s \<leftarrow> advance_clock_hand s;
     evict_frame_loop s }"

definition get_frame_index :: "ptr \<Rightarrow> vm \<Rightarrow> nat option" where
  "get_frame_index addr s = do {
     ASSERT (first_frame s \<noteq> NULL);
     ASSERT (first_frame s \<le> addr);
     let index = drop_bit 12 (addr - first_frame s);
     ASSERT (index < length (frame_table s));
     Some index }"

definition frame_handler_palloc :: "bool \<Rightarrow> ptr \<Rightarrow> bool \<Rightarrow> bool \<Rightarrow> vm \<Rightarrow> (vm + bool \<times> vm) option" where
  "frame_handler_palloc zeros p should_pin is_fresh_stack_page s = do {
     s \<leftarrow> lock_evict s;
     (addr, m) \<leftarrow> palloc_get_page \<lparr>PAL_ASSERT = False, PAL_ZERO = zeros, PAL_USER = True\<rparr> (vm_m s);
     let s = s\<lparr>vm_m := m\<rparr>;
     (i, s) \<leftarrow>
       (if addr \<noteq> NULL then do {
          i \<leftarrow> get_frame_index addr s;
          s \<leftarrow> lock_frame i s;
          s \<leftarrow> unlock_evict s;
          f \<leftarrow> get_frame i s;
          ASSERT (resident_page f = NULL);
          Some (i, s) }
        else evict_frame s);
     f \<leftarrow> get_frame i s;
     s \<leftarrow> (if zeros then do {
            (_, m) \<leftarrow> memset (m_mem (vm_m s)) (physical_mem_frame_base f) 0 PGSIZE;
            Some (set_mem m s) }
          else Some s);
     e \<leftarrow> sptes s p;
     r \<leftarrow> load_page_into_physical_memory p is_fresh_stack_page (set_spte p (e\<lparr>sp_frame := Some i\<rparr>) s);
     case r of
       Inl s \<Rightarrow> Some (Inl s)
     | Inr (success, s) \<Rightarrow> do {
         e \<leftarrow> sptes s p;
         f \<leftarrow> get_frame i s;
         if \<not> success then do {
           let s = set_frame i (f\<lparr>resident_page := NULL\<rparr>) (set_spte p (e\<lparr>sp_frame := None, is_loaded := False\<rparr>) s);
           m \<leftarrow> palloc_free_page addr (vm_m s);
           s \<leftarrow> unlock_frame i (s\<lparr>vm_m := m\<rparr>);
           s \<leftarrow> unlock_page p s;
           Some (Inr (False, s)) }
         else do {
           let s = set_frame i (f\<lparr>resident_page := p\<rparr>) (set_spte p (e\<lparr>is_loaded := True\<rparr>) s);
           s \<leftarrow> (if \<not> should_pin then unlock_frame i s else Some s);
           s \<leftarrow> unlock_page p s;
           Some (Inr (True, s)) } } }"

definition frame_handler_palloc_free :: "ptr \<Rightarrow> vm \<Rightarrow> vm option" where
  "frame_handler_palloc_free p s = do {
     e \<leftarrow> sptes s p;
     case sp_frame e of
       None \<Rightarrow> Some s
     | Some j \<Rightarrow> do {
         g \<leftarrow> get_frame j s;
         i \<leftarrow> get_frame_index (physical_mem_frame_base g) s;
         s \<leftarrow> lock_frame i s;
         f \<leftarrow> get_frame i s;
         s \<leftarrow> (if resident_page f = p then do {
                m \<leftarrow> palloc_free_page (physical_mem_frame_base f) (vm_m s);
                Some (set_frame i (f\<lparr>resident_page := NULL\<rparr>)
                  (set_spte p (e\<lparr>sp_frame := None, is_loaded := False\<rparr>) (s\<lparr>vm_m := m\<rparr>))) }
              else Some s);
         unlock_frame i s } }"

text \<open>\<open>aquire_frame_lock\<close>: \<open>fr\<close> is the frame read from the page.\<close>

definition aquire_frame_lock :: "nat option \<Rightarrow> ptr \<Rightarrow> vm \<Rightarrow> (bool \<times> vm) option" where
  "aquire_frame_lock fr p s = (case fr of
     None \<Rightarrow> do {
       e \<leftarrow> sptes s p;
       Some (False, set_spte p (e\<lparr>is_loaded := False\<rparr>) s) }
   | Some i \<Rightarrow> do {
       f \<leftarrow> get_frame i s;
       if frame_lock f = vm_cur s then Some (True, s)
       else do {
         s \<leftarrow> lock_frame i s;
         f \<leftarrow> get_frame i s;
         if resident_page f = p then Some (True, s)
         else do { s \<leftarrow> unlock_frame i s; Some (False, s) } } })"

subsection \<open>Pages and frames\<close>

definition grow_stack :: "ptr \<Rightarrow> vm \<Rightarrow> (vm + bool \<times> vm) option" where
  "grow_stack page s = do {
     r \<leftarrow> create_spte_and_add_to_table SWAP_PAGE page True True NULL 0 0 0 s;
     case r of
       Inl s \<Rightarrow> Some (Inl s)
     | Inr (p, s) \<Rightarrow> (if p = NULL then Some (Inr (False, s)) else frame_handler_palloc True p False True s) }"

definition pin_page :: "ptr \<Rightarrow> vm \<Rightarrow> (vm + vm) option" where
  "pin_page virtual_address s = do {
     p \<leftarrow> find_spte virtual_address (vm_cur s) s;
     s \<leftarrow> lock_page p s;
     e \<leftarrow> sptes s p;
     if \<not> is_loaded e then map_option (map_sum id snd) (frame_handler_palloc False p True False s)
     else do {
       s \<leftarrow> unlock_page p s;
       s \<leftarrow> lock_page p s;
       e \<leftarrow> sptes s p;
       (success, s) \<leftarrow> aquire_frame_lock (sp_frame e) p s;
       if success then map_option Inr (unlock_page p s)
       else do {
         e \<leftarrow> sptes s p;
         if \<not> is_loaded e then map_option (map_sum id snd) (frame_handler_palloc False p True False s)
         else do {
           s \<leftarrow> frame_handler_palloc_free p s;
           map_option (map_sum id snd) (frame_handler_palloc False p True False s) } } } }"

definition un_pin_page :: "ptr \<Rightarrow> vm \<Rightarrow> vm option" where
  "un_pin_page virtual_address s = do {
     p \<leftarrow> find_spte virtual_address (vm_cur s) s;
     s \<leftarrow> lock_page p s;
     e \<leftarrow> sptes s p;
     i \<leftarrow> sp_frame e;
     f \<leftarrow> get_frame i s;
     ASSERT (frame_lock f = vm_cur s);
     s \<leftarrow> unlock_frame i s;
     unlock_page p s }"

definition free_hash_entry :: "ptr \<Rightarrow> vm \<Rightarrow> vm option" where
  "free_hash_entry p s = do {
     s \<leftarrow> lock_page p s;
     e \<leftarrow> sptes s p;
     s \<leftarrow> (if is_loaded e then do {
            s \<leftarrow> clear_page (page_id e) (owner_thread e) s;
            s \<leftarrow> frame_handler_palloc_free p s;
            e \<leftarrow> sptes s p;
            Some (set_spte p (e\<lparr>is_loaded := False\<rparr>) s) }
          else Some s);
     s \<leftarrow> unlock_page p s;
     free_spte p s }"

text \<open>\<open>free_spte_table\<close> on the table of the thread \<open>t\<close>.\<close>

definition free_spte_table :: "ptr \<Rightarrow> vm \<Rightarrow> vm option" where
  "free_spte_table t s = do {
     u \<leftarrow> uthreads s t;
     hash_destroy (Some free_hash_entry) (spte_table u) s }"

subsection \<open>Mapped files\<close>

record mmap_state =
  mm_fp :: ptr
  mm_vaddr :: ptr
  mm_mapping :: int

text \<open>One turn of the loop of \<open>munmap_state\<close>, for the page \<open>page\<close> of thread \<open>t\<close>.\<close>

definition munmap_page :: "ptr \<Rightarrow> ptr \<Rightarrow> vm \<Rightarrow> vm option" where
  "munmap_page page t s = do {
     p \<leftarrow> find_spte page t s;
     ASSERT (p \<noteq> NULL);
     s \<leftarrow> lock_page p s;
     e \<leftarrow> sptes s p;
     s \<leftarrow> (if is_loaded e then do {
            i \<leftarrow> sp_frame e;
            f \<leftarrow> get_frame i s;
            s \<leftarrow> (if frame_lock f \<noteq> vm_cur s then lock_frame i s else Some s);
            s \<leftarrow> clear_page (page_id e) (owner_thread e) s;
            s \<leftarrow> evict_mmaped_page p s;
            e \<leftarrow> sptes s p;
            let s = set_spte p (e\<lparr>is_loaded := False\<rparr>) s;
            m \<leftarrow> palloc_free_page (physical_mem_frame_base f) (vm_m s);
            s \<leftarrow> unlock_frame i (s\<lparr>vm_m := m\<rparr>);
            f \<leftarrow> get_frame i s;
            e \<leftarrow> sptes s p;
            Some (set_spte p (e\<lparr>sp_frame := None\<rparr>) (set_frame i (f\<lparr>resident_page := NULL\<rparr>) s)) }
          else Some s);
     s \<leftarrow> unlock_page p s;
     u \<leftarrow> uthreads s t;
     let (q, s) = vm_new s;
     (_, h) \<leftarrow> hash_delete (hash_func (sptes s)) (less_func (sptes s)) (q \<noteq> NULL) (spte_table u) p;
     let s = s\<lparr>uthreads := (uthreads s)(t \<mapsto> u\<lparr>spte_table := h\<rparr>)\<rparr>;
     Some (s\<lparr>sptes := (sptes s)(p := None)\<rparr>) }"

fun munmap_pages :: "ptr list \<Rightarrow> ptr \<Rightarrow> vm \<Rightarrow> vm option" where
  "munmap_pages [] t s = Some s"
| "munmap_pages (page # ps) t s = do {
     s \<leftarrow> munmap_page page t s;
     munmap_pages ps t s }"

text \<open>The pages \<open>vaddr\<close>, \<open>vaddr + PGSIZE\<close>, \dots below \<open>vaddr + size\<close>; when that address wraps around there are none.\<close>

definition page_addrs :: "ptr \<Rightarrow> int \<Rightarrow> ptr list" where
  "page_addrs vaddr sz = (if vaddr + nat sz < 2 ^ 32
     then map (\<lambda>i. vaddr + i * PGSIZE) [0..<(nat sz + PGSIZE - 1) div PGSIZE] else [])"

definition munmap_state :: "mmap_state \<Rightarrow> ptr \<Rightarrow> vm \<Rightarrow> vm option" where
  "munmap_state mm t s = do {
     s \<leftarrow> lock_fs s;
     sz \<leftarrow> file_length (mm_fp mm) (vm_fs s);
     s \<leftarrow> unlock_fs s;
     s \<leftarrow> munmap_pages (page_addrs (mm_vaddr mm) sz) t s;
     s \<leftarrow> lock_fs s;
     fs \<leftarrow> file_close (mm_fp mm) (vm_fs s);
     unlock_fs (s\<lparr>vm_fs := fs\<rparr>) }"

end
