(* ===== verification/Page_Store.thy ===== *)
theory Page_Store
  imports Frame
begin

text \<open>
  Correctness of paging: the page tables, which live in the kernel pool, are separate from the frames of the user pool;
  a page that is evicted is kept in swap, and loading it into any frame brings back its bytes and maps it there.
\<close>

section \<open>Page tables and frames are separate\<close>

text \<open>\<open>same_frames m m'\<close>: the frames of the user pool hold the same bytes, and the pools and the constants are the same.\<close>

definition same_frames :: "machine \<Rightarrow> machine \<Rightarrow> bool" where
  "same_frames m m' \<longleftrightarrow> user_pool m' = user_pool m \<and> init_ram_pages m' = init_ram_pages m \<and> init_page_dir m' = init_page_dir m \<and>
     (\<forall>x \<ge> p_base (user_pool m). m_mem m' x = m_mem m x)"

lemma same_frames_refl [simp]: "same_frames m m"
  by (simp add: same_frames_def)

lemma same_frames_trans: "same_frames a b \<Longrightarrow> same_frames b c \<Longrightarrow> same_frames a c"
  by (simp add: same_frames_def)

lemma in_use_below:
  assumes "machine_wf m" "q \<in> pages_in_use (kernel_pool m)" "x < q + 4096"
  shows "x < p_base (user_pool m)"
proof -
  obtain i where i: "q = p_base (kernel_pool m) + PGSIZE * i" "i < bit_cnt (used_map (kernel_pool m))"
    using assms(2) by (auto simp: pages_in_use_def used_bits_def)
  have "PGSIZE * Suc i \<le> PGSIZE * bit_cnt (used_map (kernel_pool m))" using i(2) by (intro mult_le_mono2) simp
  then have "q + 4096 \<le> p_base (kernel_pool m) + bit_cnt (used_map (kernel_pool m)) * PGSIZE"
    using i(1) by (simp add: PGSIZE_def PGBITS_def mult.commute)
  then show ?thesis using assms(1,3) by (simp add: machine_wf_def)
qed

lemma same_frames_store:
  assumes "machine_wf m" "q \<in> pages_in_use (kernel_pool m)" "q \<le> a" "a + 4 \<le> q + 4096"
  shows "same_frames m (store_word a v m)"
proof -
  have "store32 (m_mem m) a v x = m_mem m x" if "p_base (user_pool m) \<le> x" for x
    using in_use_below [OF assms(1,2), of "a + 3"] assms(3,4) that by (intro store32_other) linarith
  then show ?thesis by (simp add: same_frames_def)
qed

lemma pte_in_table:
  assumes "pd_wf m pd" "n < user_pages" "pte_ptr m pd n \<noteq> NULL"
  obtains q where "q \<in> pages_in_use (kernel_pool m)" "q \<le> pte_ptr m pd n" "pte_ptr m pd n + 4 \<le> q + 4096"
proof -
  have nz: "pde_val m pd (n div 1024) \<noteq> 0" and p: "pte_ptr m pd n = table_of m pd (n div 1024) + 4 * (n mod 1024)"
    using assms(3) table_of_NULL [OF assms(1) user_pd [OF assms(2)]] by (auto simp: pte_ptr_def Let_def split: if_splits)
  have "4 * (n mod 1024) + 4 \<le> 4096" using mod_less_divisor [of 1024 n] by linarith
  then show thesis using that [of "table_of m pd (n div 1024)"] table_of_wf(4) [OF assms(1) user_pd [OF assms(2)] nz] p by simp
qed

lemma invalidate_frames:
  assumes "invalidate_pagedir pd m = Some m'"
  shows "same_frames m m'" "kernel_pool m' = kernel_pool m"
  using assms by (auto simp: invalidate_pagedir_def pagedir_activate_def same_frames_def split: if_splits elim!: bind_eq_SomeE)

lemma lookup_create_frames:
  assumes "machine_wf m" "pd_wf m pd" "is_user_vaddr va" "lookup_page pd va True m = Some (a, m')"
  shows "same_frames m m' \<and> cr3 m' = cr3 m"
proof (cases "pde_val m pd (pd_no va) = 0")
  case False
  then have "m' = m" using assms(4) by (auto simp: lookup_page_def pde_val_def split: if_splits Option.bind_splits elim!: bind_eq_SomeE)
  then show ?thesis by simp
next
  case True
  have i: "pd_no va < 768" using user_pd [of "pg_no va"] assms(3) by (simp add: user_page_no pd_pt_no)
  obtain pt s1 where g: "palloc_get_page zero_flags m = Some (pt, s1)" "machine_wf s1"
    "init_page_dir s1 = init_page_dir m" "init_ram_pages s1 = init_ram_pages m" "cr3 s1 = cr3 m" "user_pool s1 = user_pool m"
    "pt = NULL \<Longrightarrow> pages_in_use (kernel_pool s1) = pages_in_use (kernel_pool m) \<and> m_mem s1 = m_mem m \<and>
       pages_in_use (kernel_pool m) = pool_pages (kernel_pool m)"
    "pt \<noteq> NULL \<Longrightarrow> kernel_page pt \<and> pt \<notin> pages_in_use (kernel_pool m) \<and>
       pages_in_use (kernel_pool s1) = insert pt (pages_in_use (kernel_pool m)) \<and>
       (\<forall>a. m_mem s1 a = (if pt \<le> a \<and> a < pt + 4096 then 0 else m_mem m a))"
    using get_zero_page [OF assms(1)] by metis
  have one: "same_frames m s1"
  proof (cases "pt = NULL")
    case False
    have "m_mem s1 x = m_mem m x" if "p_base (user_pool m) \<le> x" for x
      using in_use_below [OF g(2), of pt x] g(6) g(8) [OF False] that by auto
    then show ?thesis using g(3,4,6) by (simp add: same_frames_def)
  qed (use g in \<open>simp add: same_frames_def\<close>)
  show ?thesis
  proof (cases "pt = NULL")
    case False
    have pd: "pd \<in> pages_in_use (kernel_pool s1)" using assms(2) g(8) [OF False] by (simp add: pd_wf_def)
    obtain e where "m' = store_word (pd + 4 * pd_no va) e s1"
      using True g(1) False assms(3,4) by (auto simp: lookup_page_def pde_val_def split: if_splits Option.bind_splits elim!: bind_eq_SomeE)
    then show ?thesis
      using same_frames_trans [OF one same_frames_store [OF g(2) pd]] i g(5) by (simp add: store_word_def)
  next
    case n: True
    then have "m' = s1" using True g(1) assms(3,4)
      by (auto simp: lookup_page_def pde_val_def split: if_splits Option.bind_splits elim!: bind_eq_SomeE)
    then show ?thesis using one g(5) by simp
  qed
qed

lemma set_page_frames:
  assumes "machine_wf m" "pd_wf m pd" "pagedir_set_page pd upage kpage w m = Some (ok, m')"
  shows "same_frames m m' \<and> cr3 m' = cr3 m"
proof -
  have user: "is_user_vaddr upage" using assms(3) by (auto simp: pagedir_set_page_def split: if_splits)
  obtain a m1 where l: "lookup_page pd upage True m = Some (a, m1)" "machine_wf m1" "pd_wf m1 pd" "a = pte_ptr m1 pd (pg_no upage)"
    using lookup_create [OF assms(1,2) user] by metis
  note f = lookup_create_frames [OF assms(1,2) user l(1)]
  consider "m' = m1" | e where "a \<noteq> NULL" "m' = store_word a e m1"
    using assms(3) l(1) by (auto simp: pagedir_set_page_def split: if_splits elim!: bind_eq_SomeE)
  then show ?thesis
  proof cases
    case 2
    obtain q where "q \<in> pages_in_use (kernel_pool m1)" "q \<le> a" "a + 4 \<le> q + 4096"
      using pte_in_table [OF l(3), of "pg_no upage"] user 2(1) l(4) by (auto simp: user_page_no)
    then show ?thesis using same_frames_trans [OF _ same_frames_store [OF l(2)]] f 2(2) by (simp add: store_word_def)
  qed (use f in simp)
qed

lemma clear_page_frames:
  assumes "machine_wf m" "pd_wf m pd" "pagedir_clear_page pd upage m = Some m'"
  shows "same_frames m m'"
proof -
  have user: "is_user_vaddr upage" using assms(3) by (auto simp: pagedir_clear_page_def split: if_splits)
  let ?a = "pte_ptr m pd (pg_no upage)"
  consider "m' = m" | e where "?a \<noteq> NULL" "invalidate_pagedir pd (store_word ?a e m) = Some m'"
    using assms(3) lookup_no_create [OF assms(2) user] by (auto simp: pagedir_clear_page_def split: if_splits)
  then show ?thesis
  proof cases
    case 2
    obtain q where "q \<in> pages_in_use (kernel_pool m)" "q \<le> ?a" "?a + 4 \<le> q + 4096"
      using pte_in_table [OF assms(2), of "pg_no upage"] user 2(1) by (auto simp: user_page_no)
    then show ?thesis using same_frames_trans [OF same_frames_store [OF assms(1)] invalidate_frames(1) [OF 2(2)]] by simp
  qed simp
qed

section \<open>Eviction and loading\<close>

text \<open>The parts of the state that the operations on one page rely on.\<close>

definition vm_ok :: "vm \<Rightarrow> bool" where
  "vm_ok s \<longleftrightarrow> machine_wf (vm_m s) \<and> cr3 (vm_m s) < PHYS_BASE \<and> swap_ok (vm_swap s) \<and>
     (\<forall>f \<in> set (frame_table s). physical_mem_frame_base f \<in> pool_pages (user_pool (vm_m s)) \<and>
        (physical_mem_frame_base f - PHYS_BASE) div 4096 < init_ram_pages (vm_m s))"

definition thread_ok :: "vm \<Rightarrow> ptr \<Rightarrow> uthread \<Rightarrow> bool" where
  "thread_ok s t u \<longleftrightarrow> uthreads s t = Some u \<and> pagedir_lock u = NULL \<and> pd_wf (vm_m s) (u_pagedir u) \<and>
     u_pagedir u \<noteq> init_page_dir (vm_m s)"

text \<open>Page \<open>p\<close> with entry \<open>e\<close> has the frame \<open>i\<close>.\<close>

definition page_at :: "vm \<Rightarrow> ptr \<Rightarrow> spte \<Rightarrow> nat \<Rightarrow> bool" where
  "page_at s p e i \<longleftrightarrow> p \<noteq> NULL \<and> sptes s p = Some e \<and> sp_frame e = Some i \<and> i < length (frame_table s) \<and>
     pg_ofs (page_id e) = 0 \<and> is_user_vaddr (page_id e) \<and>
     (location e = SWAP_PAGE \<or> (read_bytes e + zero_bytes e) mod 2 ^ 32 = PGSIZE)"

definition frame_bytes :: "vm \<Rightarrow> nat \<Rightarrow> u8 list" where
  "frame_bytes s i = bytes_at (m_mem (vm_m s)) (physical_mem_frame_base (frame_table s ! i)) PGSIZE"

lemma frame_base:
  assumes "vm_ok s" "i < length (frame_table s)"
  defines "b \<equiv> physical_mem_frame_base (frame_table s ! i)"
  shows "kernel_page b" "p_base (user_pool (vm_m s)) \<le> b" "(b - PHYS_BASE) div 4096 < init_ram_pages (vm_m s)" "PHYS_BASE \<le> b"
proof -
  have b: "b \<in> pool_pages (user_pool (vm_m s))" "(b - PHYS_BASE) div 4096 < init_ram_pages (vm_m s)"
    using assms nth_mem [OF assms(2)] by (auto simp: vm_ok_def)
  then show "p_base (user_pool (vm_m s)) \<le> b" "(b - PHYS_BASE) div 4096 < init_ram_pages (vm_m s)"
    by (auto simp: pool_pages_def)
  show k: "kernel_page b" using b(1) assms(1) in_use_kernel_page by (auto simp: vm_ok_def machine_wf_def)
  then show "PHYS_BASE \<le> b" by (simp add: kernel_page_def)
qed

lemma page_at_consistent:
  assumes "vm_ok s" "page_at s p e i" "sptes s' p = Some e'" "frame_table s' = frame_table s" "sp_frame e' = Some i"
    and "location e' = SWAP_PAGE \<or> location e' = location e \<and> read_bytes e' = read_bytes e \<and> zero_bytes e' = zero_bytes e"
  shows "assert_spte_consistency p s' = Some ()" "base_of p s' = Some (physical_mem_frame_base (frame_table s ! i))"
  using assms(2-6) frame_base(4) [OF assms(1), of i]
  by (auto simp: assert_spte_consistency_def page_at_def get_frame_def base_of_def)

lemma relock_pagedir:
  assumes "thread_ok s t u"
  shows "s\<lparr>vm_m := m, uthreads := (uthreads s)(t \<mapsto> u\<lparr>pagedir_lock := NULL\<rparr>)\<rparr> = s\<lparr>vm_m := m\<rparr>"
proof -
  have "u\<lparr>pagedir_lock := NULL\<rparr> = u" using assms by (cases u) (simp add: thread_ok_def)
  then have "(uthreads s)(t \<mapsto> u\<lparr>pagedir_lock := NULL\<rparr>) = uthreads s" using assms by (auto simp: thread_ok_def)
  then show ?thesis by (cases s) simp
qed

lemma thread_pd: "thread_ok s t u \<Longrightarrow> u_pagedir u \<noteq> NULL"
  by (auto simp: thread_ok_def pd_wf_def kernel_page_def PHYS_BASE_def)

lemma clear_page_vm:
  assumes "thread_ok s t u"
  shows "clear_page upage t s = map_option (\<lambda>m. s\<lparr>vm_m := m\<rparr>) (pagedir_clear_page (u_pagedir u) upage (vm_m s))"
proof (cases "pagedir_clear_page (u_pagedir u) upage (vm_m s)")
  case None
  then show ?thesis using assms thread_pd [OF assms] by (simp add: clear_page_def lock_pagedir_def lock_take_def thread_ok_def)
next
  case (Some m)
  then show ?thesis using assms thread_pd [OF assms] relock_pagedir [OF assms, of m]
    by (simp add: clear_page_def lock_pagedir_def unlock_pagedir_def lock_take_def lock_drop_def thread_ok_def)
qed

lemma install_page_vm:
  assumes "thread_ok s (vm_cur s) u" "pagedir_get_page (u_pagedir u) upage (vm_m s) = Some NULL"
    and "pagedir_set_page (u_pagedir u) upage kpage w (vm_m s) = Some (ok, m)"
  shows "install_page upage kpage w s = Some (ok, s\<lparr>vm_m := m\<rparr>)"
  using assms relock_pagedir [OF assms(1), of m]
  by (simp add: install_page_def lock_pagedir_def unlock_pagedir_def lock_take_def lock_drop_def thread_ok_def)

text \<open>Reading a frame after page tables have changed.\<close>

lemma same_frames_bytes:
  assumes "same_frames m m'" "p_base (user_pool m) \<le> b"
  shows "bytes_at (m_mem m') b n = bytes_at (m_mem m) b n"
  using assms by (auto simp: bytes_at_def same_frames_def)

lemma vm_ok_frames:
  assumes "vm_ok s" "same_frames (vm_m s) m" "machine_wf m" "cr3 m < PHYS_BASE" "swap_ok sw"
    and "frame_table s' = frame_table s" "vm_m s' = m" "vm_swap s' = sw"
  shows "vm_ok s'"
  using assms by (auto simp: vm_ok_def same_frames_def)

lemma evict_swap_page_ok:
  assumes "vm_ok s" "page_at s p e i" "0 \<le> swap_top (vm_swap s)"
  obtains slot sw where "evict_swap_page p s = Some (set_spte p (e\<lparr>swap_index := slot\<rparr>) (s\<lparr>vm_swap := sw\<rparr>))" "swap_ok sw"
    "pages (vm_swap s) slot = None" "pages sw = (pages (vm_swap s))(slot \<mapsto> frame_bytes s i)"
proof -
  let ?b = "physical_mem_frame_base (frame_table s ! i)"
  obtain slot sw where w: "write_to_swap (m_mem (vm_m s)) ?b (vm_swap s) = Some (slot, sw)" "swap_ok sw"
    "pages (vm_swap s) slot = None" "pages sw = (pages (vm_swap s))(slot \<mapsto> bytes_at (m_mem (vm_m s)) ?b PGSIZE)"
    using write_to_swap_ok [of "vm_swap s"] assms(1,3) by (metis vm_ok_def)
  let ?s = "set_spte p (e\<lparr>swap_index := slot\<rparr>) (s\<lparr>vm_swap := sw\<rparr>)"
  have e: "sptes s p = Some e" "sp_frame e = Some i" using assms(2) by (simp_all add: page_at_def)
  note before = page_at_consistent [OF assms(1,2) e(1) refl e(2)]
  have "assert_spte_consistency p ?s = Some ()"
    by (rule page_at_consistent(1) [OF assms(1,2), where e' = "e\<lparr>swap_index := slot\<rparr>"]) (use e in \<open>simp_all add: set_spte_def\<close>)
  then have "evict_swap_page p s = Some ?s"
    using before e w(1) by (simp add: evict_swap_page_def Let_def)
  then show thesis using that w by (simp add: frame_bytes_def)
qed

lemma is_present_entry:
  assumes "pd_wf m pd" "is_user_vaddr va" "pg_ofs va = 0"
  shows "pagedir_is_present pd va m = Some (entry m pd (pg_no va) AND 1 \<noteq> 0)"
  using lookup_no_create [OF assms(1,2)] assms(2,3) by (simp add: pagedir_is_present_def entry_def)

lemma is_dirty_entry:
  assumes "pd_wf m pd" "is_user_vaddr va"
  shows "pagedir_is_dirty pd va m = Some (entry m pd (pg_no va) AND 0x40 \<noteq> 0)"
  using lookup_no_create [OF assms] by (simp add: pagedir_is_dirty_def entry_def)

text \<open>A dirty page of a file is written to swap, like a swap page.\<close>

lemma evict_file_page_dirty:
  assumes "vm_ok s" "page_at s p e i" "resident_page (frame_table s ! i) = p" "thread_ok s (owner_thread e) u"
    and "pagedir_is_dirty (u_pagedir u) (page_id e) (vm_m s) = Some True"
  shows "evict_file_page p s = evict_swap_page p (set_spte p (e\<lparr>location := SWAP_PAGE\<rparr>) s)"
proof -
  let ?s = "set_spte p (e\<lparr>location := SWAP_PAGE\<rparr>) s"
  have e: "sptes s p = Some e" "sp_frame e = Some i" "i < length (frame_table s)" using assms(2) by (simp_all add: page_at_def)
  note before = page_at_consistent [OF assms(1,2) e(1) refl e(2)]
  have "s\<lparr>uthreads := (uthreads s)(owner_thread e \<mapsto> u\<lparr>pagedir_lock := NULL\<rparr>)\<rparr> = s"
    using relock_pagedir [OF assms(4), of "vm_m s"] by simp
  then have run: "evict_file_page p s = do { s \<leftarrow> evict_swap_page p ?s; assert_spte_consistency p s; Some s }"
    using before e assms(3-5)
    by (simp add: evict_file_page_def lock_pagedir_def unlock_pagedir_def lock_take_def lock_drop_def thread_ok_def get_frame_def)
  have "assert_spte_consistency p s' = Some ()" if "evict_swap_page p t = Some s'" for s' t
    using that by (auto simp: evict_swap_page_def Let_def split: Option.bind_splits elim!: bind_eq_SomeE)
  then show ?thesis unfolding run by (cases "evict_swap_page p ?s") auto
qed

lemma evict_page_ok:
  assumes "vm_ok s" "page_at s p e i" "resident_page (frame_table s ! i) = p" "thread_ok s (owner_thread e) u"
    and "0 \<le> swap_top (vm_swap s)"
    and "location e = SWAP_PAGE \<or> location e = FILE_PAGE \<and> pagedir_is_dirty (u_pagedir u) (page_id e) (vm_m s) = Some True"
  obtains slot sw m where
    "evict_page_from_physical_memory p s =
       Some (set_spte p (e\<lparr>location := SWAP_PAGE, swap_index := slot\<rparr>) (s\<lparr>vm_m := m, vm_swap := sw\<rparr>))"
    "same_frames (vm_m s) m" "machine_wf m" "cr3 m < PHYS_BASE" "pd_wf m (u_pagedir u)"
    "pagedir_is_present (u_pagedir u) (page_id e) m = Some False"
    "swap_ok sw" "pages (vm_swap s) slot = None" "pages sw = (pages (vm_swap s))(slot \<mapsto> frame_bytes s i)"
proof -
  let ?pd = "u_pagedir u" and ?n = "pg_no (page_id e)"
  have pg: "pg_ofs (page_id e) = 0" "is_user_vaddr (page_id e)" "?n < user_pages" and e: "sptes s p = Some e" "sp_frame e = Some i"
    using assms(2) by (auto simp: page_at_def user_page_no)
  have w: "machine_wf (vm_m s)" "pd_wf (vm_m s) ?pd" "cr3 (vm_m s) < PHYS_BASE" using assms(1,4) by (auto simp: vm_ok_def thread_ok_def)
  obtain m where m: "pagedir_clear_page ?pd (page_id e) (vm_m s) = Some m" "machine_wf m" "pd_wf m ?pd" "cr3 m < PHYS_BASE"
    "entry m ?pd ?n = entry (vm_m s) ?pd ?n AND NOT 1"
    using clear_page_entry [OF w(1,2) pg(1,2) w(3)] pg(3) by metis
  note f = clear_page_frames [OF w(1,2) m(1)]
  let ?s = "s\<lparr>vm_m := m\<rparr>"
  have ok: "vm_ok ?s" by (rule vm_ok_frames [OF assms(1) f m(2,4)]) (use assms(1) in \<open>simp_all add: vm_ok_def\<close>)
  have at: "page_at ?s p e i" using assms(2) by (simp add: page_at_def)
  have th: "thread_ok ?s (owner_thread e) u" using assms(4) m(3) f by (simp add: thread_ok_def same_frames_def)
  have gone: "pagedir_is_present ?pd (page_id e) m = Some False"
    using is_present_entry [OF m(3) pg(2,1)] m(5) by (simp add: and.assoc)
  have bits: "(x AND NOT 1) AND 0x40 = x AND (0x40 :: u32)" for x
  proof -
    have "(NOT 1 AND 0x40 :: u32) = 0x40" by simp
    then show ?thesis by (simp only: and.assoc)
  qed
  have dirty: "pagedir_is_dirty ?pd (page_id e) m = pagedir_is_dirty ?pd (page_id e) (vm_m s)"
    unfolding is_dirty_entry [OF w(2) pg(2)] is_dirty_entry [OF m(3) pg(2)] m(5) bits ..
  let ?e = "e\<lparr>location := SWAP_PAGE\<rparr>"
  define t where "t = set_spte p ?e ?s"
  have "(case location e of SWAP_PAGE \<Rightarrow> evict_swap_page p ?s | FILE_PAGE \<Rightarrow> evict_file_page p ?s | MMAPED_PAGE \<Rightarrow> evict_mmaped_page p ?s) =
    evict_swap_page p t"
  proof (cases "location e = SWAP_PAGE")
    case True
    then have "?e = e" by (cases e) simp
    then have "t = ?s" using e(1) by (cases s) (auto simp: t_def set_spte_def)
    then show ?thesis using True by simp
  next
    case False
    then show ?thesis using assms(3,6) dirty evict_file_page_dirty [OF ok at _ th] by (auto simp: t_def)
  qed
  moreover have "vm_ok t" "page_at t p ?e i" "0 \<le> swap_top (vm_swap t)"
    using ok at assms(5) by (simp_all add: t_def set_spte_def vm_ok_def page_at_def)
  then obtain slot sw where w: "evict_swap_page p t = Some (set_spte p (?e\<lparr>swap_index := slot\<rparr>) (t\<lparr>vm_swap := sw\<rparr>))" "swap_ok sw"
    "pages (vm_swap t) slot = None" "pages sw = (pages (vm_swap t))(slot \<mapsto> frame_bytes t i)"
    by (rule evict_swap_page_ok)
  have fin: "set_spte p (?e\<lparr>swap_index := slot\<rparr>) (t\<lparr>vm_swap := sw\<rparr>) =
      set_spte p (e\<lparr>location := SWAP_PAGE, swap_index := slot\<rparr>) (s\<lparr>vm_m := m, vm_swap := sw\<rparr>)" (is "_ = ?f")
    by (simp add: t_def set_spte_def)
  have "assert_spte_consistency p ?f = Some ()"
    by (rule page_at_consistent(1) [OF assms(1,2), where e' = "e\<lparr>location := SWAP_PAGE, swap_index := slot\<rparr>"])
      (use e in \<open>simp_all add: set_spte_def\<close>)
  ultimately have "evict_page_from_physical_memory p s = Some ?f"
    using page_at_consistent(1) [OF assms(1,2) e(1) refl e(2)] e(1) clear_page_vm [OF assms(4)] m(1) w(1)
    unfolding evict_page_from_physical_memory_def fin by simp
  moreover have "frame_bytes t i = frame_bytes s i" "vm_swap t = vm_swap s"
    using same_frames_bytes [OF f frame_base(2) [OF assms(1)]] assms(2)
    by (simp_all add: t_def frame_bytes_def set_spte_def page_at_def)
  ultimately show thesis using that f m(2,3,4) gone w(2-4) by simp
qed

text \<open>Filling a frame does not change the page tables.\<close>

lemma fill_frame_tables:
  fixes d :: "u8 list"
  assumes "machine_wf m" "pd_wf m pd" "p_base (user_pool m) \<le> b"
  defines "m' \<equiv> m\<lparr>m_mem := put_bytes (m_mem m) b d\<rparr>"
  shows "machine_wf m'" "pd_wf m' pd" "n < user_pages \<Longrightarrow> entry m' pd n = entry m pd n"
proof -
  have low: "load32 (m_mem m') a = load32 (m_mem m) a" if "q \<in> pages_in_use (kernel_pool m)" "q \<le> a" "a + 4 \<le> q + 4096" for q a
    using in_use_below [OF assms(1) that(1), of "a + 3"] that(2,3) assms(3)
    by (intro load32_cong) (auto simp: m'_def put_bytes_def)
  show "machine_wf m'" using assms(1) by (simp add: m'_def machine_wf_def)
  have pde: "pde_val m' pd i = pde_val m pd i" if "i < 768" for i
    unfolding pde_val_def using assms(2) that by (intro low [of pd]) (auto simp: pd_wf_def)
  show "pd_wf m' pd" by (rule pd_wf_cong [OF assms(2) pde]) (simp_all add: m'_def)
  assume n: "n < user_pages"
  have p: "pte_ptr m' pd n = pte_ptr m pd n" using pde n by (rule pte_ptr_cong)
  show "entry m' pd n = entry m pd n"
  proof (cases "pte_ptr m pd n = NULL")
    case False
    obtain q where "q \<in> pages_in_use (kernel_pool m)" "q \<le> pte_ptr m pd n" "pte_ptr m pd n + 4 \<le> q + 4096"
      by (rule pte_in_table [OF assms(2) n False])
    then have "load32 (m_mem m') (pte_ptr m pd n) = load32 (m_mem m) (pte_ptr m pd n)" by (rule low)
    then show ?thesis using False by (simp add: entry_def p)
  qed (simp add: entry_def p)
qed

lemma bytes_put: "length d = n \<Longrightarrow> bytes_at (put_bytes m b d) b n = d"
  by (intro nth_equalityI) (auto simp: bytes_at_def put_bytes_def)

lemma load_swap_page_ok:
  assumes "vm_ok s" "page_at s p e j" "pages (vm_swap s) (swap_index e) = Some d"
  obtains sw where "load_swap_page p s =
      Some (set_mem (put_bytes (m_mem (vm_m s)) (physical_mem_frame_base (frame_table s ! j)) d) (s\<lparr>vm_swap := sw\<rparr>))"
    "swap_ok sw" "pages sw = (pages (vm_swap s))(swap_index e := None)" "length d = PGSIZE"
proof -
  let ?b = "physical_mem_frame_base (frame_table s ! j)"
  have e: "sptes s p = Some e" "sp_frame e = Some j" using assms(2) by (simp_all add: page_at_def)
  have sw: "swap_ok (vm_swap s)" using assms(1) by (simp add: vm_ok_def)
  obtain m' sw where r: "read_from_swap ?b (swap_index e) (m_mem (vm_m s)) (vm_swap s) = Some (m', sw)" "swap_ok sw"
    "m' = put_bytes (m_mem (vm_m s)) ?b d" "length d = PGSIZE" "pages sw = (pages (vm_swap s))(swap_index e := None)"
    by (rule read_from_swap_ok [OF sw assms(3)])
  let ?s = "set_mem m' (s\<lparr>vm_swap := sw\<rparr>)"
  note before = page_at_consistent [OF assms(1,2) e(1) refl e(2)]
  have "assert_spte_consistency p ?s = Some ()"
    by (rule page_at_consistent(1) [OF assms(1,2), where e' = e]) (use e in \<open>simp_all add: set_mem_def\<close>)
  then have "load_swap_page p s = Some ?s" using before e r(1) by (simp add: load_swap_page_def Let_def)
  then show thesis using that r by simp
qed

lemma load_page_ok:
  assumes "vm_ok s" "page_at s p e j" "thread_ok s (vm_cur s) u" "frame_lock (frame_table s ! j) = vm_cur s"
    and "location e = SWAP_PAGE" "pages (vm_swap s) (swap_index e) = Some d"
    and "pagedir_is_present (u_pagedir u) (page_id e) (vm_m s) = Some False"
  shows "\<exists>ok s'. load_page_into_physical_memory p False s = Some (Inr (ok, s')) \<and> frame_bytes s' j = d \<and> vm_ok s' \<and>
    sptes s' = sptes s \<and> frame_table s' = frame_table s \<and> pages (vm_swap s') = (pages (vm_swap s))(swap_index e := None) \<and>
    (if ok then pagedir_get_page (u_pagedir u) (page_id e) (vm_m s') = Some (physical_mem_frame_base (frame_table s ! j))
     else pages_in_use (kernel_pool (vm_m s)) = pool_pages (kernel_pool (vm_m s)))"
proof -
  let ?b = "physical_mem_frame_base (frame_table s ! j)" and ?pd = "u_pagedir u" and ?n = "pg_no (page_id e)"
  have pg: "pg_ofs (page_id e) = 0" "is_user_vaddr (page_id e)" "?n < user_pages" and j: "j < length (frame_table s)"
    and e: "sptes s p = Some e" "sp_frame e = Some j"
    using assms(2) by (auto simp: page_at_def user_page_no)
  have w: "machine_wf (vm_m s)" "pd_wf (vm_m s) ?pd" "?pd \<noteq> init_page_dir (vm_m s)" using assms(1,3) by (auto simp: vm_ok_def thread_ok_def)
  note b = frame_base [OF assms(1) j]
  obtain sw where l: "load_swap_page p s = Some (set_mem (put_bytes (m_mem (vm_m s)) ?b d) (s\<lparr>vm_swap := sw\<rparr>))"
    "swap_ok sw" "pages sw = (pages (vm_swap s))(swap_index e := None)" "length d = PGSIZE"
    by (rule load_swap_page_ok [OF assms(1,2,6)])
  define m where "m = (vm_m s)\<lparr>m_mem := put_bytes (m_mem (vm_m s)) ?b d\<rparr>"
  have m: "machine_wf m" "pd_wf m ?pd" "entry m ?pd ?n = entry (vm_m s) ?pd ?n"
    unfolding m_def using fill_frame_tables [OF w(1,2) b(2)] pg(3) by auto
  have set: "set_mem (put_bytes (m_mem (vm_m s)) ?b d) (s\<lparr>vm_swap := sw\<rparr>) = s\<lparr>vm_m := m, vm_swap := sw\<rparr>"
    by (simp add: set_mem_def m_def)
  have absent: "entry m ?pd ?n AND 1 = 0" using is_present_entry [OF w(2) pg(2,1)] assms(7) m(3) by simp
  have "(?b - PHYS_BASE) div 4096 < init_ram_pages m" "?pd \<noteq> init_page_dir m" using b(3) w(3) by (simp_all add: m_def)
  then obtain ok m' x where i: "pagedir_set_page ?pd (page_id e) ?b (is_writeable e) m = Some (ok, m')" "machine_wf m'" "pd_wf m' ?pd"
    "pte_get_page x = Some ?b" "x AND 1 \<noteq> 0" "entry m' ?pd ?n = (if ok then x else entry m ?pd ?n)"
    "\<not> ok \<Longrightarrow> pages_in_use (kernel_pool m) = pool_pages (kernel_pool m)"
    using set_page_entry [OF m(1,2) pg(1,2) b(1) _ _ absent, of "is_writeable e"] pg(3) by (metis (lifting))
  note f = set_page_frames [OF m(1,2) i(1)]
  let ?s = "s\<lparr>vm_m := m, vm_swap := sw\<rparr>"
  have th: "thread_ok ?s (vm_cur ?s) u" using assms(3) m(2) by (simp add: thread_ok_def m_def)
  have "pagedir_get_page ?pd (page_id e) (vm_m ?s) = Some NULL" using get_page_entry [OF m(2) pg(2)] absent by simp
  then have ins: "install_page (page_id e) ?b (is_writeable e) ?s = Some (ok, ?s\<lparr>vm_m := m'\<rparr>)"
    using install_page_vm [OF th] i(1) by simp
  note con = page_at_consistent [OF assms(1,2), where e' = e]
  have con': "assert_spte_consistency p s = Some ()" "base_of p ?s = Some ?b" "assert_spte_consistency p (?s\<lparr>vm_m := m'\<rparr>) = Some ()"
    using con [of s] con [of ?s] con [of "?s\<lparr>vm_m := m'\<rparr>"] e by simp_all
  have "get_frame j s = Some (frame_table s ! j)" using j by (simp add: get_frame_def)
  then have run: "load_page_into_physical_memory p False s = Some (Inr (ok, ?s\<lparr>vm_m := m'\<rparr>))"
    using con' e assms(4,5) l(1) ins unfolding load_page_into_physical_memory_def set by simp
  have c: "cr3 m' < PHYS_BASE" "same_frames (vm_m (s\<lparr>vm_m := m\<rparr>)) m'" using f assms(1) by (simp_all add: m_def vm_ok_def)
  have "vm_ok (s\<lparr>vm_m := m\<rparr>)" using assms(1) m(1) by (simp add: vm_ok_def m_def)
  then have ok': "vm_ok (?s\<lparr>vm_m := m'\<rparr>)" by (rule vm_ok_frames [OF _ c(2) i(2) c(1) l(2)]) simp_all
  have "bytes_at (m_mem m') ?b PGSIZE = d"
    using same_frames_bytes [OF conjunct1 [OF f], of ?b] b(2) bytes_put [OF l(4)] by (simp add: m_def)
  then have "frame_bytes (?s\<lparr>vm_m := m'\<rparr>) j = d" by (simp add: frame_bytes_def)
  moreover have "pagedir_get_page ?pd (page_id e) m' = Some ?b" if ok
    using get_page_entry [OF i(3) pg(2)] i(4-6) pg(1) that by simp
  ultimately show ?thesis using run ok' l(3) i(7) by (auto simp: m_def)
qed

definition sample_page :: spte where
  "sample_page = \<lparr>page_lock = NULL, location = SWAP_PAGE, owner_thread = 8, page_id = 0x8048000, sp_frame = Some 0,
     is_writeable = True, is_loaded = True, file_ptr = NULL, offset_in_file = 0, read_bytes = 0, zero_bytes = 0, swap_index = 0\<rparr>"

definition sample_resident :: vm where
  "sample_resident = sample_vm\<lparr>sptes := [64 \<mapsto> sample_page],
     frame_table := [\<lparr>resident_page = 64, physical_mem_frame_base = 0xc0201000, frame_lock = 8\<rparr>]\<rparr>"

lemma sample_resident_ok:
  "vm_ok sample_resident" "page_at sample_resident 64 sample_page 0"
  "thread_ok sample_resident (owner_thread sample_page) (the (uthreads sample_vm 8))" "0 \<le> swap_top (vm_swap sample_resident)"
proof -
  have "machine_wf sample_paging" using sample_machine_wf by (simp add: sample_paging_def machine_wf_def)
  moreover have "(0xc0201000 :: nat) = 0xc0200000 + PGSIZE * 1" by (simp add: PGSIZE_def PGBITS_def)
  then have "0xc0201000 \<in> pool_pages (sample_pool 0xc0200000)" by (auto simp: pool_pages_def sample_pool_def)
  ultimately show "vm_ok sample_resident" using sample_swap_ok
    by (simp add: vm_ok_def sample_resident_def sample_vm_def sample_paging_def sample_machine_def PHYS_BASE_def)
  show "page_at sample_resident 64 sample_page 0"
    by (simp add: page_at_def sample_resident_def sample_page_def pg_ofs_def PGBITS_def is_user_vaddr_def PHYS_BASE_def)
  show "thread_ok sample_resident (owner_thread sample_page) (the (uthreads sample_vm 8))"
    using sample_pd_wf by (simp add: thread_ok_def sample_resident_def sample_vm_def sample_page_def) (simp add: sample_paging_def)
  show "0 \<le> swap_top (vm_swap sample_resident)" by (simp add: sample_resident_def sample_vm_def sample_swap_def)
qed

text \<open>C32. Evicting a page that belongs in swap, or a page of a file that was written to, unmaps it and saves the bytes of
  its frame in a slot of swap that held nothing, changing no other slot.  Whenever the page is later loaded, by its owner
  and into any frame the owner has locked, from a state in which that slot is intact, that frame then holds those bytes, the
  slot is free again, and the page is mapped to the frame, unless no page table could be allocated for it.\<close>

theorem evict_load:
  assumes "vm_ok s" "page_at s p e i" "resident_page (frame_table s ! i) = p" "thread_ok s (owner_thread e) u"
    and "0 \<le> swap_top (vm_swap s)"
    and "location e = SWAP_PAGE \<or> location e = FILE_PAGE \<and> pagedir_is_dirty (u_pagedir u) (page_id e) (vm_m s) = Some True"
  shows "\<exists>s1 slot. evict_page_from_physical_memory p s = Some s1 \<and> vm_ok s1 \<and>
    sptes s1 = (sptes s)(p \<mapsto> e\<lparr>location := SWAP_PAGE, swap_index := slot\<rparr>) \<and>
    pagedir_is_present (u_pagedir u) (page_id e) (vm_m s1) = Some False \<and>
    pages (vm_swap s) slot = None \<and> pages (vm_swap s1) = (pages (vm_swap s))(slot \<mapsto> frame_bytes s i) \<and>
    (\<forall>s2 e2 j u2. vm_ok s2 \<and> page_at s2 p e2 j \<and> page_id e2 = page_id e \<and> location e2 = SWAP_PAGE \<and> swap_index e2 = slot \<and>
       vm_cur s2 = owner_thread e \<and> thread_ok s2 (vm_cur s2) u2 \<and> frame_lock (frame_table s2 ! j) = vm_cur s2 \<and>
       pages (vm_swap s2) slot = pages (vm_swap s1) slot \<and>
       pagedir_is_present (u_pagedir u2) (page_id e) (vm_m s2) = Some False \<longrightarrow>
       (\<exists>ok s3. load_page_into_physical_memory p False s2 = Some (Inr (ok, s3)) \<and> frame_bytes s3 j = frame_bytes s i \<and> vm_ok s3 \<and>
          pages (vm_swap s3) = (pages (vm_swap s2))(slot := None) \<and>
          (if ok then pagedir_get_page (u_pagedir u2) (page_id e) (vm_m s3) = Some (physical_mem_frame_base (frame_table s2 ! j))
           else pages_in_use (kernel_pool (vm_m s2)) = pool_pages (kernel_pool (vm_m s2)))))"
proof -
  obtain slot sw m where ev: "evict_page_from_physical_memory p s =
       Some (set_spte p (e\<lparr>location := SWAP_PAGE, swap_index := slot\<rparr>) (s\<lparr>vm_m := m, vm_swap := sw\<rparr>))"
    "same_frames (vm_m s) m" "machine_wf m" "cr3 m < PHYS_BASE" "pd_wf m (u_pagedir u)"
    "pagedir_is_present (u_pagedir u) (page_id e) m = Some False"
    "swap_ok sw" "pages (vm_swap s) slot = None" "pages sw = (pages (vm_swap s))(slot \<mapsto> frame_bytes s i)"
    by (rule evict_page_ok [OF assms])
  let ?s = "set_spte p (e\<lparr>location := SWAP_PAGE, swap_index := slot\<rparr>) (s\<lparr>vm_m := m, vm_swap := sw\<rparr>)"
  have ok: "vm_ok ?s" by (rule vm_ok_frames [OF assms(1) ev(2-4,7)]) (simp_all add: set_spte_def)
  have st: "vm_m ?s = m" "vm_swap ?s = sw" "sptes ?s = (sptes s)(p \<mapsto> e\<lparr>location := SWAP_PAGE, swap_index := slot\<rparr>)"
    by (simp_all add: set_spte_def)
  show ?thesis
  proof (intro exI [of _ ?s] exI [of _ slot] conjI allI impI; (elim conjE)?)
    fix s2 e2 j u2
    assume h: "vm_ok s2" "page_at s2 p e2 j" "page_id e2 = page_id e" "location e2 = SWAP_PAGE" "swap_index e2 = slot"
      "thread_ok s2 (vm_cur s2) u2" "frame_lock (frame_table s2 ! j) = vm_cur s2"
      "pages (vm_swap s2) slot = pages (vm_swap ?s) slot" "pagedir_is_present (u_pagedir u2) (page_id e) (vm_m s2) = Some False"
    have d: "pages (vm_swap s2) (swap_index e2) = Some (frame_bytes s i)" using h(5,8) ev(9) st(2) by simp
    show "\<exists>ok s3. load_page_into_physical_memory p False s2 = Some (Inr (ok, s3)) \<and> frame_bytes s3 j = frame_bytes s i \<and> vm_ok s3 \<and>
          pages (vm_swap s3) = (pages (vm_swap s2))(slot := None) \<and>
          (if ok then pagedir_get_page (u_pagedir u2) (page_id e) (vm_m s3) = Some (physical_mem_frame_base (frame_table s2 ! j))
           else pages_in_use (kernel_pool (vm_m s2)) = pool_pages (kernel_pool (vm_m s2)))"
      using load_page_ok [OF h(1,2,6,7,4) d] h(3,5,9) by metis
  qed (use ev ok st in simp_all)
qed

theorem evict_load_witness:
  "\<exists>s1 slot. evict_page_from_physical_memory 64 sample_resident = Some s1 \<and> vm_ok s1 \<and>
     pages (vm_swap s1) slot = Some (frame_bytes sample_resident 0)"
proof -
  have "resident_page (frame_table sample_resident ! 0) = 64" "location sample_page = SWAP_PAGE"
    by (simp_all add: sample_resident_def sample_page_def)
  then show ?thesis using evict_load [OF sample_resident_ok(1,2) _ sample_resident_ok(3,4)] by fastforce
qed

end
