(* ===== verification/User_Memory.thy ===== *)
theory User_Memory
  imports Page_Store
begin

text \<open>
  Access to the memory of a user process: the page-fault handler (\<open>userprog/exception.c\<close>) and the functions of
  \<open>userprog/syscall.c\<close> that check the pointers a process passes to the kernel and pin the pages behind them.
  The state is that of the running process; \<open>Inl\<close> is the state in which its thread exits.  When the kernel itself touches
  a user address that is not mapped, \<open>page_fault\<close> ends in a panic, so such an access is \<open>None\<close>.
\<close>

section \<open>Definitions\<close>

subsection \<open>State\<close>

record file_package =
  fd :: int
  position :: nat
  fp :: ptr

datatype console_item = Exit_Line int | Put_Buf "u8 list"

record proc =
  p_vm :: vm
  open_files :: "file_package list"
  fd_counter :: int
  mmapped_files :: "mmap_state list"
  mapid_counter :: int
  is_running_user_program :: bool
  printed :: "console_item list"
  keys :: "u8 list"
  halted :: bool

type_synonym 'a act = "(proc + 'a \<times> proc) option"

text \<open>The rest of a handler runs unless the thread has exited.\<close>

definition cont :: "'a act \<Rightarrow> ('a \<Rightarrow> proc \<Rightarrow> 'b act) \<Rightarrow> 'b act" where
  "cont r f = Option.bind r (\<lambda>y. case y of Inl s \<Rightarrow> Some (Inl s) | Inr z \<Rightarrow> f (fst z) (snd z))"

lemma cont_mono [partial_function_mono]:
  assumes "mono_option F" "\<And>x s. mono_option (\<lambda>f. G f x s)"
  shows "mono_option (\<lambda>f. cont (F f) (G f))"
proof -
  have "mono_option (\<lambda>f. case y of Inl s \<Rightarrow> Some (Inl s) | Inr z \<Rightarrow> G f (fst z) (snd z))" for y
    using assms(2) by (cases y) (simp_all add: option.const_mono)
  with assms(1) show ?thesis unfolding cont_def by (rule bind_mono)
qed

lemma cont_cong [fundef_cong]:
  assumes "r = r'" "\<And>x s. r' = Some (Inr (x, s)) \<Longrightarrow> f x s = g x s"
  shows "cont r f = cont r' g"
  unfolding cont_def assms(1) by (rule Option.bind_cong) (use assms(2) in \<open>auto split: sum.splits\<close>)

definition pure :: "'a \<Rightarrow> proc \<Rightarrow> 'a act" where
  "pure x s = Some (Inr (x, s))"

text \<open>An operation of the virtual memory system; where it ends the thread, it prints the message of the exit.\<close>

definition in_vm :: "(vm + 'a \<times> vm) option \<Rightarrow> proc \<Rightarrow> 'a act" where
  "in_vm r s = map_option (map_sum
     (\<lambda>v. s\<lparr>p_vm := v, printed := printed s @ (if is_running_user_program s then [Exit_Line (-1)] else [])\<rparr>)
     (map_prod id (\<lambda>v. s\<lparr>p_vm := v\<rparr>))) r"

definition step_vm :: "vm option \<Rightarrow> proc \<Rightarrow> unit act" where
  "step_vm r s = map_option (\<lambda>v. Inr ((), s\<lparr>p_vm := v\<rparr>)) r"

subsection \<open>Page faults\<close>

text \<open>The exit of the running thread with a status, with its message.\<close>

definition LP_exit :: "int \<Rightarrow> proc \<Rightarrow> 'a act" where
  "LP_exit status s = do {
     u \<leftarrow> uthreads (p_vm s) (vm_cur (p_vm s));
     let v = (p_vm s)\<lparr>uthreads := (uthreads (p_vm s))(vm_cur (p_vm s) \<mapsto> u\<lparr>exit_status := status\<rparr>)\<rparr>;
     Some (Inl (s\<lparr>p_vm := v,
       printed := printed s @ (if is_running_user_program s then [Exit_Line status] else [])\<rparr>)) }"

definition SEL_UCSEG :: nat where "SEL_UCSEG = 0x1B"

definition SEL_KCSEG :: nat where "SEL_KCSEG = 0x08"

text \<open>\<open>kill\<close> for the code segment of the frame; the dump of the frame it prints is not recorded.\<close>

definition kill :: "nat \<Rightarrow> proc \<Rightarrow> unit act" where
  "kill cs s =
     (if cs = SEL_UCSEG then do {
        u \<leftarrow> uthreads (p_vm s) (vm_cur (p_vm s));
        let v = (p_vm s)\<lparr>uthreads := (uthreads (p_vm s))(vm_cur (p_vm s) \<mapsto> u\<lparr>exit_status := -1\<rparr>)\<rparr>;
        Some (Inl (s\<lparr>p_vm := v, printed := printed s @ [Exit_Line (-1)]\<rparr>)) }
      else if cs = SEL_KCSEG then None
      else Some (Inl s))"

definition page_fault :: "ptr \<Rightarrow> u32 \<Rightarrow> nat \<Rightarrow> ptr \<Rightarrow> proc \<Rightarrow> unit act" where
  "page_fault fault_addr error_code cs esp s =
     (let not_present = (error_code AND 1 = 0); user = (error_code AND 4 \<noteq> 0) in
      if not_present \<and> user then do {
        p \<leftarrow> find_spte fault_addr (vm_cur (p_vm s)) (p_vm s);
        cont (if p \<noteq> NULL then do {
                v \<leftarrow> lock_page p (p_vm s);
                in_vm (frame_handler_palloc False p False False v) s }
              else if is_valid_stack_access esp fault_addr then in_vm (grow_stack (pg_round_down fault_addr) (p_vm s)) s
              else pure False s)
          (\<lambda>success s. if \<not> success then LP_exit (-1) s else pure () s) }
      else kill cs s)"

subsection \<open>The memory of the process\<close>

text \<open>The translation of a user address by the processor, which records the access in the page table.\<close>

definition kernel_access :: "bool \<Rightarrow> ptr \<Rightarrow> proc \<Rightarrow> (ptr \<times> proc) option" where
  "kernel_access writing va s = do {
     let m = vm_m (p_vm s);
     pd \<leftarrow> active_pd m;
     (pte, _) \<leftarrow> lookup_page pd va False m;
     ASSERT (pte \<noteq> NULL);
     let e = load32 (m_mem m) pte;
     ASSERT (e AND PTE_P \<noteq> 0);
     ASSERT (\<not> writing \<or> e AND PTE_W \<noteq> 0);
     page \<leftarrow> pte_get_page e;
     let m = store_word pte (e OR PTE_A OR (if writing then PTE_D else 0)) m;
     Some (page + pg_ofs va, s\<lparr>p_vm := (p_vm s)\<lparr>vm_m := m\<rparr>\<rparr>) }"

definition load_byte :: "ptr \<Rightarrow> proc \<Rightarrow> (u8 \<times> proc) option" where
  "load_byte va s = do {
     (k, s) \<leftarrow> kernel_access False va s;
     Some (m_mem (vm_m (p_vm s)) k, s) }"

definition store_byte :: "ptr \<Rightarrow> u8 \<Rightarrow> proc \<Rightarrow> proc option" where
  "store_byte va b s = do {
     (k, s) \<leftarrow> kernel_access True va s;
     Some (s\<lparr>p_vm := set_mem ((m_mem (vm_m (p_vm s)))(k := b)) (p_vm s)\<rparr>) }"

fun load_bytes :: "ptr \<Rightarrow> nat \<Rightarrow> proc \<Rightarrow> (u8 list \<times> proc) option" where
  "load_bytes va 0 s = Some ([], s)"
| "load_bytes va (Suc n) s = do {
     (b, s) \<leftarrow> load_byte va s;
     (bs, s) \<leftarrow> load_bytes ((va + 1) mod 2 ^ 32) n s;
     Some (b # bs, s) }"

fun store_bytes :: "ptr \<Rightarrow> u8 list \<Rightarrow> proc \<Rightarrow> proc option" where
  "store_bytes va [] s = Some s"
| "store_bytes va (b # bs) s = do {
     s \<leftarrow> store_byte va b s;
     store_bytes ((va + 1) mod 2 ^ 32) bs s }"

partial_function (option) load_string :: "ptr \<Rightarrow> proc \<Rightarrow> (u8 list \<times> proc) option" where
  "load_string va s = do {
     (b, s) \<leftarrow> load_byte va s;
     if b = 0 then Some ([], s)
     else do {
       (bs, s) \<leftarrow> load_string ((va + 1) mod 2 ^ 32) s;
       Some (b # bs, s) } }"

subsection \<open>Checking and pinning\<close>

definition check_usr_ptr :: "ptr \<Rightarrow> ptr \<Rightarrow> proc \<Rightarrow> unit act" where
  "check_usr_ptr p esp s =
     (if p = NULL then LP_exit (-1) s
      else if \<not> is_user_vaddr p then LP_exit (-1) s
      else do {
        e \<leftarrow> find_spte p (vm_cur (p_vm s)) (p_vm s);
        if e = NULL then
          (if is_valid_stack_access esp p then cont (in_vm (grow_stack (pg_round_down p) (p_vm s)) s) (\<lambda>_. pure ())
           else LP_exit (-1) s)
        else pure () s })"

lemma check_usr_ptr_user:
  assumes "check_usr_ptr p esp s = Some (Inr (x, s'))"
  shows "p \<noteq> NULL" "p < PHYS_BASE"
  using assms by (auto simp: check_usr_ptr_def LP_exit_def is_user_vaddr_def Let_def split: if_splits elim!: bind_eq_SomeE)

text \<open>The loop ends because every address it checks is below \<open>PHYS_BASE\<close>.\<close>

function check_usr_string :: "ptr \<Rightarrow> ptr \<Rightarrow> proc \<Rightarrow> unit act" where
  "check_usr_string str esp s = cont (check_usr_ptr str esp s) (\<lambda>_ s. do {
     (b, s) \<leftarrow> load_byte str s;
     if b = 0 then pure () s else check_usr_string (str + 1) esp s })"
  by pat_completeness auto
termination
  by (relation "measure (\<lambda>(str, _). PHYS_BASE - str)") (auto dest: check_usr_ptr_user)

text \<open>The pages after the first are checked for writing whatever \<open>check_writable\<close> is.\<close>

function check_buffer_loop :: "nat \<Rightarrow> ptr \<Rightarrow> nat \<Rightarrow> ptr \<Rightarrow> proc \<Rightarrow> unit act" where
  "check_buffer_loop curr_offset buffer len esp s =
     (if curr_offset \<ge> len then pure () s
      else cont (check_usr_ptr ((buffer + curr_offset) mod 2 ^ 32) esp s) (\<lambda>_ s. do {
        p \<leftarrow> find_spte ((buffer + curr_offset) mod 2 ^ 32) (vm_cur (p_vm s)) (p_vm s);
        e \<leftarrow> sptes (p_vm s) p;
        if \<not> is_writeable e then LP_exit (-1) s
        else check_buffer_loop (curr_offset + PGSIZE) buffer len esp s }))"
  by pat_completeness auto
termination
  by (relation "measure (\<lambda>(ofs, _, len, _). len - ofs)") (auto simp: PGSIZE_def PGBITS_def)

definition check_usr_buffer :: "ptr \<Rightarrow> nat \<Rightarrow> ptr \<Rightarrow> bool \<Rightarrow> proc \<Rightarrow> unit act" where
  "check_usr_buffer buffer len esp check_writable s =
     cont (check_usr_ptr buffer esp s) (\<lambda>_ s. do {
       p \<leftarrow> find_spte buffer (vm_cur (p_vm s)) (p_vm s);
       writeable \<leftarrow> (if check_writable then map_option is_writeable (sptes (p_vm s) p) else Some True);
       cont (if \<not> writeable then LP_exit (-1) s else pure () s) (\<lambda>_ s.
         cont (check_buffer_loop PGSIZE buffer len esp s) (\<lambda>_ s.
           check_usr_ptr ((buffer + len) mod 2 ^ 32) esp s)) })"

definition read_frame :: "ptr \<Rightarrow> nat \<Rightarrow> proc \<Rightarrow> u32 act" where
  "read_frame esp byteOffset s =
     (let addr = (esp + byteOffset) mod 2 ^ 32 in
      cont (check_usr_ptr addr esp s) (\<lambda>_ s. do {
        (bs, s) \<leftarrow> load_bytes addr 4 s;
        pure (word_of_nat (of_le32 bs)) s }))"

definition pin_or_unpin :: "bool \<Rightarrow> ptr \<Rightarrow> proc \<Rightarrow> unit act" where
  "pin_or_unpin should_pin page s =
     (if should_pin then in_vm (map_option (map_sum id (Pair ())) (pin_page page (p_vm s))) s
      else step_vm (un_pin_page page (p_vm s)) s)"

text \<open>The loop of \<open>pinning_for_system_call\<close> returns the address, the page and the length that are left.\<close>

function pinning_loop :: "ptr \<Rightarrow> ptr \<Rightarrow> nat \<Rightarrow> bool \<Rightarrow> proc \<Rightarrow> (ptr \<times> ptr \<times> nat) act" where
  "pinning_loop curr_addr curr_page len should_pin s =
     (if len > PGSIZE then
        (let curr_addr = (curr_addr + PGSIZE) mod 2 ^ 32; curr_page = pg_round_down curr_addr in
         cont (pin_or_unpin should_pin curr_page s) (\<lambda>_ s.
           pinning_loop curr_addr curr_page (len - PGSIZE) should_pin s))
      else pure (curr_addr, curr_page, len) s)"
  by pat_completeness auto
termination
  by (relation "measure (\<lambda>(_, _, len, _). len)") (auto simp: PGSIZE_def PGBITS_def)

definition pinning_for_system_call :: "ptr \<Rightarrow> nat \<Rightarrow> bool \<Rightarrow> proc \<Rightarrow> unit act" where
  "pinning_for_system_call start len should_pin s =
     (let curr_page = pg_round_down start in
      cont (pin_or_unpin should_pin curr_page s) (\<lambda>_ s.
        cont (pinning_loop start curr_page len should_pin s) (\<lambda>(curr_addr, curr_page, len) s.
          let last_page = pg_round_down ((curr_addr + len) mod 2 ^ 32) in
          if last_page \<noteq> curr_page then pin_or_unpin should_pin last_page s else pure () s)))"

text \<open>The loop over the characters of a string shared by \<open>strlen_pin\<close> and \<open>check_file_name_length\<close>: each page is pinned
  (or unpinned) when its first character is reached, before the character is read.\<close>

partial_function (option) string_pages :: "bool \<Rightarrow> ptr \<Rightarrow> ptr \<Rightarrow> nat \<Rightarrow> proc \<Rightarrow> nat act" where
  "string_pages should_pin str last_page str_len s =
     (let curr_page = pg_round_down str in
      cont (if curr_page \<noteq> last_page then pinning_for_system_call curr_page 0 should_pin s else pure () s) (\<lambda>_ s.
        Option.bind (load_byte str s) (\<lambda>z.
          if fst z = 0 then pure str_len (snd z)
          else string_pages should_pin ((str + 1) mod 2 ^ 32) curr_page (str_len + 1) (snd z))))"

definition strlen_pin :: "ptr \<Rightarrow> proc \<Rightarrow> nat act" where
  "strlen_pin str s = string_pages True str NULL 0 s"

definition MAX_FILENAME_LENGTH :: nat where "MAX_FILENAME_LENGTH = 14"

definition check_file_name_length :: "ptr \<Rightarrow> proc \<Rightarrow> bool act" where
  "check_file_name_length filename s =
     cont (string_pages True filename NULL 0 s) (\<lambda>str_len s.
       if str_len > MAX_FILENAME_LENGTH then cont (string_pages False filename NULL 0 s) (\<lambda>_. pure False)
       else pure True s)"

section \<open>Translation\<close>

text \<open>What a page is mapped to, and whether it may be written.\<close>

definition frame_of :: "machine \<Rightarrow> ptr \<Rightarrow> nat \<Rightarrow> ptr option" where
  "frame_of m pd n = (if entry m pd n AND 1 \<noteq> 0 then pte_get_page (entry m pd n) else None)"

definition page_writable :: "machine \<Rightarrow> ptr \<Rightarrow> nat \<Rightarrow> bool" where
  "page_writable m pd n \<longleftrightarrow> entry m pd n AND 2 \<noteq> 0"

definition tables_ok :: "machine \<Rightarrow> ptr \<Rightarrow> bool" where
  "tables_ok m pd \<longleftrightarrow> machine_wf m \<and> pd_wf m pd \<and> active_pd m = Some pd"

text \<open>\<open>same_map m m' pd\<close>: the same pages are mapped to the same frames.\<close>

definition same_map :: "machine \<Rightarrow> machine \<Rightarrow> ptr \<Rightarrow> bool" where
  "same_map m m' pd \<longleftrightarrow> (\<forall>n < user_pages. frame_of m' pd n = frame_of m pd n \<and> page_writable m' pd n = page_writable m pd n)"

lemma same_map_trans: "same_map a b pd \<Longrightarrow> same_map b c pd \<Longrightarrow> same_map a c pd"
  by (simp add: same_map_def)

lemma access_bits:
  fixes e :: u32
  assumes "b = 0 \<or> b = PTE_D"
  shows "(e OR PTE_A OR b) AND 1 = e AND 1" "(e OR PTE_A OR b) AND 2 = e AND 2" "pte_get_page (e OR PTE_A OR b) = pte_get_page e"
  using assms by (auto simp: pte_get_page_def bit.conj_disj_distrib2)

lemma kernel_access_ok:
  assumes "tables_ok (vm_m (p_vm s)) pd" "is_user_vaddr va"
    and "frame_of (vm_m (p_vm s)) pd (pg_no va) = Some k" "writing \<longrightarrow> page_writable (vm_m (p_vm s)) pd (pg_no va)"
  obtains m where "kernel_access writing va s = Some (k + pg_ofs va, s\<lparr>p_vm := (p_vm s)\<lparr>vm_m := m\<rparr>\<rparr>)" "tables_ok m pd"
    "same_map (vm_m (p_vm s)) m pd" "same_frames (vm_m (p_vm s)) m"
proof -
  let ?m = "vm_m (p_vm s)" and ?n = "pg_no va"
  have w: "machine_wf ?m" "pd_wf ?m pd" "active_pd ?m = Some pd" using assms(1) by (auto simp: tables_ok_def)
  have n: "?n < user_pages" using assms(2) by (simp add: user_page_no)
  have e: "entry ?m pd ?n AND 1 \<noteq> 0" "pte_get_page (entry ?m pd ?n) = Some k" using assms(3) by (auto simp: frame_of_def split: if_splits)
  have nn: "pte_ptr ?m pd ?n \<noteq> NULL" using e(1) unfolding entry_def by (cases "pte_ptr ?m pd ?n = NULL") simp_all
  then have ld: "load32 (m_mem ?m) (pte_ptr ?m pd ?n) = entry ?m pd ?n" by (simp add: entry_def)
  define b :: u32 where "b = (if writing then PTE_D else 0)"
  have b: "b = 0 \<or> b = PTE_D" by (simp add: b_def)
  define m where "m = store_word (pte_ptr ?m pd ?n) (entry ?m pd ?n OR PTE_A OR b) ?m"
  have run: "kernel_access writing va s = Some (k + pg_ofs va, s\<lparr>p_vm := (p_vm s)\<lparr>vm_m := m\<rparr>\<rparr>)"
    using w(3) lookup_no_create [OF w(2) assms(2)] nn e assms(4)
    by (simp add: kernel_access_def ld Let_def m_def b_def page_writable_def)
  note st = entry_store [OF w(2) n nn, where v = "entry ?m pd ?n OR PTE_A OR b", folded m_def]
  have "tables_ok m pd" using w st(1) by (simp add: tables_ok_def m_def active_pd_def)
  moreover have "same_map ?m m pd"
    using st(2) access_bits [OF b] by (simp add: same_map_def frame_of_def page_writable_def)
  moreover obtain q where "q \<in> pages_in_use (kernel_pool ?m)" "q \<le> pte_ptr ?m pd ?n" "pte_ptr ?m pd ?n + 4 \<le> q + 4096"
    by (rule pte_in_table [OF w(2) n nn])
  then have "same_frames ?m m" unfolding m_def by (rule same_frames_store [OF w(1)])
  ultimately show thesis by (rule that [OF run])
qed

lemma store_byte_ok:
  assumes "tables_ok (vm_m (p_vm s)) pd" "is_user_vaddr va" "page_writable (vm_m (p_vm s)) pd (pg_no va)"
    and "frame_of (vm_m (p_vm s)) pd (pg_no va) = Some k" "p_base (user_pool (vm_m (p_vm s))) \<le> k"
  obtains m where "store_byte va b s = Some (s\<lparr>p_vm := (p_vm s)\<lparr>vm_m := m\<rparr>\<rparr>)" "tables_ok m pd"
    "same_map (vm_m (p_vm s)) m pd" "user_pool m = user_pool (vm_m (p_vm s))"
    "\<And>x. p_base (user_pool m) \<le> x \<Longrightarrow> m_mem m x = (if x = k + pg_ofs va then b else m_mem (vm_m (p_vm s)) x)"
proof -
  obtain m where m: "kernel_access True va s = Some (k + pg_ofs va, s\<lparr>p_vm := (p_vm s)\<lparr>vm_m := m\<rparr>\<rparr>)" "tables_ok m pd"
    "same_map (vm_m (p_vm s)) m pd" "same_frames (vm_m (p_vm s)) m"
    by (rule kernel_access_ok [OF assms(1,2,4)]) (use assms(3) in simp)
  let ?a = "k + pg_ofs va"
  define m' where "m' = m\<lparr>m_mem := put_bytes (m_mem m) ?a [b]\<rparr>"
  have put: "put_bytes (m_mem m) ?a [b] = (m_mem m)(?a := b)" by (auto simp: put_bytes_def fun_eq_iff)
  have a: "p_base (user_pool m) \<le> ?a" using assms(5) m(4) by (simp add: same_frames_def)
  have w: "machine_wf m" "pd_wf m pd" using m(2) by (auto simp: tables_ok_def)
  note t = fill_frame_tables [OF w a, where d = "[b]", folded m'_def]
  have "store_byte va b s = Some (s\<lparr>p_vm := (p_vm s)\<lparr>vm_m := m'\<rparr>\<rparr>)"
    using m(1) by (simp add: store_byte_def set_mem_def m'_def put)
  moreover have "tables_ok m' pd" using m(2) t(1,2) by (simp add: tables_ok_def m'_def active_pd_def)
  moreover have "same_map m m' pd" using t(3) by (simp add: same_map_def frame_of_def page_writable_def)
  then have "same_map (vm_m (p_vm s)) m' pd" by (rule same_map_trans [OF m(3)])
  ultimately show thesis using that m(4) by (simp add: m'_def put same_frames_def)
qed

end
