(* ===== verification/Process.thy ===== *)
theory Process
  imports User_Memory
begin

text \<open>
  Starting and ending a user process (\<open>userprog/process.c\<close>): the page with the command line, the ELF loader, the stack of
  arguments, and the release of the resources of a process.  Waiting for a child is in the theory \<open>Process_Wait\<close>; the new
  thread itself is created by \<open>thread_create\<close>, whose result is an argument here.
\<close>

section \<open>Definitions\<close>

subsection \<open>The command line\<close>

text \<open>\<open>strnlen\<close> on the memory of the process.\<close>

fun user_strnlen :: "ptr \<Rightarrow> nat \<Rightarrow> proc \<Rightarrow> (nat \<times> proc) option" where
  "user_strnlen str 0 s = do {
     (_, s) \<leftarrow> load_byte str s;
     Some (0, s) }"
| "user_strnlen str (Suc n) s = do {
     (b, s) \<leftarrow> load_byte str s;
     if b = 0 then Some (0, s)
     else do {
       (k, s) \<leftarrow> user_strnlen ((str + 1) mod 2 ^ 32) n s;
       Some (k + 1, s) } }"

text \<open>The loop that ends the words of the command line and counts them.\<close>

fun split_args :: "u8 list \<Rightarrow> bool \<Rightarrow> nat \<Rightarrow> u8 list \<times> nat" where
  "split_args [] in_delim numargs = ([], numargs)"
| "split_args (b # bs) in_delim numargs =
     (if b = 32 then apfst ((#) 0) (split_args bs True numargs)
      else if in_delim then apfst ((#) b) (split_args bs False (numargs + 1))
      else apfst ((#) b) (split_args bs False numargs))"

text \<open>The page passed to the new thread: the offset of the end of the string, the number of words, the string.\<close>

definition arg_page_bytes :: "u8 list \<Rightarrow> u8 list" where
  "arg_page_bytes cmd = (let (bs, numargs) = split_args cmd True 0 in le32 (8 + length cmd) @ le32 numargs @ bs @ [0])"

definition TID_ERROR :: int where "TID_ERROR = -1"

text \<open>\<open>tid\<close> is what \<open>thread_create\<close> returns.  The result has the page for the new thread.\<close>

definition process_execute :: "int \<Rightarrow> ptr \<Rightarrow> proc \<Rightarrow> ((int \<times> ptr) \<times> proc) option" where
  "process_execute tid arguments s = do {
     let maxlen = PGSIZE - 4 * 2;
     (arglen, s) \<leftarrow> user_strnlen arguments maxlen s;
     if arglen = 0 \<or> arglen = maxlen then Some ((TID_ERROR, NULL), s)
     else do {
       (fn_copy, m) \<leftarrow> palloc_get_page (plain_flags False) (vm_m (p_vm s));
       let s = s\<lparr>p_vm := (p_vm s)\<lparr>vm_m := m\<rparr>\<rparr>;
       if fn_copy = NULL then Some ((TID_ERROR, NULL), s)
       else do {
         (cmd, s) \<leftarrow> load_string arguments s;
         let s = s\<lparr>p_vm := set_mem (put_bytes (m_mem (vm_m (p_vm s))) fn_copy (arg_page_bytes (take (PGSIZE - 1) cmd))) (p_vm s)\<rparr>;
         if tid = TID_ERROR then do {
           m \<leftarrow> palloc_free_page fn_copy (vm_m (p_vm s));
           Some ((tid, NULL), s\<lparr>p_vm := (p_vm s)\<lparr>vm_m := m\<rparr>\<rparr>) }
         else Some ((tid, fn_copy), s) } } }"

subsection \<open>The stack of arguments\<close>

definition push_byte :: "u8 \<Rightarrow> ptr \<Rightarrow> proc \<Rightarrow> (ptr \<times> proc) option" where
  "push_byte b esp s = do {
     let esp = (esp + 2 ^ 32 - 1) mod 2 ^ 32;
     s \<leftarrow> store_byte esp b s;
     Some (esp, s) }"

definition push_word :: "nat \<Rightarrow> ptr \<Rightarrow> proc \<Rightarrow> (ptr \<times> proc) option" where
  "push_word w esp s = do {
     let esp = (esp + 2 ^ 32 - 4) mod 2 ^ 32;
     s \<leftarrow> store_bytes esp (le32 w) s;
     Some (esp, s) }"

text \<open>The loop that copies the words, from the last character to the first: \<open>bs\<close> is the part of the page still to be
  copied, last byte first; \<open>args\<close> is the array of addresses, of which those from \<open>cur_arg\<close> on are set.\<close>

fun copy_words :: "u8 list \<Rightarrow> bool \<Rightarrow> int \<Rightarrow> ptr list \<Rightarrow> ptr \<Rightarrow> proc \<Rightarrow> ((int \<times> ptr list \<times> ptr) \<times> proc) option" where
  "copy_words [] skipping_nulls cur_arg args esp s = Some ((cur_arg, args, esp), s)"
| "copy_words (b # bs) skipping_nulls cur_arg args esp s =
     (if b = 0 then copy_words bs True cur_arg args esp s
      else do {
        (cur_arg, args, esp, s) \<leftarrow>
          (if skipping_nulls then do {
             let args' = (if cur_arg < int (length args) then args[nat cur_arg := esp] else args);
             (esp, s) \<leftarrow> push_byte 0 esp s;
             Some (cur_arg - 1, args', esp, s) }
           else Some (cur_arg, args, esp, s));
        (esp, s) \<leftarrow> push_byte b esp s;
        copy_words bs False cur_arg args esp s })"

fun push_words :: "nat list \<Rightarrow> ptr \<Rightarrow> proc \<Rightarrow> (ptr \<times> proc) option" where
  "push_words [] esp s = Some (esp, s)"
| "push_words (w # ws) esp s = do {
     (esp, s) \<leftarrow> push_word w esp s;
     push_words ws esp s }"

definition max_stack_length :: "nat \<Rightarrow> nat \<Rightarrow> nat" where
  "max_stack_length far_byte num_args = far_byte - 8 + 4 + num_args * 4 + 4 + 4 + 4"

text \<open>The second half of \<open>start_process\<close>: \<open>bytes\<close> are the bytes of the page from the first character to the terminator.\<close>

definition push_arguments :: "u8 list \<Rightarrow> nat \<Rightarrow> ptr \<Rightarrow> proc \<Rightarrow> (ptr \<times> proc) option" where
  "push_arguments bytes num_args esp s = do {
     ((cur_arg, args, esp), s) \<leftarrow> copy_words (rev bytes) True (int num_args) (replicate num_args 0) esp s;
     ASSERT (cur_arg = 0);
     let args = args[0 := esp];
     (esp, s) \<leftarrow> push_word 0 esp s;
     (esp, s) \<leftarrow> push_words (rev args) esp s;
     let argv = esp;
     (esp, s) \<leftarrow> push_word argv esp s;
     (esp, s) \<leftarrow> push_word num_args esp s;
     push_word 0 esp s }"

subsection \<open>The loader\<close>

definition of_le16 :: "u8 list \<Rightarrow> nat" where
  "of_le16 bs = unat (bs ! 0) + 256 * unat (bs ! 1)"

text \<open>The headers, read from their bytes in the file.\<close>

record Elf32_Ehdr =
  e_ident :: "u8 list"
  e_type :: nat
  e_machine :: nat
  e_version :: nat
  e_entry :: nat
  e_phoff :: nat
  e_phentsize :: nat
  e_phnum :: nat

definition ehdr_of :: "u8 list \<Rightarrow> Elf32_Ehdr" where
  "ehdr_of bs = \<lparr>e_ident = take 16 bs, e_type = of_le16 (drop 16 bs), e_machine = of_le16 (drop 18 bs),
     e_version = of_le32 (drop 20 bs), e_entry = of_le32 (drop 24 bs), e_phoff = of_le32 (drop 28 bs),
     e_phentsize = of_le16 (drop 42 bs), e_phnum = of_le16 (drop 44 bs)\<rparr>"

definition ehdr_size :: nat where "ehdr_size = 52"

record Elf32_Phdr =
  p_type :: nat
  p_offset :: nat
  p_vaddr :: nat
  p_filesz :: nat
  p_memsz :: nat
  p_flags :: nat

definition phdr_of :: "u8 list \<Rightarrow> Elf32_Phdr" where
  "phdr_of bs = \<lparr>p_type = of_le32 bs, p_offset = of_le32 (drop 4 bs), p_vaddr = of_le32 (drop 8 bs),
     p_filesz = of_le32 (drop 16 bs), p_memsz = of_le32 (drop 20 bs), p_flags = of_le32 (drop 24 bs)\<rparr>"

definition phdr_size :: nat where "phdr_size = 32"

definition ehdr_valid :: "Elf32_Ehdr \<Rightarrow> bool" where
  "ehdr_valid h \<longleftrightarrow> take 7 (e_ident h) = [0x7f, 0x45, 0x4c, 0x46, 1, 1, 1] \<and> e_type h = 2 \<and> e_machine h = 3 \<and>
     e_version h = 1 \<and> e_phentsize h = phdr_size \<and> e_phnum h \<le> 1024"

text \<open>\<open>flen\<close> is the length of the file.\<close>

definition validate_segment :: "Elf32_Phdr \<Rightarrow> int \<Rightarrow> bool" where
  "validate_segment phdr flen =
     (if p_offset phdr mod PGSIZE \<noteq> p_vaddr phdr mod PGSIZE then False
      else if int (p_offset phdr) > flen mod 2 ^ 32 then False
      else if p_memsz phdr < p_filesz phdr then False
      else if p_memsz phdr = 0 then False
      else if \<not> is_user_vaddr (p_vaddr phdr) then False
      else if \<not> is_user_vaddr ((p_vaddr phdr + p_memsz phdr) mod 2 ^ 32) then False
      else if (p_vaddr phdr + p_memsz phdr) mod 2 ^ 32 < p_vaddr phdr then False
      else if p_vaddr phdr < PGSIZE then False
      else True)"

definition unlock_spte :: "ptr \<Rightarrow> proc \<Rightarrow> unit act" where
  "unlock_spte p s = step_vm (unlock_page p (p_vm s)) s"

definition create_spte :: "page_location \<Rightarrow> ptr \<Rightarrow> bool \<Rightarrow> bool \<Rightarrow> ptr \<Rightarrow> int \<Rightarrow> nat \<Rightarrow> nat \<Rightarrow> proc \<Rightarrow> ptr act" where
  "create_spte loc page writeable loaded file ofs rd zero s =
     in_vm (create_spte_and_add_to_table loc page writeable loaded file ofs rd zero (p_vm s)) s"

partial_function (option) load_segment_loop :: "ptr \<Rightarrow> int \<Rightarrow> ptr \<Rightarrow> nat \<Rightarrow> nat \<Rightarrow> bool \<Rightarrow> proc \<Rightarrow> bool act" where
  "load_segment_loop fil ofs upage rd zero writable s =
     (if rd > 0 \<or> zero > 0 then
        (let page_read_bytes = (if rd < PGSIZE then rd else PGSIZE);
             page_zero_bytes = PGSIZE - page_read_bytes in
         cont (create_spte FILE_PAGE (pg_round_down upage) writable False fil ofs page_read_bytes page_zero_bytes s) (\<lambda>p s.
           if p = NULL then pure False s
           else cont (unlock_spte p s) (\<lambda>_ s.
             load_segment_loop fil (s32 (ofs + int page_read_bytes)) ((upage + PGSIZE) mod 2 ^ 32) (rd - page_read_bytes)
               ((zero + 2 ^ 32 - page_zero_bytes) mod 2 ^ 32) writable s)))
      else pure True s)"

definition load_segment :: "ptr \<Rightarrow> int \<Rightarrow> ptr \<Rightarrow> nat \<Rightarrow> nat \<Rightarrow> bool \<Rightarrow> proc \<Rightarrow> bool act" where
  "load_segment fil ofs upage rd zero writable s = do {
     ASSERT ((rd + zero) mod 2 ^ 32 mod PGSIZE = 0);
     ASSERT (pg_ofs upage = 0);
     ASSERT (ofs mod int PGSIZE = 0);
     fs \<leftarrow> file_seek fil ofs (vm_fs (p_vm s));
     load_segment_loop fil ofs upage rd zero writable (s\<lparr>p_vm := (p_vm s)\<lparr>vm_fs := fs\<rparr>\<rparr>) }"

definition ROUND_UP :: "nat \<Rightarrow> nat \<Rightarrow> nat" where
  "ROUND_UP x step = (x + step - 1) mod 2 ^ 32 div step * step"

text \<open>The part of \<open>load\<close> for a segment of type \<open>PT_LOAD\<close>: the bytes to read and the bytes to clear.\<close>

definition segment_bytes :: "Elf32_Phdr \<Rightarrow> nat \<times> nat" where
  "segment_bytes phdr =
     (let page_offset = p_vaddr phdr mod PGSIZE in
      if p_filesz phdr > 0 then
        (let rd = (page_offset + p_filesz phdr) mod 2 ^ 32 in
         (rd, (ROUND_UP (page_offset + p_memsz phdr) PGSIZE + 2 ^ 32 - rd) mod 2 ^ 32))
      else (0, ROUND_UP (page_offset + p_memsz phdr) PGSIZE mod 2 ^ 32))"

definition load_one_segment :: "Elf32_Phdr \<Rightarrow> ptr \<Rightarrow> proc \<Rightarrow> bool act" where
  "load_one_segment phdr fil s = do {
     flen \<leftarrow> file_length fil (vm_fs (p_vm s));
     if validate_segment phdr flen then
       (let (rd, zero) = segment_bytes phdr in
        load_segment fil (s32 (int (p_offset phdr - p_offset phdr mod PGSIZE))) (p_vaddr phdr - p_vaddr phdr mod PGSIZE) rd zero
          (p_flags phdr AND 2 \<noteq> 0) s)
     else pure False s }"

definition read_file :: "ptr \<Rightarrow> nat \<Rightarrow> proc \<Rightarrow> (u8 list \<times> proc) option" where
  "read_file fil n s = do {
     (d, fs) \<leftarrow> file_read fil (int n) (vm_fs (p_vm s));
     Some (d, s\<lparr>p_vm := (p_vm s)\<lparr>vm_fs := fs\<rparr>\<rparr>) }"

text \<open>The loop over the \<open>n\<close> program headers that are left.\<close>

fun load_headers :: "nat \<Rightarrow> int \<Rightarrow> ptr \<Rightarrow> proc \<Rightarrow> bool act" where
  "load_headers 0 file_ofs fil s = pure True s"
| "load_headers (Suc n) file_ofs fil s = do {
     flen \<leftarrow> file_length fil (vm_fs (p_vm s));
     if file_ofs < 0 \<or> file_ofs > flen then pure False s
     else do {
       fs \<leftarrow> file_seek fil file_ofs (vm_fs (p_vm s));
       (d, s) \<leftarrow> read_file fil phdr_size (s\<lparr>p_vm := (p_vm s)\<lparr>vm_fs := fs\<rparr>\<rparr>);
       if length d \<noteq> phdr_size then pure False s
       else (let phdr = phdr_of d; file_ofs = s32 (file_ofs + int phdr_size) in
         if p_type phdr = 2 \<or> p_type phdr = 3 \<or> p_type phdr = 5 then pure False s
         else if p_type phdr = 1 then
           cont (load_one_segment phdr fil s) (\<lambda>ok s. if ok then load_headers n file_ofs fil s else pure False s)
         else load_headers n file_ofs fil s) } }"

definition setup_stack :: "proc \<Rightarrow> bool act" where
  "setup_stack s = in_vm (grow_stack (PHYS_BASE - PGSIZE) (p_vm s)) s"

definition set_fs :: "filesys \<Rightarrow> proc \<Rightarrow> proc" where
  "set_fs fs s = s\<lparr>p_vm := (p_vm s)\<lparr>vm_fs := fs\<rparr>\<rparr>"

definition cur_uthread :: "proc \<Rightarrow> uthread option" where
  "cur_uthread s = uthreads (p_vm s) (vm_cur (p_vm s))"

definition set_pagedir :: "ptr \<Rightarrow> proc \<Rightarrow> proc option" where
  "set_pagedir pd s = do {
     u \<leftarrow> cur_uthread s;
     Some (s\<lparr>p_vm := (p_vm s)\<lparr>uthreads := (uthreads (p_vm s))(vm_cur (p_vm s) \<mapsto> u\<lparr>u_pagedir := pd\<rparr>)\<rparr>\<rparr>) }"

text \<open>\<open>process_activate\<close> also tells the processor the kernel stack of the thread (\<open>tss_update\<close>).\<close>

definition process_activate :: "proc \<Rightarrow> proc option" where
  "process_activate s = do {
     u \<leftarrow> cur_uthread s;
     m \<leftarrow> pagedir_activate (u_pagedir u) (vm_m (p_vm s));
     Some (s\<lparr>p_vm := (p_vm s)\<lparr>vm_m := m\<rparr>\<rparr>) }"

text \<open>The body of \<open>load\<close> up to the label \<open>done\<close>: the file, whether it succeeds, the entry point and the stack pointer.\<close>

definition load_program :: "u8 list \<Rightarrow> proc \<Rightarrow> (ptr \<times> bool \<times> nat \<times> ptr) act" where
  "load_program file_name s = do {
     (pd, m) \<leftarrow> pagedir_create (vm_m (p_vm s));
     s \<leftarrow> set_pagedir pd (s\<lparr>p_vm := (p_vm s)\<lparr>vm_m := m\<rparr>\<rparr>);
     if pd = NULL then pure (NULL, False, 0, 0) s
     else do {
       s \<leftarrow> process_activate s;
       (fil, fs) \<leftarrow> filesys_open file_name (vm_fs (p_vm s));
       let s = set_fs fs s;
       if fil = NULL then pure (NULL, False, 0, 0) s
       else do {
         (d, s) \<leftarrow> read_file fil ehdr_size s;
         if length d \<noteq> ehdr_size \<or> \<not> ehdr_valid (ehdr_of d) then pure (fil, False, 0, 0) s
         else (let ehdr = ehdr_of d in
           cont (load_headers (e_phnum ehdr) (s32 (int (e_phoff ehdr))) fil s) (\<lambda>ok s.
             if \<not> ok then pure (fil, False, 0, 0) s
             else cont (setup_stack s) (\<lambda>ok s.
               if \<not> ok then pure (fil, False, 0, 0) s
               else pure (fil, True, e_entry ehdr, PHYS_BASE) s))) } } }"

text \<open>A process gets its executable, which it may not write, as an open file.  When there is no memory for it the thread
  exits without a message.\<close>

definition add_package :: "ptr \<Rightarrow> proc \<Rightarrow> int option \<times> proc" where
  "add_package f s =
     (let (q, v) = vm_new (p_vm s); s = s\<lparr>p_vm := v\<rparr> in
      if q = NULL then (None, s)
      else (Some (fd_counter s), s\<lparr>open_files := open_files s @ [\<lparr>fd = fd_counter s, position = 0, fp = f\<rparr>],
        fd_counter := s32 (fd_counter s + 1)\<rparr>))"

definition load :: "u8 list \<Rightarrow> proc \<Rightarrow> (bool \<times> nat \<times> ptr) act" where
  "load file_name s = cont (load_program file_name s) (\<lambda>(fil, success, eip, esp) s.
     if success then do {
       fs \<leftarrow> file_deny_write fil (vm_fs (p_vm s));
       case add_package fil (set_fs fs s) of
         (None, s) \<Rightarrow> Some (Inl s)
       | (Some _, s) \<Rightarrow> pure (True, eip, esp) s }
     else do {
       fs \<leftarrow> file_close fil (vm_fs (p_vm s));
       pure (False, eip, esp) (set_fs fs s) })"

text \<open>\<open>thread_exit\<close> with status -1 and no message.\<close>

definition exit_failed :: "proc \<Rightarrow> 'a act" where
  "exit_failed s = do {
     v \<leftarrow> fail_thread (p_vm s);
     Some (Inl (s\<lparr>p_vm := v\<rparr>)) }"

definition free_arg_page :: "ptr \<Rightarrow> proc \<Rightarrow> proc option" where
  "free_arg_page arg_page s = do {
     m \<leftarrow> palloc_free_page arg_page (vm_m (p_vm s));
     Some (s\<lparr>p_vm := (p_vm s)\<lparr>vm_m := m\<rparr>\<rparr>) }"

text \<open>\<open>start_process\<close>: the entry point and the stack pointer with which user code starts, and what the parent is told.\<close>

definition start_process :: "ptr \<Rightarrow> proc \<Rightarrow> (nat \<times> ptr) act" where
  "start_process arg_page s =
     cont (in_vm (map_option (map_sum id (Pair ())) (init_spte_table (p_vm s))) s) (\<lambda>_ s. do {
       let s = s\<lparr>mapid_counter := 0, mmapped_files := []\<rparr>;
       v \<leftarrow> lock_fs (p_vm s);
       n \<leftarrow> strlen (m_mem (vm_m v)) (arg_page + 8);
       cont (load (bytes_at (m_mem (vm_m v)) (arg_page + 8) n) (s\<lparr>p_vm := v\<rparr>)) (\<lambda>(success, eip, esp) s. do {
         v \<leftarrow> unlock_fs (p_vm s);
         let s = s\<lparr>p_vm := v, is_running_user_program := True\<rparr>;
         if \<not> success then do { s \<leftarrow> free_arg_page arg_page s; exit_failed s }
         else do {
           let m = m_mem (vm_m (p_vm s));
           let far_byte = unat (load32 m arg_page);
           let num_args = unat (load32 m (arg_page + 4));
           if max_stack_length far_byte num_args > PGSIZE then do { s \<leftarrow> free_arg_page arg_page s; exit_failed s }
           else do {
             (esp, s) \<leftarrow> push_arguments (bytes_at m (arg_page + 8) (far_byte + 1 - 8)) num_args esp s;
             s \<leftarrow> free_arg_page arg_page s;
             pure (eip, esp) s } } }) })"

subsection \<open>Releasing resources\<close>

fun close_open_files :: "file_package list \<Rightarrow> vm \<Rightarrow> vm option" where
  "close_open_files [] v = Some v"
| "close_open_files (p # ps) v = do {
     v \<leftarrow> lock_fs v;
     fs \<leftarrow> file_close (fp p) (vm_fs v);
     v \<leftarrow> unlock_fs (v\<lparr>vm_fs := fs\<rparr>);
     close_open_files ps v }"

fun munmap_all :: "mmap_state list \<Rightarrow> ptr \<Rightarrow> vm \<Rightarrow> vm option" where
  "munmap_all [] t v = Some v"
| "munmap_all (mm # mms) t v = do {
     v \<leftarrow> munmap_state mm t v;
     munmap_all mms t v }"

definition free_lock :: "ptr \<Rightarrow> ptr \<Rightarrow> ptr" where
  "free_lock t l = (if l = t then NULL else l)"

definition release_all_locks :: "ptr \<Rightarrow> vm \<Rightarrow> vm" where
  "release_all_locks t v = v\<lparr>
     sptes := (\<lambda>p. map_option (\<lambda>e. e\<lparr>page_lock := free_lock t (page_lock e)\<rparr>) (sptes v p)),
     frame_table := map (\<lambda>f. f\<lparr>frame_lock := free_lock t (frame_lock f)\<rparr>) (frame_table v),
     uthreads := (\<lambda>q. map_option (\<lambda>u. u\<lparr>pagedir_lock := free_lock t (pagedir_lock u)\<rparr>) (uthreads v q)),
     file_system_lock := free_lock t (file_system_lock v),
     frame_evict_lock := free_lock t (frame_evict_lock v)\<rparr>"

definition release_resources :: "proc \<Rightarrow> proc option" where
  "release_resources s = do {
     let t = vm_cur (p_vm s);
     v \<leftarrow> munmap_all (mmapped_files s) t (p_vm s);
     v \<leftarrow> close_open_files (open_files s) v;
     Some (s\<lparr>p_vm := release_all_locks t v, mmapped_files := [], open_files := []\<rparr>) }"

text \<open>\<open>process_exit\<close> after the parent and the children have been told (theory \<open>Process_Wait\<close>).\<close>

definition process_exit_resources :: "proc \<Rightarrow> proc option" where
  "process_exit_resources s = do {
     s \<leftarrow> release_resources s;
     u \<leftarrow> cur_uthread s;
     let pd = u_pagedir u;
     if pd = NULL then Some s
     else do {
       s \<leftarrow> set_pagedir NULL s;
       m \<leftarrow> pagedir_activate NULL (vm_m (p_vm s));
       ASSERT (pd \<noteq> init_page_dir m);
       m \<leftarrow> free_tables (pd_no PHYS_BASE) pd m;
       v \<leftarrow> free_spte_table (vm_cur (p_vm s)) ((p_vm s)\<lparr>vm_m := m\<rparr>);
       m \<leftarrow> palloc_free_page pd (vm_m v);
       Some (s\<lparr>p_vm := v\<lparr>vm_m := m\<rparr>\<rparr>) } }"

end
