(* ===== verification/Process_Args.thy ===== *)
theory Process_Args
  imports Process
begin

text \<open>
  The stack a new process starts with: \<open>process_execute\<close> splits the command line at its spaces and \<open>start_process\<close> pushes
  the words and the array of their addresses.
\<close>

section \<open>Words of a command line\<close>

fun splits :: "'a \<Rightarrow> 'a list \<Rightarrow> 'a list list" where
  "splits d [] = [[]]"
| "splits d (x # xs) = (if x = d then [] # splits d xs else (x # hd (splits d xs)) # tl (splits d xs))"

text \<open>The words: the nonempty pieces between separators.\<close>

definition tokens :: "'a \<Rightarrow> 'a list \<Rightarrow> 'a list list" where
  "tokens d xs = filter (\<lambda>w. w \<noteq> []) (splits d xs)"

lemma splits_nonempty [simp]: "splits d xs \<noteq> []"
  by (cases xs) auto

lemma splits_sep: "splits d (xs @ d # ys) = splits d xs @ splits d ys"
  by (induction xs) auto

lemma splits_word: "d \<notin> set w \<Longrightarrow> splits d w = [w]"
  by (induction w) auto

lemma splits_snoc: "x \<noteq> d \<Longrightarrow> splits d (xs @ [x]) = butlast (splits d xs) @ [last (splits d xs) @ [x]]"
proof (induction xs)
  case (Cons a xs)
  then show ?case by (cases "splits d xs") auto
qed auto

lemma splits_rev: "splits d (rev xs) = rev (map rev (splits d xs))"
proof (induction xs)
  case (Cons a xs)
  show ?case
  proof (cases "a = d")
    case True
    then show ?thesis using Cons splits_sep [of d "rev xs" "[]"] by simp
  next
    case False
    have "splits d xs = hd (splits d xs) # tl (splits d xs)" by simp
    then have "rev (map rev (splits d xs)) = rev (map rev (tl (splits d xs))) @ [rev (hd (splits d xs))]"
      by (metis list.simps(9) rev.simps(2))
    then show ?thesis using False Cons splits_snoc [OF False, of "rev xs"] by simp
  qed
qed simp

lemma tokens_rev: "tokens d (rev xs) = rev (map rev (tokens d xs))"
  by (simp add: tokens_def splits_rev rev_map filter_map comp_def flip: rev_filter)

lemma tokens_Nil [simp]: "tokens d [] = []"
  by (simp add: tokens_def)

lemma tokens_sep [simp]: "tokens d (d # xs) = tokens d xs"
  by (simp add: tokens_def)

lemma tokens_word:
  assumes "w \<noteq> []" "d \<notin> set w" "rest = [] \<or> hd rest = d"
  shows "tokens d (w @ rest) = w # tokens d rest"
proof (cases rest)
  case Nil
  then show ?thesis using assms by (simp add: tokens_def splits_word)
next
  case (Cons x ys)
  then show ?thesis using assms splits_sep [of d w ys] by (simp add: tokens_def splits_word)
qed

lemma splits_map:
  assumes "\<And>x. x \<in> set xs \<Longrightarrow> f x = d' \<longleftrightarrow> x = d"
  shows "splits d' (map f xs) = map (map f) (splits d xs)"
  using assms
proof (induction xs)
  case (Cons a xs)
  then have "splits d' (map f xs) = map (map f) (splits d xs)" by simp
  then show ?case using Cons.prems [of a] by (simp add: hd_map map_tl)
qed simp

lemma in_splits: "w \<in> set (splits d xs) \<Longrightarrow> d \<notin> set w \<and> set w \<subseteq> set xs"
proof (induction xs arbitrary: w)
  case (Cons a xs)
  have h: "hd (splits d xs) \<in> set (splits d xs)" by simp
  have "w \<in> set (tl (splits d xs)) \<Longrightarrow> w \<in> set (splits d xs)" using list.set_sel(2) splits_nonempty by metis
  then show ?case using Cons.prems Cons.IH [of "hd (splits d xs)"] Cons.IH [of w] h by (auto split: if_splits)
qed simp

text \<open>The words and the separators between them fit in the line.\<close>

lemma splits_length: "sum_list (map length (splits d xs)) + length (splits d xs) = length xs + 1"
proof (induction xs)
  case (Cons a xs)
  have "splits d xs = hd (splits d xs) # tl (splits d xs)" by simp
  then have "sum_list (map length (splits d xs)) + length (splits d xs) =
    length (hd (splits d xs)) + sum_list (map length (tl (splits d xs))) + Suc (length (tl (splits d xs)))"
    by (metis length_Cons list.simps(9) sum_list.Cons)
  then show ?case using Cons by simp
qed simp

lemma tokens_length: "sum_list (map (\<lambda>w. length w + 1) (tokens d xs)) \<le> length xs + 1"
proof -
  have "sum_list (map (\<lambda>w. length w + 1) (filter P ws)) \<le> sum_list (map (\<lambda>w. length w + 1) ws)" for P and ws :: "'a list list"
    by (induction ws) auto
  moreover have "sum_list (map (\<lambda>w. length w + 1) ws) = sum_list (map length ws) + length ws" for ws :: "'a list list"
    by (induction ws) auto
  ultimately show ?thesis unfolding tokens_def using splits_length [of d xs] by metis
qed

lemma split_args_spec:
  "split_args cmd in_delim n = (map (\<lambda>b. if b = 32 then 0 else b) cmd,
     n + length (tokens 32 cmd) - (if \<not> in_delim \<and> hd (splits 32 cmd) \<noteq> [] then 1 else 0))"
proof (induction cmd arbitrary: in_delim n)
  case (Cons b bs)
  have t: "tokens 32 bs = (if hd (splits 32 bs) = [] then [] else [hd (splits 32 bs)]) @ filter (\<lambda>w. w \<noteq> []) (tl (splits 32 bs))"
    unfolding tokens_def by (cases "splits 32 bs") simp_all
  have t': "b \<noteq> 32 \<Longrightarrow> tokens 32 (b # bs) = (b # hd (splits 32 bs)) # filter (\<lambda>w. w \<noteq> []) (tl (splits 32 bs))"
    by (simp add: tokens_def)
  show ?case using Cons.IH t t' by (cases "b = 32"; cases in_delim; cases "hd (splits 32 bs) = []") auto
qed simp

lemma split_args_tokens:
  assumes "0 \<notin> set cmd"
  shows "split_args cmd True 0 = (bs, n) \<Longrightarrow> tokens 0 bs = tokens 32 cmd \<and> n = length (tokens 32 cmd) \<and> length bs = length cmd"
proof -
  let ?f = "\<lambda>b :: u8. if b = 32 then 0 else b"
  have "splits 0 (map ?f cmd) = map (map ?f) (splits 32 cmd)" using assms by (intro splits_map) auto
  moreover have "map ?f w = w" if "w \<in> set (splits 32 cmd)" for w
    using in_splits [OF that] by (intro map_idI) auto
  ultimately have "splits 0 (map ?f cmd) = splits 32 cmd" by (simp add: map_idI)
  then show "split_args cmd True 0 = (bs, n) \<Longrightarrow> tokens 0 bs = tokens 32 cmd \<and> n = length (tokens 32 cmd) \<and> length bs = length cmd"
    unfolding split_args_spec by (auto simp: tokens_def)
qed

section \<open>The stack page\<close>

abbreviation (input) stack_base :: nat where "stack_base \<equiv> 0xBFFFF000"

text \<open>The top page of the user space is mapped, writable, to the frame \<open>k\<close> of the user pool.\<close>

definition stack_ok :: "proc \<Rightarrow> ptr \<Rightarrow> ptr \<Rightarrow> bool" where
  "stack_ok s pd k \<longleftrightarrow> tables_ok (vm_m (p_vm s)) pd \<and> frame_of (vm_m (p_vm s)) pd (pg_no stack_base) = Some k \<and>
     page_writable (vm_m (p_vm s)) pd (pg_no stack_base) \<and> p_base (user_pool (vm_m (p_vm s))) \<le> k"

text \<open>The bytes from the stack pointer to the top.\<close>

definition stack_byte :: "proc \<Rightarrow> ptr \<Rightarrow> ptr \<Rightarrow> u8" where
  "stack_byte s k a = m_mem (vm_m (p_vm s)) (k + (a - stack_base))"

definition stack :: "proc \<Rightarrow> ptr \<Rightarrow> ptr \<Rightarrow> u8 list" where
  "stack s k esp = map (stack_byte s k) [esp..<PHYS_BASE]"

text \<open>Only memory changes, and the pages stay mapped where they are.\<close>

definition same_but_memory :: "ptr \<Rightarrow> proc \<Rightarrow> proc \<Rightarrow> bool" where
  "same_but_memory pd s s' \<longleftrightarrow> (\<exists>m. s' = s\<lparr>p_vm := (p_vm s)\<lparr>vm_m := m\<rparr>\<rparr> \<and> same_map (vm_m (p_vm s)) m pd)"

lemma same_but_memory_trans: "same_but_memory pd a b \<Longrightarrow> same_but_memory pd b c \<Longrightarrow> same_but_memory pd a c"
proof -
  assume "same_but_memory pd a b" "same_but_memory pd b c"
  then obtain m m' where "b = a\<lparr>p_vm := (p_vm a)\<lparr>vm_m := m\<rparr>\<rparr>" "same_map (vm_m (p_vm a)) m pd"
    "c = b\<lparr>p_vm := (p_vm b)\<lparr>vm_m := m'\<rparr>\<rparr>" "same_map (vm_m (p_vm b)) m' pd"
    by (auto simp: same_but_memory_def)
  then have "c = a\<lparr>p_vm := (p_vm a)\<lparr>vm_m := m'\<rparr>\<rparr>" "same_map (vm_m (p_vm a)) m' pd" by (auto intro: same_map_trans)
  then show "same_but_memory pd a c" unfolding same_but_memory_def by blast
qed

lemma same_but_memory_refl [simp]: "same_but_memory pd s s"
  unfolding same_but_memory_def by (rule exI [of _ "vm_m (p_vm s)"]) (simp add: same_map_def)

lemma stack_page:
  assumes "stack_base \<le> a" "a < PHYS_BASE"
  shows "pg_no a = pg_no stack_base" "pg_ofs a = a - stack_base" "is_user_vaddr a"
proof -
  obtain i where "a = stack_base + i" "i < 4096" using assms that [of "a - stack_base"] by (auto simp: PHYS_BASE_def)
  moreover from this have "(stack_base + i) mod 4096 = i" by (subst mod_add_left_eq [symmetric]) simp
  ultimately show "pg_no a = pg_no stack_base" "pg_ofs a = a - stack_base" by (simp_all add: pg_no_def pg_ofs_def PGBITS_def)
  show "is_user_vaddr a" using assms by (simp add: is_user_vaddr_def)
qed

lemma store_stack:
  assumes "stack_ok s pd k" "stack_base \<le> a" "a < PHYS_BASE"
  obtains s' where "store_byte a b s = Some s'" "stack_ok s' pd k" "same_but_memory pd s s'"
    "\<And>x. stack_base \<le> x \<Longrightarrow> x < PHYS_BASE \<Longrightarrow>
       stack_byte s' k x = (if x = a then b else stack_byte s k x)"
proof -
  note pg = stack_page [OF assms(2,3)]
  have t: "tables_ok (vm_m (p_vm s)) pd" "page_writable (vm_m (p_vm s)) pd (pg_no a)"
    "frame_of (vm_m (p_vm s)) pd (pg_no a) = Some k" "p_base (user_pool (vm_m (p_vm s))) \<le> k"
    using assms(1) pg(1) by (simp_all add: stack_ok_def)
  obtain m where m: "store_byte a b s = Some (s\<lparr>p_vm := (p_vm s)\<lparr>vm_m := m\<rparr>\<rparr>)" "tables_ok m pd"
    "same_map (vm_m (p_vm s)) m pd" "user_pool m = user_pool (vm_m (p_vm s))"
    "\<And>x. p_base (user_pool m) \<le> x \<Longrightarrow> m_mem m x = (if x = k + pg_ofs a then b else m_mem (vm_m (p_vm s)) x)"
    using store_byte_ok [OF t(1) pg(3) t(2-4), where b = b] by metis
  have n: "pg_no stack_base < user_pages" by (simp add: pg_no_def user_pages_def PGBITS_def)
  show thesis
  proof (rule that [OF m(1)])
    show "stack_ok (s\<lparr>p_vm := (p_vm s)\<lparr>vm_m := m\<rparr>\<rparr>) pd k"
      using assms(1) m(2-4) n by (simp add: stack_ok_def same_map_def)
    show "same_but_memory pd s (s\<lparr>p_vm := (p_vm s)\<lparr>vm_m := m\<rparr>\<rparr>)" using m(3) by (auto simp: same_but_memory_def)
    fix x assume x: "stack_base \<le> x" "x < PHYS_BASE"
    have "p_base (user_pool m) \<le> k + (x - stack_base)" using t(4) m(4) by simp
    then show "stack_byte (s\<lparr>p_vm := (p_vm s)\<lparr>vm_m := m\<rparr>\<rparr>) k x = (if x = a then b else stack_byte s k x)"
      using m(5) [of "k + (x - stack_base)"] pg(2) x assms(2) by (auto simp: stack_byte_def)
  qed
qed

lemma push_byte_ok:
  assumes "stack_ok s pd k" "stack_base < esp" "esp \<le> PHYS_BASE"
  obtains s' where "push_byte b esp s = Some (esp - 1, s')" "stack_ok s' pd k" "same_but_memory pd s s'"
    "stack s' k (esp - 1) = b # stack s k esp"
proof -
  have a: "stack_base \<le> esp - 1" "esp - 1 < PHYS_BASE" and dec: "(esp + 2 ^ 32 - 1) mod 2 ^ 32 = esp - 1"
    using assms(2,3) by (auto simp: PHYS_BASE_def mod_if)
  obtain s' where s': "store_byte (esp - 1) b s = Some s'" "stack_ok s' pd k" "same_but_memory pd s s'"
    "\<And>x. stack_base \<le> x \<Longrightarrow> x < PHYS_BASE \<Longrightarrow>
       stack_byte s' k x = (if x = esp - 1 then b else stack_byte s k x)"
    using store_stack [OF assms(1) a] by metis
  have up: "[esp - 1..<PHYS_BASE] = (esp - 1) # [esp..<PHYS_BASE]" using assms(2) a(2) by (simp add: upt_conv_Cons)
  have "stack s' k (esp - 1) = b # stack s k esp"
    using s'(4) a assms(2) unfolding stack_def up by auto
  then show thesis using that s'(1-3) dec by (simp add: push_byte_def)
qed

lemma store_bytes_stack:
  assumes "stack_ok s pd k" "stack_base \<le> a" "a + length bs \<le> PHYS_BASE"
  shows "\<exists>s'. store_bytes a bs s = Some s' \<and> stack_ok s' pd k \<and> same_but_memory pd s s' \<and>
      (\<forall>x. stack_base \<le> x \<longrightarrow> x < PHYS_BASE \<longrightarrow>
        stack_byte s' k x = (if a \<le> x \<and> x < a + length bs then bs ! (x - a) else stack_byte s k x))"
  using assms
proof (induction bs arbitrary: a s)
  case (Cons b bs)
  then have a: "a < PHYS_BASE" by simp
  obtain s1 where s1: "store_byte a b s = Some s1" "stack_ok s1 pd k" "same_but_memory pd s s1"
    "\<And>x. stack_base \<le> x \<Longrightarrow> x < PHYS_BASE \<Longrightarrow> stack_byte s1 k x = (if x = a then b else stack_byte s k x)"
    using store_stack [OF Cons.prems(1,2) a] by metis
  have inc: "(a + 1) mod 2 ^ 32 = a + 1" using a by (simp add: PHYS_BASE_def)
  obtain s2 where s2: "store_bytes (a + 1) bs s1 = Some s2" "stack_ok s2 pd k" "same_but_memory pd s1 s2"
    "\<forall>x. stack_base \<le> x \<longrightarrow> x < PHYS_BASE \<longrightarrow>
      stack_byte s2 k x = (if a + 1 \<le> x \<and> x < a + 1 + length bs then bs ! (x - (a + 1)) else stack_byte s1 k x)"
    using Cons.IH [OF s1(2), of "a + 1"] Cons.prems(2,3) by auto
  have "stack_byte s2 k x = (if a \<le> x \<and> x < a + length (b # bs) then (b # bs) ! (x - a) else stack_byte s k x)"
    if "stack_base \<le> x" "x < PHYS_BASE" for x
    using s2(4) s1(4) [OF that] that by (auto simp: nth_Cons')
  then show ?case using s1(1) s2(1,2) inc same_but_memory_trans [OF s1(3) s2(3)] by simp
qed auto

lemma push_bytes_ok:
  assumes "stack_ok s pd k" "stack_base + length bs \<le> esp" "esp \<le> PHYS_BASE"
  obtains s' where "store_bytes (esp - length bs) bs s = Some s'" "stack_ok s' pd k" "same_but_memory pd s s'"
    "stack s' k (esp - length bs) = bs @ stack s k esp"
proof -
  define a where "a = esp - length bs"
  have a: "stack_base \<le> a" "esp = a + length bs" "a + length bs \<le> PHYS_BASE" using assms(2,3) unfolding a_def by linarith+
  obtain s' where s': "store_bytes a bs s = Some s'" "stack_ok s' pd k" "same_but_memory pd s s'"
    "\<forall>x. stack_base \<le> x \<longrightarrow> x < PHYS_BASE \<longrightarrow>
        stack_byte s' k x = (if a \<le> x \<and> x < a + length bs then bs ! (x - a) else stack_byte s k x)"
    using store_bytes_stack [OF assms(1) a(1,3)] by blast
  have up: "[a..<PHYS_BASE] = [a..<a + length bs] @ [a + length bs..<PHYS_BASE]" 
    using upt_add_eq_append [of a "a + length bs" "PHYS_BASE - (a + length bs)"] a(3) by simp
  have "map (stack_byte s' k) [a..<a + length bs] = bs"
    using s'(4) a(1,3) by (intro nth_equalityI) simp_all
  moreover have "map (stack_byte s' k) [a + length bs..<PHYS_BASE] = map (stack_byte s k) [a + length bs..<PHYS_BASE]"
    using s'(4) a(1) by (intro map_cong) auto
  ultimately have "stack s' k a = bs @ stack s k esp" unfolding stack_def up a(2) by simp
  then show thesis using that s'(1-3) unfolding a_def by blast
qed

lemma push_word_ok:
  assumes "stack_ok s pd k" "stack_base + 4 \<le> esp" "esp \<le> PHYS_BASE"
  obtains s' where "push_word w esp s = Some (esp - 4, s')" "stack_ok s' pd k" "same_but_memory pd s s'"
    "stack s' k (esp - 4) = le32 w @ stack s k esp"
proof -
  have dec: "(esp + 2 ^ 32 - 4) mod 2 ^ 32 = esp - 4" using assms(2,3) by (auto simp: PHYS_BASE_def mod_if)
  obtain s' where s': "store_bytes (esp - 4) (le32 w) s = Some s'" "stack_ok s' pd k" "same_but_memory pd s s'"
    "stack s' k (esp - 4) = le32 w @ stack s k esp"
    using push_bytes_ok [OF assms(1), of "le32 w" esp] assms(2,3) unfolding length_le32 by metis
  then show thesis using that dec by (simp add: push_word_def)
qed

section \<open>Copying the words\<close>

definition words_size :: "u8 list list \<Rightarrow> nat" where
  "words_size ws = sum_list (map (\<lambda>w. length w + 1) ws)"

lemma words_size_simps [simp]: "words_size [] = 0" "words_size (w # ws) = length w + 1 + words_size ws" "words_size (us @ vs) = words_size us + words_size vs"
  by (simp_all add: words_size_def)

lemma copy_chars:
  assumes "0 \<notin> set w" "stack_ok s pd k" "stack_base + length w \<le> esp" "esp \<le> PHYS_BASE"
  shows "\<exists>s'. copy_words (w @ rest) False c args esp s = copy_words rest False c args (esp - length w) s' \<and> stack_ok s' pd k \<and>
    same_but_memory pd s s' \<and> stack s' k (esp - length w) = rev w @ stack s k esp"
  using assms
proof (induction w arbitrary: esp s)
  case (Cons b w)
  have sp: "stack_base < esp" "stack_base + length w \<le> esp - 1" "esp - 1 \<le> PHYS_BASE" using Cons.prems(3,4) by auto
  obtain s1 where s1: "push_byte b esp s = Some (esp - 1, s1)" "stack_ok s1 pd k" "same_but_memory pd s s1"
    "stack s1 k (esp - 1) = b # stack s k esp"
    by (rule push_byte_ok [OF Cons.prems(2) sp(1) Cons.prems(4)])
  obtain s2 where s2: "copy_words (w @ rest) False c args (esp - 1) s1 = copy_words rest False c args (esp - 1 - length w) s2"
    "stack_ok s2 pd k" "same_but_memory pd s1 s2" "stack s2 k (esp - 1 - length w) = rev w @ stack s1 k (esp - 1)"
    using Cons.IH [OF _ s1(2) sp(2,3)] Cons.prems(1) by auto
  then show ?case using Cons.prems(1) s1 same_but_memory_trans [OF s1(3) s2(3)] by auto
qed auto

lemma copy_flag: "rest = [] \<or> hd rest = 0 \<Longrightarrow> copy_words rest False c args esp s = copy_words rest True c args esp s"
  by (cases rest) auto

lemma copy_word:
  assumes "w \<noteq> []" "0 \<notin> set w" "rest = [] \<or> hd rest = 0" "stack_ok s pd k" "stack_base + (length w + 1) \<le> esp" "esp \<le> PHYS_BASE"
  shows "\<exists>s'. copy_words (w @ rest) True c args esp s = copy_words rest True (c - 1)
      (if c < int (length args) then args[nat c := esp] else args) (esp - (length w + 1)) s' \<and> stack_ok s' pd k \<and>
    same_but_memory pd s s' \<and> stack s' k (esp - (length w + 1)) = rev w @ [0] @ stack s k esp"
proof -
  let ?args = "if c < int (length args) then args[nat c := esp] else args"
  obtain b v where w: "w = b # v" using assms(1) by (cases w) auto
  have sp: "stack_base < esp" "stack_base < esp - 1" "esp - 1 \<le> PHYS_BASE" "stack_base + length v \<le> esp - 2" "esp - 2 \<le> PHYS_BASE"
    using assms(5,6) w by auto
  obtain s1 where s1: "push_byte 0 esp s = Some (esp - 1, s1)" "stack_ok s1 pd k" "same_but_memory pd s s1"
    "stack s1 k (esp - 1) = 0 # stack s k esp"
    by (rule push_byte_ok [OF assms(4) sp(1) assms(6)])
  obtain s2 where s2: "push_byte b (esp - 1) s1 = Some (esp - 1 - 1, s2)" "stack_ok s2 pd k" "same_but_memory pd s1 s2"
    "stack s2 k (esp - 1 - 1) = b # stack s1 k (esp - 1)"
    by (rule push_byte_ok [OF s1(2) sp(2,3)])
  have two: "esp - 1 - 1 = esp - 2" "esp - 2 - length v = esp - (length w + 1)" using w by simp_all
  obtain s3 where s3: "copy_words (v @ rest) False (c - 1) ?args (esp - 2) s2 = copy_words rest False (c - 1) ?args (esp - 2 - length v) s3"
    "stack_ok s3 pd k" "same_but_memory pd s2 s3" "stack s3 k (esp - 2 - length v) = rev v @ stack s2 k (esp - 2)"
    using copy_chars [OF _ s2(2) sp(4,5), where rest = rest and c = "c - 1" and args = ?args] assms(2) w by auto
  have "copy_words (w @ rest) True c args esp s = copy_words (v @ rest) False (c - 1) ?args (esp - 2) s2"
    using assms(2) s1(1) s2(1) unfolding w two(1) by (simp add: Let_def)
  then have "copy_words (w @ rest) True c args esp s = copy_words rest True (c - 1) ?args (esp - (length w + 1)) s3"
    using s3(1) copy_flag [OF assms(3)] unfolding two(2) by simp
  moreover have "stack s3 k (esp - (length w + 1)) = rev w @ [0] @ stack s k esp"
    using s3(4) s2(4) s1(4) unfolding two w by simp
  ultimately show ?thesis
    using s3(2) same_but_memory_trans [OF s1(3) same_but_memory_trans [OF s2(3) s3(3)]] by blast
qed

lemma copy_words_ok:
  assumes "stack_ok s pd k" "stack_base + words_size (tokens 0 bs) \<le> esp" "esp \<le> PHYS_BASE"
    and "int (length (tokens 0 bs)) \<le> c" "c \<le> int (length args)"
  shows "\<exists>args' s'. copy_words bs True c args esp s =
      Some ((c - int (length (tokens 0 bs)), args', esp - words_size (tokens 0 bs)), s') \<and> stack_ok s' pd k \<and> same_but_memory pd s s' \<and>
    stack s' k (esp - words_size (tokens 0 bs)) = concat (map (\<lambda>w. rev w @ [0]) (rev (tokens 0 bs))) @ stack s k esp \<and>
    length args' = length args \<and>
    (\<forall>i < length args. args' ! i = (if c - int (length (tokens 0 bs)) < int i \<and> int i \<le> c
       then esp - words_size (take (nat (c - int i)) (tokens 0 bs)) else args ! i))"
  using assms
proof (induction "length bs" arbitrary: bs esp s c args rule: less_induct)
  case less
  consider "bs = []" | bs' where "bs = 0 # bs'"
    | w rest where "bs = w @ rest" "w \<noteq> []" "0 \<notin> set w" "rest = [] \<or> hd rest = 0"
  proof (cases bs)
    case (Cons b bs')
    let ?w = "takeWhile (\<lambda>x. x \<noteq> 0) bs" and ?r = "dropWhile (\<lambda>x. x \<noteq> 0) bs"
    have "0 \<notin> set ?w" by (auto dest: set_takeWhileD)
    moreover have "?r = [] \<or> hd ?r = 0" using hd_dropWhile [of "\<lambda>x. x \<noteq> 0" bs] by auto
    moreover have "bs = ?w @ ?r" by simp
    moreover have "b \<noteq> 0 \<Longrightarrow> ?w \<noteq> []" using Cons by simp
    ultimately show thesis using that Cons by metis
  qed simp
  then show ?case
  proof cases
    case 2
    have eq: "copy_words bs True c args esp s = copy_words bs' True c args esp s" "tokens 0 bs = tokens 0 bs'" using 2 by simp_all
    show ?thesis unfolding eq by (rule less.hyps) (use 2 less.prems in \<open>simp_all add: eq\<close>)
  next
    case (3 w rest)
    let ?args = "if c < int (length args) then args[nat c := esp] else args" and ?ts = "tokens 0 rest"
    have t: "tokens 0 bs = w # ?ts" unfolding 3(1) by (rule tokens_word [OF 3(2-4)])
    have sp: "stack_base + (length w + 1) \<le> esp" "stack_base + words_size ?ts \<le> esp - (length w + 1)" "esp - (length w + 1) \<le> PHYS_BASE"
      using less.prems(2,3) unfolding t by (simp_all add: words_size_simps)
    obtain s1 where s1: "copy_words bs True c args esp s = copy_words rest True (c - 1) ?args (esp - (length w + 1)) s1"
      "stack_ok s1 pd k" "same_but_memory pd s s1" "stack s1 k (esp - (length w + 1)) = rev w @ [0] @ stack s k esp"
      unfolding 3(1) using copy_word [OF 3(2-4) less.prems(1) sp(1) less.prems(3)] by blast
    have len: "length rest < length bs" "int (length ?ts) \<le> c - 1" "c - 1 \<le> int (length ?args)"
      using 3(1,2) less.prems(4,5) unfolding t by auto
    obtain args' s' where ih: "copy_words rest True (c - 1) ?args (esp - (length w + 1)) s1 =
        Some ((c - 1 - int (length ?ts), args', esp - (length w + 1) - words_size ?ts), s')" "stack_ok s' pd k" "same_but_memory pd s1 s'"
      "stack s' k (esp - (length w + 1) - words_size ?ts) = concat (map (\<lambda>w. rev w @ [0]) (rev ?ts)) @ stack s1 k (esp - (length w + 1))"
      "length args' = length ?args"
      "\<forall>i < length ?args. args' ! i = (if c - 1 - int (length ?ts) < int i \<and> int i \<le> c - 1
         then esp - (length w + 1) - words_size (take (nat (c - 1 - int i)) ?ts) else ?args ! i)"
      using less.hyps [OF len(1) s1(2) sp(2,3) len(2,3)] by blast
    have el: "args' ! i = (if c - int (length (tokens 0 bs)) < int i \<and> int i \<le> c
        then esp - words_size (take (nat (c - int i)) (tokens 0 bs)) else args ! i)" if i: "i < length args" for i
    proof (cases "int i = c")
      case True
      then have "nat c = i" "c < int (length args)" using i by auto
      then show ?thesis using ih(6) i True unfolding t by simp
    next
      case False
      have "nat (c - int i) = Suc (nat (c - 1 - int i))" if "int i \<le> c - 1" using that by simp
      moreover have "?args ! i = args ! i" using False less.prems(4) by (auto simp: nth_list_update)
      ultimately show ?thesis using ih(6) i False unfolding t by auto
    qed
    have "copy_words bs True c args esp s = Some ((c - int (length (tokens 0 bs)), args', esp - words_size (tokens 0 bs)), s')"
      using s1(1) ih(1) unfolding t by simp
    moreover have "stack s' k (esp - words_size (tokens 0 bs)) = concat (map (\<lambda>w. rev w @ [0]) (rev (tokens 0 bs))) @ stack s k esp"
      using ih(4) s1(4) unfolding t by simp
    ultimately show ?thesis
      using ih(2,5) el same_but_memory_trans [OF s1(3) ih(3)] by (intro exI [of _ args'] exI [of _ s']) simp
  qed (use less.prems in auto)
qed

lemma push_words_ok:
  assumes "stack_ok s pd k" "stack_base + 4 * length ws \<le> esp" "esp \<le> PHYS_BASE"
  shows "\<exists>s'. push_words ws esp s = Some (esp - 4 * length ws, s') \<and> stack_ok s' pd k \<and> same_but_memory pd s s' \<and>
    stack s' k (esp - 4 * length ws) = concat (map le32 (rev ws)) @ stack s k esp"
  using assms
proof (induction ws arbitrary: esp s)
  case (Cons w ws)
  have sp: "stack_base + 4 \<le> esp" "stack_base + 4 * length ws \<le> esp - 4" "esp - 4 \<le> PHYS_BASE" using Cons.prems(2,3) by auto
  obtain s1 where s1: "push_word w esp s = Some (esp - 4, s1)" "stack_ok s1 pd k" "same_but_memory pd s s1"
    "stack s1 k (esp - 4) = le32 w @ stack s k esp"
    by (rule push_word_ok [OF Cons.prems(1) sp(1) Cons.prems(3)])
  obtain s2 where s2: "push_words ws (esp - 4) s1 = Some (esp - 4 - 4 * length ws, s2)" "stack_ok s2 pd k" "same_but_memory pd s1 s2"
    "stack s2 k (esp - 4 - 4 * length ws) = concat (map le32 (rev ws)) @ stack s1 k (esp - 4)"
    using Cons.IH [OF s1(2) sp(2,3)] by blast
  show ?case using s1 s2 same_but_memory_trans [OF s1(3) s2(3)] by simp
qed simp

section \<open>The initial stack\<close>

text \<open>The addresses of the words and of the array of these addresses.\<close>

definition starts :: "u8 list list \<Rightarrow> ptr list" where
  "starts ts = map (\<lambda>i. PHYS_BASE - words_size (drop i ts)) [0..<length ts]"

definition argv_of :: "u8 list list \<Rightarrow> ptr" where
  "argv_of ts = PHYS_BASE - words_size ts - 4 - 4 * length ts"

lemma words_size_rev: "words_size (rev ws) = words_size ws" "words_size (map rev ws) = words_size ws"
  by (induction ws) simp_all

text \<open>Everything but the last word, the return address.\<close>

lemma push_arguments_prefix:
  assumes "stack_ok s pd k" "tokens 0 bs = ts" "ts \<noteq> []" "words_size ts + 4 * length ts + 12 \<le> PGSIZE"
  shows "\<exists>s'. push_arguments (bs @ [0]) (length ts) PHYS_BASE s = push_word 0 (argv_of ts - 8) s' \<and> stack_ok s' pd k \<and>
    same_but_memory pd s s' \<and> stack s' k (argv_of ts - 8) =
      le32 (length ts) @ le32 (argv_of ts) @ concat (map le32 (starts ts)) @ le32 0 @ concat (map (\<lambda>w. w @ [0]) ts)"
proof -
  let ?n = "length ts" and ?bytes = "rev (bs @ [0])"
  have tk: "tokens 0 ?bytes = rev (map rev ts)" using tokens_rev [of 0 bs] assms(2) by simp
  have len: "length (tokens 0 ?bytes) = ?n" "words_size (tokens 0 ?bytes) = words_size ts"
    unfolding tk by (simp_all add: words_size_rev)
  have room: "stack_base + (words_size ts + 4 * ?n + 12) \<le> PHYS_BASE" using assms(4) by (simp add: PHYS_BASE_def PGSIZE_def PGBITS_def)
  let ?e1 = "PHYS_BASE - words_size ts"
  have "stack_base + words_size (tokens 0 ?bytes) \<le> PHYS_BASE" "int (length (tokens 0 ?bytes)) \<le> int ?n"
    "int ?n \<le> int (length (replicate ?n (0 :: ptr)))"
    using room unfolding len by simp_all
  from copy_words_ok [OF assms(1) this(1) order_refl this(2,3)]
  obtain args s1 where cw: "copy_words ?bytes True (int ?n) (replicate ?n 0) PHYS_BASE s = Some ((0, args, ?e1), s1)"
    "stack_ok s1 pd k" "same_but_memory pd s s1"
    "stack s1 k ?e1 = concat (map (\<lambda>w. rev w @ [0]) (rev (tokens 0 ?bytes))) @ stack s k PHYS_BASE" "length args = ?n"
    "\<forall>i < ?n. args ! i = (if 0 < int i \<and> int i \<le> int ?n
       then PHYS_BASE - words_size (take (nat (int ?n - int i)) (tokens 0 ?bytes)) else replicate ?n 0 ! i)"
    unfolding len by auto
  have st1: "stack s1 k ?e1 = concat (map (\<lambda>w. w @ [0]) ts)" using cw(4) unfolding tk by (simp add: rev_map comp_def stack_def)
  have args: "args[0 := ?e1] = starts ts"
  proof (rule nth_equalityI)
    fix i assume "i < length (args[0 := ?e1])"
    then have i: "i < ?n" using cw(5) by simp
    have "take (?n - i) (rev (map rev ts)) = rev (map rev (drop i ts))" using take_rev [of "?n - i" "map rev ts"] i by (simp add: drop_map)
    then have "words_size (take (nat (int ?n - int i)) (tokens 0 ?bytes)) = words_size (drop i ts)"
      unfolding tk using i by (simp add: words_size_rev nat_diff_distrib')
    then show "args[0 := ?e1] ! i = starts ts ! i" using cw(5,6) i by (cases "i = 0") (auto simp: starts_def)
  qed (simp add: cw(5) starts_def)
  have sp: "stack_base + 4 \<le> ?e1" "?e1 \<le> PHYS_BASE" "stack_base + 4 * ?n \<le> ?e1 - 4" "?e1 - 4 \<le> PHYS_BASE"
    "stack_base + 4 \<le> argv_of ts" "argv_of ts \<le> PHYS_BASE" "stack_base + 4 \<le> argv_of ts - 4" "argv_of ts - 4 \<le> PHYS_BASE"
    using room unfolding argv_of_def by linarith+
  obtain s2 where s2: "push_word 0 ?e1 s1 = Some (?e1 - 4, s2)" "stack_ok s2 pd k" "same_but_memory pd s1 s2"
    "stack s2 k (?e1 - 4) = le32 0 @ stack s1 k ?e1"
    by (rule push_word_ok [OF cw(2) sp(1,2)])
  have ls: "length (rev (starts ts)) = ?n" by (simp add: starts_def)
  have e3: "?e1 - 4 - 4 * ?n = argv_of ts" by (simp add: argv_of_def)
  obtain s3 where s3: "push_words (rev (starts ts)) (?e1 - 4) s2 = Some (argv_of ts, s3)" "stack_ok s3 pd k" "same_but_memory pd s2 s3"
    "stack s3 k (argv_of ts) = concat (map le32 (starts ts)) @ stack s2 k (?e1 - 4)"
    using push_words_ok [OF s2(2), of "rev (starts ts)" "?e1 - 4", unfolded ls e3 rev_rev_ident, OF sp(3,4)] by blast
  obtain s4 where s4: "push_word (argv_of ts) (argv_of ts) s3 = Some (argv_of ts - 4, s4)" "stack_ok s4 pd k" "same_but_memory pd s3 s4"
    "stack s4 k (argv_of ts - 4) = le32 (argv_of ts) @ stack s3 k (argv_of ts)"
    by (rule push_word_ok [OF s3(2) sp(5,6)])
  obtain s5 where s5: "push_word ?n (argv_of ts - 4) s4 = Some (argv_of ts - 4 - 4, s5)" "stack_ok s5 pd k" "same_but_memory pd s4 s5"
    "stack s5 k (argv_of ts - 4 - 4) = le32 ?n @ stack s4 k (argv_of ts - 4)"
    by (rule push_word_ok [OF s4(2) sp(7,8)])
  have e5: "argv_of ts - 4 - 4 = argv_of ts - 8" by simp
  have "push_arguments (bs @ [0]) ?n PHYS_BASE s = push_word 0 (argv_of ts - 8) s5"
    using cw(1) args s2(1) s3(1) s4(1) s5(1) unfolding e5 push_arguments_def Let_def by simp
  moreover have "same_but_memory pd s s5"
    using cw(3) s2(3) s3(3) s4(3) s5(3) by (blast intro: same_but_memory_trans)
  ultimately show ?thesis using s5(2,4) unfolding s4(4) s3(4) s2(4) st1 e5 by auto
qed

text \<open>An access through a page that is not mapped.\<close>

lemma store_unmapped:
  assumes "tables_ok (vm_m (p_vm s)) pd" "is_user_vaddr va" "frame_of (vm_m (p_vm s)) pd (pg_no va) = None"
  shows "store_byte va b s = None"
proof -
  let ?m = "vm_m (p_vm s)"
  have w: "pd_wf ?m pd" "active_pd ?m = Some pd" using assms(1) by (auto simp: tables_ok_def)
  have "pte_get_page (entry ?m pd (pg_no va)) = None" if "entry ?m pd (pg_no va) AND 1 \<noteq> 0"
    using assms(3) that by (simp add: frame_of_def)
  then show ?thesis using lookup_no_create [OF w(1) assms(2)] w(2)
    by (auto simp: store_byte_def kernel_access_def Let_def entry_def split: if_splits)
qed

text \<open>The check of the length of the stack in \<open>start_process\<close> leaves out the terminator of the last word: a command line
  that just passes it needs one byte more than the page has, and the kernel stops when it writes below the page.\<close>

lemma push_arguments_one_too_many:
  assumes "stack_ok s pd k" "0 \<notin> set cmd" "split_args cmd True 0 = (bs, n)" "0 < n"
    and "max_stack_length (8 + length cmd) n = PGSIZE" "words_size (tokens 32 cmd) = length cmd + 1"
    and "frame_of (vm_m (p_vm s)) pd (pg_no (stack_base - 1)) = None"
  shows "push_arguments (bs @ [0]) n PHYS_BASE s = None"
proof -
  let ?ts = "tokens 32 cmd"
  have t: "tokens 0 bs = ?ts" "n = length ?ts" using split_args_tokens [OF assms(2,3)] by simp_all
  have sz: "words_size ?ts + 4 * n + 16 = PGSIZE + 1" using assms(5,6) by (simp add: max_stack_length_def)
  have "?ts \<noteq> []" "words_size ?ts + 4 * length ?ts + 12 \<le> PGSIZE" using t(2) assms(4) sz by auto
  then obtain s' where s': "push_arguments (bs @ [0]) n PHYS_BASE s = push_word 0 (argv_of ?ts - 8) s'" "stack_ok s' pd k"
    "same_but_memory pd s s'"
    using push_arguments_prefix [OF assms(1) t(1)] t(2) by auto
  have e: "argv_of ?ts - 8 = stack_base + 3" using sz t(2) by (simp add: argv_of_def PHYS_BASE_def PGSIZE_def PGBITS_def)
  have a: "(stack_base + 3 + 2 ^ 32 - 4) mod 2 ^ 32 = stack_base - 1" by simp
  have hd: "le32 0 = 0 # tl (le32 0)" by (simp add: le32_def upt_rec)
  have "store_byte (stack_base - 1) 0 s' = None"
    using s'(2,3) assms(7)
    by (intro store_unmapped [of _ pd])
      (auto simp: stack_ok_def is_user_vaddr_def PHYS_BASE_def same_but_memory_def same_map_def pg_no_def PGBITS_def user_pages_def)
  then have "store_bytes (stack_base - 1) (le32 0) s' = None" by (subst hd) simp
  then show ?thesis unfolding s'(1) e push_word_def a Let_def by simp
qed

lemma sample_stack: "\<exists>s. stack_ok s 0xc0100000 0xc0201000"
proof -
  let ?pd = "0xc0100000 :: nat" and ?k = "0xc0201000 :: nat"
  have wf: "machine_wf sample_paging" using sample_machine_wf by (simp add: sample_paging_def machine_wf_def)
  have free: "pages_in_use (kernel_pool sample_paging) \<noteq> pool_pages (kernel_pool sample_paging)"
    by (simp add: sample_paging_def sample_machine_def sample_in_use PGSIZE_def)
  have "load32 (\<lambda>_. 0) a = 0" for a by (simp add: load32_def)
  then have e0: "entry sample_paging ?pd n AND 1 = 0" for n by (simp add: entry_def sample_paging_def)
  have h: "pg_ofs stack_base = 0" "is_user_vaddr stack_base" "kernel_page ?k" "(?k - PHYS_BASE) div 4096 < init_ram_pages sample_paging"
    "?pd \<noteq> init_page_dir sample_paging"
    by (simp_all add: pg_ofs_def PGBITS_def is_user_vaddr_def PHYS_BASE_def kernel_page_def PGSIZE_def sample_paging_def sample_machine_def)
  obtain ok m e where m: "pagedir_set_page ?pd stack_base ?k True sample_paging = Some (ok, m)" "machine_wf m" "pd_wf m ?pd"
    "pte_get_page e = Some ?k" "e AND 1 \<noteq> 0" "e AND 2 \<noteq> 0" "ok \<Longrightarrow> entry m ?pd (pg_no stack_base) = e"
    "\<not> ok \<Longrightarrow> pages_in_use (kernel_pool sample_paging) = pool_pages (kernel_pool sample_paging)"
  proof (rule set_page_entry [OF wf sample_pd_wf h(1-5) e0, where w = True])
    fix ok m e
    assume *: "pagedir_set_page ?pd stack_base ?k True sample_paging = Some (ok, m)" "machine_wf m" "pd_wf m ?pd"
      "pte_get_page e = Some ?k" "e AND 1 \<noteq> 0" "(e AND 2 \<noteq> 0) = True"
      "\<And>n. n < user_pages \<Longrightarrow> entry m ?pd n = (if ok \<and> n = pg_no stack_base then e else entry sample_paging ?pd n)"
      "\<not> ok \<Longrightarrow> pages_in_use (kernel_pool sample_paging) = pool_pages (kernel_pool sample_paging)"
    have "pg_no stack_base < user_pages" by (simp add: pg_no_def user_pages_def PGBITS_def)
    then have "ok \<Longrightarrow> entry m ?pd (pg_no stack_base) = e" using *(7) by simp
    then show thesis using that [OF *(1-5)] *(6,8) by simp
  qed
  have ok using m(8) free by blast
  have "entry m ?pd (pg_no stack_base) = e" using m(7) \<open>ok\<close> by simp
  moreover note f = set_page_frames [OF wf sample_pd_wf m(1)]
  moreover have "active_pd m = Some ?pd" using f by (simp add: active_pd_def sample_paging_def sample_machine_def ptov_def PHYS_BASE_def)
  moreover have "p_base (user_pool m) \<le> ?k" using f by (simp add: same_frames_def sample_paging_def sample_machine_def sample_pool_def)
  ultimately have "stack_ok (undefined\<lparr>p_vm := sample_vm\<lparr>vm_m := m\<rparr>\<rparr>) ?pd ?k"
    using m(2-6) by (simp add: stack_ok_def tables_ok_def frame_of_def page_writable_def)
  then show ?thesis by blast
qed

text \<open>C33. For a command line that passes the check with a byte to spare, the words are those between its spaces, and the
  stack of the new process holds, from the stack pointer up, a null return address, the number of words, the address of
  the array of arguments, that array with the address of every word and a null pointer at its end, and the words in order,
  each with its terminator; the pages of the process stay mapped as they are.\<close>

theorem start_process_stack:
  assumes "stack_ok s pd k" "0 \<notin> set cmd" "split_args cmd True 0 = (bs, n)" "0 < n"
    and "max_stack_length (8 + length cmd) n < PGSIZE"
  shows "n = length (tokens 32 cmd) \<and> (\<exists>s'. push_arguments (bs @ [0]) n PHYS_BASE s = Some (argv_of (tokens 32 cmd) - 12, s') \<and>
    same_but_memory pd s s' \<and> stack s' k (argv_of (tokens 32 cmd) - 12) =
      le32 0 @ le32 n @ le32 (argv_of (tokens 32 cmd)) @ concat (map le32 (starts (tokens 32 cmd))) @ le32 0 @
      concat (map (\<lambda>w. w @ [0]) (tokens 32 cmd)))"
proof -
  let ?ts = "tokens 32 cmd"
  have t: "tokens 0 bs = ?ts" "n = length ?ts" using split_args_tokens [OF assms(2,3)] by simp_all
  have sz: "words_size ?ts + 4 * length ?ts + 16 \<le> PGSIZE"
    using assms(5) tokens_length [of 32 cmd] t(2) by (simp add: max_stack_length_def words_size_def)
  have ne: "?ts \<noteq> []" "words_size ?ts + 4 * length ?ts + 12 \<le> PGSIZE" using t(2) assms(4) sz by auto
  obtain s1 where s1: "push_arguments (bs @ [0]) n PHYS_BASE s = push_word 0 (argv_of ?ts - 8) s1" "stack_ok s1 pd k"
    "same_but_memory pd s s1" "stack s1 k (argv_of ?ts - 8) =
      le32 n @ le32 (argv_of ?ts) @ concat (map le32 (starts ?ts)) @ le32 0 @ concat (map (\<lambda>w. w @ [0]) ?ts)"
    using push_arguments_prefix [OF assms(1) t(1) ne] unfolding t(2) by blast
  have sp: "stack_base + 4 \<le> argv_of ?ts - 8" "argv_of ?ts - 8 \<le> PHYS_BASE"
    using sz by (simp_all add: argv_of_def PHYS_BASE_def PGSIZE_def PGBITS_def)
  obtain s2 where s2: "push_word 0 (argv_of ?ts - 8) s1 = Some (argv_of ?ts - 8 - 4, s2)" "stack_ok s2 pd k" "same_but_memory pd s1 s2"
    "stack s2 k (argv_of ?ts - 8 - 4) = le32 0 @ stack s1 k (argv_of ?ts - 8)"
    by (rule push_word_ok [OF s1(2) sp])
  have e: "argv_of ?ts - 8 - 4 = argv_of ?ts - 12" by simp
  show ?thesis using t(2) s1(1) s2(1,4) same_but_memory_trans [OF s1(3) s2(3)] unfolding e s1(4) by auto
qed

theorem start_process_stack_witness:
  "\<exists>s s'. push_arguments ([97, 98] @ [0] @ [99] @ [0]) 2 PHYS_BASE s = Some (0xBFFFFFE3, s') \<and>
     drop 24 (stack s' 0xc0201000 0xBFFFFFE3) = [97, 98, 0, 99, 0]"
proof -
  obtain s where s: "stack_ok s 0xc0100000 0xc0201000" using sample_stack by blast
  have sa: "split_args [97, 98, 32, 99] True 0 = ([97, 98, 0, 99], 2)" by simp
  have tk: "tokens 32 [97, 98, 32, 99 :: u8] = [[97, 98], [99]]" by (simp add: tokens_def)
  have av: "argv_of [[97, 98], [99]] = 0xBFFFFFEF" by (simp add: argv_of_def PHYS_BASE_def)
  have st: "length (starts [[97, 98], [99]]) = 2" by (simp add: starts_def)
  obtain s' where s': "push_arguments ([97, 98, 0, 99] @ [0]) 2 PHYS_BASE s = Some (0xBFFFFFE3, s')"
    "stack s' 0xc0201000 0xBFFFFFE3 = le32 0 @ le32 2 @ le32 0xBFFFFFEF @ concat (map le32 (starts [[97, 98], [99]])) @ le32 0 @ [97, 98, 0, 99, 0]"
    using start_process_stack [OF s _ sa] by (auto simp: max_stack_length_def PGSIZE_def PGBITS_def tk av)
  have "length (concat (map le32 (starts [[97, 98], [99]]))) = 8" using st by (simp add: length_concat comp_def sum_list_triv)
  then show ?thesis using s' by (intro exI [where x = s] exI [where x = s']) simp
qed

end
