(* ===== verification/Process_Load.thy ===== *)
theory Process_Load
  imports Process
begin

text \<open>
  Loading the segments of an executable (\<open>userprog/process.c\<close>): a segment that passes \<open>validate_segment\<close> never trips an
  assertion of \<open>load_segment\<close>, and its loop is the registration of a list of pages that is known in closed form.
\<close>

section \<open>The pages of a segment\<close>

text \<open>Registering a list of pages of a file, each with its address, its offset in the file and the bytes to read.\<close>

fun create_pages :: "ptr \<Rightarrow> bool \<Rightarrow> (ptr \<times> int \<times> nat) list \<Rightarrow> proc \<Rightarrow> bool act" where
  "create_pages fil writable [] s = pure True s"
| "create_pages fil writable ((page, ofs, rd) # ps) s =
     cont (create_spte FILE_PAGE page writable False fil ofs rd (PGSIZE - rd) s) (\<lambda>p s.
       if p = NULL then pure False s
       else cont (unlock_spte p s) (\<lambda>_ s. create_pages fil writable ps s))"

definition pages_of :: "nat \<Rightarrow> int \<Rightarrow> ptr \<Rightarrow> nat \<Rightarrow> (ptr \<times> int \<times> nat) list" where
  "pages_of n ofs upage rd =
     map (\<lambda>i. (upage + PGSIZE * i, s32 (ofs + int (min (PGSIZE * i) rd)), min (rd - PGSIZE * i) PGSIZE)) [0..<n]"

definition segment_pages :: "Elf32_Phdr \<Rightarrow> (ptr \<times> int \<times> nat) list" where
  "segment_pages phdr =
     (let ofs = p_vaddr phdr mod PGSIZE in
      pages_of ((ofs + p_memsz phdr + PGSIZE - 1) div PGSIZE) (int (p_offset phdr - ofs)) (p_vaddr phdr - ofs)
        (if p_filesz phdr > 0 then ofs + p_filesz phdr else 0))"

definition phdr_ok :: "Elf32_Phdr \<Rightarrow> bool" where
  "phdr_ok phdr \<longleftrightarrow> p_offset phdr < 2 ^ 32 \<and> p_vaddr phdr < 2 ^ 32 \<and> p_filesz phdr < 2 ^ 32 \<and> p_memsz phdr < 2 ^ 32"

section \<open>The loop\<close>

lemma s32_add: "s32 (s32 a + b) = s32 (a + b)"
  by (simp add: s32_def mod_simps algebra_simps)

lemma pages_of_Suc:
  assumes "s32 ofs = ofs"
  shows "pages_of (Suc n) ofs upage rd =
    (upage, ofs, min rd PGSIZE) # pages_of n (s32 (ofs + int (min rd PGSIZE))) (upage + PGSIZE) (rd - min rd PGSIZE)"
proof -
  have "(upage + PGSIZE * Suc i, s32 (ofs + int (min (PGSIZE * Suc i) rd)), min (rd - PGSIZE * Suc i) PGSIZE) =
    (upage + PGSIZE + PGSIZE * i, s32 (s32 (ofs + int (min rd PGSIZE)) + int (min (PGSIZE * i) (rd - min rd PGSIZE))),
      min (rd - min rd PGSIZE - PGSIZE * i) PGSIZE)" for i
    unfolding s32_add by (auto simp: min_def add.assoc)
  then show ?thesis
    using assms unfolding pages_of_def by (simp only: map_upt_Suc) simp
qed

lemma s32_s32: "s32 (s32 a) = s32 a"
  using s32_add [of a 0] by simp

lemma load_segment_loop_pages:
  assumes "rd \<le> n * PGSIZE" "upage mod PGSIZE = 0" "upage + n * PGSIZE < 2 ^ 32" "s32 ofs = ofs"
  shows "load_segment_loop fil ofs upage rd (n * PGSIZE - rd) writable s = create_pages fil writable (pages_of n ofs upage rd) s"
  using assms
proof (induction n arbitrary: ofs upage rd s)
  case 0
  then show ?case by (simp add: load_segment_loop.simps pages_of_def)
next
  case (Suc n)
  define r where "r = (if rd < PGSIZE then rd else PGSIZE)"
  have r: "min rd PGSIZE = r" by (simp add: r_def)
  have more: "rd > 0 \<or> Suc n * PGSIZE - rd > 0" using PGSIZE_pos by (cases rd) auto
  have page: "pg_round_down upage = upage" "(upage + PGSIZE) mod 2 ^ 32 = upage + PGSIZE"
    using Suc.prems(2,3) by (auto simp: pg_round_down_def PGSIZE_def)
  have zero: "(Suc n * PGSIZE - rd + 2 ^ 32 - (PGSIZE - r)) mod 2 ^ 32 = n * PGSIZE - (rd - r)"
  proof -
    have "Suc n * PGSIZE - rd + 2 ^ 32 - (PGSIZE - r) = n * PGSIZE - (rd - r) + 2 ^ 32"
      using Suc.prems(1) by (auto simp: r_def)
    then show ?thesis using Suc.prems(3) by simp
  qed
  have loop: "load_segment_loop fil (s32 (ofs + int r)) (upage + PGSIZE) (rd - r) (n * PGSIZE - (rd - r)) writable =
      create_pages fil writable (pages_of n (s32 (ofs + int r)) (upage + PGSIZE) (rd - r))"
    using Suc.prems by (intro ext Suc.IH) (auto simp: s32_s32 r_def)
  show ?case
    unfolding pages_of_Suc [OF Suc.prems(4)] r create_pages.simps
    by (subst load_segment_loop.simps) (simp only: more page zero loop Let_def r_def [symmetric] if_True cong: if_cong)
qed

section \<open>Valid segments\<close>

lemma PGSIZE_4096: "PGSIZE = 4096"
  by (simp add: PGSIZE_def PGBITS_def)

lemma valid_segment:
  assumes "validate_segment phdr flen" "phdr_ok phdr" "0 \<le> flen" "flen < 2 ^ 31"
  shows "p_vaddr phdr + p_memsz phdr < PHYS_BASE" "PGSIZE \<le> p_vaddr phdr" "p_filesz phdr \<le> p_memsz phdr"
    "p_offset phdr < 2 ^ 31" "p_offset phdr mod PGSIZE = p_vaddr phdr mod PGSIZE" "0 < p_memsz phdr"
proof -
  have v: "p_vaddr phdr < PHYS_BASE" "(p_vaddr phdr + p_memsz phdr) mod 2 ^ 32 < PHYS_BASE"
      "p_vaddr phdr \<le> (p_vaddr phdr + p_memsz phdr) mod 2 ^ 32" "int (p_offset phdr) \<le> flen mod 2 ^ 32"
    using assms(1) unfolding validate_segment_def is_user_vaddr_def by (simp_all split: if_splits)
  have "p_vaddr phdr + p_memsz phdr < 2 ^ 32"
  proof (rule ccontr)
    assume wrap: "\<not> p_vaddr phdr + p_memsz phdr < 2 ^ 32"
    have small: "p_vaddr phdr < 2 ^ 32" "p_memsz phdr < 2 ^ 32" using assms(2) by (simp_all add: phdr_ok_def)
    then have "(p_vaddr phdr + p_memsz phdr) mod 2 ^ 32 = p_vaddr phdr + p_memsz phdr - 2 ^ 32"
      using wrap by (subst le_mod_geq) simp_all
    with v(3) wrap small show False by linarith
  qed
  then show "p_vaddr phdr + p_memsz phdr < PHYS_BASE" using v(2) by simp
  show "p_offset phdr < 2 ^ 31" using v(4) assms(3,4) by simp
qed (use assms(1) in \<open>simp_all add: validate_segment_def split: if_splits\<close>)

lemma segment_bytes_pages:
  assumes "p_vaddr phdr + p_memsz phdr < PHYS_BASE" "p_filesz phdr \<le> p_memsz phdr"
    and "ofs = p_vaddr phdr mod PGSIZE" "n = (ofs + p_memsz phdr + PGSIZE - 1) div PGSIZE"
    and "rd = (if p_filesz phdr > 0 then ofs + p_filesz phdr else 0)"
  shows "segment_bytes phdr = (rd, n * PGSIZE - rd)" "rd \<le> n * PGSIZE" "p_vaddr phdr - ofs + n * PGSIZE \<le> PHYS_BASE"
proof -
  have base: "p_vaddr phdr = p_vaddr phdr div PGSIZE * PGSIZE + ofs" using assms(3) by simp
  have "ofs + p_memsz phdr + PGSIZE - 1 = n * PGSIZE + (ofs + p_memsz phdr + PGSIZE - 1) mod PGSIZE"
    unfolding assms(4) by simp
  moreover have "(ofs + p_memsz phdr + PGSIZE - 1) mod PGSIZE < PGSIZE" using PGSIZE_pos by simp
  ultimately have fit: "ofs + p_memsz phdr \<le> n * PGSIZE" "n * PGSIZE < ofs + p_memsz phdr + PGSIZE" by linarith+
  have "PHYS_BASE = 786432 * PGSIZE" by (simp add: PHYS_BASE_def PGSIZE_4096)
  then have "(p_vaddr phdr div PGSIZE + n) * PGSIZE < 786433 * PGSIZE"
    using assms(1) base fit(2) unfolding add_mult_distrib by linarith
  then have "p_vaddr phdr div PGSIZE + n \<le> 786432" by simp
  then have "(p_vaddr phdr div PGSIZE + n) * PGSIZE \<le> 786432 * PGSIZE" by (rule mult_le_mono1)
  then show upper: "p_vaddr phdr - ofs + n * PGSIZE \<le> PHYS_BASE"
    using base \<open>PHYS_BASE = 786432 * PGSIZE\<close> unfolding add_mult_distrib by linarith
  show le: "rd \<le> n * PGSIZE" using fit(1) assms(2,5) by auto
  have small: "n * PGSIZE < 2 ^ 32" using upper by (simp add: PHYS_BASE_def)
  have "ofs + p_memsz phdr + PGSIZE - 1 < 2 ^ 32"
    using assms(1) base PGSIZE_4096 by (simp add: PHYS_BASE_def)
  then have up: "ROUND_UP (ofs + p_memsz phdr) PGSIZE = n * PGSIZE" by (simp add: ROUND_UP_def assms(4))
  have "n * PGSIZE + 2 ^ 32 - rd = n * PGSIZE - rd + 2 ^ 32" using le by simp
  then have "(n * PGSIZE + 2 ^ 32 - rd) mod 2 ^ 32 = n * PGSIZE - rd"
    using small by (simp only: mod_add_self2 mod_less less_imp_diff_less)
  moreover have "rd mod 2 ^ 32 = rd" using small le by simp
  ultimately show "segment_bytes phdr = (rd, n * PGSIZE - rd)"
    using small unfolding segment_bytes_def assms(3) [symmetric] up Let_def assms(5) by (simp split: if_splits)
qed

lemma segment_pages_user:
  assumes "validate_segment phdr flen" "phdr_ok phdr" "0 \<le> flen" "flen < 2 ^ 31" "(page, o', rd) \<in> set (segment_pages phdr)"
  shows "page mod PGSIZE = 0" "PGSIZE \<le> page" "page + PGSIZE \<le> PHYS_BASE" "rd \<le> PGSIZE"
proof -
  note v = valid_segment [OF assms(1-4)]
  define ofs where "ofs = p_vaddr phdr mod PGSIZE"
  define n where "n = (ofs + p_memsz phdr + PGSIZE - 1) div PGSIZE"
  obtain i where i: "i < n" "page = p_vaddr phdr - ofs + PGSIZE * i" "rd \<le> PGSIZE"
    using assms(5) unfolding segment_pages_def pages_of_def Let_def ofs_def [symmetric] n_def [symmetric] by auto
  have base: "p_vaddr phdr - ofs = p_vaddr phdr div PGSIZE * PGSIZE" by (simp add: ofs_def minus_mod_eq_div_mult)
  show "page mod PGSIZE = 0" unfolding i(2) base by simp
  have "1 \<le> p_vaddr phdr div PGSIZE" using v(2) PGSIZE_pos div_le_mono [of PGSIZE "p_vaddr phdr" PGSIZE] by simp
  then show "PGSIZE \<le> page" unfolding i(2) base by (simp add: trans_le_add1)
  have "PGSIZE * i + PGSIZE \<le> n * PGSIZE" using mult_le_mono1 [of "Suc i" n PGSIZE] i(1) by (simp add: mult.commute)
  then show "page + PGSIZE \<le> PHYS_BASE"
    using segment_bytes_pages(3) [OF v(1,3) ofs_def n_def refl] unfolding i(2) by linarith
qed (use assms(5) in \<open>auto simp: segment_pages_def pages_of_def Let_def\<close>)

lemma segment_pages_byte:
  assumes "validate_segment phdr flen" "phdr_ok phdr" "0 \<le> flen" "flen < 2 ^ 31"
    and "p_vaddr phdr \<le> a" "a < p_vaddr phdr + p_memsz phdr"
  shows "\<exists>page o' rd. (page, o', rd) \<in> set (segment_pages phdr) \<and> page \<le> a \<and> a < page + PGSIZE \<and>
    (a - page < rd \<longleftrightarrow> a < p_vaddr phdr + p_filesz phdr) \<and>
    (a < p_vaddr phdr + p_filesz phdr \<longrightarrow> s32 (o' + int (a - page)) = s32 (int (p_offset phdr + (a - p_vaddr phdr))))"
proof -
  note v = valid_segment [OF assms(1-4)]
  define ofs where "ofs = p_vaddr phdr mod PGSIZE"
  define n where "n = (ofs + p_memsz phdr + PGSIZE - 1) div PGSIZE"
  define rd where "rd = (if p_filesz phdr > 0 then ofs + p_filesz phdr else 0)"
  define d where "d = a - (p_vaddr phdr - ofs)"
  define i where "i = d div PGSIZE"
  let ?t = "(p_vaddr phdr - ofs + PGSIZE * i, s32 (int (p_offset phdr - ofs) + int (min (PGSIZE * i) rd)), min (rd - PGSIZE * i) PGSIZE)"
  have le: "ofs \<le> p_vaddr phdr" "ofs \<le> p_offset phdr"
    using mod_less_eq_dividend [of "p_offset phdr" PGSIZE] v(5) by (simp_all add: ofs_def)
  have d: "a = p_vaddr phdr - ofs + d" "d < ofs + p_memsz phdr" "ofs \<le> d" using assms(5,6) le(1) by (auto simp: d_def)
  have split: "d = PGSIZE * i + d mod PGSIZE" "d mod PGSIZE < PGSIZE" using PGSIZE_pos by (simp_all add: i_def)
  have "d + PGSIZE \<le> ofs + p_memsz phdr + PGSIZE - 1" using d(2) by simp
  then have "(d + PGSIZE) div PGSIZE \<le> n" unfolding n_def by (rule div_le_mono)
  then have "i < n" using div_add_self2 [of PGSIZE d] PGSIZE_pos by (simp add: i_def)
  then have "?t \<in> set (segment_pages phdr)"
    unfolding segment_pages_def pages_of_def Let_def ofs_def [symmetric] n_def [symmetric] rd_def [symmetric] by auto
  moreover have in_page: "p_vaddr phdr - ofs + PGSIZE * i \<le> a" "a < p_vaddr phdr - ofs + PGSIZE * i + PGSIZE"
    "a - (p_vaddr phdr - ofs + PGSIZE * i) = d mod PGSIZE" using d(1) split by linarith+
  moreover have read: "d mod PGSIZE < min (rd - PGSIZE * i) PGSIZE \<longleftrightarrow> a < p_vaddr phdr + p_filesz phdr"
    using d split le(1) by (auto simp: rd_def)
  moreover have "s32 (s32 (int (p_offset phdr - ofs) + int (min (PGSIZE * i) rd)) + int (d mod PGSIZE)) =
      s32 (int (p_offset phdr + (a - p_vaddr phdr)))" if "a < p_vaddr phdr + p_filesz phdr"
  proof -
    have "PGSIZE * i \<le> rd" using read that by simp
    then have "int (p_offset phdr - ofs) + int (min (PGSIZE * i) rd) = int (p_offset phdr - ofs + PGSIZE * i)" by simp
    moreover have "p_offset phdr - ofs + PGSIZE * i + d mod PGSIZE = p_offset phdr + (a - p_vaddr phdr)"
      using d le split(1) by linarith
    ultimately have "int (p_offset phdr - ofs) + int (min (PGSIZE * i) rd) + int (d mod PGSIZE) =
        int (p_offset phdr + (a - p_vaddr phdr))" by (simp only: flip: of_nat_add)
    then show ?thesis unfolding s32_add by simp
  qed
  ultimately show ?thesis by (intro exI [of _ "fst ?t"] exI [of _ "fst (snd ?t)"] exI [of _ "snd (snd ?t)"]) simp
qed

text \<open>C38. A segment of an executable that \<open>validate_segment\<close> accepts trips none of the assertions of \<open>load_segment\<close>, and
  loading it registers, in order and until an allocation fails, a fixed list of pages: every page is aligned, above the first
  page and below the kernel; every byte of the segment is in one of them; and the bytes that a page reads from the file are
  exactly those of the file part of the segment, each at its offset in the file.\<close>

theorem load_segment_pages:
  assumes "file_length fil (vm_fs (p_vm s)) = Some flen" "0 \<le> flen" "flen < 2 ^ 31" "phdr_ok phdr" "validate_segment phdr flen"
  shows "(\<exists>fs. load_one_segment phdr fil s =
      create_pages fil (p_flags phdr AND 2 \<noteq> 0) (segment_pages phdr) (s\<lparr>p_vm := (p_vm s)\<lparr>vm_fs := fs\<rparr>\<rparr>)) \<and>
    (\<forall>(page, o', rd)\<in>set (segment_pages phdr). page mod PGSIZE = 0 \<and> PGSIZE \<le> page \<and> page + PGSIZE \<le> PHYS_BASE \<and> rd \<le> PGSIZE) \<and>
    (\<forall>a. p_vaddr phdr \<le> a \<and> a < p_vaddr phdr + p_memsz phdr \<longrightarrow>
      (\<exists>page o' rd. (page, o', rd) \<in> set (segment_pages phdr) \<and> page \<le> a \<and> a < page + PGSIZE \<and>
        (a - page < rd \<longleftrightarrow> a < p_vaddr phdr + p_filesz phdr) \<and>
        (a < p_vaddr phdr + p_filesz phdr \<longrightarrow> s32 (o' + int (a - page)) = s32 (int (p_offset phdr + (a - p_vaddr phdr))))))"
proof -
  note v = valid_segment [OF assms(5,4,2,3)]
  define ofs where "ofs = p_vaddr phdr mod PGSIZE"
  define n where "n = (ofs + p_memsz phdr + PGSIZE - 1) div PGSIZE"
  define rd where "rd = (if p_filesz phdr > 0 then ofs + p_filesz phdr else 0)"
  note b = segment_bytes_pages [OF v(1,3) ofs_def n_def rd_def]
  let ?o = "int (p_offset phdr - ofs)" and ?u = "p_vaddr phdr - ofs" and ?w = "p_flags phdr AND 2 \<noteq> 0"
  have o': "s32 ?o = ?o" using v(4) by (intro s32_id) auto
  have "?u mod PGSIZE = 0" by (simp add: ofs_def minus_mod_eq_div_mult)
  moreover have "(rd + (n * PGSIZE - rd)) mod 2 ^ 32 mod PGSIZE = 0"
    using b(2,3) by (simp add: PHYS_BASE_def)
  moreover have "?o mod int PGSIZE = 0"
    using v(5) by (simp add: ofs_def minus_mod_eq_div_mult flip: v(5))
  moreover obtain fs where "file_seek fil ?o (vm_fs (p_vm s)) = Some fs"
    using assms(1) by (cases "files (vm_fs (p_vm s)) fil") (auto simp: file_seek_def file_length_def split: if_splits)
  moreover have "load_segment_loop fil ?o ?u rd (n * PGSIZE - rd) ?w t = create_pages fil ?w (pages_of n ?o ?u rd) t" for t
    using b(2,3) calculation(1) o' by (intro load_segment_loop_pages) (simp_all add: PHYS_BASE_def)
  ultimately have "load_one_segment phdr fil s =
      create_pages fil ?w (segment_pages phdr) (s\<lparr>p_vm := (p_vm s)\<lparr>vm_fs := fs\<rparr>\<rparr>)"
    using assms(1,5) b(1) o' v(5) unfolding load_one_segment_def load_segment_def segment_pages_def Let_def
      ofs_def [symmetric] n_def [symmetric] rd_def [symmetric] by (simp add: pg_ofs_def PGSIZE_def)
  then show ?thesis
    using segment_pages_user [OF assms(5,4,2,3)] segment_pages_byte [OF assms(5,4,2,3)] by (intro conjI exI) auto
qed

definition sample_image :: proc where
  "sample_image = \<lparr>p_vm = sample_vm, open_files = [], fd_counter = 2, mmapped_files = [], mapid_counter = 0,
     is_running_user_program = False, printed = [], keys = [], halted = False\<rparr>"

text \<open>A segment of 12 bytes at offset 4 of the file and of 5000 bytes in memory takes two pages.\<close>

theorem load_segment_pages_witness:
  "\<exists>fs. load_one_segment \<lparr>p_type = 1, p_offset = 4, p_vaddr = 0x8048004, p_filesz = 12, p_memsz = 5000, p_flags = 6\<rparr> 32 sample_image =
    create_pages 32 True [(0x8048000, 0, 16), (0x8049000, 16, 0)] (sample_image\<lparr>p_vm := sample_vm\<lparr>vm_fs := fs\<rparr>\<rparr>)"
proof -
  let ?p = "\<lparr>p_type = 1, p_offset = 4, p_vaddr = 0x8048004, p_filesz = 12, p_memsz = 5000, p_flags = 6\<rparr>"
  have len: "file_length 32 (vm_fs (p_vm sample_image)) = Some 16"
    by (simp add: file_length_def sample_image_def sample_vm_def sample_fs_def sample_inode_def inode_length_def)
  have ok: "phdr_ok ?p" "validate_segment ?p 16"
    by (simp_all add: phdr_ok_def validate_segment_def is_user_vaddr_def PHYS_BASE_def PGSIZE_4096)
  have pages: "segment_pages ?p = [(0x8048000, 0, 16), (0x8049000, 16, 0)]"
    by (simp add: segment_pages_def pages_of_def PGSIZE_4096 s32_def upt_rec)
  show ?thesis using load_segment_pages [OF len _ _ ok] unfolding pages by (simp add: sample_image_def)
qed

end
