(* ===== verification/Syscall.thy ===== *)
theory Syscall
  imports Process
begin

text \<open>
  The system calls (\<open>userprog/syscall.c\<close>), run by the process in whose state they are.  What other threads contribute is an
  argument: the identifier of a thread created, whether it loaded its program, and the status \<open>process_wait\<close> returns; so are
  the bytes of an uninitialised directory entry.
\<close>

section \<open>Definitions\<close>

record others =
  new_tid :: int
  child_loaded :: bool
  wait_status :: int
  stack_junk :: "u8 list"

definition u32_of :: "int \<Rightarrow> u32" where
  "u32_of n = word_of_int n"

definition u32_of_bool :: "bool \<Rightarrow> u32" where
  "u32_of_bool b = (if b then 1 else 0)"

definition acquire_fs :: "proc \<Rightarrow> unit act" where
  "acquire_fs s = step_vm (lock_fs (p_vm s)) s"

definition release_fs :: "proc \<Rightarrow> unit act" where
  "release_fs s = step_vm (unlock_fs (p_vm s)) s"

subsection \<open>Open files\<close>

definition get_file_package_from_open_list :: "int \<Rightarrow> proc \<Rightarrow> file_package option" where
  "get_file_package_from_open_list n s = find (\<lambda>p. fd p = n) (open_files s)"

definition get_file_from_open_list :: "int \<Rightarrow> proc \<Rightarrow> ptr" where
  "get_file_from_open_list n s = (case get_file_package_from_open_list n s of None \<Rightarrow> NULL | Some p \<Rightarrow> fp p)"

definition add_to_open_file_list :: "ptr \<Rightarrow> proc \<Rightarrow> int \<times> proc" where
  "add_to_open_file_list f s = apfst (\<lambda>r. case r of None \<Rightarrow> -1 | Some n \<Rightarrow> n) (add_package f s)"

text \<open>Assignment to the position of the package found for \<open>n\<close>.\<close>

fun set_position :: "int \<Rightarrow> nat \<Rightarrow> file_package list \<Rightarrow> file_package list" where
  "set_position n pos [] = []"
| "set_position n pos (p # ps) = (if fd p = n then p\<lparr>position := pos\<rparr> # ps else p # set_position n pos ps)"

fun remove_package :: "int \<Rightarrow> file_package list \<Rightarrow> file_package list" where
  "remove_package n [] = []"
| "remove_package n (p # ps) = (if fd p = n then ps else p # remove_package n ps)"

subsection \<open>Processes\<close>

definition LP_halt :: "proc \<Rightarrow> 'a act" where
  "LP_halt s = Some (Inl (s\<lparr>halted := True\<rparr>))"

definition LP_exec :: "others \<Rightarrow> ptr \<Rightarrow> ptr \<Rightarrow> proc \<Rightarrow> int act" where
  "LP_exec o' command_line esp s =
     cont (check_usr_string command_line esp s) (\<lambda>_ s.
       cont (strlen_pin command_line s) (\<lambda>len s. do {
         ((pid, _), s) \<leftarrow> process_execute (new_tid o') command_line s;
         cont (pinning_for_system_call command_line len False s) (\<lambda>_ s.
           if pid = TID_ERROR then pure (-1) s
           else if child_loaded o' then pure pid s
           else pure (-1) s) }))"

definition LP_wait :: "others \<Rightarrow> int \<Rightarrow> proc \<Rightarrow> int act" where
  "LP_wait o' pid s = pure (wait_status o') s"

subsection \<open>Files\<close>

definition LP_create :: "others \<Rightarrow> ptr \<Rightarrow> nat \<Rightarrow> ptr \<Rightarrow> proc \<Rightarrow> bool act" where
  "LP_create o' name initial_size esp s =
     cont (check_usr_string name esp s) (\<lambda>_ s.
       cont (check_file_name_length name s) (\<lambda>ok s.
         if \<not> ok then pure False s
         else cont (acquire_fs s) (\<lambda>_ s. do {
           (bs, s) \<leftarrow> load_string name s;
           (outcome, fs) \<leftarrow> filesys_create (stack_junk o') bs (s32 (int initial_size)) (vm_fs (p_vm s));
           cont (pinning_for_system_call name (length bs) False (set_fs fs s)) (\<lambda>_ s.
             cont (release_fs s) (\<lambda>_. pure outcome)) })))"

text \<open>For a name that is too long \<open>LP_remove\<close> returns -1 as a \<open>bool\<close>, which is true.\<close>

definition LP_remove :: "ptr \<Rightarrow> ptr \<Rightarrow> proc \<Rightarrow> bool act" where
  "LP_remove name esp s =
     cont (check_usr_string name esp s) (\<lambda>_ s.
       cont (check_file_name_length name s) (\<lambda>ok s.
         if \<not> ok then pure True s
         else cont (acquire_fs s) (\<lambda>_ s. do {
           (bs, s) \<leftarrow> load_string name s;
           (outcome, fs) \<leftarrow> filesys_remove bs (vm_fs (p_vm s));
           cont (pinning_for_system_call name (length bs) False (set_fs fs s)) (\<lambda>_ s.
             cont (release_fs s) (\<lambda>_. pure outcome)) })))"

definition LP_open :: "ptr \<Rightarrow> ptr \<Rightarrow> proc \<Rightarrow> int act" where
  "LP_open name esp s =
     cont (check_usr_string name esp s) (\<lambda>_ s.
       cont (check_file_name_length name s) (\<lambda>ok s.
         if \<not> ok then pure (-1) s
         else cont (acquire_fs s) (\<lambda>_ s. do {
           (bs, s) \<leftarrow> load_string name s;
           (f, fs) \<leftarrow> filesys_open bs (vm_fs (p_vm s));
           cont (pinning_for_system_call name (length bs) False (set_fs fs s)) (\<lambda>_ s.
             if f = NULL then cont (release_fs s) (\<lambda>_. pure (-1))
             else (let (n, s) = add_to_open_file_list f s in cont (release_fs s) (\<lambda>_. pure n))) })))"

definition LP_filesize :: "int \<Rightarrow> proc \<Rightarrow> int act" where
  "LP_filesize n s =
     cont (acquire_fs s) (\<lambda>_ s.
       let f = get_file_from_open_list n s in
       if f = NULL then cont (release_fs s) (\<lambda>_. pure (-1))
       else do {
         sz \<leftarrow> file_length f (vm_fs (p_vm s));
         cont (release_fs s) (\<lambda>_. pure sz) })"

text \<open>Reading from the keyboard; an empty list of keys is a process that waits for ever.\<close>

fun input_loop :: "ptr \<Rightarrow> nat \<Rightarrow> proc \<Rightarrow> proc option" where
  "input_loop va 0 s = Some s"
| "input_loop va (Suc n) s = (case keys s of
     [] \<Rightarrow> None
   | k # ks \<Rightarrow> do {
       s \<leftarrow> store_byte va k (s\<lparr>keys := ks\<rparr>);
       input_loop ((va + 1) mod 2 ^ 32) n s })"

text \<open>The file system copies into and out of the buffer through the page table of the process; the pages are pinned.\<close>

definition LP_read :: "int \<Rightarrow> ptr \<Rightarrow> nat \<Rightarrow> ptr \<Rightarrow> proc \<Rightarrow> int act" where
  "LP_read n buffer len esp s =
     cont (check_usr_buffer buffer len esp True s) (\<lambda>_ s.
       cont (pinning_for_system_call buffer len True s) (\<lambda>_ s.
         if n = 0 then do {
           s \<leftarrow> input_loop buffer len s;
           cont (pinning_for_system_call buffer len False s) (\<lambda>_. pure (s32 (int len))) }
         else cont (acquire_fs s) (\<lambda>_ s.
           case get_file_package_from_open_list n s of
             None \<Rightarrow> cont (release_fs s) (\<lambda>_ s. cont (pinning_for_system_call buffer len False s) (\<lambda>_. pure (-1)))
           | Some p \<Rightarrow> do {
               (d, fs) \<leftarrow> file_read_at (fp p) (s32 (int len)) (s32 (int (position p))) (vm_fs (p_vm s));
               s \<leftarrow> store_bytes buffer d (set_fs fs s);
               cont (pinning_for_system_call buffer len False s) (\<lambda>_ s.
                 let s = s\<lparr>open_files := set_position n ((position p + length d) mod 2 ^ 32) (open_files s)\<rparr> in
                 cont (release_fs s) (\<lambda>_. pure (int (length d)))) })))"

definition LP_write :: "int \<Rightarrow> ptr \<Rightarrow> nat \<Rightarrow> ptr \<Rightarrow> proc \<Rightarrow> int act" where
  "LP_write n buffer len esp s =
     cont (check_usr_buffer buffer len esp False s) (\<lambda>_ s.
       cont (pinning_for_system_call buffer len True s) (\<lambda>_ s.
         if n = 1 then do {
           (d, s) \<leftarrow> load_bytes buffer len s;
           cont (pinning_for_system_call buffer len False (s\<lparr>printed := printed s @ [Put_Buf d]\<rparr>)) (\<lambda>_. pure (s32 (int len))) }
         else cont (acquire_fs s) (\<lambda>_ s.
           case get_file_package_from_open_list n s of
             None \<Rightarrow> cont (release_fs s) (\<lambda>_ s. cont (pinning_for_system_call buffer len False s) (\<lambda>_. pure (-1)))
           | Some p \<Rightarrow> do {
               (d, s) \<leftarrow> load_bytes buffer len s;
               (k, fs) \<leftarrow> file_write_at (fp p) d (s32 (int len)) (s32 (int (position p))) (vm_fs (p_vm s));
               cont (pinning_for_system_call buffer len False (set_fs fs s)) (\<lambda>_ s.
                 let s = s\<lparr>open_files := set_position n (nat ((int (position p) + k) mod 2 ^ 32)) (open_files s)\<rparr> in
                 cont (release_fs s) (\<lambda>_. pure k)) })))"

definition LP_seek :: "int \<Rightarrow> nat \<Rightarrow> proc \<Rightarrow> unit act" where
  "LP_seek n pos s =
     cont (acquire_fs s) (\<lambda>_ s.
       if get_file_package_from_open_list n s = None then cont (release_fs s) (\<lambda>_. LP_exit (-1))
       else release_fs (s\<lparr>open_files := set_position n pos (open_files s)\<rparr>))"

definition LP_tell :: "int \<Rightarrow> proc \<Rightarrow> nat act" where
  "LP_tell n s =
     cont (acquire_fs s) (\<lambda>_ s.
       case get_file_package_from_open_list n s of
         None \<Rightarrow> cont (release_fs s) (\<lambda>_. LP_exit (-1))
       | Some p \<Rightarrow> cont (release_fs s) (\<lambda>_. pure (position p)))"

definition LP_close :: "int \<Rightarrow> proc \<Rightarrow> unit act" where
  "LP_close n s =
     cont (acquire_fs s) (\<lambda>_ s.
       case get_file_package_from_open_list n s of
         None \<Rightarrow> cont (release_fs s) (\<lambda>_. LP_exit (-1))
       | Some p \<Rightarrow> do {
           fs \<leftarrow> file_close (fp p) (vm_fs (p_vm s));
           release_fs ((set_fs fs s)\<lparr>open_files := remove_package n (open_files s)\<rparr>) })"

subsection \<open>Mapped files\<close>

fun mmap_free :: "ptr list \<Rightarrow> vm \<Rightarrow> bool option" where
  "mmap_free [] v = Some True"
| "mmap_free (page # ps) v =
     (if page = NULL then Some False
      else if \<not> is_user_vaddr page then Some False
      else do {
        p \<leftarrow> find_spte page (vm_cur v) v;
        if p \<noteq> NULL then Some False else mmap_free ps v })"

fun mmap_pages :: "ptr list \<Rightarrow> ptr \<Rightarrow> int \<Rightarrow> ptr \<Rightarrow> proc \<Rightarrow> unit act" where
  "mmap_pages [] addr sz f s = pure () s"
| "mmap_pages (page # ps) addr sz f s =
     (let rd = (if page + PGSIZE < addr + nat sz then PGSIZE else addr + nat sz - page) in
      cont (create_spte MMAPED_PAGE page True False f (int (page - addr)) rd (PGSIZE - rd) s) (\<lambda>p s.
        if p = NULL then None
        else cont (unlock_spte p s) (\<lambda>_ s. mmap_pages ps addr sz f s)))"

definition mmap :: "int \<Rightarrow> ptr \<Rightarrow> proc \<Rightarrow> int act" where
  "mmap n addr s =
     (if addr mod PGSIZE \<noteq> 0 then pure (-1) s
      else if n = 0 \<or> n = 1 then pure (-1) s
      else cont (acquire_fs s) (\<lambda>_ s.
        let f = get_file_from_open_list n s in
        if f = NULL then cont (release_fs s) (\<lambda>_. pure (-1))
        else do {
          sz \<leftarrow> file_length f (vm_fs (p_vm s));
          cont (release_fs s) (\<lambda>_ s. do {
            ok \<leftarrow> mmap_free (page_addrs addr sz) (p_vm s);
            if \<not> ok then pure (-1) s
            else do {
              let (q, v) = vm_new (p_vm s);
              let s = s\<lparr>p_vm := v\<rparr>;
              if q = NULL then LP_exit (-1) s
              else cont (acquire_fs s) (\<lambda>_ s. do {
                (f', fs) \<leftarrow> file_reopen f (vm_fs (p_vm s));
                cont (release_fs (set_fs fs s)) (\<lambda>_ s.
                  if f' = NULL then pure (-1) s
                  else
                    (let s = s\<lparr>mmapped_files := mmapped_files s @ [\<lparr>mm_fp = f', mm_vaddr = addr, mm_mapping = mapid_counter s\<rparr>]\<rparr> in
                     cont (mmap_pages (page_addrs addr sz) addr sz f' s) (\<lambda>_ s.
                       pure (mapid_counter s) (s\<lparr>mapid_counter := s32 (mapid_counter s + 1)\<rparr>)))) }) } }) }))"

fun remove_mapping :: "int \<Rightarrow> mmap_state list \<Rightarrow> mmap_state list" where
  "remove_mapping k [] = []"
| "remove_mapping k (m # ms) = (if mm_mapping m = k then ms else m # remove_mapping k ms)"

definition munmap :: "int \<Rightarrow> proc \<Rightarrow> unit act" where
  "munmap mapping s = (case find (\<lambda>m. mm_mapping m = mapping) (mmapped_files s) of
     None \<Rightarrow> pure () s
   | Some mm \<Rightarrow> cont (acquire_fs s) (\<lambda>_ s. do {
       sz \<leftarrow> file_length (mm_fp mm) (vm_fs (p_vm s));
       cont (release_fs s) (\<lambda>_ s.
         cont (pinning_for_system_call (mm_vaddr mm) (nat (sz mod 2 ^ 32)) True s) (\<lambda>_ s. do {
           v \<leftarrow> munmap_state mm (vm_cur (p_vm s)) (p_vm s);
           pure () (s\<lparr>p_vm := v, mmapped_files := remove_mapping mapping (mmapped_files s)\<rparr>) })) }))"

subsection \<open>Directories\<close>

definition chdir :: "ptr \<Rightarrow> bool" where "chdir dir = False"

definition mkdir :: "ptr \<Rightarrow> bool" where "mkdir dir = False"

definition readdir :: "int \<Rightarrow> ptr \<Rightarrow> bool" where "readdir n name = False"

definition isdir :: "int \<Rightarrow> bool" where "isdir n = False"

definition inumber :: "int \<Rightarrow> proc \<Rightarrow> int act" where
  "inumber n s =
     (let f = get_file_from_open_list n s in
      if f = NULL then pure (-1) s
      else do {
        g \<leftarrow> files (vm_fs (p_vm s)) f;
        i \<leftarrow> inodes (vm_fs (p_vm s)) (f_inode g);
        pure (int (i_sector i)) s })"

subsection \<open>Dispatch\<close>

datatype syscall_nr = SYS_HALT | SYS_EXIT | SYS_EXEC | SYS_WAIT | SYS_CREATE | SYS_REMOVE | SYS_OPEN | SYS_FILESIZE
  | SYS_READ | SYS_WRITE | SYS_SEEK | SYS_TELL | SYS_CLOSE | SYS_MMAP | SYS_MUNMAP | SYS_CHDIR | SYS_MKDIR | SYS_READDIR
  | SYS_ISDIR | SYS_INUMBER

definition syscall_of :: "nat \<Rightarrow> syscall_nr option" where
  "syscall_of n = (let t = [SYS_HALT, SYS_EXIT, SYS_EXEC, SYS_WAIT, SYS_CREATE, SYS_REMOVE, SYS_OPEN, SYS_FILESIZE,
     SYS_READ, SYS_WRITE, SYS_SEEK, SYS_TELL, SYS_CLOSE, SYS_MMAP, SYS_MUNMAP, SYS_CHDIR, SYS_MKDIR, SYS_READDIR,
     SYS_ISDIR, SYS_INUMBER] in if n < length t then Some (t ! n) else None)"

definition one_arg :: "ptr \<Rightarrow> (u32 \<Rightarrow> proc \<Rightarrow> 'a act) \<Rightarrow> proc \<Rightarrow> 'a act" where
  "one_arg esp f s = cont (read_frame esp 4 s) f"

definition two_args :: "ptr \<Rightarrow> (u32 \<Rightarrow> u32 \<Rightarrow> proc \<Rightarrow> 'a act) \<Rightarrow> proc \<Rightarrow> 'a act" where
  "two_args esp f s = cont (read_frame esp 4 s) (\<lambda>a s. cont (read_frame esp 8 s) (f a))"

definition three_args :: "ptr \<Rightarrow> (u32 \<Rightarrow> u32 \<Rightarrow> u32 \<Rightarrow> proc \<Rightarrow> 'a act) \<Rightarrow> proc \<Rightarrow> 'a act" where
  "three_args esp f s = cont (read_frame esp 4 s) (\<lambda>a s. cont (read_frame esp 8 s) (\<lambda>b s. cont (read_frame esp 12 s) (f a b)))"

text \<open>A call returns its value in \<open>eax\<close>, which it leaves alone when it returns nothing.\<close>

definition result :: "('a \<Rightarrow> u32) \<Rightarrow> 'a act \<Rightarrow> u32 act" where
  "result f r = cont r (\<lambda>x. pure (f x))"

definition syscall_handler :: "others \<Rightarrow> ptr \<Rightarrow> u32 \<Rightarrow> proc \<Rightarrow> u32 act" where
  "syscall_handler o' esp eax s = cont (read_frame esp 0 s) (\<lambda>n s. case syscall_of (unat n) of
     None \<Rightarrow> LP_exit (-1) s
   | Some SYS_HALT \<Rightarrow> LP_halt s
   | Some SYS_EXIT \<Rightarrow> one_arg esp (\<lambda>a. LP_exit (sint a)) s
   | Some SYS_EXEC \<Rightarrow> one_arg esp (\<lambda>a s. result u32_of (LP_exec o' (unat a) esp s)) s
   | Some SYS_WAIT \<Rightarrow> one_arg esp (\<lambda>a s. result u32_of (LP_wait o' (sint a) s)) s
   | Some SYS_CREATE \<Rightarrow> two_args esp (\<lambda>a b s. result u32_of_bool (LP_create o' (unat a) (unat b) esp s)) s
   | Some SYS_REMOVE \<Rightarrow> one_arg esp (\<lambda>a s. result u32_of_bool (LP_remove (unat a) esp s)) s
   | Some SYS_OPEN \<Rightarrow> one_arg esp (\<lambda>a s. result u32_of (LP_open (unat a) esp s)) s
   | Some SYS_FILESIZE \<Rightarrow> one_arg esp (\<lambda>a s. result u32_of (LP_filesize (sint a) s)) s
   | Some SYS_READ \<Rightarrow> three_args esp (\<lambda>a b c s. result u32_of (LP_read (sint a) (unat b) (unat c) esp s)) s
   | Some SYS_WRITE \<Rightarrow> three_args esp (\<lambda>a b c s. result u32_of (LP_write (sint a) (unat b) (unat c) esp s)) s
   | Some SYS_SEEK \<Rightarrow> two_args esp (\<lambda>a b s. result (\<lambda>_. eax) (LP_seek (sint a) (unat b) s)) s
   | Some SYS_TELL \<Rightarrow> one_arg esp (\<lambda>a s. result of_nat (LP_tell (sint a) s)) s
   | Some SYS_CLOSE \<Rightarrow> one_arg esp (\<lambda>a s. result (\<lambda>_. eax) (LP_close (sint a) s)) s
   | Some SYS_MMAP \<Rightarrow> two_args esp (\<lambda>a b s. result u32_of (mmap (sint a) (unat b) s)) s
   | Some SYS_MUNMAP \<Rightarrow> one_arg esp (\<lambda>a s. result (\<lambda>_. eax) (munmap (sint a) s)) s
   | Some SYS_CHDIR \<Rightarrow> one_arg esp (\<lambda>a. pure (u32_of_bool (chdir (unat a)))) s
   | Some SYS_MKDIR \<Rightarrow> one_arg esp (\<lambda>a. pure (u32_of_bool (mkdir (unat a)))) s
   | Some SYS_READDIR \<Rightarrow> two_args esp (\<lambda>a b. pure (u32_of_bool (readdir (sint a) (unat b)))) s
   | Some SYS_ISDIR \<Rightarrow> one_arg esp (\<lambda>a. pure (u32_of_bool (isdir (sint a)))) s
   | Some SYS_INUMBER \<Rightarrow> one_arg esp (\<lambda>a s. result u32_of (inumber (sint a) s)) s)"

end
