(* ===== verification/Syscall_Files.thy ===== *)
theory Syscall_Files
  imports Syscall
begin

text \<open>
  The table of open files of a process under system calls: descriptors stay distinct, and reading through the table agrees
  with a map from descriptors to files.
\<close>

section \<open>Handlers that keep a predicate\<close>

definition keeps :: "(proc \<Rightarrow> bool) \<Rightarrow> 'a act \<Rightarrow> bool" where
  "keeps P r \<longleftrightarrow> (\<forall>y. r = Some y \<longrightarrow> (case y of Inl s \<Rightarrow> P s | Inr z \<Rightarrow> P (snd z)))"

lemma keeps_cont':
  assumes "keeps P r" "\<And>x s. r = Some (Inr (x, s)) \<Longrightarrow> P s \<Longrightarrow> keeps P (f x s)"
  shows "keeps P (cont r f)"
proof (cases r)
  case (Some y)
  show ?thesis
  proof (cases y)
    case (Inr z)
    then have "P (snd z)" using assms(1) Some by (simp add: keeps_def)
    then show ?thesis using assms(2) [of "fst z" "snd z"] Some Inr by (simp add: cont_def)
  qed (use assms(1) Some in \<open>simp add: keeps_def cont_def\<close>)
qed (simp add: keeps_def cont_def)

lemma keeps_cont: "keeps P r \<Longrightarrow> (\<And>x s. P s \<Longrightarrow> keeps P (f x s)) \<Longrightarrow> keeps P (cont r f)"
  by (rule keeps_cont')

lemma keeps_cont2:
  assumes "keeps P r" "\<And>s. P s \<Longrightarrow> Q s" "\<And>x s. P s \<Longrightarrow> keeps Q (f x s)"
  shows "keeps Q (cont r f)"
proof (cases r)
  case (Some y)
  show ?thesis
  proof (cases y)
    case (Inr z)
    then have "P (snd z)" using assms(1) Some by (simp add: keeps_def)
    then show ?thesis using assms(3) [of "snd z" "fst z"] Some Inr by (simp add: cont_def)
  qed (use assms(1,2) Some in \<open>simp add: keeps_def cont_def\<close>)
qed (simp add: keeps_def cont_def)

lemma keeps_bind: "(\<And>x. r = Some x \<Longrightarrow> keeps P (f x)) \<Longrightarrow> keeps P (r \<bind> f)"
  by (cases r) (auto simp: keeps_def)

lemma keeps_pure: "P s \<Longrightarrow> keeps P (pure x s)"
  by (simp add: keeps_def pure_def)

lemma keeps_None: "keeps P None"
  by (simp add: keeps_def)

lemma keeps_if: "(b \<Longrightarrow> keeps P x) \<Longrightarrow> (\<not> b \<Longrightarrow> keeps P y) \<Longrightarrow> keeps P (if b then x else y)"
  by simp

lemma keeps_prod: "(\<And>a b. z = (a, b) \<Longrightarrow> keeps P (f a b)) \<Longrightarrow> keeps P (case z of (a, b) \<Rightarrow> f a b)"
  by (cases z) simp

lemma keeps_pair: "keeps P (f a b) \<Longrightarrow> keeps P (case (a, b) of (x, y) \<Rightarrow> f x y)"
  by simp

lemma keeps_prod_app: "(\<And>x y. keeps P (f x y s)) \<Longrightarrow> keeps P ((case z of (x, y) \<Rightarrow> f x y) s)"
  by (cases z) simp

lemma keeps_option: "(x = None \<Longrightarrow> keeps P a) \<Longrightarrow> (\<And>y. x = Some y \<Longrightarrow> keeps P (f y)) \<Longrightarrow> keeps P (case x of None \<Rightarrow> a | Some y \<Rightarrow> f y)"
  by (cases x) simp_all

lemma keeps_let: "keeps P (f x) \<Longrightarrow> keeps P (let y = x in f y)"
  by simp

lemma keeps_result: "keeps P r \<Longrightarrow> keeps P (result f r)"
  unfolding result_def by (intro keeps_cont keeps_pure)

text \<open>A predicate on the table of open files alone.\<close>

locale file_table_pred =
  fixes P :: "proc \<Rightarrow> bool"
  assumes other: "P s \<Longrightarrow> open_files s' = open_files s \<Longrightarrow> fd_counter s' = fd_counter s \<Longrightarrow> P s'"
begin

lemma P_vm: "P s \<Longrightarrow> P (s\<lparr>p_vm := v\<rparr>)"
  by (erule other) simp_all

lemma P_exit: "P s \<Longrightarrow> P (s\<lparr>p_vm := v, printed := out\<rparr>)"
  by (erule other) simp_all

lemma in_vm: "P s \<Longrightarrow> keeps P (in_vm r s)"
proof (cases r)
  case (Some a)
  assume "P s"
  then show ?thesis using Some by (cases a) (auto simp: keeps_def in_vm_def P_vm P_exit)
qed (simp add: keeps_def in_vm_def)

lemma step_vm: "P s \<Longrightarrow> keeps P (step_vm r s)"
  by (cases r) (auto simp: keeps_def step_vm_def P_vm)

lemma LP_exit: "P s \<Longrightarrow> keeps P (LP_exit n s)"
  unfolding LP_exit_def by (intro keeps_bind) (simp add: Let_def keeps_def P_exit)

lemma LP_halt: "P s \<Longrightarrow> keeps P (LP_halt s)"
  by (auto simp: LP_halt_def keeps_def elim: other)

lemma kernel_access: "P s \<Longrightarrow> kernel_access w va s = Some (k, s') \<Longrightarrow> P s'"
  by (auto simp: kernel_access_def Let_def P_vm split: if_splits elim!: bind_eq_SomeE)

lemma load_byte: "P s \<Longrightarrow> load_byte va s = Some (b, s') \<Longrightarrow> P s'"
  using kernel_access by (auto simp: load_byte_def elim!: bind_eq_SomeE)

lemma store_byte: "P s \<Longrightarrow> store_byte va b s = Some s' \<Longrightarrow> P s'"
  using kernel_access P_vm by (auto simp: store_byte_def elim!: bind_eq_SomeE)

lemma load_bytes: "P s \<Longrightarrow> load_bytes va n s = Some (bs, s') \<Longrightarrow> P s'"
  by (induction n arbitrary: va s bs) (auto elim!: bind_eq_SomeE dest: load_byte [rotated])

lemma store_bytes: "P s \<Longrightarrow> store_bytes va bs s = Some s' \<Longrightarrow> P s'"
  by (induction bs arbitrary: va s) (auto elim!: bind_eq_SomeE dest: store_byte [rotated])

lemma input_loop: "P s \<Longrightarrow> input_loop va n s = Some s' \<Longrightarrow> P s'"
proof (induction n arbitrary: va s)
  case (Suc n)
  then obtain k ks s1 where s1: "keys s = k # ks" "store_byte va k (s\<lparr>keys := ks\<rparr>) = Some s1" "input_loop ((va + 1) mod 2 ^ 32) n s1 = Some s'"
    by (auto split: list.splits elim!: bind_eq_SomeE)
  have "P (s\<lparr>keys := ks\<rparr>)" using Suc.prems(1) by (rule other) simp_all
  then show ?case using Suc.IH s1(2,3) store_byte by blast
qed simp

lemma load_string:
  assumes "load_string va s = Some y"
  shows "P s \<longrightarrow> P (snd y)"
proof (rule load_string.raw_induct [where P = "\<lambda>va s y. P s \<longrightarrow> P (snd y)", OF _ assms], goal_cases)
  case (1 f va s y)
  then obtain b s1 where b: "load_byte va s = Some (b, s1)" by (auto elim!: bind_eq_SomeE)
  then show ?case using 1 load_byte [of s va b s1] by (fastforce split: if_splits elim!: bind_eq_SomeE)
qed

lemma user_strnlen: "P s \<Longrightarrow> user_strnlen va n s = Some (k, s') \<Longrightarrow> P s'"
proof (induction n arbitrary: va s k)
  case 0
  then show ?case using load_byte by (auto elim!: bind_eq_SomeE)
next
  case (Suc n)
  then obtain b s1 where b: "load_byte va s = Some (b, s1)" by (auto elim!: bind_eq_SomeE)
  then have "P s1" using Suc.prems(1) load_byte by blast
  then show ?case using Suc b by (fastforce split: if_splits elim!: bind_eq_SomeE)
qed

lemma process_execute: "P s \<Longrightarrow> process_execute tid args s = Some (r, s') \<Longrightarrow> P s'"
proof -
  assume s: "P s" and run: "process_execute tid args s = Some (r, s')"
  then obtain n s1 where n: "user_strnlen args (PGSIZE - 4 * 2) s = Some (n, s1)" by (auto simp: process_execute_def Let_def elim!: bind_eq_SomeE)
  then have s1: "P s1" using user_strnlen s by blast
  then show ?thesis using run n load_string P_vm
    by (fastforce simp: process_execute_def Let_def split: if_splits elim!: bind_eq_SomeE)
qed

lemma check_usr_ptr: "P s \<Longrightarrow> keeps P (check_usr_ptr p esp s)"
  unfolding check_usr_ptr_def by (intro keeps_if keeps_bind keeps_cont LP_exit in_vm keeps_pure)

lemma check_usr_string: "P s \<Longrightarrow> keeps P (check_usr_string str esp s)"
proof (induction str esp s rule: check_usr_string.induct)
  case (1 str esp s)
  show ?case unfolding check_usr_string.simps [of str]
  proof (intro keeps_cont' keeps_bind check_usr_ptr)
    fix x s1 z assume s1: "check_usr_ptr str esp s = Some (Inr (x, s1))" "P s1" "load_byte str s1 = Some z"
    obtain b s2 where "z = (b, s2)" by (cases z)
    then show "keeps P (case z of (b, s) \<Rightarrow> if b = 0 then pure () s else check_usr_string (str + 1) esp s)"
      using "1.IH" [OF s1(1,3)] load_byte [OF s1(2)] s1(3) by (auto intro: keeps_pure)
  qed (rule "1.prems")
qed

lemma check_buffer_loop: "P s \<Longrightarrow> keeps P (check_buffer_loop ofs buffer len esp s)"
proof (induction ofs buffer len esp s rule: check_buffer_loop.induct)
  case (1 ofs buffer len esp s)
  show ?case unfolding check_buffer_loop.simps [of ofs]
    by (intro keeps_if keeps_cont' keeps_bind keeps_pure check_usr_ptr LP_exit "1.IH") (use "1.prems" in auto)
qed

lemma check_usr_buffer: "P s \<Longrightarrow> keeps P (check_usr_buffer buffer len esp w s)"
  unfolding check_usr_buffer_def
  by (intro keeps_cont keeps_bind keeps_if LP_exit keeps_pure check_usr_ptr check_buffer_loop)

lemma read_frame: "P s \<Longrightarrow> keeps P (read_frame esp ofs s)"
proof -
  assume s: "P s"
  show ?thesis unfolding read_frame_def Let_def
  proof (intro keeps_cont check_usr_ptr keeps_bind)
    fix s1 z assume "P s1" "load_bytes ((esp + ofs) mod 2 ^ 32) 4 s1 = Some z"
    then show "keeps P (case z of (bs, s) \<Rightarrow> pure (word_of_nat (of_le32 bs)) s)"
      by (cases z) (auto intro: keeps_pure load_bytes)
  qed (rule s)
qed

lemma pin_or_unpin: "P s \<Longrightarrow> keeps P (pin_or_unpin b page s)"
  unfolding pin_or_unpin_def by (intro keeps_if in_vm step_vm)

lemma pinning_loop: "P s \<Longrightarrow> keeps P (pinning_loop a page len b s)"
proof (induction a page len b s rule: pinning_loop.induct)
  case (1 a page len b s)
  show ?case unfolding pinning_loop.simps [of a] Let_def
    by (intro keeps_if keeps_cont' keeps_pure pin_or_unpin "1.IH" [OF _ refl refl]) (use "1.prems" in auto)
qed

lemma pinning: "P s \<Longrightarrow> keeps P (pinning_for_system_call start len b s)"
proof -
  assume s: "P s"
  show ?thesis unfolding pinning_for_system_call_def Let_def
    by (intro keeps_cont pin_or_unpin pinning_loop) (use s in \<open>auto intro!: pin_or_unpin keeps_pure\<close>)
qed

lemma string_pages:
  assumes "string_pages b str page n s = Some y"
  shows "P s \<longrightarrow> keeps P (Some y)"
proof (rule string_pages.raw_induct [where P = "\<lambda>b str page n s y. P s \<longrightarrow> keeps P (Some y)", OF _ assms], goal_cases)
  case (1 f b str page n s y)
  show ?case
  proof
    assume s: "P s"
    have "keeps P (cont (if pg_round_down str \<noteq> page then pinning_for_system_call (pg_round_down str) 0 b s else pure () s) (\<lambda>_ s.
        Option.bind (load_byte str s) (\<lambda>z.
          if fst z = 0 then pure n (snd z)
          else f b ((str + 1) mod 2 ^ 32) (pg_round_down str) (n + 1) (snd z))))"
    proof (intro keeps_cont keeps_if keeps_bind pinning)
      fix x s1 z assume "P s1" "load_byte str s1 = Some z"
      then have z: "P (snd z)" using load_byte [of s1 str "fst z" "snd z"] by simp
      then show "keeps P (pure n (snd z))" by (rule keeps_pure)
      show "keeps P (f b ((str + 1) mod 2 ^ 32) (pg_round_down str) (n + 1) (snd z))"
        using 1(1) z by (cases "f b ((str + 1) mod 2 ^ 32) (pg_round_down str) (n + 1) (snd z)") (auto simp: keeps_None)
    qed (auto intro: s keeps_pure)
    then show "keeps P (Some y)" using 1(2) by (simp add: Let_def)
  qed
qed

lemma string_pages_keeps: "P s \<Longrightarrow> keeps P (string_pages b str page n s)"
  using string_pages by (cases "string_pages b str page n s") (auto simp: keeps_None)

lemma check_file_name_length: "P s \<Longrightarrow> keeps P (check_file_name_length name s)"
  unfolding check_file_name_length_def by (intro keeps_cont keeps_if string_pages_keeps keeps_pure)

lemma fs: "P s \<Longrightarrow> P (set_fs f s)"
  by (simp add: set_fs_def P_vm)

lemma acquire_fs: "P s \<Longrightarrow> keeps P (acquire_fs s)"
  by (simp add: acquire_fs_def step_vm)

lemma release_fs: "P s \<Longrightarrow> keeps P (release_fs s)"
  by (simp add: release_fs_def step_vm)

lemma create_spte: "P s \<Longrightarrow> keeps P (create_spte l page w ld f ofs rd zero s)"
  by (simp add: create_spte_def in_vm)

lemma unlock_spte: "P s \<Longrightarrow> keeps P (unlock_spte p s)"
  by (simp add: unlock_spte_def step_vm)

lemma strlen_pin: "P s \<Longrightarrow> keeps P (strlen_pin str s)"
  by (simp add: strlen_pin_def string_pages_keeps)

text \<open>Steps that return a new state of the process.\<close>

lemma load_string_bind: "P s \<Longrightarrow> (\<And>bs s'. P s' \<Longrightarrow> keeps P (f (bs, s'))) \<Longrightarrow> keeps P (load_string va s \<bind> f)"
proof (intro keeps_bind)
  fix z assume "P s" "\<And>bs s'. P s' \<Longrightarrow> keeps P (f (bs, s'))" "load_string va s = Some z"
  then show "keeps P (f z)" using load_string by (cases z) fastforce
qed

lemma load_bytes_bind: "P s \<Longrightarrow> (\<And>bs s'. P s' \<Longrightarrow> keeps P (f (bs, s'))) \<Longrightarrow> keeps P (load_bytes va n s \<bind> f)"
  using load_bytes by (intro keeps_bind) auto

lemma store_bytes_bind: "P s \<Longrightarrow> (\<And>s'. P s' \<Longrightarrow> keeps P (f s')) \<Longrightarrow> keeps P (store_bytes va bs s \<bind> f)"
  using store_bytes by (intro keeps_bind) auto

lemma input_bind: "P s \<Longrightarrow> (\<And>s'. P s' \<Longrightarrow> keeps P (f s')) \<Longrightarrow> keeps P (input_loop va n s \<bind> f)"
  using input_loop by (intro keeps_bind) auto

lemma execute_bind: "P s \<Longrightarrow> (\<And>r s'. P s' \<Longrightarrow> keeps P (f (r, s'))) \<Longrightarrow> keeps P (process_execute t a s \<bind> f)"
  using process_execute by (intro keeps_bind) auto

lemmas steps = load_string_bind load_bytes_bind store_bytes_bind input_bind execute_bind strlen_pin fs P_vm
  keeps_pair keeps_prod keeps_prod_app keeps_option keeps_let keeps_result

lemmas basic = keeps_cont keeps_bind keeps_if keeps_pure keeps_None LP_exit LP_halt acquire_fs release_fs pinning
  check_usr_string check_usr_buffer check_file_name_length string_pages_keeps create_spte unlock_spte

lemma mmap_pages: "P s \<Longrightarrow> keeps P (mmap_pages ps addr sz f s)"
proof (induction ps arbitrary: s)
  case (Cons page ps)
  show ?case unfolding mmap_pages.simps Let_def by (intro basic Cons.IH) (rule Cons.prems)
qed (simp add: keeps_pure)

end

section \<open>Descriptors\<close>

definition fds_ok :: "proc \<Rightarrow> bool" where
  "fds_ok s \<longleftrightarrow> distinct (map fd (open_files s)) \<and> (\<forall>p \<in> set (open_files s). 2 \<le> fd p \<and> fd p < fd_counter s) \<and> 2 \<le> fd_counter s"

interpretation fds: file_table_pred fds_ok
  by unfold_locales (simp add: fds_ok_def)

interpretation fds_at: file_table_pred "\<lambda>s. fds_ok s \<and> fd_counter s = c" for c
  by unfold_locales (auto simp: fds_ok_def)

lemma fd_set_position [simp]: "map fd (set_position n pos ps) = map fd ps"
  by (induction ps) auto

lemma fds_ok_fds: "fds_ok s \<longleftrightarrow> distinct (map fd (open_files s)) \<and> (\<forall>x \<in> set (map fd (open_files s)). 2 \<le> x \<and> x < fd_counter s) \<and> 2 \<le> fd_counter s"
  by (simp add: fds_ok_def)

lemma fds_ok_set_position: "fds_ok s \<Longrightarrow> fds_ok (s\<lparr>open_files := set_position n pos (open_files s)\<rparr>)"
  unfolding fds_ok_fds by simp

lemma set_remove_package: "set (remove_package n ps) \<subseteq> set ps"
  by (induction ps) auto

lemma fds_ok_remove: "fds_ok s \<Longrightarrow> open_files s' = remove_package n (open_files s) \<Longrightarrow> fd_counter s' = fd_counter s \<Longrightarrow> fds_ok s'"
proof -
  have "distinct (map fd ps) \<Longrightarrow> distinct (map fd (remove_package n ps))" for ps
    using set_remove_package by (induction ps) fastforce+
  then show "fds_ok s \<Longrightarrow> open_files s' = remove_package n (open_files s) \<Longrightarrow> fd_counter s' = fd_counter s \<Longrightarrow> fds_ok s'"
    using set_remove_package by (fastforce simp: fds_ok_def)
qed

lemma add_package_ok:
  assumes "fds_ok s" "fd_counter s < 2 ^ 31 - 1" "add_to_open_file_list f s = (n, s')"
  shows "fds_ok s'" "n = -1 \<and> open_files s' = open_files s \<or>
    n = fd_counter s \<and> open_files s' = open_files s @ [\<lparr>fd = n, position = 0, fp = f\<rparr>]"
proof -
  have inc: "s32 (fd_counter s + 1) = fd_counter s + 1" using assms(1,2) by (simp add: s32_def fds_ok_def)
  show "fds_ok s'" using assms(1,3) inc
    by (fastforce simp: add_to_open_file_list_def add_package_def vm_new_def fds_ok_def Let_def split: if_splits list.splits)
  show "n = -1 \<and> open_files s' = open_files s \<or>
    n = fd_counter s \<and> open_files s' = open_files s @ [\<lparr>fd = n, position = 0, fp = f\<rparr>]"
    using assms(3) by (auto simp: add_to_open_file_list_def add_package_def vm_new_def Let_def split: if_splits list.splits)
qed

lemma fds_printed: "fds_ok s \<Longrightarrow> fds_ok (s\<lparr>printed := out\<rparr>)"
  by (erule fds.other) simp_all

lemma fds_mapping:
  "fds_ok s \<Longrightarrow> fds_ok (s\<lparr>mmapped_files := ms\<rparr>)" "fds_ok s \<Longrightarrow> fds_ok (s\<lparr>mapid_counter := k\<rparr>)"
  "fds_ok s \<Longrightarrow> fds_ok (s\<lparr>p_vm := v, mmapped_files := ms\<rparr>)"
  by (erule fds.other; simp)+

lemma keeps_weaken: "keeps P r \<Longrightarrow> (\<And>s. P s \<Longrightarrow> Q s) \<Longrightarrow> keeps Q r"
  by (auto simp: keeps_def split: sum.splits)

text \<open>The system calls keep the table well formed.\<close>

lemma keeps_exec: "fds_ok s \<Longrightarrow> keeps fds_ok (LP_exec o' cmd esp s)"
  unfolding LP_exec_def by (assumption | rule fds.steps | rule fds.basic)+

lemma keeps_create: "fds_ok s \<Longrightarrow> keeps fds_ok (LP_create o' name sz esp s)"
  unfolding LP_create_def by (assumption | rule fds.steps | rule fds.basic)+

lemma keeps_remove: "fds_ok s \<Longrightarrow> keeps fds_ok (LP_remove name esp s)"
  unfolding LP_remove_def by (assumption | rule fds.steps | rule fds.basic)+

lemma keeps_filesize: "fds_ok s \<Longrightarrow> keeps fds_ok (LP_filesize n s)"
  unfolding LP_filesize_def by (assumption | rule fds.steps | rule fds.basic)+

lemma keeps_inumber: "fds_ok s \<Longrightarrow> keeps fds_ok (inumber n s)"
  unfolding inumber_def by (assumption | rule fds.steps | rule fds.basic)+

lemma keeps_seek: "fds_ok s \<Longrightarrow> keeps fds_ok (LP_seek n pos s)"
  unfolding LP_seek_def by (assumption | rule fds_ok_set_position | rule fds.steps | rule fds.basic)+

lemma keeps_tell: "fds_ok s \<Longrightarrow> keeps fds_ok (LP_tell n s)"
  unfolding LP_tell_def by (assumption | rule fds.steps | rule fds.basic)+

lemma keeps_read: "fds_ok s \<Longrightarrow> keeps fds_ok (LP_read n buffer len esp s)"
  unfolding LP_read_def by (assumption | rule fds_ok_set_position | rule fds.steps | rule fds.basic)+

lemma keeps_write: "fds_ok s \<Longrightarrow> keeps fds_ok (LP_write n buffer len esp s)"
  unfolding LP_write_def by (assumption | rule fds_ok_set_position fds_printed | rule fds.steps | rule fds.basic)+

lemma keeps_close: "fds_ok s \<Longrightarrow> keeps fds_ok (LP_close n s)"
  unfolding LP_close_def
proof (assumption | rule fds.acquire_fs keeps_cont keeps_option fds.LP_exit keeps_bind fds.release_fs)+
  fix s1 and fs :: filesys
  assume "fds_ok s1"
  then show "fds_ok ((set_fs fs s1)\<lparr>open_files := remove_package n (open_files s1)\<rparr>)"
    by (rule fds_ok_remove) (simp_all add: set_fs_def)
qed

lemma keeps_mmap: "fds_ok s \<Longrightarrow> keeps fds_ok (mmap n addr s)"
  unfolding mmap_def by (assumption | rule fds.mmap_pages fds_mapping | rule fds.steps | rule fds.basic)+

lemma keeps_munmap: "fds_ok s \<Longrightarrow> keeps fds_ok (munmap k s)"
  unfolding munmap_def by (assumption | rule fds_mapping | rule fds.steps | rule fds.basic)+

lemma keeps_open:
  assumes "fds_ok s" "fd_counter s < 2 ^ 31 - 1"
  shows "keeps fds_ok (LP_open name esp s)"
proof -
  let ?P = "\<lambda>t. fds_ok t \<and> fd_counter t = fd_counter s"
  have fin: "keeps fds_ok (let (n, s) = add_to_open_file_list f t in cont (release_fs s) (\<lambda>_. pure n))" if "?P t" for f t
    using add_package_ok(1) [of t f] that assms(2)
    by (cases "add_to_open_file_list f t") (auto intro!: keeps_cont fds.release_fs keeps_pure)
  have body: "keeps fds_ok (load_string name t \<bind> (\<lambda>(bs, s). filesys_open bs (vm_fs (p_vm s)) \<bind> (\<lambda>(f, fs).
      cont (pinning_for_system_call name (length bs) False (set_fs fs s)) (\<lambda>_ s.
        if f = NULL then cont (release_fs s) (\<lambda>_. pure (-1))
        else (let (n, s) = add_to_open_file_list f s in cont (release_fs s) (\<lambda>_. pure n))))))" if t: "?P t" for t
  proof (intro keeps_bind keeps_prod)
    fix y bs t1 z f fs
    assume y: "load_string name t = Some y" "y = (bs, t1)"
    then have t1: "?P t1" using fds_at.load_string [OF y(1), of "fd_counter s"] t by simp
    show "keeps fds_ok (cont (pinning_for_system_call name (length bs) False (set_fs fs t1)) (\<lambda>_ s.
        if f = NULL then cont (release_fs s) (\<lambda>_. pure (-1))
        else (let (n, s) = add_to_open_file_list f s in cont (release_fs s) (\<lambda>_. pure n))))"
    proof (rule keeps_cont2 [where P = ?P])
      show "keeps ?P (pinning_for_system_call name (length bs) False (set_fs fs t1))"
        using fds_at.pinning fds_at.fs t1 by blast
    qed (use fin in \<open>auto intro!: keeps_cont fds.release_fs keeps_pure\<close>)
  qed
  show ?thesis unfolding LP_open_def
    by (rule keeps_cont2 [where P = ?P] fds_at.check_usr_string fds_at.check_file_name_length fds_at.acquire_fs keeps_if keeps_pure
        body conjI | (use assms in simp; fail) | (erule conjunct1))+
qed

section \<open>The table as a map\<close>

definition fd_map :: "proc \<Rightarrow> int \<rightharpoonup> ptr \<times> nat" where
  "fd_map s n = map_option (\<lambda>p. (fp p, position p)) (get_file_package_from_open_list n s)"

lemma find_distinct:
  assumes "distinct (map fd ps)"
  shows "find (\<lambda>p. fd p = k) (remove_package n ps) = (if k = n then None else find (\<lambda>p. fd p = k) ps)"
    "map_option (\<lambda>p. (fp p, position p)) (find (\<lambda>p. fd p = k) (set_position n pos ps)) =
       (if k = n then map_option (\<lambda>p. (fp p, pos)) (find (\<lambda>p. fd p = k) ps) else map_option (\<lambda>p. (fp p, position p)) (find (\<lambda>p. fd p = k) ps))"
  using assms by (induction ps) (auto simp: find_None_iff image_iff)

lemma release_same: "release_fs s = Some (Inr (x, s')) \<Longrightarrow> open_files s' = open_files s"
  by (auto simp: release_fs_def step_vm_def)

lemma acquire_same: "acquire_fs s = Some (Inr (x, s')) \<Longrightarrow> open_files s' = open_files s"
  by (auto simp: acquire_fs_def step_vm_def)

lemma cont_InrE:
  assumes "cont r f = Some (Inr (x, s'))"
  obtains y s1 where "r = Some (Inr (y, s1))" "f y s1 = Some (Inr (x, s'))"
  using assms by (auto simp: cont_def split: sum.splits elim!: bind_eq_SomeE)

lemma LP_close_map:
  assumes "fds_ok s" "LP_close n s = Some (Inr (x, s'))"
  shows "fd_map s n \<noteq> None" "fd_map s' = (fd_map s)(n := None)"
proof -
  obtain y s1 where s1: "acquire_fs s = Some (Inr (y, s1))" "(case get_file_package_from_open_list n s1 of
      None \<Rightarrow> cont (release_fs s1) (\<lambda>_. LP_exit (-1))
    | Some p \<Rightarrow> do {
        fs \<leftarrow> file_close (fp p) (vm_fs (p_vm s1));
        release_fs ((set_fs fs s1)\<lparr>open_files := remove_package n (open_files s1)\<rparr>) }) = Some (Inr (x, s'))"
    using assms(2) unfolding LP_close_def by (rule cont_InrE)
  have same: "open_files s1 = open_files s" using s1(1) by (rule acquire_same)
  obtain p where p: "get_file_package_from_open_list n s1 = Some p"
    using s1(2) by (cases "get_file_package_from_open_list n s1") (auto simp: LP_exit_def elim!: cont_InrE bind_eq_SomeE)
  then obtain fs where "release_fs ((set_fs fs s1)\<lparr>open_files := remove_package n (open_files s1)\<rparr>) = Some (Inr (x, s'))"
    using s1(2) by (auto elim!: bind_eq_SomeE)
  then have files: "open_files s' = remove_package n (open_files s)" using release_same same by fastforce
  show "fd_map s n \<noteq> None" using p same by (simp add: fd_map_def get_file_package_from_open_list_def)
  have "distinct (map fd (open_files s))" using assms(1) by (simp add: fds_ok_def)
  then show "fd_map s' = (fd_map s)(n := None)"
    using find_distinct(1) files by (auto simp: fd_map_def get_file_package_from_open_list_def fun_eq_iff)
qed

lemma LP_seek_map:
  assumes "fds_ok s" "LP_seek n pos s = Some (Inr (x, s'))"
  shows "\<exists>f p. fd_map s n = Some (f, p) \<and> fd_map s' = (fd_map s)(n \<mapsto> (f, pos))"
proof -
  obtain y s1 where s1: "acquire_fs s = Some (Inr (y, s1))" "(if get_file_package_from_open_list n s1 = None
      then cont (release_fs s1) (\<lambda>_. LP_exit (-1))
      else release_fs (s1\<lparr>open_files := set_position n pos (open_files s1)\<rparr>)) = Some (Inr (x, s'))"
    using assms(2) unfolding LP_seek_def by (rule cont_InrE)
  have same: "open_files s1 = open_files s" using s1(1) by (rule acquire_same)
  obtain p where p: "get_file_package_from_open_list n s1 = Some p"
    using s1(2) by (cases "get_file_package_from_open_list n s1") (auto simp: LP_exit_def elim!: cont_InrE bind_eq_SomeE)
  then have "release_fs (s1\<lparr>open_files := set_position n pos (open_files s1)\<rparr>) = Some (Inr (x, s'))" using s1(2) by simp
  then have files: "open_files s' = set_position n pos (open_files s)" using release_same same by fastforce
  have at: "find (\<lambda>p. fd p = n) (open_files s) = Some p" using p same by (simp add: get_file_package_from_open_list_def)
  have "distinct (map fd (open_files s))" using assms(1) by (simp add: fds_ok_def)
  from find_distinct(2) [OF this, of _ n pos]
  have "fd_map s' = (fd_map s)(n \<mapsto> (fp p, pos))"
    using files at by (auto simp: fd_map_def get_file_package_from_open_list_def fun_eq_iff)
  then show ?thesis using at by (simp add: fd_map_def get_file_package_from_open_list_def)
qed

lemma add_map:
  assumes "fds_ok s" "fd_counter s < 2 ^ 31 - 1" "add_to_open_file_list f s = (n, s')" "n \<noteq> -1"
  shows "fd_map s n = None" "fd_map s' = (fd_map s)(n \<mapsto> (f, 0))"
proof -
  have n: "n = fd_counter s" "open_files s' = open_files s @ [\<lparr>fd = n, position = 0, fp = f\<rparr>]"
    using add_package_ok(2) [OF assms(1-3)] assms(4) by auto
  have new: "find (\<lambda>p. fd p = n) (open_files s) = None" using assms(1) n(1) by (auto simp: fds_ok_def find_None_iff)
  then show "fd_map s n = None" by (simp add: fd_map_def get_file_package_from_open_list_def)
  have "find P (xs @ [a]) = (case find P xs of None \<Rightarrow> if P a then Some a else None | Some y \<Rightarrow> Some y)" for P xs and a :: file_package
    by (induction xs) auto
  then show "fd_map s' = (fd_map s)(n \<mapsto> (f, 0))"
    using n(2) new by (auto simp: fd_map_def get_file_package_from_open_list_def fun_eq_iff split: option.splits)
qed

section \<open>Properties\<close>

definition sample_proc :: proc where
  "sample_proc = \<lparr>p_vm = sample_vm, open_files = [\<lparr>fd = 2, position = 5, fp = 32\<rparr>], fd_counter = 3, mmapped_files = [],
     mapid_counter = 0, is_running_user_program = True, printed = [], keys = [], halted = False\<rparr>"

lemma sample_proc_ok: "fds_ok sample_proc" "fd_counter sample_proc < 2 ^ 31 - 1"
  by (simp_all add: fds_ok_def sample_proc_def)

text \<open>C34. Whatever a process asks for, and whether the call returns or ends the process, the table of its open files stays
  well formed: the descriptors are different, at least 2, and below the counter of the next one; the counter is assumed not
  to have reached the largest \<open>int\<close>.\<close>

theorem syscall_fds:
  assumes "fds_ok s" "fd_counter s < 2 ^ 31 - 1" "syscall_handler o' esp eax s = Some r"
  shows "fds_ok (case r of Inl t \<Rightarrow> t | Inr z \<Rightarrow> snd z)"
proof -
  have open_arg: "keeps fds_ok (one_arg esp (\<lambda>a s. result u32_of (LP_open (unat a) esp s)) t)"
    if "fds_ok t" "fd_counter t = fd_counter s" for t
    unfolding one_arg_def using assms(2) that
    by (intro keeps_cont2 [where P = "\<lambda>u. fds_ok u \<and> fd_counter u = fd_counter s"] fds_at.read_frame keeps_result keeps_open) auto
  have args: "fds_ok t \<Longrightarrow> keeps fds_ok (one_arg esp f t)" if "\<And>a t. fds_ok t \<Longrightarrow> keeps fds_ok (f a t)" for f :: "u32 \<Rightarrow> proc \<Rightarrow> u32 act" and t
    unfolding one_arg_def by (intro keeps_cont fds.read_frame that)
  have args2: "fds_ok t \<Longrightarrow> keeps fds_ok (two_args esp f t)" if "\<And>a b t. fds_ok t \<Longrightarrow> keeps fds_ok (f a b t)" for f :: "u32 \<Rightarrow> u32 \<Rightarrow> proc \<Rightarrow> u32 act" and t
    unfolding two_args_def by (intro keeps_cont fds.read_frame that)
  have args3: "fds_ok t \<Longrightarrow> keeps fds_ok (three_args esp f t)" if "\<And>a b c t. fds_ok t \<Longrightarrow> keeps fds_ok (f a b c t)" for f :: "u32 \<Rightarrow> u32 \<Rightarrow> u32 \<Rightarrow> proc \<Rightarrow> u32 act" and t
    unfolding three_args_def by (intro keeps_cont fds.read_frame that)
  have wait: "fds_ok t \<Longrightarrow> keeps fds_ok (LP_wait o' k t)" for k t by (simp add: LP_wait_def keeps_pure)
  note calls = args args2 args3 keeps_result keeps_pure fds.LP_exit fds.LP_halt keeps_exec wait keeps_create keeps_remove keeps_filesize
    keeps_read keeps_write keeps_seek keeps_tell keeps_close keeps_mmap keeps_munmap keeps_inumber
  have "keeps fds_ok (syscall_handler o' esp eax s)" unfolding syscall_handler_def
  proof (rule keeps_cont2 [where P = "\<lambda>u. fds_ok u \<and> fd_counter u = fd_counter s"])
    show "keeps (\<lambda>u. fds_ok u \<and> fd_counter u = fd_counter s) (read_frame esp 0 s)" using assms(1) by (intro fds_at.read_frame) simp
  qed (auto split: option.splits syscall_nr.splits intro!: calls open_arg)
  then show ?thesis using assms(3) by (auto simp: keeps_def split: sum.splits)
qed

theorem syscall_fds_witness:
  "\<exists>r. syscall_handler \<lparr>new_tid = 1, child_loaded = True, wait_status = 0, stack_junk = []\<rparr> 0 7 sample_proc = Some r \<and>
     fds_ok (case r of Inl t \<Rightarrow> t | Inr z \<Rightarrow> snd z)"
proof -
  let ?o = "\<lparr>new_tid = 1, child_loaded = True, wait_status = 0, stack_junk = []\<rparr>"
  obtain r where r: "syscall_handler ?o 0 7 sample_proc = Some r"
    by (simp add: syscall_handler_def read_frame_def check_usr_ptr_def LP_exit_def cont_def sample_proc_def sample_vm_def Let_def)
  then show ?thesis using syscall_fds [OF sample_proc_ok r] by blast
qed

text \<open>C35. A table of open files is a map from descriptors to files and positions: a successful open adds a new descriptor
  at position 0, a close that returns removes exactly its descriptor, and a seek that returns changes exactly the position of
  its descriptor.\<close>

theorem fd_calls_refine:
  assumes "fds_ok s" "fd_counter s < 2 ^ 31 - 1"
  shows "(add_to_open_file_list f s = (n, s1) \<and> n \<noteq> -1 \<longrightarrow> fd_map s n = None \<and> fd_map s1 = (fd_map s)(n \<mapsto> (f, 0))) \<and>
    (LP_close m s = Some (Inr (x, s2)) \<longrightarrow> fd_map s m \<noteq> None \<and> fd_map s2 = (fd_map s)(m := None)) \<and>
    (LP_seek m pos s = Some (Inr (y, s3)) \<longrightarrow> (\<exists>g p. fd_map s m = Some (g, p) \<and> fd_map s3 = (fd_map s)(m \<mapsto> (g, pos))))"
  using add_map [OF assms] LP_close_map [OF assms(1)] LP_seek_map [OF assms(1)] by blast

theorem fd_calls_refine_witness:
  "\<exists>n s1. add_to_open_file_list 48 sample_proc = (n, s1) \<and> fd_map s1 = (fd_map sample_proc)(3 \<mapsto> (48, 0)) \<and>
     (\<exists>s3. LP_seek 2 9 sample_proc = Some (Inr ((), s3)) \<and> fd_map s3 2 = Some (32, 9))"
proof -
  obtain s1 where s1: "add_to_open_file_list 48 sample_proc = (3, s1)"
    by (simp add: add_to_open_file_list_def add_package_def sample_proc_def sample_vm_def vm_new_def)
  obtain s3 where s3: "LP_seek 2 9 sample_proc = Some (Inr ((), s3))"
    by (simp add: LP_seek_def cont_def acquire_fs_def release_fs_def step_vm_def lock_fs_def unlock_fs_def lock_take_def lock_drop_def
        sample_proc_def sample_vm_def get_file_package_from_open_list_def)
  have "fd_map sample_proc 2 = Some (32, 5)" by (simp add: fd_map_def get_file_package_from_open_list_def sample_proc_def)
  then show ?thesis
    using fd_calls_refine [OF sample_proc_ok, of 48 3 s1 2 _ _ 9 "()" s3] s1 s3 by auto
qed

end
