(* ===== verification/Vm_Tables.thy ===== *)
theory Vm_Tables
  imports Frame
begin

text \<open>
  Pinning, loading and evicting pages never changes the tables of pages: which entries a thread has and which page each
  entry is for.
\<close>

section \<open>Tables\<close>

definition tables :: "vm \<Rightarrow> ptr \<rightharpoonup> ptr hash" where
  "tables v t = map_option spte_table (uthreads v t)"

definition pids :: "vm \<Rightarrow> ptr \<rightharpoonup> ptr" where
  "pids v p = map_option page_id (sptes v p)"

definition same_tables :: "vm \<Rightarrow> vm \<Rightarrow> bool" where
  "same_tables v v' \<longleftrightarrow> vm_cur v' = vm_cur v \<and> tables v' = tables v \<and> pids v' = pids v"

lemma same_tables_refl [simp]: "same_tables v v"
  by (simp add: same_tables_def)

lemma same_tables_trans [trans]: "same_tables a b \<Longrightarrow> same_tables b c \<Longrightarrow> same_tables a c"
  by (simp add: same_tables_def)

text \<open>Looking up a page gives the same entry in states with the same tables.\<close>

lemma find_spte_same:
  assumes "same_tables v v'"
  shows "find_spte a t v' = find_spte a t v"
proof -
  have id: "page_id_of (h(NULL \<mapsto> e)) p = (if p = NULL then page_id e else (case map_option page_id (h p) of None \<Rightarrow> 0 | Some x \<Rightarrow> x))"
    for h :: "ptr \<rightharpoonup> spte" and e p
    by (auto simp: page_id_of_def split: option.splits)
  have same: "map_option page_id (sptes v' p) = map_option page_id (sptes v p)" for p
    using assms by (simp add: same_tables_def pids_def fun_eq_iff)
  have "hash_func ((sptes v')(NULL \<mapsto> e)) = hash_func ((sptes v)(NULL \<mapsto> e))"
    "less_func ((sptes v')(NULL \<mapsto> e)) = less_func ((sptes v)(NULL \<mapsto> e))" for e
    by (simp_all add: hash_func_def less_func_def id same fun_eq_iff)
  moreover have "map_option spte_table (uthreads v' t) = map_option spte_table (uthreads v t)"
    using assms by (simp add: same_tables_def tables_def fun_eq_iff)
  ultimately show ?thesis
    by (cases "uthreads v t"; cases "uthreads v' t") (simp_all add: find_spte_def Let_def)
qed

lemma same_tables_upd [simp]:
  "same_tables v (v\<lparr>vm_m := m\<rparr>)" "same_tables v (v\<lparr>vm_swap := sw\<rparr>)" "same_tables v (v\<lparr>vm_fs := fs\<rparr>)"
  "same_tables v (v\<lparr>file_system_lock := l\<rparr>)" "same_tables v (v\<lparr>frame_table := ft\<rparr>)" "same_tables v (v\<lparr>frame_evict_lock := l\<rparr>)"
  "same_tables v (v\<lparr>clock_hand := c\<rparr>)" "same_tables v (set_mem mm v)" "same_tables v (set_frame i f v)"
  "same_tables v (set_mem mm (v\<lparr>vm_swap := sw\<rparr>))" "same_tables v (set_mem mm (v\<lparr>vm_fs := fs\<rparr>))"
  by (simp_all add: same_tables_def tables_def pids_def set_mem_def set_frame_def fun_eq_iff)

lemma same_tables_spte: "pids v p = Some (page_id e) \<Longrightarrow> same_tables v (set_spte p e v)"
  by (auto simp: same_tables_def tables_def pids_def set_spte_def fun_eq_iff)

lemma same_tables_uthread:
  "uthreads v t = Some u \<Longrightarrow> spte_table u' = spte_table u \<Longrightarrow> same_tables v (v\<lparr>uthreads := (uthreads v)(t \<mapsto> u')\<rparr>)"
  by (auto simp: same_tables_def tables_def pids_def fun_eq_iff)

lemma pids_Some: "sptes v p = Some e \<Longrightarrow> pids v p = Some (page_id e)"
  by (simp add: pids_def)

section \<open>Operations on pages\<close>

lemma lock_page_tables: "lock_page p v = Some v' \<Longrightarrow> same_tables v v'"
  by (auto simp: lock_page_def lock_take_def pids_Some split: if_splits elim!: bind_eq_SomeE intro!: same_tables_spte)

lemma unlock_page_tables: "unlock_page p v = Some v' \<Longrightarrow> same_tables v v'"
  by (auto simp: unlock_page_def lock_drop_def pids_Some split: if_splits elim!: bind_eq_SomeE intro!: same_tables_spte)

lemma lock_frame_tables: "lock_frame i v = Some v' \<Longrightarrow> same_tables v v'"
  by (auto simp: lock_frame_def lock_take_def split: if_splits elim!: bind_eq_SomeE)

lemma unlock_frame_tables: "unlock_frame i v = Some v' \<Longrightarrow> same_tables v v'"
  by (auto simp: unlock_frame_def lock_drop_def split: if_splits elim!: bind_eq_SomeE)

lemma lock_pagedir_tables: "lock_pagedir t v = Some v' \<Longrightarrow> same_tables v v'"
  by (auto simp: lock_pagedir_def lock_take_def split: if_splits elim!: bind_eq_SomeE intro!: same_tables_uthread)

lemma unlock_pagedir_tables: "unlock_pagedir t v = Some v' \<Longrightarrow> same_tables v v'"
  by (auto simp: unlock_pagedir_def lock_drop_def split: if_splits elim!: bind_eq_SomeE intro!: same_tables_uthread)

lemma lock_fs_tables: "lock_fs v = Some v' \<Longrightarrow> same_tables v v'"
  by (auto simp: lock_fs_def lock_take_def split: if_splits elim!: bind_eq_SomeE)

lemma unlock_fs_tables: "unlock_fs v = Some v' \<Longrightarrow> same_tables v v'"
  by (auto simp: unlock_fs_def lock_drop_def split: if_splits elim!: bind_eq_SomeE)

lemma fail_thread_tables: "fail_thread v = Some v' \<Longrightarrow> same_tables v v'"
  by (auto simp: fail_thread_def elim!: bind_eq_SomeE intro!: same_tables_uthread)

lemmas lock_tables = lock_page_tables unlock_page_tables lock_frame_tables unlock_frame_tables lock_pagedir_tables
  unlock_pagedir_tables lock_fs_tables unlock_fs_tables fail_thread_tables

lemma tables_upd [simp]:
  "tables (v\<lparr>vm_m := m\<rparr>) = tables v" "tables (v\<lparr>vm_swap := sw\<rparr>) = tables v" "tables (v\<lparr>vm_fs := fs\<rparr>) = tables v"
  "tables (v\<lparr>frame_table := ft\<rparr>) = tables v" "tables (set_mem mm v) = tables v" "tables (set_frame i f v) = tables v"
  "tables (set_spte p e v) = tables v" "tables (v\<lparr>frame_evict_lock := l\<rparr>) = tables v" "tables (v\<lparr>clock_hand := c\<rparr>) = tables v"
  by (simp_all add: tables_def set_mem_def set_frame_def set_spte_def fun_eq_iff)

lemma pids_upd [simp]:
  "pids (v\<lparr>vm_m := m\<rparr>) = pids v" "pids (v\<lparr>vm_swap := sw\<rparr>) = pids v" "pids (v\<lparr>vm_fs := fs\<rparr>) = pids v"
  "pids (v\<lparr>frame_table := ft\<rparr>) = pids v" "pids (set_mem mm v) = pids v" "pids (set_frame i f v) = pids v"
  "pids (v\<lparr>frame_evict_lock := l\<rparr>) = pids v" "pids (v\<lparr>clock_hand := c\<rparr>) = pids v"
  by (simp_all add: pids_def set_mem_def set_frame_def fun_eq_iff)

lemma vm_cur_upd [simp]: "vm_cur (set_mem mm v) = vm_cur v" "vm_cur (set_frame i f v) = vm_cur v" "vm_cur (set_spte p e v) = vm_cur v"
  by (simp_all add: set_mem_def set_frame_def set_spte_def)

lemma pids_set_spte: "pids v p = Some (page_id e) \<Longrightarrow> pids (set_spte p e v) = pids v"
  by (auto simp: pids_def set_spte_def fun_eq_iff)

lemmas table_simps = same_tables_def pids_set_spte

lemma load_swap_page_tables: "load_swap_page p v = Some v' \<Longrightarrow> same_tables v v'"
  by (auto simp: load_swap_page_def Let_def elim!: bind_eq_SomeE)

lemma load_file_page_tables: "load_file_page p v = Some r \<Longrightarrow> same_tables v (case r of Inl v' \<Rightarrow> v' | Inr v' \<Rightarrow> v')"
  by (auto simp: load_file_page_def Let_def table_simps split: if_splits elim!: bind_eq_SomeE dest!: lock_tables)

lemma clear_page_tables: "clear_page a t v = Some v' \<Longrightarrow> same_tables v v'"
  by (auto simp: clear_page_def table_simps split: if_splits elim!: bind_eq_SomeE dest!: lock_tables)

lemma install_page_tables: "install_page a k w v = Some (ok, v') \<Longrightarrow> same_tables v v'"
  by (auto simp: install_page_def table_simps split: if_splits elim!: bind_eq_SomeE dest!: lock_tables)

lemma evict_swap_page_tables: "evict_swap_page p v = Some v' \<Longrightarrow> same_tables v v'"
  by (auto simp: evict_swap_page_def Let_def table_simps elim!: bind_eq_SomeE dest!: pids_Some)

lemma evict_file_page_tables: "evict_file_page p v = Some v' \<Longrightarrow> same_tables v v'"
  by (auto simp: evict_file_page_def table_simps split: if_splits elim!: bind_eq_SomeE dest!: pids_Some lock_tables evict_swap_page_tables)

lemma evict_mmaped_page_tables: "evict_mmaped_page p v = Some v' \<Longrightarrow> same_tables v v'"
  by (auto simp: evict_mmaped_page_def table_simps split: if_splits elim!: bind_eq_SomeE dest!: lock_tables)

lemma evict_page_tables: "evict_page_from_physical_memory p v = Some v' \<Longrightarrow> same_tables v v'"
  by (auto simp: evict_page_from_physical_memory_def table_simps split: page_location.splits elim!: bind_eq_SomeE
      dest!: clear_page_tables evict_swap_page_tables evict_file_page_tables evict_mmaped_page_tables)

text \<open>The state in a result, whether the thread goes on or exits.\<close>

definition vm_of :: "vm + 'a \<times> vm \<Rightarrow> vm" where
  "vm_of r = (case r of Inl v \<Rightarrow> v | Inr z \<Rightarrow> snd z)"

lemma vm_of_simps [simp]: "vm_of (Inl v) = v" "vm_of (Inr (x, v)) = v"
  by (simp_all add: vm_of_def)

lemma load_page_tables:
  assumes "load_page_into_physical_memory p fresh v = Some r"
  shows "same_tables v (vm_of r)"
proof -
  obtain e q where e: "sptes v p = Some e" "(if fresh then Some (Inr v)
          else (case location e of
                  SWAP_PAGE \<Rightarrow> map_option Inr (load_swap_page p v)
                | FILE_PAGE \<Rightarrow> load_file_page p v
                | MMAPED_PAGE \<Rightarrow> load_mmaped_page p v)) = Some q"
    and r: "(case q of
       Inl s \<Rightarrow> Some (Inl s)
     | Inr s \<Rightarrow> do {
         base \<leftarrow> base_of p s;
         (success, s) \<leftarrow> install_page (page_id e) base (is_writeable e) s;
         assert_spte_consistency p s;
         Some (Inr (success, s)) }) = Some r"
    using assms by (auto simp: load_page_into_physical_memory_def elim!: bind_eq_SomeE split: if_splits)
  have q: "same_tables v (case q of Inl v' \<Rightarrow> v' | Inr v' \<Rightarrow> v')"
    using e(2) by (auto simp: load_mmaped_page_def split: if_splits page_location.splits dest: load_file_page_tables load_swap_page_tables)
  show ?thesis using r q by (auto simp: table_simps split: sum.splits elim!: bind_eq_SomeE dest!: install_page_tables)
qed

section \<open>Operations on frames\<close>

lemma lock_evict_tables: "lock_evict v = Some v' \<Longrightarrow> same_tables v v'"
  by (auto simp: lock_evict_def lock_take_def split: if_splits elim!: bind_eq_SomeE)

lemma unlock_evict_tables: "unlock_evict v = Some v' \<Longrightarrow> same_tables v v'"
  by (auto simp: unlock_evict_def lock_drop_def split: if_splits elim!: bind_eq_SomeE)

lemma advance_clock_hand_tables: "advance_clock_hand v = Some v' \<Longrightarrow> same_tables v v'"
  by (auto simp: advance_clock_hand_def Let_def split: if_splits elim!: bind_eq_SomeE)

lemmas evict_tables = lock_evict_tables unlock_evict_tables advance_clock_hand_tables

lemma check_frame_contents_tables: "check_frame_contents i v = Some (b, v') \<Longrightarrow> same_tables v v'"
  by (auto simp: check_frame_contents_def pass_frame_def table_simps split: if_splits elim!: bind_eq_SomeE dest!: lock_tables evict_tables)

lemma test_accessed_tables: "test_accessed i v = Some (b, v') \<Longrightarrow> same_tables v v'"
  by (auto simp: test_accessed_def table_simps split: if_splits elim!: bind_eq_SomeE dest!: lock_tables)

lemma prepare_frame_tables: "prepare_frame_to_return i v = Some v' \<Longrightarrow> same_tables v v'"
  by (auto simp: prepare_frame_to_return_def Let_def table_simps elim!: bind_eq_SomeE dest!: lock_tables evict_page_tables pids_Some)

lemma evict_frame_loop_tables:
  assumes "evict_frame_loop v = Some z"
  shows "same_tables v (snd z)"
proof (rule evict_frame_loop.raw_induct [where P = "\<lambda>v z. same_tables v (snd z)", OF _ assms], goal_cases)
  case (1 f v z)
  have ih: "\<And>v z. f v = Some z \<Longrightarrow> vm_cur (snd z) = vm_cur v \<and> tables (snd z) = tables v \<and> pids (snd z) = pids v"
    using 1(1) by (simp add: same_tables_def)
  show ?case using 1(2)
    by (auto simp: Let_def table_simps split: if_splits elim!: bind_eq_SomeE
        dest!: lock_tables evict_tables check_frame_contents_tables test_accessed_tables prepare_frame_tables ih)
qed

lemma evict_frame_tables: "evict_frame v = Some (i, v') \<Longrightarrow> same_tables v v'"
  by (auto simp: evict_frame_def table_simps split: if_splits elim!: bind_eq_SomeE dest!: evict_tables evict_frame_loop_tables)

text \<open>The three parts of \<open>frame_handler_palloc\<close>: finding a frame, clearing it, loading the page.\<close>

lemma frame_handler_palloc_tables:
  assumes "frame_handler_palloc zeros p pin fresh v = Some r"
  shows "same_tables v (vm_of r)"
proof -
  obtain v1 addr m where v1: "lock_evict v = Some v1" "palloc_get_page \<lparr>PAL_ASSERT = False, PAL_ZERO = zeros, PAL_USER = True\<rparr> (vm_m v1) = Some (addr, m)"
    using assms by (auto simp: frame_handler_palloc_def elim!: bind_eq_SomeE)
  let ?find = "if addr \<noteq> NULL then do {
          i \<leftarrow> get_frame_index addr (v1\<lparr>vm_m := m\<rparr>);
          s \<leftarrow> lock_frame i (v1\<lparr>vm_m := m\<rparr>);
          s \<leftarrow> unlock_evict s;
          f \<leftarrow> get_frame i s;
          ASSERT (resident_page f = NULL);
          Some (i, s) }
        else evict_frame (v1\<lparr>vm_m := m\<rparr>)"
  obtain i v2 where v2: "?find = Some (i, v2)"
    using assms v1 by (auto simp: frame_handler_palloc_def Let_def elim!: bind_eq_SomeE)
  have t2: "same_tables v v2"
    using v1(1) v2 by (auto simp: table_simps split: if_splits elim!: bind_eq_SomeE dest!: lock_tables evict_tables evict_frame_tables)
  obtain f where f: "get_frame i v2 = Some f" using assms v1 v2 by (auto simp: frame_handler_palloc_def Let_def elim!: bind_eq_SomeE)
  obtain v3 where v3: "(if zeros then do {
            (_, m) \<leftarrow> memset (m_mem (vm_m v2)) (physical_mem_frame_base f) 0 PGSIZE;
            Some (set_mem m v2) } else Some v2) = Some v3"
    using assms v1 v2 f by (auto simp: frame_handler_palloc_def Let_def elim!: bind_eq_SomeE)
  have t3: "same_tables v2 v3" using v3 by (auto split: if_splits elim!: bind_eq_SomeE)
  obtain e q where e: "sptes v3 p = Some e" "load_page_into_physical_memory p fresh (set_spte p (e\<lparr>sp_frame := Some i\<rparr>) v3) = Some q"
    using assms v1 v2 f v3 by (auto simp: frame_handler_palloc_def Let_def elim!: bind_eq_SomeE)
  have t4: "same_tables v3 (vm_of q)"
    using load_page_tables [OF e(2)] pids_Some [OF e(1)] by (auto simp: table_simps)
  have "same_tables (vm_of q) (vm_of r)"
  proof (cases q)
    case (Inl v4)
    then show ?thesis using assms v1 v2 f v3 e by (simp add: frame_handler_palloc_def Let_def)
  next
    case (Inr z)
    obtain ok v4 where z: "z = (ok, v4)" by (cases z)
    show ?thesis using assms v1 v2 f v3 e unfolding Inr z
      by (auto simp: frame_handler_palloc_def Let_def table_simps split: if_splits elim!: bind_eq_SomeE dest!: lock_tables pids_Some)
  qed
  then show ?thesis using t2 t3 t4 by (simp add: same_tables_def)
qed

lemma frame_handler_palloc_free_tables: "frame_handler_palloc_free p v = Some v' \<Longrightarrow> same_tables v v'"
  by (auto simp: frame_handler_palloc_free_def table_simps split: option.splits if_splits elim!: bind_eq_SomeE dest!: lock_tables pids_Some)

lemma aquire_frame_lock_tables: "aquire_frame_lock fr p v = Some (b, v') \<Longrightarrow> same_tables v v'"
  by (auto simp: aquire_frame_lock_def table_simps split: option.splits if_splits elim!: bind_eq_SomeE dest!: lock_tables pids_Some)

lemma vm_of_map [simp]: "(case map_sum id snd z of Inl v \<Rightarrow> v | Inr v \<Rightarrow> v) = vm_of z"
  by (cases z) (simp_all add: vm_of_def)

lemma pin_page_tables: "pin_page a v = Some r \<Longrightarrow> same_tables v (case r of Inl v' \<Rightarrow> v' | Inr v' \<Rightarrow> v')"
  by (auto simp: pin_page_def table_simps split: if_splits elim!: bind_eq_SomeE
      dest!: lock_tables aquire_frame_lock_tables frame_handler_palloc_free_tables frame_handler_palloc_tables)

lemma un_pin_page_tables: "un_pin_page a v = Some v' \<Longrightarrow> same_tables v v'"
  by (auto simp: un_pin_page_def table_simps split: if_splits elim!: bind_eq_SomeE dest!: lock_tables)

end
