(* ===== verification/Syscall_Mmap.thy ===== *)
theory Syscall_Mmap
  imports Syscall_Files Vm_Tables
begin

text \<open>
  Unmapping files: \<open>munmap\<close> pins the pages of the mapping first, and the page after the mapping when the file fills its last
  page.
\<close>

section \<open>Pinning\<close>

lemma pin_missing:
  assumes "find_spte page (vm_cur v) v = Some NULL" "pids v NULL = None"
  shows "pin_page page v = None"
  using assms by (simp add: pin_page_def lock_page_def pids_def)

lemma pin_or_unpin_tables: "pin_or_unpin b page s = Some (Inr (x, s')) \<Longrightarrow> same_tables (p_vm s) (p_vm s')"
  by (auto simp: pin_or_unpin_def in_vm_def step_vm_def dest!: pin_page_tables un_pin_page_tables split: if_splits sum.splits)

text \<open>The loop pins whole pages until at most one page of the length is left.\<close>

lemma pinning_loop_result:
  assumes "pinning_loop a p (PGSIZE * Suc i) b s = Some (Inr ((a', p', len'), s'))" "a + PGSIZE * i < 2 ^ 32" "p = pg_round_down a"
  shows "a' = a + PGSIZE * i \<and> p' = pg_round_down a' \<and> len' = PGSIZE \<and> same_tables (p_vm s) (p_vm s')"
  using assms
proof (induction i arbitrary: a p s)
  case 0
  then show ?case by (auto simp: pinning_loop.simps [of a] pure_def)
next
  case (Suc i)
  let ?a = "a + PGSIZE"
  have len: "PGSIZE * Suc (Suc i) > PGSIZE" "PGSIZE * Suc (Suc i) - PGSIZE = PGSIZE * Suc i" by (simp_all add: PGSIZE_def)
  have wrap: "?a mod 2 ^ 32 = ?a" "?a + PGSIZE * i < 2 ^ 32" using Suc.prems(2) by simp_all
  obtain x s1 where s1: "pin_or_unpin b (pg_round_down ?a) s = Some (Inr (x, s1))"
    "pinning_loop ?a (pg_round_down ?a) (PGSIZE * Suc i) b s1 = Some (Inr ((a', p', len'), s'))"
    using Suc.prems(1) len wrap(1) unfolding pinning_loop.simps [of a] by (auto simp: Let_def elim: cont_InrE)
  show ?case
    using Suc.IH [OF s1(2) wrap(2) refl] same_tables_trans [OF pin_or_unpin_tables [OF s1(1)]] by simp
qed

lemma page_aligned_round: "a mod PGSIZE = 0 \<Longrightarrow> pg_round_down a = a"
  by (auto simp: pg_round_down_def PGSIZE_def PGBITS_def mod_eq_0_iff_dvd)

lemma pinning_never:
  assumes "start mod PGSIZE = 0" "start + PGSIZE * j < 2 ^ 32" "pids (p_vm s) NULL = None"
    and "find_spte (start + PGSIZE * j) (vm_cur (p_vm s)) (p_vm s) = Some NULL"
  shows "pinning_for_system_call start (PGSIZE * j) True s \<noteq> Some (Inr (x, s'))"
proof
  assume run: "pinning_for_system_call start (PGSIZE * j) True s = Some (Inr (x, s'))"
  have stuck: "pin_or_unpin True (start + PGSIZE * j) t = None" if "same_tables (p_vm s) (p_vm t)" for t
  proof -
    have "vm_cur (p_vm t) = vm_cur (p_vm s)" "pids (p_vm t) NULL = None" using that assms(3) by (simp_all add: same_tables_def)
    then show ?thesis using pin_missing [of "start + PGSIZE * j" "p_vm t"] assms(4) find_spte_same [OF that]
      by (simp add: pin_or_unpin_def in_vm_def)
  qed
  obtain y s1 where s1: "pin_or_unpin True start s = Some (Inr (y, s1))"
    and rest: "cont (pinning_loop start start (PGSIZE * j) True s1) (\<lambda>(curr_addr, curr_page, len) s.
          let last_page = pg_round_down ((curr_addr + len) mod 2 ^ 32) in
          if last_page \<noteq> curr_page then pin_or_unpin True last_page s else pure () s) = Some (Inr (x, s'))"
    using run page_aligned_round [OF assms(1)] unfolding pinning_for_system_call_def Let_def by (auto elim: cont_InrE)
  show False
  proof (cases j)
    case 0
    then show ?thesis using s1 stuck [of s] by simp
  next
    case (Suc i)
    obtain a p len s2 where s2: "pinning_loop start start (PGSIZE * j) True s1 = Some (Inr ((a, p, len), s2))"
      "(let last_page = pg_round_down ((a + len) mod 2 ^ 32) in
          if last_page \<noteq> p then pin_or_unpin True last_page s2 else pure () s2) = Some (Inr (x, s'))"
      using rest by (rule cont_InrE) (auto split: prod.splits)
    have al: "start + PGSIZE * i < 2 ^ 32" "start = pg_round_down start"
      using assms(2) Suc page_aligned_round [OF assms(1)] by simp_all
    have r: "a = start + PGSIZE * i" "p = pg_round_down a" "len = PGSIZE" "same_tables (p_vm s1) (p_vm s2)"
      using pinning_loop_result [OF s2(1) [unfolded Suc] al] by auto
    have round: "pg_round_down (start + PGSIZE * n) = start + PGSIZE * n" for n
      by (rule page_aligned_round) (use assms(1) in simp)
    have nxt: "(a + len) mod 2 ^ 32 = start + PGSIZE * j" using r Suc assms(2) by simp
    have pages: "p = start + PGSIZE * i" "pg_round_down ((a + len) mod 2 ^ 32) = start + PGSIZE * j"
      using r(1,2) round unfolding nxt by simp_all
    have "start + PGSIZE * j \<noteq> p" using pages(1) Suc by (simp add: PGSIZE_def)
    then have "pin_or_unpin True (start + PGSIZE * j) s2 = Some (Inr (x, s'))" using s2(2) unfolding pages(2) Let_def by simp
    then show ?thesis using stuck [of s2] same_tables_trans [OF pin_or_unpin_tables [OF s1] r(4)] by simp
  qed
qed

section \<open>Unmapping\<close>

text \<open>C36. A process that unmaps a file that fills its last page, or an empty file, never gets control back when no page is
  mapped behind the mapping: \<open>munmap\<close> pins that page too, which does not exist, and the kernel stops at the null pointer
  unless the thread exits before.\<close>

theorem munmap_never_returns:
  assumes "find (\<lambda>m. mm_mapping m = k) (mmapped_files s) = Some mm"
    and "file_length (mm_fp mm) (vm_fs (p_vm s)) = Some (int (PGSIZE * j))"
    and "mm_vaddr mm mod PGSIZE = 0" "mm_vaddr mm + PGSIZE * j < 2 ^ 32" "sptes (p_vm s) NULL = None"
    and "find_spte (mm_vaddr mm + PGSIZE * j) (vm_cur (p_vm s)) (p_vm s) = Some NULL"
  shows "munmap k s \<noteq> Some (Inr (x, s'))"
proof
  assume run: "munmap k s = Some (Inr (x, s'))"
  have gen: "n < 2 ^ 32 \<Longrightarrow> nat (int n mod 2 ^ 32) = n" for n :: nat by simp
  have sz: "nat (int (PGSIZE * j) mod 2 ^ 32) = PGSIZE * j" 
    by (rule gen) (use assms(4) in simp)
  obtain y s1 where s1: "acquire_fs s = Some (Inr (y, s1))" and "do {
       sz \<leftarrow> file_length (mm_fp mm) (vm_fs (p_vm s1));
       cont (release_fs s1) (\<lambda>_ s.
         cont (pinning_for_system_call (mm_vaddr mm) (nat (sz mod 2 ^ 32)) True s) (\<lambda>_ s. do {
           v \<leftarrow> munmap_state mm (vm_cur (p_vm s)) (p_vm s);
           pure () (s\<lparr>p_vm := v, mmapped_files := remove_mapping k (mmapped_files s)\<rparr>) })) } = Some (Inr (x, s'))"
    using run assms(1) unfolding munmap_def by (auto elim: cont_InrE)
  moreover have "vm_fs (p_vm s1) = vm_fs (p_vm s)" and t1: "same_tables (p_vm s) (p_vm s1)"
    using s1 lock_fs_tables by (auto simp: acquire_fs_def step_vm_def lock_fs_def lock_take_def elim!: bind_eq_SomeE split: if_splits)
  moreover note sz
  ultimately obtain z s2 w s3 where s2: "release_fs s1 = Some (Inr (z, s2))"
    "pinning_for_system_call (mm_vaddr mm) (PGSIZE * j) True s2 = Some (Inr (w, s3))"
    using assms(2) by (auto elim!: cont_InrE)
  have "same_tables (p_vm s1) (p_vm s2)"
    using s2(1) by (auto simp: release_fs_def step_vm_def unlock_fs_def lock_drop_def elim!: bind_eq_SomeE split: if_splits)
  then have t2: "same_tables (p_vm s) (p_vm s2)" by (rule same_tables_trans [OF t1])
  have "pids (p_vm s2) NULL = None" "vm_cur (p_vm s2) = vm_cur (p_vm s)" using t2 assms(5) by (simp_all add: same_tables_def pids_def)
  then have "find_spte (mm_vaddr mm + PGSIZE * j) (vm_cur (p_vm s2)) (p_vm s2) = Some NULL" "pids (p_vm s2) NULL = None"
    using assms(6) find_spte_same [OF t2] by simp_all
  then show False using pinning_never [OF assms(3,4)] s2(2) by blast
qed

text \<open>A process with an empty file mapped.\<close>

definition sample_mapping :: proc where
  "sample_mapping = sample_proc\<lparr>mmapped_files := [\<lparr>mm_fp = 32, mm_vaddr = 0x10000000, mm_mapping = 0\<rparr>],
     p_vm := sample_vm\<lparr>vm_fs := sample_fs\<lparr>inodes := [48 \<mapsto> sample_inode 0 2 0]\<rparr>\<rparr>\<rparr>"

theorem munmap_never_returns_witness: "\<not> (\<exists>x s'. munmap 0 sample_mapping = Some (Inr (x, s')))"
proof -
  let ?mm = "\<lparr>mm_fp = 32, mm_vaddr = 0x10000000, mm_mapping = 0\<rparr>" and ?u = "the (uthreads sample_vm 8)"
  have m: "find (\<lambda>m. mm_mapping m = 0) (mmapped_files sample_mapping) = Some ?mm"
    "file_length (mm_fp ?mm) (vm_fs (p_vm sample_mapping)) = Some (int (PGSIZE * 0))"
    "mm_vaddr ?mm mod PGSIZE = 0" "mm_vaddr ?mm + PGSIZE * 0 < 2 ^ 32" "sptes (p_vm sample_mapping) NULL = None"
    by (simp_all add: sample_mapping_def sample_proc_def sample_vm_def file_length_def sample_fs_def sample_inode_def inode_length_def
        PGSIZE_def PGBITS_def)
  have u: "uthreads (p_vm sample_mapping) 8 = Some ?u" "spt_ok (sptes (p_vm sample_mapping)) (spte_table ?u)" "elems (spte_table ?u) = []"
    "vm_cur (p_vm sample_mapping) = 8"
    using sample_table_ok by (simp_all add: sample_mapping_def sample_proc_def sample_vm_def elems_def)
  have "find_spte (mm_vaddr ?mm + PGSIZE * 0) (vm_cur (p_vm sample_mapping)) (p_vm sample_mapping) = Some NULL"
    using find_spte_NULL [OF u(1,2)] u(3,4) by simp
  then show ?thesis using munmap_never_returns [OF m] by blast
qed

end
