(* ===== verification/Process_Wait.thy ===== *)
theory Process_Wait
  imports Prelude
begin

text \<open>
  A parent that waits for a child or exits, and the child's exit (\<open>userprog/process.c\<close>), as two threads whose steps
  interleave.  The code between taking and releasing the lock of the child's \<open>vital_info\<close> is one step; so is every access
  outside it.  Memory that was freed is tracked: a step that touches it is a \<open>Fault\<close>.
\<close>

section \<open>Definitions\<close>

subsection \<open>State\<close>

record vital_info_state =
  exit_status_of :: int
  has_allready_been_waited_on :: bool
  parent_is_finished :: bool
  child_is_finished :: bool

text \<open>Where the parent is: running, about to take the lock, about to go down on the child's semaphore, about to read the
  status, back from \<open>process_wait\<close> with a value, and gone.\<close>

datatype parent_at = P_Running | P_Chosen | P_Waiting | P_Woken | P_Returned int | P_Gone

text \<open>Where the child is: running, in \<open>process_exit\<close> before its lock, after it with the parent alive, past the part that
  deals with the parent, and its thread freed.\<close>

datatype child_at = C_Running | C_Exiting | C_Marked | C_Signalled | C_Freed

record family =
  vital :: "vital_info_state option"
  listed :: bool
  parent :: parent_at
  child :: child_at
  wait_on_me :: nat
  exited :: "int option"

datatype 'a outcome = Blocked | Fault | Next 'a

definition init_family :: family where
  "init_family = \<lparr>vital = Some \<lparr>exit_status_of = 0, has_allready_been_waited_on = False, parent_is_finished = False,
     child_is_finished = False\<rparr>, listed = True, parent = P_Running, child = C_Running, wait_on_me = 0, exited = None\<rparr>"

text \<open>An access to the \<open>vital_info\<close>.\<close>

definition with_vital :: "family \<Rightarrow> (vital_info_state \<Rightarrow> family) \<Rightarrow> family outcome" where
  "with_vital s f = (case vital s of None \<Rightarrow> Fault | Some v \<Rightarrow> Next (f v))"

subsection \<open>The parent\<close>

text \<open>The steps of \<open>process_wait\<close>: the search and the flag; the test of \<open>child_is_finished\<close>; going down on the semaphore in the
  thread of the child; reading the status and freeing the \<open>vital_info\<close>.\<close>

definition wait_choose :: "family \<Rightarrow> family outcome" where
  "wait_choose s =
     (if \<not> listed s then Next (s\<lparr>parent := P_Returned (-1)\<rparr>)
      else with_vital s (\<lambda>v.
        if has_allready_been_waited_on v then s\<lparr>parent := P_Returned (-1)\<rparr>
        else s\<lparr>vital := Some (v\<lparr>has_allready_been_waited_on := True\<rparr>), parent := P_Chosen\<rparr>))"

definition wait_test :: "family \<Rightarrow> family outcome" where
  "wait_test s = with_vital s (\<lambda>v. s\<lparr>parent := (if \<not> child_is_finished v then P_Waiting else P_Woken)\<rparr>)"

definition wait_down :: "family \<Rightarrow> family outcome" where
  "wait_down s =
     (if vital s = None \<or> child s = C_Freed then Fault
      else if wait_on_me s = 0 then Blocked
      else Next (s\<lparr>wait_on_me := wait_on_me s - 1, parent := P_Woken\<rparr>))"

definition wait_return :: "family \<Rightarrow> family outcome" where
  "wait_return s = with_vital s (\<lambda>v. s\<lparr>vital := None, listed := False, parent := P_Returned (exit_status_of v)\<rparr>)"

text \<open>\<open>notify_children_parent_is_finished\<close> for this child.\<close>

definition notify_child :: "family \<Rightarrow> family outcome" where
  "notify_child s =
     (if \<not> listed s then Next (s\<lparr>parent := P_Gone\<rparr>)
      else with_vital s (\<lambda>v.
        if child_is_finished v then s\<lparr>vital := None, listed := False, parent := P_Gone\<rparr>
        else s\<lparr>vital := Some (v\<lparr>parent_is_finished := True\<rparr>), listed := False, parent := P_Gone\<rparr>))"

subsection \<open>The child\<close>

text \<open>The status is set before \<open>thread_exit\<close>; \<open>process_exit\<close> then marks the child as finished, or frees the \<open>vital_info\<close> when
  the parent is; goes up on its semaphore; the page of the thread is freed when the next thread runs.\<close>

definition set_status :: "int \<Rightarrow> family \<Rightarrow> family outcome" where
  "set_status n s = with_vital s (\<lambda>v. s\<lparr>vital := Some (v\<lparr>exit_status_of := n\<rparr>), child := C_Exiting, exited := Some n\<rparr>)"

definition exit_mark :: "family \<Rightarrow> family outcome" where
  "exit_mark s = with_vital s (\<lambda>v.
     if parent_is_finished v then s\<lparr>vital := None, child := C_Signalled\<rparr>
     else s\<lparr>vital := Some (v\<lparr>child_is_finished := True\<rparr>), child := C_Marked\<rparr>)"

definition exit_signal :: "family \<Rightarrow> family outcome" where
  "exit_signal s = Next (s\<lparr>wait_on_me := wait_on_me s + 1, child := C_Signalled\<rparr>)"

definition free_thread :: "family \<Rightarrow> family outcome" where
  "free_thread s = Next (s\<lparr>child := C_Freed\<rparr>)"

subsection \<open>Interleaving\<close>

definition parent_step :: "family \<Rightarrow> family outcome list" where
  "parent_step s = (case parent s of
     P_Running \<Rightarrow> [wait_choose s, notify_child s]
   | P_Chosen \<Rightarrow> [wait_test s]
   | P_Waiting \<Rightarrow> [wait_down s]
   | P_Woken \<Rightarrow> [wait_return s]
   | P_Returned n \<Rightarrow> [notify_child s]
   | P_Gone \<Rightarrow> [])"

definition child_step :: "int \<Rightarrow> family \<Rightarrow> family outcome list" where
  "child_step n s = (case child s of
     C_Running \<Rightarrow> [set_status n s]
   | C_Exiting \<Rightarrow> [exit_mark s]
   | C_Marked \<Rightarrow> [exit_signal s]
   | C_Signalled \<Rightarrow> [free_thread s]
   | C_Freed \<Rightarrow> [])"

definition outcomes :: "int \<Rightarrow> family \<Rightarrow> family outcome list" where
  "outcomes n s = parent_step s @ child_step n s"

inductive reachable :: "family \<Rightarrow> bool" where
  start: "reachable init_family"
| step: "reachable s \<Longrightarrow> Next s' \<in> set (outcomes n s) \<Longrightarrow> reachable s'"

section \<open>Invariant\<close>

fun in_list :: "parent_at \<Rightarrow> bool" where
  "in_list (P_Returned n) = False" | "in_list P_Gone = False" | "in_list _ = True"

fun in_wait :: "parent_at \<Rightarrow> bool" where
  "in_wait P_Chosen = True" | "in_wait P_Waiting = True" | "in_wait P_Woken = True" | "in_wait _ = False"

fun is_finished :: "child_at \<Rightarrow> bool" where
  "is_finished C_Running = False" | "is_finished C_Exiting = False" | "is_finished _ = True"

fun is_signalled :: "child_at \<Rightarrow> bool" where
  "is_signalled C_Signalled = True" | "is_signalled C_Freed = True" | "is_signalled _ = False"

text \<open>When each thread may still touch the \<open>vital_info\<close>, it is allocated, and its fields say where the other thread is.\<close>

definition family_ok :: "family \<Rightarrow> bool" where
  "family_ok s \<longleftrightarrow> listed s = in_list (parent s) \<and>
     (case vital s of None \<Rightarrow> \<not> in_list (parent s) \<and> is_finished (child s)
      | Some v \<Rightarrow> (in_list (parent s) \<or> parent s = P_Gone \<and> \<not> is_finished (child s)) \<and>
          has_allready_been_waited_on v = in_wait (parent s) \<and> parent_is_finished v = (parent s = P_Gone) \<and>
          child_is_finished v = is_finished (child s) \<and> (exited s = None \<or> exited s = Some (exit_status_of v))) \<and>
     (child s = C_Running) = (exited s = None) \<and>
     (is_signalled (child s) \<or> wait_on_me s = 0) \<and>
     (parent s = P_Waiting \<and> is_signalled (child s) \<longrightarrow> wait_on_me s = 1) \<and>
     (parent s = P_Woken \<longrightarrow> is_finished (child s)) \<and>
     (case parent s of P_Returned n \<Rightarrow> exited s = Some n | _ \<Rightarrow> True)"

lemma wait_choose_ok: "family_ok s \<Longrightarrow> parent s = P_Running \<Longrightarrow> wait_choose s = Next s' \<Longrightarrow> family_ok s'"
  by (cases "vital s"; cases "child s") (auto simp: wait_choose_def with_vital_def family_ok_def split: if_splits)

lemma wait_test_ok: "family_ok s \<Longrightarrow> parent s = P_Chosen \<Longrightarrow> wait_test s = Next s' \<Longrightarrow> family_ok s'"
  by (cases "vital s"; cases "child s") (auto simp: wait_test_def with_vital_def family_ok_def split: if_splits)

lemma wait_down_ok: "family_ok s \<Longrightarrow> parent s = P_Waiting \<Longrightarrow> wait_down s = Next s' \<Longrightarrow> family_ok s'"
  by (cases "vital s"; cases "child s") (auto simp: wait_down_def with_vital_def family_ok_def split: if_splits)

lemma wait_return_ok: "family_ok s \<Longrightarrow> parent s = P_Woken \<Longrightarrow> wait_return s = Next s' \<Longrightarrow> family_ok s'"
  by (cases "vital s"; cases "child s") (auto simp: wait_return_def with_vital_def family_ok_def split: if_splits)

lemma notify_child_running_ok: "family_ok s \<Longrightarrow> parent s = P_Running \<Longrightarrow> notify_child s = Next s' \<Longrightarrow> family_ok s'"
  by (cases "vital s"; cases "child s") (auto simp: notify_child_def with_vital_def family_ok_def split: if_splits)

lemma notify_child_returned_ok: "family_ok s \<Longrightarrow> parent s = P_Returned k \<Longrightarrow> notify_child s = Next s' \<Longrightarrow> family_ok s'"
  by (cases "vital s"; cases "child s") (auto simp: notify_child_def with_vital_def family_ok_def split: if_splits)

lemma set_status_ok: "family_ok s \<Longrightarrow> child s = C_Running \<Longrightarrow> set_status n s = Next s' \<Longrightarrow> family_ok s'"
  by (cases "vital s"; cases "parent s") (auto simp: set_status_def with_vital_def family_ok_def split: if_splits)

lemma exit_mark_ok: "family_ok s \<Longrightarrow> child s = C_Exiting \<Longrightarrow> exit_mark s = Next s' \<Longrightarrow> family_ok s'"
  by (cases "vital s"; cases "parent s") (auto simp: exit_mark_def with_vital_def family_ok_def split: if_splits)

lemma exit_signal_ok: "family_ok s \<Longrightarrow> child s = C_Marked \<Longrightarrow> exit_signal s = Next s' \<Longrightarrow> family_ok s'"
  by (cases "vital s"; cases "parent s") (auto simp: exit_signal_def with_vital_def family_ok_def split: if_splits)

lemma free_thread_ok: "family_ok s \<Longrightarrow> child s = C_Signalled \<Longrightarrow> free_thread s = Next s' \<Longrightarrow> family_ok s'"
  by (cases "vital s"; cases "parent s") (auto simp: free_thread_def with_vital_def family_ok_def split: if_splits)

lemmas steps_ok = wait_choose_ok wait_test_ok wait_down_ok wait_return_ok notify_child_running_ok notify_child_returned_ok set_status_ok exit_mark_ok
  exit_signal_ok free_thread_ok

lemma family_ok_step: "family_ok s \<Longrightarrow> Next s' \<in> set (outcomes n s) \<Longrightarrow> family_ok s'"
proof -
  assume ok: "family_ok s" and "Next s' \<in> set (outcomes n s)"
  then consider "Next s' \<in> set (parent_step s)" | "Next s' \<in> set (child_step n s)" by (auto simp: outcomes_def)
  then show ?thesis
  proof cases
    case 1
    then show ?thesis by (cases "parent s") (auto simp: parent_step_def intro: steps_ok [OF ok] dest: sym)
  next
    case 2
    then show ?thesis by (cases "child s") (auto simp: child_step_def intro: steps_ok [OF ok] dest: sym)
  qed
qed

lemma reachable_ok: "reachable s \<Longrightarrow> family_ok s"
  by (induction rule: reachable.induct) (auto simp: family_ok_step, simp add: family_ok_def init_family_def)

section \<open>Schedules\<close>

text \<open>A schedule names the thread that takes each step: \<open>True\<close> for the parent, which waits.\<close>

fun run :: "bool list \<Rightarrow> int \<Rightarrow> family \<Rightarrow> family option" where
  "run [] n s = Some s"
| "run (p # ps) n s = (case if p then parent_step s else child_step n s of
     Next s' # _ \<Rightarrow> run ps n s'
   | _ \<Rightarrow> None)"

lemma run_reachable: "run ps n s = Some s' \<Longrightarrow> reachable s \<Longrightarrow> reachable s'"
proof (induction ps n s rule: run.induct)
  case (2 p ps n s)
  let ?os = "if p then parent_step s else child_step n s"
  obtain t os where os: "?os = Next t # os" "run ps n t = Some s'"
    using 2 by (auto split: list.splits outcome.splits if_splits)
  then have "Next t \<in> set (outcomes n s)" by (cases p) (auto simp: outcomes_def)
  with 2 os show ?case by (auto intro: reachable.step)
qed simp

lemmas step_defs = parent_step_def child_step_def wait_choose_def wait_test_def wait_down_def wait_return_def notify_child_def
  set_status_def exit_mark_def exit_signal_def free_thread_def with_vital_def

text \<open>The parent finds the child running and is preempted before it goes down on the semaphore, which is in the thread of the
  child: when the child has exited in between, the semaphore is in freed memory.\<close>

lemma wait_use_after_free: "\<exists>s. reachable s \<and> Fault \<in> set (outcomes 0 s)"
proof -
  obtain s where s: "run [True, True, False, False, False, False] 0 init_family = Some s"
    and "Fault \<in> set (outcomes 0 s)"
    by (simp add: step_defs outcomes_def init_family_def)
  with run_reachable [OF s reachable.start] show ?thesis by blast
qed

section \<open>The protocol\<close>

text \<open>C37. In every state that a parent and its child reach, in whatever order they run: the \<open>vital_info\<close> is never used after it
  was freed, and the only step that touches freed memory is the parent going down on the semaphore of a child whose thread is
  gone; \<open>process_wait\<close> returns the status that the child exited with, has then freed the \<open>vital_info\<close>, and returns -1 when
  called again; a parent is never left blocked on a child that has signalled; and once both have exited the \<open>vital_info\<close> is
  freed.\<close>

theorem wait_exit_protocol:
  assumes "reachable s"
  shows "(Fault \<in> set (outcomes n s) \<longleftrightarrow> parent s = P_Waiting \<and> child s = C_Freed) \<and>
    (\<forall>k. parent s = P_Returned k \<longrightarrow>
       exited s = Some k \<and> vital s = None \<and> wait_choose s = Next (s\<lparr>parent := P_Returned (-1)\<rparr>)) \<and>
    (is_signalled (child s) \<longrightarrow> Blocked \<notin> set (outcomes n s)) \<and>
    (parent s = P_Gone \<and> is_finished (child s) \<longrightarrow> vital s = None)"
proof -
  have ok: "family_ok s" using assms by (rule reachable_ok)
  have faults: "Fault \<in> set (outcomes n s) \<longleftrightarrow> parent s = P_Waiting \<and> child s = C_Freed"
    using ok by (cases "vital s"; cases "parent s"; cases "child s") (simp_all add: family_ok_def outcomes_def step_defs)
  have blocked: "is_signalled (child s) \<longrightarrow> Blocked \<notin> set (outcomes n s)"
    using ok by (cases "vital s"; cases "parent s"; cases "child s") (simp_all add: family_ok_def outcomes_def step_defs)
  have returned: "exited s = Some k \<and> vital s = None \<and> wait_choose s = Next (s\<lparr>parent := P_Returned (-1)\<rparr>)"
    if "parent s = P_Returned k" for k
    using ok that by (cases "vital s") (simp_all add: family_ok_def wait_choose_def)
  have gone: "vital s = None" if "parent s = P_Gone \<and> is_finished (child s)"
    using ok that by (cases "vital s") (simp_all add: family_ok_def)
  show ?thesis using faults blocked returned gone by blast
qed

text \<open>The child exits with 7 while the parent waits.\<close>

theorem wait_exit_protocol_witness: "\<exists>s. reachable s \<and> parent s = P_Returned 7 \<and> exited s = Some 7 \<and> vital s = None"
proof -
  obtain s where s: "run [True, True, False, False, False, True, True] 7 init_family = Some s" and "parent s = P_Returned 7"
    by (simp add: step_defs init_family_def)
  with run_reachable [OF s reachable.start] wait_exit_protocol [OF run_reachable [OF s reachable.start]] show ?thesis by blast
qed

end
