(* ===== verification/Stdio.thy ===== *)
theory Stdio
  imports Stdlib C_String
begin

text \<open>
  Formatted output, \<open>lib/stdio.c\<close>.  A format and the output are lists of character codes without a terminating zero; the
  output function is called with the characters of the output in order.  The arguments of a variadic function are the 32-bit
  words on the stack, so that a 64-bit argument is two of them.  Reading an argument that was not passed, or the format
  behind its end, stops the model (\<open>None\<close>), and so does writing behind the end of a buffer.
\<close>

section \<open>Definitions\<close>

subsection \<open>Conversions\<close>

definition MINUS :: u32 where "MINUS = 1"
definition PLUS :: u32 where "PLUS = 2"
definition SPACE :: u32 where "SPACE = 4"
definition POUND :: u32 where "POUND = 8"
definition ZERO :: u32 where "ZERO = 16"
definition GROUP :: u32 where "GROUP = 32"

datatype conversion_type = T_CHAR | T_SHORT | T_INT | T_INTMAX | T_LONG | T_LONGLONG | T_PTRDIFFT | T_SIZET

record printf_conversion =
  flags :: u32
  width :: int
  precision :: int
  type_of :: conversion_type

definition has :: "printf_conversion \<Rightarrow> u32 \<Rightarrow> bool" where
  "has c f \<longleftrightarrow> flags c AND f \<noteq> 0"

record integer_base =
  ib_base :: nat
  ib_digits :: "nat list"
  ib_x :: nat
  ib_group :: nat

definition codes :: "string \<Rightarrow> nat list" where
  "codes s = map of_char s"

definition base_d :: integer_base where
  "base_d = \<lparr>ib_base = 10, ib_digits = [48..<58], ib_x = 0, ib_group = 3\<rparr>"

definition base_o :: integer_base where
  "base_o = \<lparr>ib_base = 8, ib_digits = [48..<56], ib_x = 0, ib_group = 3\<rparr>"

definition base_x :: integer_base where
  "base_x = \<lparr>ib_base = 16, ib_digits = [48..<58] @ [97..<103], ib_x = 120, ib_group = 4\<rparr>"

definition base_X :: integer_base where
  "base_X = \<lparr>ib_base = 16, ib_digits = [48..<58] @ [65..<71], ib_x = 88, ib_group = 4\<rparr>"

subsection \<open>Arguments\<close>

fun va_word :: "nat list \<Rightarrow> (nat \<times> nat list) option" where
  "va_word [] = None"
| "va_word (a # as) = Some (a, as)"

definition va_int :: "nat list \<Rightarrow> (int \<times> nat list) option" where
  "va_int as = map_option (map_prod (to_int32 \<circ> int) id) (va_word as)"

definition va_word64 :: "nat list \<Rightarrow> (nat \<times> nat list) option" where
  "va_word64 as = do { (lo, as) \<leftarrow> va_word as; (hi, as) \<leftarrow> va_word as; Some (hi * 2 ^ 32 + lo, as) }"

subsection \<open>Parsing a conversion\<close>

definition cur :: "nat list \<Rightarrow> nat" where
  "cur format = (if format = [] then 0 else hd format)"

fun parse_flags :: "nat list \<Rightarrow> u32 \<Rightarrow> nat list \<times> u32" where
  "parse_flags [] f = ([], f)"
| "parse_flags (ch # s) f =
     (if ch = 45 then parse_flags s (f OR MINUS)
      else if ch = 43 then parse_flags s (f OR PLUS)
      else if ch = 32 then parse_flags s (f OR SPACE)
      else if ch = 35 then parse_flags s (f OR POUND)
      else if ch = 48 then parse_flags s (f OR ZERO)
      else if ch = 39 then parse_flags s (f OR GROUP)
      else (ch # s, f))"

fun parse_digits :: "nat list \<Rightarrow> int \<Rightarrow> nat list \<times> int" where
  "parse_digits [] n = ([], n)"
| "parse_digits (ch # s) n =
     (if isdigit ch then parse_digits s (to_int32 (to_int32 (to_int32 (n * 10) + int ch) - 48)) else (ch # s, n))"

text \<open>A number, or \<open>*\<close> for one taken from the arguments.\<close>

definition parse_number :: "nat list \<Rightarrow> nat list \<Rightarrow> (nat list \<times> int \<times> nat list) option" where
  "parse_number format as =
     (if cur format = 42 then do { (n, as) \<leftarrow> va_int as; Some (tl format, n, as) }
      else let (format, n) = parse_digits format 0 in Some (format, n, as))"

definition parse_type :: "nat list \<Rightarrow> nat list \<times> conversion_type" where
  "parse_type format =
     (let k = cur format; k2 = cur (tl format) in
      if k = 104 then (if k2 = 104 then (tl (tl format), T_CHAR) else (tl format, T_SHORT))
      else if k = 106 then (tl format, T_INTMAX)
      else if k = 108 then (if k2 = 108 then (tl (tl format), T_LONGLONG) else (tl format, T_LONG))
      else if k = 116 then (tl format, T_PTRDIFFT)
      else if k = 122 then (tl format, T_SIZET)
      else (format, T_INT))"

definition parse_conversion :: "nat list \<Rightarrow> nat list \<Rightarrow> (printf_conversion \<times> nat list \<times> nat list) option" where
  "parse_conversion format as = do {
     let (format, f) = parse_flags format 0;
     let f = (if f AND MINUS \<noteq> 0 then f AND NOT ZERO else f);
     let f = (if f AND PLUS \<noteq> 0 then f AND NOT SPACE else f);
     (format, w, as) \<leftarrow> parse_number format as;
     let (w, f) = (if w < 0 then (to_int32 (- w), f OR MINUS) else (w, f));
     (format, p, as) \<leftarrow> (if cur format = 46 then parse_number (tl format) as else Some (format, -1, as));
     let p = (if p < 0 then -1 else p);
     let f = (if 0 \<le> p then f AND NOT ZERO else f);
     let (format, t) = parse_type format;
     Some (\<lparr>flags = f, width = w, precision = p, type_of = t\<rparr>, format, as) }"

subsection \<open>Formatting\<close>

definition output_dup :: "nat \<Rightarrow> int \<Rightarrow> nat list" where
  "output_dup ch cnt = replicate (nat cnt) ch"

definition BUF_SIZE :: nat where "BUF_SIZE = 64"

definition put :: "nat \<Rightarrow> nat list \<Rightarrow> nat list option" where
  "put ch buf = (if length buf < BUF_SIZE then Some (buf @ [ch]) else None)"

text \<open>The digits, last one first.\<close>

function digits_loop :: "nat \<Rightarrow> bool \<Rightarrow> integer_base \<Rightarrow> nat \<Rightarrow> nat list \<Rightarrow> nat list option" where
  "digits_loop val grouped b digit_cnt buf =
     (if 0 < val \<and> 1 < ib_base b then do {
        buf \<leftarrow> (if grouped \<and> 0 < digit_cnt \<and> digit_cnt mod ib_group b = 0 then put 44 buf else Some buf);
        buf \<leftarrow> put (ib_digits b ! (val mod ib_base b)) buf;
        digits_loop (val div ib_base b) grouped b (digit_cnt + 1) buf }
      else Some buf)"
  by auto
termination by (relation "measure (\<lambda>(v, _, _, _, _). v)") auto

declare digits_loop.simps [simp del]

definition pad_digits :: "int \<Rightarrow> nat list \<Rightarrow> nat list" where
  "pad_digits p buf = buf @ replicate (min (nat p) (BUF_SIZE - 1) - length buf) 48"

definition sign_of :: "printf_conversion \<Rightarrow> bool \<Rightarrow> bool \<Rightarrow> nat" where
  "sign_of c is_signed negative =
     (if is_signed then
        if has c PLUS then (if negative then 45 else 43)
        else if has c SPACE then (if negative then 45 else 32)
        else if negative then 45 else 0
      else 0)"

definition format_integer :: "nat \<Rightarrow> bool \<Rightarrow> bool \<Rightarrow> integer_base \<Rightarrow> printf_conversion \<Rightarrow> nat list option" where
  "format_integer val is_signed negative b c = do {
     let sign = sign_of c is_signed negative;
     let x = (if has c POUND \<and> val \<noteq> 0 then ib_x b else 0);
     buf \<leftarrow> digits_loop val (has c GROUP) b 0 [];
     let buf = pad_digits (if precision c < 0 then 1 else precision c) buf;
     buf \<leftarrow> (if has c POUND \<and> ib_base b = 8 \<and> (buf = [] \<or> last buf \<noteq> 48) then put 48 buf else Some buf);
     let pad_cnt = max 0 (to_int32 (width c - int (length buf) - (if x \<noteq> 0 then 2 else 0) - (if sign \<noteq> 0 then 1 else 0)));
     Some ((if \<not> has c MINUS \<and> \<not> has c ZERO then output_dup 32 pad_cnt else []) @
       (if sign \<noteq> 0 then [sign] else []) @
       (if x \<noteq> 0 then [48, x] else []) @
       (if has c ZERO then output_dup 48 pad_cnt else []) @
       rev buf @
       (if has c MINUS then output_dup 32 pad_cnt else [])) }"

definition format_string :: "nat list \<Rightarrow> printf_conversion \<Rightarrow> nat list" where
  "format_string str c =
     (let len = int (length str) in
      (if len < width c \<and> \<not> has c MINUS then output_dup 32 (width c - len) else []) @
      str @
      (if len < width c \<and> has c MINUS then output_dup 32 (width c - len) else []))"

subsection \<open>Converting an argument\<close>

definition signed_arg :: "conversion_type \<Rightarrow> nat list \<Rightarrow> (int \<times> nat list) option" where
  "signed_arg t as = (case t of
     T_CHAR \<Rightarrow> map_option (map_prod (signed_take_bit 7 \<circ> int) id) (va_word as)
   | T_SHORT \<Rightarrow> map_option (map_prod (signed_take_bit 15 \<circ> int) id) (va_word as)
   | T_INT \<Rightarrow> va_int as
   | T_INTMAX \<Rightarrow> map_option (map_prod (signed_take_bit 63 \<circ> int) id) (va_word64 as)
   | T_LONG \<Rightarrow> va_int as
   | T_LONGLONG \<Rightarrow> map_option (map_prod (signed_take_bit 63 \<circ> int) id) (va_word64 as)
   | T_PTRDIFFT \<Rightarrow> va_int as
   | T_SIZET \<Rightarrow> map_option (map_prod (\<lambda>v. if (2 ^ 32 - 1) div 2 < v then int v - (2 ^ 32 - 1) - 1 else int v) id) (va_word as))"

definition unsigned_arg :: "conversion_type \<Rightarrow> nat list \<Rightarrow> (nat \<times> nat list) option" where
  "unsigned_arg t as = (case t of
     T_CHAR \<Rightarrow> map_option (map_prod (\<lambda>v. v mod 2 ^ 8) id) (va_word as)
   | T_SHORT \<Rightarrow> map_option (map_prod (\<lambda>v. v mod 2 ^ 16) id) (va_word as)
   | T_INT \<Rightarrow> va_word as
   | T_INTMAX \<Rightarrow> va_word64 as
   | T_LONG \<Rightarrow> va_word as
   | T_LONGLONG \<Rightarrow> va_word64 as
   | T_PTRDIFFT \<Rightarrow> va_word as
   | T_SIZET \<Rightarrow> va_word as)"

definition unsigned_base :: "nat \<Rightarrow> integer_base" where
  "unsigned_base k = (if k = 111 then base_o else if k = 117 then base_d else if k = 120 then base_x else base_X)"

definition string_at :: "mem \<Rightarrow> ptr \<Rightarrow> nat \<Rightarrow> nat list" where
  "string_at m p n = map (\<lambda>i. unat (m (p + i))) [0..<n]"

definition string_arg :: "mem \<Rightarrow> ptr \<Rightarrow> int \<Rightarrow> nat list" where
  "string_arg m s p =
     (let maxlen = nat (p mod 2 ^ 32) in
      if s = NULL then take maxlen (codes ''(null)'') else string_at m s (strnlen m s maxlen))"

definition no_conversion :: "nat \<Rightarrow> string \<Rightarrow> nat list" where
  "no_conversion k what = codes ''<<no %'' @ [k] @ codes what"

text \<open>The character \<open>k\<close> of a conversion, its output and the arguments it leaves.\<close>

definition convert :: "mem \<Rightarrow> nat \<Rightarrow> printf_conversion \<Rightarrow> nat list \<Rightarrow> (nat list \<times> nat list) option" where
  "convert m k c as =
     (if k \<in> {100, 105} then do {
        (v, as) \<leftarrow> signed_arg (type_of c) as;
        out \<leftarrow> format_integer (nat \<bar>v\<bar>) True (v < 0) base_d c;
        Some (out, as) }
      else if k \<in> {111, 117, 120, 88} then do {
        (v, as) \<leftarrow> unsigned_arg (type_of c) as;
        out \<leftarrow> format_integer v False False (unsigned_base k) c;
        Some (out, as) }
      else if k = 99 then do {
        (ch, as) \<leftarrow> va_word as;
        Some (format_string [ch mod 2 ^ 8] c, as) }
      else if k = 115 then do {
        (s, as) \<leftarrow> va_word as;
        Some (format_string (string_arg m s (precision c)) c, as) }
      else if k = 112 then do {
        (p, as) \<leftarrow> va_word as;
        out \<leftarrow> format_integer p False False base_x (c\<lparr>flags := POUND\<rparr>);
        Some (out, as) }
      else if k \<in> {102, 101, 69, 103, 71, 110} then Some (no_conversion k '' in kernel>>'', as)
      else Some (no_conversion k '' conversion>>'', as))"

text \<open>What the loops of the parser leave is not longer than what they got.\<close>

lemma parse_flags_length: "length (fst (parse_flags s f)) \<le> length s"
  by (induction s f rule: parse_flags.induct) auto

lemma parse_digits_length: "length (fst (parse_digits s n)) \<le> length s"
  by (induction s n rule: parse_digits.induct) auto

lemma parse_number_length: "parse_number s as = Some (s', n, as') \<Longrightarrow> length s' \<le> length s"
  using parse_digits_length [of s 0] by (auto simp: parse_number_def split: if_splits prod.splits elim!: bind_eq_SomeE)

lemma parse_type_length: "length (fst (parse_type s)) \<le> length s"
  by (auto simp: parse_type_def Let_def)

lemma parse_conversion_length: "parse_conversion s as = Some (c, s', as') \<Longrightarrow> length s' \<le> length s"
proof -
  assume parse: "parse_conversion s as = Some (c, s', as')"
  obtain s1 f1 where f1: "parse_flags s 0 = (s1, f1)" by (cases "parse_flags s 0")
  obtain s2 w as2 where w: "parse_number s1 as = Some (s2, w, as2)"
    using parse f1 by (auto simp: parse_conversion_def Let_def elim!: bind_eq_SomeE)
  obtain s3 p as3 where p: "(if cur s2 = 46 then parse_number (tl s2) as2 else Some (s2, -1, as2)) = Some (s3, p, as3)"
    using parse f1 w by (auto simp: parse_conversion_def Let_def split: if_splits elim!: bind_eq_SomeE)
  have "s' = fst (parse_type s3)"
    using parse f1 w p by (auto simp: parse_conversion_def Let_def split: prod.splits if_splits)
  moreover have "length s3 \<le> length s2" using p parse_number_length [of "tl s2"] by (force split: if_splits)
  ultimately show ?thesis
    using parse_type_length [of s3] parse_number_length [OF w] parse_flags_length [of s 0] f1 by simp
qed

subsection \<open>The loop over the format\<close>

function do_vprintf :: "mem \<Rightarrow> nat list \<Rightarrow> nat list \<Rightarrow> nat list option" where
  "do_vprintf m [] as = Some []"
| "do_vprintf m (ch # format) as =
     (if ch \<noteq> 37 then map_option ((#) ch) (do_vprintf m format as)
      else if cur format = 37 then map_option ((#) 37) (do_vprintf m (tl format) as)
      else (case parse_conversion format as of
          Some (c, k # rest, as) \<Rightarrow> (case convert m k c as of
              Some (out, as) \<Rightarrow> map_option ((@) out) (do_vprintf m rest as)
            | None \<Rightarrow> None)
        | _ \<Rightarrow> None))"
  by pat_completeness auto
termination
  by (relation "measure (\<lambda>(_, format, _). length format)") (auto dest!: parse_conversion_length)

subsection \<open>Output to a buffer\<close>

record vsnprintf_aux =
  va_p :: "nat list"
  va_length :: int
  max_length :: int

definition vsnprintf_helper :: "nat \<Rightarrow> vsnprintf_aux \<Rightarrow> vsnprintf_aux" where
  "vsnprintf_helper ch aux =
     (let store = (va_length aux < max_length aux);
          aux = aux\<lparr>va_length := to_int32 (va_length aux + 1)\<rparr>
      in if store then aux\<lparr>va_p := va_p aux @ [ch]\<rparr> else aux)"

text \<open>The bytes written to the buffer, and the result.\<close>

definition vsnprintf :: "mem \<Rightarrow> nat \<Rightarrow> nat list \<Rightarrow> nat list \<Rightarrow> (nat list \<times> int) option" where
  "vsnprintf m buf_size format as = do {
     out \<leftarrow> do_vprintf m format as;
     let aux = fold vsnprintf_helper out
       \<lparr>va_p = [], va_length = 0, max_length = (if 0 < buf_size then to_int32 (int (buf_size - 1)) else 0)\<rparr>;
     Some (if 0 < buf_size then va_p aux @ [0] else va_p aux, va_length aux) }"

definition snprintf :: "mem \<Rightarrow> nat \<Rightarrow> nat list \<Rightarrow> nat list \<Rightarrow> (nat list \<times> int) option" where
  "snprintf = vsnprintf"

subsection \<open>Dumps\<close>

definition pr :: "string \<Rightarrow> nat list \<Rightarrow> nat list option" where
  "pr format as = do_vprintf (\<lambda>_. 0) (codes format) as"

definition isprint :: "nat \<Rightarrow> bool" where
  "isprint c \<longleftrightarrow> 32 \<le> c \<and> c < 127"

text \<open>One line of a dump: the bytes of \<open>line\<close> from column \<open>start\<close>.\<close>

definition hex_line :: "nat \<Rightarrow> nat \<Rightarrow> nat list \<Rightarrow> bool \<Rightarrow> nat list option" where
  "hex_line ofs start line ascii =
     (let per_line = 16; stop = start + length line in
      map_option concat (those (
        [pr ''%08jx  '' [ROUND_DOWN ofs per_line, 0]] @
        replicate start (pr ''   '' []) @
        map (\<lambda>i. pr ''%02hhx%c'' [line ! (i - start), if i = per_line div 2 - 1 then 45 else 32]) [start..<stop] @
        (if ascii then
           replicate (per_line - stop) (pr ''   '' []) @ [pr ''|'' []] @
           replicate start (pr '' '' []) @
           map (\<lambda>i. pr ''%c'' [if isprint (line ! (i - start)) then line ! (i - start) else 46]) [start..<stop] @
           replicate (per_line - stop) (pr '' '' []) @ [pr ''|'' []]
         else []) @
        [Some [10]])))"

function hex_dump :: "nat \<Rightarrow> nat list \<Rightarrow> bool \<Rightarrow> nat list option" where
  "hex_dump ofs [] ascii = Some []"
| "hex_dump ofs (b # bs) ascii =
     (let start = ofs mod 16;
          stop = (if length (b # bs) < 16 - start then start + length (b # bs) else 16);
          n = stop - start
      in do {
        l \<leftarrow> hex_line ofs start (take n (b # bs)) ascii;
        rest \<leftarrow> hex_dump ((ofs + n) mod 2 ^ 32) (drop n (b # bs)) ascii;
        Some (l @ rest) })"
  by pat_completeness auto
termination by (relation "measure (\<lambda>(_, bs, _). length bs)") auto

section \<open>Integers\<close>

lemma digits_loop_total:
  assumes "1 < ib_base b" "val < ib_base b ^ k" "length buf + 2 * k \<le> BUF_SIZE"
  shows "\<exists>ds. digits_loop val g b n buf = Some (buf @ ds) \<and> length ds \<le> 2 * k"
  using assms(2,3)
proof (induction k arbitrary: val buf n)
  case 0
  then show ?case by (simp add: digits_loop.simps)
next
  case (Suc k)
  show ?case
  proof (cases "val = 0")
    case True
    then show ?thesis by (simp add: digits_loop.simps)
  next
    case False
    have "val div ib_base b < ib_base b ^ k" using Suc.prems(1) by (simp add: less_mult_imp_div_less mult.commute)
    moreover define c where "c = (if g \<and> 0 < n \<and> n mod ib_group b = 0 then [44] else []) @ [ib_digits b ! (val mod ib_base b)]"
    moreover have "length c \<le> 2" by (simp add: c_def)
    ultimately obtain ds where "digits_loop (val div ib_base b) g b (n + 1) (buf @ c) = Some ((buf @ c) @ ds)" "length ds \<le> 2 * k"
      using Suc.IH [of "val div ib_base b" "buf @ c" "n + 1"] Suc.prems(2) by fastforce
    moreover have "digits_loop val g b n buf = digits_loop (val div ib_base b) g b (n + 1) (buf @ c)"
      using False assms(1) Suc.prems(2) by (subst digits_loop.simps) (simp add: put_def c_def BUF_SIZE_def)
    ultimately show ?thesis using \<open>length c \<le> 2\<close> by (intro exI [of _ "c @ ds"]) auto
  qed
qed

lemma format_integer_total:
  assumes "val < 2 ^ 64" "b \<in> {base_d, base_o, base_x, base_X}"
  shows "format_integer val is_signed negative b c \<noteq> None"
proof -
  define k :: nat where "k = (if b = base_o then 22 else if b = base_d then 20 else 16)"
  have "val < ib_base b ^ k" "1 < ib_base b" "2 * k \<le> 44"
    using assms by (auto simp: k_def base_d_def base_o_def base_x_def base_X_def)
  then obtain ds where "digits_loop val (has c GROUP) b 0 [] = Some ds" "length ds \<le> 44"
    using digits_loop_total [of b val k "[]" "has c GROUP" 0] by (auto simp: BUF_SIZE_def)
  moreover have "length (pad_digits p ds) < 64" if "length ds \<le> 44" for p
    using that by (simp add: pad_digits_def BUF_SIZE_def)
  ultimately show ?thesis by (simp add: format_integer_def put_def BUF_SIZE_def Let_def)
qed

fun dec :: "nat \<Rightarrow> nat list" where
  "dec n = (if n = 0 then [] else (48 + n mod 10) # dec (n div 10))"

declare dec.simps [simp del]

lemma dec_length: "n < 10 ^ k \<Longrightarrow> length (dec n) \<le> k"
proof (induction k arbitrary: n)
  case (Suc k)
  then have "length (dec (n div 10)) \<le> k" by (simp add: less_mult_imp_div_less)
  then show ?case by (subst dec.simps) simp
qed (simp add: dec.simps)

lemma dec_digits: "list_all isdigit (dec n)"
proof (induction n rule: dec.induct)
  case (1 n)
  have "isdigit (48 + n mod 10)" by (simp add: isdigit_def)
  with 1 show ?case by (subst dec.simps) simp
qed

lemma dec_value: "digits_value (rev (dec n)) = int n"
proof (induction n rule: dec.induct)
  case (1 n)
  show ?case
  proof (cases "n = 0")
    case True
    then show ?thesis by (simp add: dec.simps digits_value_def)
  next
    case False
    have "digits_value (rev (dec n)) = digits_value (rev (dec (n div 10))) * 10 + int (n mod 10)"
      using False by (subst dec.simps) (simp add: digits_value_def)
    also have "\<dots> = int (n div 10 * 10 + n mod 10)" using 1 False by (simp only: of_nat_add of_nat_mult of_nat_numeral simp_thms)
    finally show ?thesis by (simp only: div_mult_mod_eq)
  qed
qed

lemma decimal_digit: "k < 10 \<Longrightarrow> ib_digits base_d ! k = 48 + k"
  unfolding base_d_def integer_base.simps by (rule nth_upt) simp

lemma digits_loop_dec: "length buf + length (dec val) \<le> BUF_SIZE \<Longrightarrow> digits_loop val False base_d n buf = Some (buf @ dec val)"
proof (induction val arbitrary: n buf rule: dec.induct)
  case (1 val)
  show ?case
  proof (cases "val = 0")
    case True
    then show ?thesis by (simp add: digits_loop.simps dec.simps)
  next
    case False
    have dec: "dec val = (48 + val mod 10) # dec (val div 10)" using False by (subst dec.simps) simp
    have "ib_base base_d = 10" by (simp add: base_d_def)
    then have "digits_loop val False base_d n buf = digits_loop (val div 10) False base_d (n + 1) (buf @ [48 + val mod 10])"
      using False 1(2) dec by (subst digits_loop.simps) (simp add: put_def decimal_digit)
    then show ?thesis using 1(1) [OF False, of "buf @ [48 + val mod 10]" "n + 1"] 1(2) dec by simp
  qed
qed

lemma digits_value_zeros: "digits_value (replicate k 48 @ ds) = digits_value ds"
  by (induction k) (simp_all add: digits_value_def)

lemma skip_spaces: "list_all isspace sp \<Longrightarrow> skip_space (sp @ s) = skip_space s"
  by (induction sp) auto

lemma atoi_none:
  assumes "list_all isspace sp" "list_all isspace rest" "sign \<in> {[], [43], [45]}"
  shows "atoi (sp @ sign @ rest) = 0"
proof -
  have "\<not> isdigit x" if "isspace x" for x using that by (auto simp: isspace_def isdigit_def)
  then have "digit_loop 0 rest = 0" using assms(2) by (cases rest) auto
  moreover have "skip_space rest = []" using skip_spaces [OF assms(2), of "[]"] by simp
  ultimately show ?thesis
    using assms(3) by (auto simp: atoi_def skip_spaces [OF assms(1)] isspace_def to_int32_def)
qed

lemma spaces: "list_all isspace (output_dup 32 k)"
  by (simp add: output_dup_def list_all_iff isspace_def)

lemma format_decimal:
  assumes "\<not> has c GROUP" "val < 2 ^ 32"
  obtains lead sgn digs trail where "format_integer val True neg base_d c = Some (lead @ sgn @ digs @ trail)"
    "list_all isspace lead" "list_all isspace trail" "list_all isdigit digs" "digits_value digs = int val"
    "sgn = (if neg then [45] else if has c PLUS then [43] else [])"
proof -
  have "length (dec val) \<le> 10" using assms(2) by (intro dec_length) simp
  then have loop: "digits_loop val (has c GROUP) base_d 0 [] = Some (dec val)"
    using digits_loop_dec [of "[]" val 0] assms(1) by (simp add: BUF_SIZE_def)
  let ?buf = "pad_digits (if precision c < 0 then 1 else precision c) (dec val)"
  have base: "ib_base base_d = 10" "ib_x base_d = 0" by (simp_all add: base_d_def)
  define pad where "pad = max 0 (to_int32 (width c - int (length ?buf) - (if sign_of c True neg \<noteq> 0 then 1 else 0)))"
  let ?lead = "(if \<not> has c MINUS \<and> \<not> has c ZERO then output_dup 32 pad else []) @ (if sign_of c True neg = 32 then [32] else [])"
  let ?digs = "(if has c ZERO then output_dup 48 pad else []) @ rev ?buf"
  let ?trail = "if has c MINUS then output_dup 32 pad else []"
  let ?sgn = "if neg then [45] else if has c PLUS then [43] else []"
  have zeros: "?digs = replicate z 48 @ rev (dec val)" if "z = (if has c ZERO then nat pad else 0) + (length ?buf - length (dec val))" for z
    using that by (simp add: output_dup_def pad_digits_def replicate_add)
  have "list_all isdigit (replicate z 48)" for z by (simp add: list_all_iff isdigit_def)
  then have digs: "list_all isdigit ?digs" "digits_value ?digs = int val"
    unfolding zeros [OF refl] using dec_digits [of val] by (simp_all add: digits_value_zeros dec_value list_all_rev)
  have sign: "(if sign_of c True neg \<noteq> 0 then [sign_of c True neg] else []) = (if sign_of c True neg = 32 then [32] else []) @ ?sgn"
    by (simp add: sign_of_def)
  have "format_integer val True neg base_d c =
      Some ((if \<not> has c MINUS \<and> \<not> has c ZERO then output_dup 32 pad else []) @
        (if sign_of c True neg \<noteq> 0 then [sign_of c True neg] else []) @ ?digs @ ?trail)"
    by (simp add: format_integer_def loop base pad_def Let_def split del: if_split cong: if_cong)
  then have "format_integer val True neg base_d c = Some (?lead @ ?sgn @ ?digs @ ?trail)"
    unfolding sign append_assoc .
  moreover have "list_all isspace ?lead" using spaces by (simp add: isspace_def)
  moreover have "list_all isspace ?trail" using spaces by simp
  ultimately show thesis using that digs by blast
qed

lemma format_atoi:
  assumes "\<not> has c GROUP" "- (2 ^ 31) \<le> n" "n < 2 ^ 31"
  shows "\<exists>out. format_integer (nat \<bar>n\<bar>) True (n < 0) base_d c = Some out \<and> atoi out = n"
proof -
  have "nat \<bar>n\<bar> < 2 ^ 32" using assms(2,3) by simp
  then obtain lead sgn digs trail where
      out: "format_integer (nat \<bar>n\<bar>) True (n < 0) base_d c = Some (lead @ sgn @ digs @ trail)"
    and sp: "list_all isspace lead" "list_all isspace trail" and d: "list_all isdigit digs" "digits_value digs = int (nat \<bar>n\<bar>)"
    and sgn: "sgn = (if n < 0 then [45] else if has c PLUS then [43] else [])"
    by (rule format_decimal [OF assms(1)])
  have "trail = [] \<or> \<not> isdigit (hd trail)" using sp(2) by (cases trail) (auto simp: isspace_def isdigit_def)
  note vals = atoi_values [OF sp(1) d(1) _ this]
  have "atoi (lead @ sgn @ digs @ trail) = n"
  proof (cases "digs = []")
    case True
    then have "n = 0" using d(2) by (simp add: digits_value_def)
    then show ?thesis using True sgn atoi_none [OF sp(1,2), of sgn] by (simp split: if_splits)
  next
    case False
    then show ?thesis using vals [OF False] d(2) sgn assms(2,3) by (simp split: if_splits)
  qed
  then show ?thesis using out by blast
qed

section \<open>Buffers\<close>

lemma vsnprintf_fold:
  assumes "va_length aux = int (length out0)" "va_p aux = take k out0" "max_length aux = int k"
    and "length (out0 @ out) < 2 ^ 31"
  shows "fold vsnprintf_helper out aux = aux\<lparr>va_p := take k (out0 @ out), va_length := int (length (out0 @ out))\<rparr>"
  using assms
proof (induction out arbitrary: out0 aux)
  case (Cons ch out)
  have "to_int32 (int (length out0) + 1) = int (length (out0 @ [ch]))"
    using Cons.prems(4) by (simp add: to_int32_id)
  then have "vsnprintf_helper ch aux = aux\<lparr>va_p := take k (out0 @ [ch]), va_length := int (length (out0 @ [ch]))\<rparr>"
    using Cons.prems(1-3) by (auto simp: vsnprintf_helper_def Let_def)
  then show ?case using Cons.IH [of "vsnprintf_helper ch aux" "out0 @ [ch]"] Cons.prems by simp
qed simp

text \<open>\<open>snprintf\<close> writes as much of the output as fits and a terminator, and returns the length of the whole output.\<close>

lemma snprintf_buffer:
  assumes "do_vprintf m format as = Some out" "length out < 2 ^ 31" "0 < sz" "sz \<le> 2 ^ 31"
  shows "snprintf m sz format as = Some (take (sz - 1) out @ [0], int (length out))"
proof -
  have "to_int32 (int (sz - 1)) = int (sz - 1)" using assms(3,4) by (intro to_int32_id) auto
  then show ?thesis
    using assms vsnprintf_fold [of "\<lparr>va_p = [], va_length = 0, max_length = int (sz - 1)\<rparr>" "[]" "sz - 1" out]
    by (simp add: snprintf_def vsnprintf_def)
qed

section \<open>Printing and reading back\<close>

lemma parse_percent: "cur s = 37 \<Longrightarrow> parse_conversion s as = Some (c, s', as') \<Longrightarrow> s' = s"
  by (cases s) (auto simp: parse_conversion_def parse_number_def parse_type_def cur_def isdigit_def Let_def)

lemma to_int32_mod: "- (2 ^ 31) \<le> n \<Longrightarrow> n < 2 ^ 31 \<Longrightarrow> to_int32 (n mod 2 ^ 32) = n"
  using signed_take_bit_take_bit [of 31 32 n] by (simp add: to_int32_def take_bit_eq_mod signed_take_bit_int_eq_self)

text \<open>C39. Printing an \<open>int\<close> with \<open>%d\<close> and reading the output with \<open>atoi\<close> gives the number back, for every \<open>int\<close> and every
  combination of flags but grouping, width and precision, whether they are in the format or arguments; \<open>snprintf\<close> puts that
  output and a terminator into every buffer it fits and returns its length.\<close>

theorem printf_atoi:
  assumes "parse_conversion spec as = Some (c, [100], [nat (n mod 2 ^ 32)])" "\<not> has c GROUP" "type_of c = T_INT"
    and "- (2 ^ 31) \<le> n" "n < 2 ^ 31"
  shows "\<exists>out. do_vprintf m (37 # spec) as = Some out \<and> atoi out = n \<and>
    (\<forall>sz. length out < sz \<and> sz \<le> 2 ^ 31 \<longrightarrow> snprintf m sz (37 # spec) as = Some (out @ [0], int (length out)))"
proof -
  obtain out where out: "format_integer (nat \<bar>n\<bar>) True (n < 0) base_d c = Some out" "atoi out = n"
    using format_atoi [OF assms(2,4,5)] by blast
  have "cur spec \<noteq> 37"
  proof
    assume percent: "cur spec = 37"
    have "spec = [100]" using parse_percent [OF percent assms(1)] by simp
    with percent show False by (simp add: cur_def)
  qed
  moreover have "convert m 100 c [nat (n mod 2 ^ 32)] = Some (out, [])"
    using out(1) to_int32_mod [OF assms(4,5)] by (simp add: convert_def signed_arg_def va_int_def assms(3))
  ultimately have print: "do_vprintf m (37 # spec) as = Some out" using assms(1) by simp
  have "snprintf m sz (37 # spec) as = Some (out @ [0], int (length out))" if "length out < sz" "sz \<le> 2 ^ 31" for sz
    using snprintf_buffer [OF print, of sz] that by simp
  then show ?thesis using print out(2) by blast
qed

text \<open>\<open>%+8d\<close> with -42.\<close>

theorem printf_atoi_witness:
  "\<exists>out. do_vprintf (\<lambda>_. 0) [37, 43, 56, 100] [4294967254] = Some out \<and> atoi out = -42"
proof -
  let ?c = "\<lparr>flags = PLUS, width = 8, precision = -1, type_of = T_INT\<rparr>"
  have "parse_conversion [43, 56, 100] [4294967254] = Some (?c, [100], [nat ((-42) mod 2 ^ 32)])"
    by (simp add: parse_conversion_def parse_number_def parse_type_def cur_def isdigit_def MINUS_def PLUS_def SPACE_def to_int32_def
      Let_def)
  moreover have "\<not> has ?c GROUP" by (simp add: has_def GROUP_def PLUS_def)
  ultimately show ?thesis using printf_atoi [of "[43, 56, 100]" "[4294967254]" ?c "-42" "\<lambda>_. 0"] by force
qed

end
