(* ===== verification/Malloc.thy ===== *)
theory Malloc
  imports Palloc
begin

text \<open>
  The block allocator, \<open>threads/malloc.c\<close>: descriptors of the block sizes with their lists of free blocks, and arenas, the
  pages that blocks are cut from.  The header of an arena is kept apart from the bytes of its page, and so are the links of
  the lists of free blocks, which are lists of addresses here; the bytes of the blocks are those of the machine.
\<close>

section \<open>Definitions\<close>

subsection \<open>State\<close>

record desc =
  d_block_size :: nat
  blocks_per_arena :: nat
  free_list :: "ptr list"
  d_lock :: bool

definition ARENA_MAGIC :: nat where "ARENA_MAGIC = 0x9a548eed"

text \<open>\<open>a_desc\<close> is the index of the descriptor; a big block has none.\<close>

record arena =
  a_magic :: nat
  a_desc :: "nat option"
  free_cnt :: nat

definition arena_size :: nat where "arena_size = 12"

record allocator =
  a_m :: machine
  descs :: "desc list"
  arenas :: "ptr \<rightharpoonup> arena"

definition upd_desc :: "nat \<Rightarrow> (desc \<Rightarrow> desc) \<Rightarrow> allocator \<Rightarrow> allocator" where
  "upd_desc i f s = s\<lparr>descs := (descs s)[i := f (descs s ! i)]\<rparr>"

definition set_arena :: "ptr \<Rightarrow> arena \<Rightarrow> allocator \<Rightarrow> allocator" where
  "set_arena a h s = s\<lparr>arenas := (arenas s)(a \<mapsto> h)\<rparr>"

definition desc_lock :: "nat \<Rightarrow> allocator \<Rightarrow> allocator option" where
  "desc_lock i s = do { ASSERT (\<not> d_lock (descs s ! i)); Some (upd_desc i (\<lambda>d. d\<lparr>d_lock := True\<rparr>) s) }"

definition desc_unlock :: "nat \<Rightarrow> allocator \<Rightarrow> allocator option" where
  "desc_unlock i s = do { ASSERT (d_lock (descs s ! i)); Some (upd_desc i (\<lambda>d. d\<lparr>d_lock := False\<rparr>) s) }"

subsection \<open>Initialisation\<close>

function init_descs :: "nat \<Rightarrow> desc list \<Rightarrow> desc list option" where
  "init_descs block_size ds =
     (if 0 < block_size \<and> block_size < PGSIZE div 2 then do {
        ASSERT (length ds + 1 \<le> 10);
        init_descs (block_size * 2)
          (ds @ [\<lparr>d_block_size = block_size, blocks_per_arena = (PGSIZE - arena_size) div block_size, free_list = [],
            d_lock = False\<rparr>]) }
      else Some ds)"
  by auto
termination by (relation "measure (\<lambda>(n, _). PGSIZE - n)") auto

declare init_descs.simps [simp del]

definition malloc_init :: "machine \<Rightarrow> allocator option" where
  "malloc_init m = do { ds \<leftarrow> init_descs 16 []; Some \<lparr>a_m = m, descs = ds, arenas = Map.empty\<rparr> }"

subsection \<open>Blocks and arenas\<close>

definition block_to_arena :: "ptr \<Rightarrow> allocator \<Rightarrow> (ptr \<times> arena) option" where
  "block_to_arena b s = do {
     let a = pg_round_down b;
     ASSERT (a \<noteq> NULL);
     h \<leftarrow> arenas s a;
     ASSERT (a_magic h = ARENA_MAGIC);
     ASSERT (case a_desc h of None \<Rightarrow> True | Some i \<Rightarrow> (pg_ofs b + 2 ^ 32 - arena_size) mod 2 ^ 32 mod d_block_size (descs s ! i) = 0);
     ASSERT (a_desc h \<noteq> None \<or> pg_ofs b = arena_size);
     Some (a, h) }"

definition arena_to_block :: "ptr \<Rightarrow> nat \<Rightarrow> allocator \<Rightarrow> ptr option" where
  "arena_to_block a idx s = do {
     ASSERT (a \<noteq> NULL);
     h \<leftarrow> arenas s a;
     ASSERT (a_magic h = ARENA_MAGIC);
     i \<leftarrow> a_desc h;
     ASSERT (idx < blocks_per_arena (descs s ! i));
     Some (a + arena_size + idx * d_block_size (descs s ! i)) }"

subsection \<open>Allocation\<close>

fun find_desc :: "nat \<Rightarrow> desc list \<Rightarrow> nat" where
  "find_desc sz [] = 0"
| "find_desc sz (d # ds) = (if d_block_size d \<ge> sz then 0 else Suc (find_desc sz ds))"

definition big_pages :: "nat \<Rightarrow> nat" where
  "big_pages sz = ((sz + arena_size) mod 2 ^ 32 + PGSIZE - 1) mod 2 ^ 32 div PGSIZE"

definition malloc_big :: "nat \<Rightarrow> allocator \<Rightarrow> (ptr \<times> allocator) option" where
  "malloc_big sz s = do {
     let page_cnt = big_pages sz;
     (a, m) \<leftarrow> palloc_get_multiple (plain_flags False) page_cnt (a_m s);
     let s = s\<lparr>a_m := m\<rparr>;
     if a = NULL then Some (NULL, s)
     else Some (a + arena_size, set_arena a \<lparr>a_magic = ARENA_MAGIC, a_desc = None, free_cnt = page_cnt\<rparr> s) }"

fun fill_arena :: "ptr \<Rightarrow> nat \<Rightarrow> nat list \<Rightarrow> allocator \<Rightarrow> allocator option" where
  "fill_arena a i [] s = Some s"
| "fill_arena a i (k # ks) s = do {
     b \<leftarrow> arena_to_block a k s;
     fill_arena a i ks (upd_desc i (\<lambda>d. d\<lparr>free_list := free_list d @ [b]\<rparr>) s) }"

text \<open>A new arena when the list of free blocks is empty; \<open>False\<close> when there is no page.\<close>

definition refill :: "nat \<Rightarrow> allocator \<Rightarrow> (bool \<times> allocator) option" where
  "refill i s =
     (if free_list (descs s ! i) = [] then do {
        (a, m) \<leftarrow> palloc_get_page (plain_flags False) (a_m s);
        let s = s\<lparr>a_m := m\<rparr>;
        if a = NULL then Some (False, s)
        else do {
          let n = blocks_per_arena (descs s ! i);
          s \<leftarrow> fill_arena a i [0..<n] (set_arena a \<lparr>a_magic = ARENA_MAGIC, a_desc = Some i, free_cnt = n\<rparr> s);
          Some (True, s) } }
      else Some (True, s))"

definition take_block :: "nat \<Rightarrow> allocator \<Rightarrow> (ptr \<times> allocator) option" where
  "take_block i s = do {
     ASSERT (free_list (descs s ! i) \<noteq> []);
     let b = hd (free_list (descs s ! i));
     let s = upd_desc i (\<lambda>d. d\<lparr>free_list := tl (free_list d)\<rparr>) s;
     (a, h) \<leftarrow> block_to_arena b s;
     Some (b, set_arena a (h\<lparr>free_cnt := (free_cnt h + 2 ^ 32 - 1) mod 2 ^ 32\<rparr>) s) }"

definition malloc :: "nat \<Rightarrow> allocator \<Rightarrow> (ptr \<times> allocator) option" where
  "malloc sz s =
     (if sz = 0 then Some (NULL, s)
      else (let i = find_desc sz (descs s) in
        if i = length (descs s) then malloc_big sz s
        else do {
          s \<leftarrow> desc_lock i s;
          (ok, s) \<leftarrow> refill i s;
          if \<not> ok then do { s \<leftarrow> desc_unlock i s; Some (NULL, s) }
          else do {
            (b, s) \<leftarrow> take_block i s;
            s \<leftarrow> desc_unlock i s;
            Some (b, s) } }))"

definition calloc :: "nat \<Rightarrow> nat \<Rightarrow> allocator \<Rightarrow> (ptr \<times> allocator) option" where
  "calloc a b s =
     (let sz = a * b mod 2 ^ 32 in
      if sz < a \<or> sz < b then Some (NULL, s)
      else do {
        (p, s) \<leftarrow> malloc sz s;
        if p \<noteq> NULL then do {
          (_, mem) \<leftarrow> memset (m_mem (a_m s)) p 0 sz;
          Some (p, s\<lparr>a_m := (a_m s)\<lparr>m_mem := mem\<rparr>\<rparr>) }
        else Some (p, s) })"

subsection \<open>Release\<close>

fun empty_arena :: "ptr \<Rightarrow> nat \<Rightarrow> nat list \<Rightarrow> allocator \<Rightarrow> allocator option" where
  "empty_arena a i [] s = Some s"
| "empty_arena a i (k # ks) s = do {
     b \<leftarrow> arena_to_block a k s;
     ASSERT (b \<in> set (free_list (descs s ! i)));
     empty_arena a i ks (upd_desc i (\<lambda>d. d\<lparr>free_list := remove1 b (free_list d)\<rparr>) s) }"

text \<open>An arena whose blocks are all free goes back to the page allocator.\<close>

definition put_block :: "ptr \<Rightarrow> ptr \<Rightarrow> arena \<Rightarrow> nat \<Rightarrow> allocator \<Rightarrow> allocator option" where
  "put_block b a h i s = do {
     let s = upd_desc i (\<lambda>d. d\<lparr>free_list := b # free_list d\<rparr>) s;
     let h = h\<lparr>free_cnt := (free_cnt h + 1) mod 2 ^ 32\<rparr>;
     let s = set_arena a h s;
     let n = blocks_per_arena (descs s ! i);
     if free_cnt h \<ge> n then do {
       ASSERT (free_cnt h = n);
       s \<leftarrow> empty_arena a i [0..<n] s;
       m \<leftarrow> palloc_free_page a (a_m s);
       Some (s\<lparr>a_m := m, arenas := (arenas s)(a := None)\<rparr>) }
     else Some s }"

definition free :: "ptr \<Rightarrow> allocator \<Rightarrow> allocator option" where
  "free p s =
     (if p = NULL then Some s
      else do {
        (a, h) \<leftarrow> block_to_arena p s;
        case a_desc h of
          Some i \<Rightarrow> do {
            (_, mem) \<leftarrow> memset (m_mem (a_m s)) p 0xcc (d_block_size (descs s ! i));
            s \<leftarrow> desc_lock i (s\<lparr>a_m := (a_m s)\<lparr>m_mem := mem\<rparr>\<rparr>);
            s \<leftarrow> put_block p a h i s;
            desc_unlock i s }
        | None \<Rightarrow> do {
            m \<leftarrow> palloc_free_multiple a (free_cnt h) (a_m s);
            Some (s\<lparr>a_m := m, arenas := (arenas s)(a := None)\<rparr>) } })"

subsection \<open>Reallocation\<close>

definition block_size :: "ptr \<Rightarrow> allocator \<Rightarrow> nat option" where
  "block_size block s = do {
     (a, h) \<leftarrow> block_to_arena block s;
     Some (case a_desc h of Some i \<Rightarrow> d_block_size (descs s ! i) | None \<Rightarrow> (PGSIZE * free_cnt h + 2 ^ 32 - pg_ofs block) mod 2 ^ 32) }"

definition realloc :: "ptr \<Rightarrow> nat \<Rightarrow> allocator \<Rightarrow> (ptr \<times> allocator) option" where
  "realloc old_block new_size s =
     (if new_size = 0 then do {
        s \<leftarrow> free old_block s;
        Some (NULL, s) }
      else do {
        (new_block, s) \<leftarrow> malloc new_size s;
        if old_block \<noteq> NULL \<and> new_block \<noteq> NULL then do {
          old_size \<leftarrow> block_size old_block s;
          let min_size = (if new_size < old_size then new_size else old_size);
          (_, mem) \<leftarrow> memcpy (m_mem (a_m s)) new_block old_block min_size;
          s \<leftarrow> free old_block (s\<lparr>a_m := (a_m s)\<lparr>m_mem := mem\<rparr>\<rparr>);
          Some (new_block, s) }
        else Some (new_block, s) })"

section \<open>Invariant\<close>

text \<open>A block size, the blocks of an arena and the pages it is made of.\<close>

definition desc_ok :: "desc \<Rightarrow> bool" where
  "desc_ok d \<longleftrightarrow> 0 < d_block_size d \<and> 0 < blocks_per_arena d \<and> blocks_per_arena d * d_block_size d + arena_size \<le> PGSIZE"

definition block_at :: "desc \<Rightarrow> ptr \<Rightarrow> nat \<Rightarrow> ptr" where
  "block_at d a j = a + arena_size + j * d_block_size d"

definition blocks_in :: "allocator \<Rightarrow> ptr \<Rightarrow> arena \<Rightarrow> ptr set" where
  "blocks_in s a h = (case a_desc h of None \<Rightarrow> {a + arena_size}
     | Some i \<Rightarrow> block_at (descs s ! i) a ` {..<blocks_per_arena (descs s ! i)})"

definition arena_pages :: "ptr \<Rightarrow> arena \<Rightarrow> ptr set" where
  "arena_pages a h = (case a_desc h of None \<Rightarrow> run_of a (free_cnt h) | Some i \<Rightarrow> {a})"

definition free_in :: "allocator \<Rightarrow> nat \<Rightarrow> ptr \<Rightarrow> ptr list" where
  "free_in s i a = filter (\<lambda>b. pg_round_down b = a) (free_list (descs s ! i))"

definition arena_ok :: "allocator \<Rightarrow> ptr \<Rightarrow> arena \<Rightarrow> bool" where
  "arena_ok s a h \<longleftrightarrow> a_magic h = ARENA_MAGIC \<and> pg_ofs a = 0 \<and> a \<noteq> NULL \<and> arena_pages a h \<subseteq> pages_in_use (kernel_pool (a_m s)) \<and>
     (case a_desc h of None \<Rightarrow> 0 < free_cnt h | Some i \<Rightarrow> i < length (descs s) \<and> free_cnt h = length (free_in s i a))"

definition free_ok :: "allocator \<Rightarrow> nat \<Rightarrow> bool" where
  "free_ok s i \<longleftrightarrow> distinct (free_list (descs s ! i)) \<and>
     (\<forall>b\<in>set (free_list (descs s ! i)). \<exists>h. arenas s (pg_round_down b) = Some h \<and> a_desc h = Some i \<and> b \<in> blocks_in s (pg_round_down b) h)"

definition heap_inv :: "allocator \<Rightarrow> bool" where
  "heap_inv s \<longleftrightarrow> machine_wf (a_m s) \<and> (\<forall>i<length (descs s). desc_ok (descs s ! i) \<and> free_ok s i) \<and>
     (\<forall>a h. arenas s a = Some h \<longrightarrow> arena_ok s a h) \<and>
     (\<forall>a h a' h'. arenas s a = Some h \<longrightarrow> arenas s a' = Some h' \<longrightarrow> a \<noteq> a' \<longrightarrow> arena_pages a h \<inter> arena_pages a' h' = {})"

definition unlocked :: "allocator \<Rightarrow> bool" where
  "unlocked s \<longleftrightarrow> (\<forall>i<length (descs s). \<not> d_lock (descs s ! i))"

definition live :: "allocator \<Rightarrow> ptr set" where
  "live s = {b. \<exists>h. arenas s (pg_round_down b) = Some h \<and> b \<in> blocks_in s (pg_round_down b) h \<and>
     (\<forall>i. a_desc h = Some i \<longrightarrow> b \<notin> set (free_list (descs s ! i)))}"

section \<open>Addresses of blocks\<close>

lemma length_upd_desc [simp]: "length (descs (upd_desc i f s)) = length (descs s)" "arenas (upd_desc i f s) = arenas s"
  "a_m (upd_desc i f s) = a_m s"
  by (simp_all add: upd_desc_def)

lemma upd_desc_nth: "descs (upd_desc i f s) ! j = (if j = i \<and> i < length (descs s) then f (descs s ! j) else descs s ! j)"
  by (cases "i < length (descs s)") (auto simp: upd_desc_def nth_list_update list_update_beyond)

lemma set_arena_simps [simp]: "descs (set_arena a h s) = descs s" "arenas (set_arena a h s) = (arenas s)(a \<mapsto> h)"
  "a_m (set_arena a h s) = a_m s"
  by (simp_all add: set_arena_def)

lemma block_offset:
  assumes "desc_ok d" "j < blocks_per_arena d"
  shows "arena_size + j * d_block_size d + d_block_size d \<le> PGSIZE"
proof -
  have "(j + 1) * d_block_size d \<le> blocks_per_arena d * d_block_size d" using assms(2) by (intro mult_le_mono1) simp
  then show ?thesis using assms(1) by (simp add: desc_ok_def)
qed

lemma round_offset: "pg_ofs a = 0 \<Longrightarrow> k < PGSIZE \<Longrightarrow> pg_round_down (a + k) = a \<and> pg_ofs (a + k) = k"
  by (auto simp: pg_ofs_def pg_round_down_def PGSIZE_def div_add1_eq mod_add_eq [symmetric])

lemma block_at_page:
  assumes "desc_ok d" "j < blocks_per_arena d" "pg_ofs a = 0"
  shows "pg_round_down (block_at d a j) = a" "pg_ofs (block_at d a j) = arena_size + j * d_block_size d"
proof -
  have "arena_size + j * d_block_size d < PGSIZE" using block_offset [OF assms(1,2)] assms(1) by (simp add: desc_ok_def)
  from round_offset [OF assms(3) this]
  show "pg_round_down (block_at d a j) = a" "pg_ofs (block_at d a j) = arena_size + j * d_block_size d"
    by (simp_all add: block_at_def add.assoc)
qed

lemma block_at_inj: "desc_ok d \<Longrightarrow> block_at d a j = block_at d a k \<longleftrightarrow> j = k"
  by (simp add: block_at_def desc_ok_def)

lemma blocks_in_page:
  assumes "arena_ok s a h" "\<And>i. i < length (descs s) \<Longrightarrow> desc_ok (descs s ! i)" "b \<in> blocks_in s a h"
  shows "pg_round_down b = a"
proof (cases "a_desc h")
  case None
  then show ?thesis
    using assms(1,3) round_offset [of a arena_size] by (simp add: blocks_in_def arena_ok_def arena_size_def PGSIZE_def PGBITS_def)
next
  case (Some i)
  then show ?thesis
    using assms block_at_page(1) [of "descs s ! i" _ a] by (auto simp: blocks_in_def arena_ok_def)
qed

lemma heap_invD:
  assumes "heap_inv s"
  shows "machine_wf (a_m s)" "i < length (descs s) \<Longrightarrow> desc_ok (descs s ! i)" "i < length (descs s) \<Longrightarrow> free_ok s i"
    "arenas s a = Some h \<Longrightarrow> arena_ok s a h"
    "arenas s a = Some h \<Longrightarrow> arenas s a' = Some h' \<Longrightarrow> a \<noteq> a' \<Longrightarrow> arena_pages a h \<inter> arena_pages a' h' = {}"
  using assms by (auto simp: heap_inv_def)

lemma page_in_arena: "arena_ok s a h \<Longrightarrow> a \<in> arena_pages a h"
  by (auto simp: arena_ok_def arena_pages_def run_of_def split: option.splits)

lemma free_in_blocks:
  assumes "heap_inv s" "i < length (descs s)" "arenas s a = Some h" "a_desc h = Some i"
  shows "set (free_in s i a) \<subseteq> blocks_in s a h" "distinct (free_in s i a)"
    "length (free_in s i a) \<le> blocks_per_arena (descs s ! i)"
proof -
  have free: "free_ok s i" using heap_invD(3) [OF assms(1,2)] .
  show sub: "set (free_in s i a) \<subseteq> blocks_in s a h"
  proof
    fix b
    assume "b \<in> set (free_in s i a)"
    then have "b \<in> set (free_list (descs s ! i))" "pg_round_down b = a" by (auto simp: free_in_def)
    with free assms(3) show "b \<in> blocks_in s a h" unfolding free_ok_def by fastforce
  qed
  show dist: "distinct (free_in s i a)" using free by (simp add: free_in_def free_ok_def)
  have "card (blocks_in s a h) \<le> blocks_per_arena (descs s ! i)"
    using assms(4) card_image_le [of "{..<blocks_per_arena (descs s ! i)}"] by (simp add: blocks_in_def)
  moreover have "finite (blocks_in s a h)" using assms(4) by (simp add: blocks_in_def)
  ultimately show "length (free_in s i a) \<le> blocks_per_arena (descs s ! i)"
    using card_mono [OF _ sub] distinct_card [OF dist] by simp
qed

lemma per_arena_small: "desc_ok d \<Longrightarrow> blocks_per_arena d < 2 ^ 32"
proof -
  assume ok: "desc_ok d"
  then have "blocks_per_arena d \<le> blocks_per_arena d * d_block_size d" by (simp add: desc_ok_def)
  moreover have "blocks_per_arena d * d_block_size d \<le> 4096" using ok by (simp add: desc_ok_def PGSIZE_def PGBITS_def)
  ultimately have "blocks_per_arena d \<le> 4096" by (rule order_trans)
  then show ?thesis by simp
qed

text \<open>A block leads to its arena.\<close>

lemma block_to_arena_ok:
  assumes "heap_inv s" "arenas s a = Some h" "b \<in> blocks_in s a h"
  shows "block_to_arena b s = Some (a, h)"
proof -
  have ok: "arena_ok s a h" using heap_invD(4) [OF assms(1,2)] .
  have page: "pg_round_down b = a" using blocks_in_page [OF ok _ assms(3)] heap_invD(2) [OF assms(1)] by blast
  show ?thesis
  proof (cases "a_desc h")
    case None
    then have "pg_ofs b = arena_size"
      using assms(3) ok round_offset [of a arena_size] by (simp add: blocks_in_def arena_ok_def arena_size_def PGSIZE_def PGBITS_def)
    then show ?thesis using ok None assms(2) page by (simp add: block_to_arena_def arena_ok_def)
  next
    case (Some i)
    then have i: "i < length (descs s)" using ok by (simp add: arena_ok_def)
    then obtain j where j: "j < blocks_per_arena (descs s ! i)" "b = block_at (descs s ! i) a j"
      using assms(3) Some by (auto simp: blocks_in_def)
    note d = heap_invD(2) [OF assms(1) i]
    have ofs: "pg_ofs b = arena_size + j * d_block_size (descs s ! i)"
      using block_at_page(2) [OF d j(1), of a] ok j(2) by (simp add: arena_ok_def)
    have "pg_ofs b + 2 ^ 32 - arena_size = j * d_block_size (descs s ! i) + 2 ^ 32" unfolding ofs by simp
    moreover have "j * d_block_size (descs s ! i) < 2 ^ 32" using block_offset [OF d j(1)] by (simp add: PGSIZE_def PGBITS_def)
    ultimately have "(pg_ofs b + 2 ^ 32 - arena_size) mod 2 ^ 32 = j * d_block_size (descs s ! i)" by simp
    then have "(pg_ofs b + 2 ^ 32 - arena_size) mod 2 ^ 32 mod d_block_size (descs s ! i) = 0" by simp
    then show ?thesis using ok Some assms(2) page by (simp add: block_to_arena_def arena_ok_def)
  qed
qed

text \<open>Live blocks do not overlap.\<close>

definition block_bytes :: "allocator \<Rightarrow> ptr \<Rightarrow> nat set" where
  "block_bytes s b = (case block_size b s of None \<Rightarrow> {} | Some n \<Rightarrow> {b..<b + n})"

lemma heap_page_range:
  assumes "machine_wf m" "q \<in> pages_in_use (kernel_pool m)"
  shows "pg_ofs q = 0" "PHYS_BASE \<le> q" "q + PGSIZE \<le> 2 ^ 32"
proof -
  have wf: "pool_wf (kernel_pool m)" using assms(1) by (simp add: machine_wf_def)
  have "q \<in> pool_pages (kernel_pool m)" using assms(2) in_use_pool by blast
  then obtain i where i: "q = p_base (kernel_pool m) + PGSIZE * i" "i < bit_cnt (used_map (kernel_pool m))"
    by (auto simp: pool_pages_def)
  show "pg_ofs q = 0" unfolding i(1) using wf by (intro page_aligned) (simp add: pool_wf_def)
  show "PHYS_BASE \<le> q" unfolding i(1) using wf by (simp add: pool_wf_def trans_le_add1)
  have "PGSIZE * Suc i \<le> PGSIZE * bit_cnt (used_map (kernel_pool m))" using i(2) by (intro mult_le_mono2) simp
  moreover have "p_base (kernel_pool m) + PGSIZE * bit_cnt (used_map (kernel_pool m)) \<le> 2 ^ 32"
    using wf by (simp add: pool_wf_def mult.commute)
  ultimately show "q + PGSIZE \<le> 2 ^ 32" unfolding i(1) mult_Suc_right by linarith
qed

lemma big_block_size:
  assumes "heap_inv s" "arenas s a = Some h" "a_desc h = None"
  shows "block_size (a + arena_size) s = Some (PGSIZE * free_cnt h - arena_size)"
proof -
  have ok: "arena_ok s a h" using heap_invD(4) [OF assms(1,2)] .
  have b: "pg_ofs (a + arena_size) = arena_size" "0 < free_cnt h" "a + arena_size \<in> blocks_in s a h"
    using assms(3) ok round_offset [of a arena_size]
    by (simp_all add: blocks_in_def arena_ok_def arena_size_def PGSIZE_def PGBITS_def)
  have "a + PGSIZE * (free_cnt h - 1) \<in> arena_pages a h" using assms(3) b(2) by (auto simp: arena_pages_def run_of_def)
  then have "a + PGSIZE * (free_cnt h - 1) + PGSIZE \<le> 2 ^ 32"
    using ok heap_page_range(3) [OF heap_invD(1) [OF assms(1)]] by (auto simp: arena_ok_def)
  moreover have "PHYS_BASE \<le> a"
    using page_in_arena [OF ok] ok heap_page_range(2) [OF heap_invD(1) [OF assms(1)], of a] by (auto simp: arena_ok_def)
  moreover have "PGSIZE * (free_cnt h - 1) + PGSIZE = PGSIZE * free_cnt h" using b(2) by (cases "free_cnt h") simp_all
  ultimately have small: "PGSIZE * free_cnt h < 2 ^ 32" by (simp add: PHYS_BASE_def)
  have "PGSIZE \<le> PGSIZE * free_cnt h" using b(2) by simp
  then have "PGSIZE * free_cnt h + 2 ^ 32 - arena_size = PGSIZE * free_cnt h - arena_size + 2 ^ 32"
    by (simp add: arena_size_def PGSIZE_def PGBITS_def)
  then have "(PGSIZE * free_cnt h + 2 ^ 32 - arena_size) mod 2 ^ 32 = PGSIZE * free_cnt h - arena_size"
    using small by (simp only: mod_add_self2 mod_less less_imp_diff_less)
  then show ?thesis using block_to_arena_ok [OF assms(1,2) b(3)] assms(3) b(1) by (simp add: block_size_def)
qed

lemma block_bytes_pages:
  assumes "heap_inv s" "arenas s a = Some h" "b \<in> blocks_in s a h"
  shows "block_bytes s b \<subseteq> (\<Union>q\<in>arena_pages a h. {q..<q + PGSIZE})"
proof (cases "a_desc h")
  case (Some i)
  have ok: "arena_ok s a h" using heap_invD(4) [OF assms(1,2)] .
  then have i: "i < length (descs s)" using Some by (simp add: arena_ok_def)
  obtain j where j: "j < blocks_per_arena (descs s ! i)" "b = block_at (descs s ! i) a j"
    using assms(3) Some by (auto simp: blocks_in_def)
  show ?thesis
    using block_to_arena_ok [OF assms] Some j block_offset [OF heap_invD(2) [OF assms(1) i] j(1)]
    by (auto simp: block_bytes_def block_size_def arena_pages_def block_at_def)
next
  case None
  have b: "b = a + arena_size" "0 < free_cnt h"
    using None assms(3) heap_invD(4) [OF assms(1,2)] by (simp_all add: blocks_in_def arena_ok_def)
  have le: "PGSIZE \<le> PGSIZE * free_cnt h" using b(2) by simp
  have "block_size b s = Some (PGSIZE * free_cnt h - arena_size)" unfolding b(1) by (rule big_block_size [OF assms(1,2) None])
  moreover have "x \<in> (\<Union>q\<in>run_of a (free_cnt h). {q..<q + PGSIZE})" if "x < a + PGSIZE * free_cnt h" "a \<le> x" for x
  proof -
    define q where "q = a + PGSIZE * ((x - a) div PGSIZE)"
    have "x = q + (x - a) mod PGSIZE" using that(2) by (simp add: q_def)
    moreover have "(x - a) mod PGSIZE < PGSIZE" by simp
    ultimately have "x \<in> {q..<q + PGSIZE}" unfolding atLeastLessThan_iff by linarith
    moreover have "(x - a) div PGSIZE < free_cnt h" using that by (simp add: less_mult_imp_div_less mult.commute)
    then have "q \<in> run_of a (free_cnt h)" by (auto simp: run_of_def q_def)
    ultimately show ?thesis by blast
  qed
  moreover have "x \<in> block_bytes s b \<Longrightarrow> x < a + PGSIZE * free_cnt h \<and> a \<le> x" for x
    using calculation(1) b(1) le by (auto simp: block_bytes_def arena_size_def PGSIZE_def PGBITS_def)
  ultimately show ?thesis using None by (auto simp: arena_pages_def)
qed

lemma live_arena:
  assumes "p \<in> live s"
  obtains a h where "arenas s a = Some h" "p \<in> blocks_in s a h" "pg_round_down p = a"
    "\<And>i. a_desc h = Some i \<Longrightarrow> p \<notin> set (free_list (descs s ! i))"
  using assms unfolding live_def by blast

lemma live_disjoint:
  assumes "heap_inv s" "p \<in> live s" "q \<in> live s" "p \<noteq> q"
  shows "block_bytes s p \<inter> block_bytes s q = {}"
proof -
  obtain a h where a: "arenas s a = Some h" "p \<in> blocks_in s a h" using assms(2) by (rule live_arena)
  obtain a' h' where a': "arenas s a' = Some h'" "q \<in> blocks_in s a' h'" using assms(3) by (rule live_arena)
  show ?thesis
  proof (cases "a = a'")
    case False
    have "pg_round_down x = r" if "r \<in> arena_pages c g" "arenas s c = Some g" "x \<in> {r..<r + PGSIZE}" for x r c g
    proof -
      have "pg_ofs r = 0"
        using that(1) heap_invD(4) [OF assms(1) that(2)] heap_page_range(1) [OF heap_invD(1) [OF assms(1)]]
        by (auto simp: arena_ok_def)
      moreover have "x = r + (x - r)" "x - r < PGSIZE" using that(3) by auto
      ultimately show ?thesis using round_offset [of r "x - r"] by simp
    qed
    then have "pg_round_down x \<in> arena_pages a h" "pg_round_down x \<in> arena_pages a' h'"
      if "x \<in> block_bytes s p" "x \<in> block_bytes s q" for x
      using block_bytes_pages [OF assms(1) a] block_bytes_pages [OF assms(1) a'] a(1) a'(1) that by auto
    then show ?thesis using heap_invD(5) [OF assms(1) a(1) a'(1) False] by blast
  next
    case True
    then have h: "h' = h" using a a' by simp
    have "a_desc h \<noteq> None" using a(2) a'(2) assms(4) True h by (auto simp: blocks_in_def split: option.splits)
    then obtain i where i: "a_desc h = Some i" by blast
    let ?d = "descs s ! i"
    obtain j k where jk: "p = block_at ?d a j" "q = block_at ?d a k" using a(2) a'(2) i True h by (auto simp: blocks_in_def)
    have "block_size p s = Some (d_block_size ?d)" "block_size q s = Some (d_block_size ?d)"
      using block_to_arena_ok [OF assms(1) a] block_to_arena_ok [OF assms(1) a'] i h by (simp_all add: block_size_def)
    moreover have "(Suc j) * d_block_size ?d \<le> k * d_block_size ?d \<or> (Suc k) * d_block_size ?d \<le> j * d_block_size ?d"
      using assms(4) jk by (metis mult_le_mono1 not_less_eq_eq order_antisym_conv nat_le_linear)
    ultimately show ?thesis using jk by (auto simp: block_bytes_def block_at_def)
  qed
qed

section \<open>Loops over the blocks of an arena\<close>

lemma upd_desc_twice: "i < length (descs s) \<Longrightarrow> upd_desc i f (upd_desc i g s) = upd_desc i (\<lambda>d. f (g d)) s"
  by (simp add: upd_desc_def)

lemma upd_desc_id: "upd_desc i (\<lambda>d. d) s = s"
  by (simp add: upd_desc_def)

lemma fill_arena_eq:
  assumes "arenas s a = Some h" "a_magic h = ARENA_MAGIC" "a_desc h = Some i" "a \<noteq> NULL" "i < length (descs s)"
    and "list_all (\<lambda>k. k < blocks_per_arena (descs s ! i)) ks"
  shows "fill_arena a i ks s = Some (upd_desc i (\<lambda>d. d\<lparr>free_list := free_list d @ map (block_at (descs s ! i) a) ks\<rparr>) s)"
  using assms
proof (induction ks arbitrary: s)
  case (Cons k ks)
  let ?s = "upd_desc i (\<lambda>d. d\<lparr>free_list := free_list d @ [block_at (descs s ! i) a k]\<rparr>) s"
  have "arena_to_block a k s = Some (block_at (descs s ! i) a k)" using Cons.prems by (simp add: arena_to_block_def block_at_def)
  then have "fill_arena a i (k # ks) s = fill_arena a i ks ?s" by simp
  moreover have "block_at (descs ?s ! i) = block_at (descs s ! i)" using Cons.prems(5) by (simp add: upd_desc_nth block_at_def fun_eq_iff)
  ultimately show ?case using Cons.IH [of ?s] Cons.prems by (simp add: upd_desc_nth upd_desc_twice)
qed (simp add: upd_desc_id)

lemma empty_arena_eq:
  assumes "arenas s a = Some h" "a_magic h = ARENA_MAGIC" "a_desc h = Some i" "a \<noteq> NULL" "i < length (descs s)"
    and "list_all (\<lambda>k. k < blocks_per_arena (descs s ! i) \<and> block_at (descs s ! i) a k \<in> set (free_list (descs s ! i))) ks"
    and "distinct ks" "desc_ok (descs s ! i)" "distinct (free_list (descs s ! i))"
  shows "empty_arena a i ks s =
    Some (upd_desc i (\<lambda>d. d\<lparr>free_list := filter (\<lambda>b. b \<notin> block_at (descs s ! i) a ` set ks) (free_list d)\<rparr>) s)"
  using assms
proof (induction ks arbitrary: s)
  case (Cons k ks)
  let ?b = "block_at (descs s ! i) a k"
  let ?s = "upd_desc i (\<lambda>d. d\<lparr>free_list := remove1 ?b (free_list d)\<rparr>) s"
  have "arena_to_block a k s = Some ?b" using Cons.prems by (simp add: arena_to_block_def block_at_def)
  then have step: "empty_arena a i (k # ks) s = empty_arena a i ks ?s" using Cons.prems(6) by simp
  have nth: "descs ?s ! i = (descs s ! i)\<lparr>free_list := remove1 ?b (free_list (descs s ! i))\<rparr>" using Cons.prems(5) by (simp add: upd_desc_nth)
  have blk: "block_at (descs ?s ! i) = block_at (descs s ! i)" unfolding nth by (simp add: block_at_def fun_eq_iff)
  have "list_all (\<lambda>k. k < blocks_per_arena (descs ?s ! i) \<and> block_at (descs ?s ! i) a k \<in> set (free_list (descs ?s ! i))) ks"
    using Cons.prems(6-9) unfolding blk by (auto simp: nth list_all_iff block_at_inj)
  then have "empty_arena a i ks ?s =
      Some (upd_desc i (\<lambda>d. d\<lparr>free_list := filter (\<lambda>b. b \<notin> block_at (descs s ! i) a ` set ks) (free_list d)\<rparr>) ?s)"
    using Cons.IH [of ?s] Cons.prems unfolding blk by (simp add: nth desc_ok_def)
  moreover have "filter (\<lambda>b. b \<notin> block_at (descs s ! i) a ` set ks) (remove1 ?b (free_list (descs s ! i))) =
      filter (\<lambda>b. b \<notin> block_at (descs s ! i) a ` set (k # ks)) (free_list (descs s ! i))"
    using Cons.prems(9) by (simp add: distinct_remove1_removeAll removeAll_filter_not_eq) (rule filter_cong, auto)
  ultimately show ?case unfolding step using Cons.prems(5) by (simp add: upd_desc_def)
qed (simp add: upd_desc_id)

section \<open>Steps of the allocator\<close>

text \<open>A step that keeps the block sizes and leaves the blocks \<open>L\<close> live, those that were live before with the bytes they had.\<close>

definition same_sizes :: "allocator \<Rightarrow> allocator \<Rightarrow> bool" where
  "same_sizes s s' \<longleftrightarrow> length (descs s') = length (descs s) \<and>
     (\<forall>i<length (descs s). d_block_size (descs s' ! i) = d_block_size (descs s ! i) \<and>
        blocks_per_arena (descs s' ! i) = blocks_per_arena (descs s ! i))"

definition heap_step :: "allocator \<Rightarrow> ptr set \<Rightarrow> allocator \<Rightarrow> bool" where
  "heap_step s L s' \<longleftrightarrow> heap_inv s' \<and> live s' = L \<and> same_sizes s s' \<and> (\<forall>b\<in>live s \<inter> L. block_bytes s' b = block_bytes s b)"

lemma heap_step_trans: "heap_step s L s' \<Longrightarrow> heap_step s' L' s'' \<Longrightarrow> live s \<inter> L' \<subseteq> L \<Longrightarrow> heap_step s L' s''"
  by (auto simp: heap_step_def same_sizes_def)

lemma blocks_in_same:
  assumes "same_sizes s s'" "\<And>i. a_desc h = Some i \<Longrightarrow> i < length (descs s)" "a_desc h' = a_desc h"
  shows "blocks_in s' a h' = blocks_in s a h"
  using assms by (auto simp: blocks_in_def same_sizes_def block_at_def split: option.splits)

lemma desc_ok_same: "same_sizes s s' \<Longrightarrow> i < length (descs s) \<Longrightarrow> desc_ok (descs s' ! i) = desc_ok (descs s ! i)"
  by (simp add: same_sizes_def desc_ok_def)

lemma block_bytes_same:
  assumes "heap_inv s" "heap_inv s'" "same_sizes s s'" "arenas s a = Some h" "arenas s' a = Some h'" "a_desc h' = a_desc h"
    and "a_desc h = None \<Longrightarrow> free_cnt h' = free_cnt h" "b \<in> blocks_in s a h"
  shows "block_bytes s' b = block_bytes s b"
proof -
  have i: "a_desc h = Some i \<Longrightarrow> i < length (descs s)" for i
    using heap_invD(4) [OF assms(1,4)] by (simp add: arena_ok_def)
  then have "b \<in> blocks_in s' a h'" using blocks_in_same [OF assms(3) _ assms(6)] assms(8) by blast
  from block_to_arena_ok [OF assms(2,5) this] block_to_arena_ok [OF assms(1,4,8)]
  have "block_size b s' = block_size b s"
    using assms(3,6,7) i by (cases "a_desc h") (simp_all add: block_size_def same_sizes_def)
  then show ?thesis by (simp add: block_bytes_def)
qed

text \<open>A change of the arena \<open>a\<close> and of the free list of one descriptor is a step when the list and the header agree.\<close>

lemma heap_stepI:
  assumes inv: "heap_inv s" and sizes: "same_sizes s s'" and wf: "machine_wf (a_m s')"
    and pages: "pages_in_use (kernel_pool (a_m s)) - Q \<subseteq> pages_in_use (kernel_pool (a_m s'))"
    and arenas: "\<And>c. c \<noteq> a \<Longrightarrow> arenas s' c = arenas s c"
    and lists: "\<And>j. j < length (descs s) \<Longrightarrow> distinct (free_list (descs s' ! j)) \<and>
      filter (\<lambda>b. pg_round_down b \<noteq> a) (free_list (descs s' ! j)) = filter (\<lambda>b. pg_round_down b \<noteq> a) (free_list (descs s ! j))"
    and header: "\<And>h. arenas s' a = Some h \<Longrightarrow> arena_ok s' a h"
    and free_a: "\<And>j b. j < length (descs s) \<Longrightarrow> b \<in> set (free_list (descs s' ! j)) \<Longrightarrow> pg_round_down b = a \<Longrightarrow>
      \<exists>h. arenas s' a = Some h \<and> a_desc h = Some j \<and> b \<in> blocks_in s' a h"
    and apart: "\<And>c g. c \<noteq> a \<Longrightarrow> arenas s c = Some g \<Longrightarrow> arena_pages c g \<inter> (Q \<union> (case arenas s' a of None \<Rightarrow> {} | Some h \<Rightarrow> arena_pages a h)) = {}"
    and kind: "\<And>h h'. arenas s a = Some h \<Longrightarrow> arenas s' a = Some h' \<Longrightarrow> a_desc h' = a_desc h \<and> (a_desc h = None \<longrightarrow> free_cnt h' = free_cnt h)"
  shows "heap_step s (live s') s'"
    and "\<And>b. pg_round_down b \<noteq> a \<Longrightarrow> b \<in> live s' \<longleftrightarrow> b \<in> live s"
proof -
  have len: "length (descs s') = length (descs s)" using sizes by (simp add: same_sizes_def)
  have idx: "i < length (descs s)" if "arenas s c = Some g" "a_desc g = Some i" for c g i
    using heap_invD(4) [OF inv that(1)] that(2) by (simp add: arena_ok_def)
  have blocks: "blocks_in s' c g = blocks_in s c g" if "arenas s c = Some g" for c g
    using blocks_in_same [OF sizes _ refl] idx [OF that] by blast
  have mem: "b \<in> set (free_list (descs s' ! j)) \<longleftrightarrow> b \<in> set (free_list (descs s ! j))" if "j < length (descs s)" "pg_round_down b \<noteq> a" for b j
    using arg_cong [OF conjunct2 [OF lists [OF that(1)]], of set] that(2) by auto
  have "free_in s' j c = free_in s j c" if "j < length (descs s)" "c \<noteq> a" for j c
  proof -
    have "free_in t j c = filter (\<lambda>b. pg_round_down b = c) (filter (\<lambda>b. pg_round_down b \<noteq> a) (free_list (descs t ! j)))" for t
      unfolding free_in_def filter_filter using that(2) by (intro filter_cong) auto
    then show ?thesis using conjunct2 [OF lists [OF that(1)]] by (simp only:)
  qed
  then have other: "arena_ok s' c g" if "arenas s c = Some g" "c \<noteq> a" for c g
    using heap_invD(4) [OF inv that(1)] apart [OF that(2,1)] pages len idx [OF that(1)] that
    by (auto simp: arena_ok_def split: option.splits)
  have free: "free_ok s' j" if j: "j < length (descs s)" for j
  proof -
    have "\<exists>h. arenas s' (pg_round_down b) = Some h \<and> a_desc h = Some j \<and> b \<in> blocks_in s' (pg_round_down b) h"
      if b: "b \<in> set (free_list (descs s' ! j))" for b
    proof (cases "pg_round_down b = a")
      case True
      then show ?thesis using free_a [OF j b] by simp
    next
      case False
      then have "b \<in> set (free_list (descs s ! j))" using mem [OF j] b by blast
      then obtain h where "arenas s (pg_round_down b) = Some h" "a_desc h = Some j" "b \<in> blocks_in s (pg_round_down b) h"
        using heap_invD(3) [OF inv j] by (auto simp: free_ok_def)
      then show ?thesis using arenas [OF False] blocks by auto
    qed
    then show ?thesis using lists [OF j] by (auto simp: free_ok_def)
  qed
  have "arena_pages c g \<inter> arena_pages c' g' = {}" if cs: "arenas s' c = Some g" "arenas s' c' = Some g'" "c \<noteq> c'" for c g c' g'
  proof -
    consider "c = a" "c' \<noteq> a" | "c' = a" "c \<noteq> a" | "c \<noteq> a" "c' \<noteq> a" using cs(3) by blast
    then show ?thesis
    proof cases
      case 1
      then show ?thesis using cs apart [of c' g'] arenas [of c'] by auto
    next
      case 2
      then show ?thesis using cs apart [of c g] arenas [of c] by auto
    next
      case 3
      then show ?thesis using cs arenas heap_invD(5) [OF inv, of c g c' g'] by simp
    qed
  qed
  moreover have "arena_ok s' c g" if "arenas s' c = Some g" for c g
    using that header other arenas by (cases "c = a") simp_all
  ultimately have inv': "heap_inv s'"
    using wf len free desc_ok_same [OF sizes] heap_invD(2) [OF inv] by (simp add: heap_inv_def)
  show live: "b \<in> live s' \<longleftrightarrow> b \<in> live s" if "pg_round_down b \<noteq> a" for b
    using arenas [OF that] blocks [of "pg_round_down b"] mem [OF _ that] idx [of "pg_round_down b"] by (auto simp: live_def)
  have "block_bytes s' b = block_bytes s b" if b: "b \<in> live s" "b \<in> live s'" for b
  proof -
    obtain c h where c: "arenas s c = Some h" "b \<in> blocks_in s c h" "pg_round_down b = c" using b(1) by (rule live_arena)
    obtain h' where h': "arenas s' c = Some h'" using b(2) c(3) by (auto simp: live_def)
    have "a_desc h' = a_desc h \<and> (a_desc h = None \<longrightarrow> free_cnt h' = free_cnt h)"
    proof (cases "c = a")
      case True
      then show ?thesis using kind c(1) h' by blast
    next
      case False
      then show ?thesis using arenas [OF False] c(1) h' by simp
    qed
    then show ?thesis by (intro block_bytes_same [OF inv inv' sizes c(1) h' _ _ c(2)]) simp_all
  qed
  then show "heap_step s (live s') s'" using inv' sizes by (simp add: heap_step_def)
qed

text \<open>A step that touches neither arenas nor free lists.\<close>

lemma same_heap_step:
  assumes "heap_inv s" "same_sizes s s'" "machine_wf (a_m s')" "arenas s' = arenas s"
    and "pages_in_use (kernel_pool (a_m s')) = pages_in_use (kernel_pool (a_m s))"
    and "\<And>j. j < length (descs s) \<Longrightarrow> free_list (descs s' ! j) = free_list (descs s ! j)"
  shows "heap_step s (live s) s'"
proof -
  have null: "arenas s NULL = None"
  proof (cases "arenas s NULL")
    case (Some h)
    then show ?thesis using heap_invD(4) [OF assms(1) Some] by (simp add: arena_ok_def)
  qed simp
  have page: False if "j < length (descs s)" "b \<in> set (free_list (descs s ! j))" "pg_round_down b = NULL" for b j
    using heap_invD(3) [OF assms(1) that(1)] that(2,3) null unfolding free_ok_def by fastforce
  have dist: "distinct (free_list (descs s ! j))" if "j < length (descs s)" for j
    using heap_invD(3) [OF assms(1) that] by (simp add: free_ok_def)
  have "heap_step s (live s') s'"
    by (rule heap_stepI(1) [OF assms(1-3), of "{}" NULL]) (use assms(4-6) null dist in \<open>auto dest: page\<close>)
  moreover have "live s' = live s"
  proof -
    have "b \<in> live s' \<longleftrightarrow> b \<in> live s" for b
    proof (cases "pg_round_down b = NULL")
      case True
      then show ?thesis using null assms(4) by (simp add: live_def)
    next
      case False
      then show ?thesis by (rule heap_stepI(2) [OF assms(1-3), of "{}" NULL, rotated -1]) (use assms(4-6) null dist in \<open>auto dest: page\<close>)
    qed
    then show ?thesis by blast
  qed
  ultimately show ?thesis by simp
qed

lemma fresh_pages:
  assumes "heap_inv s" "0 < n" "palloc_get_multiple (plain_flags False) n (a_m s) = Some (a, m)" "a \<noteq> NULL"
  shows "machine_wf m" "pg_ofs a = 0" "run_of a n \<inter> pages_in_use (kernel_pool (a_m s)) = {}"
    "pages_in_use (kernel_pool m) = pages_in_use (kernel_pool (a_m s)) \<union> run_of a n" "arenas s a = None"
    "\<And>c g. arenas s c = Some g \<Longrightarrow> arena_pages c g \<inter> run_of a n = {}"
proof -
  note t = palloc_get_taken(1,2) [OF heap_invD(1) [OF assms(1)] assms(2,3)]
  show "machine_wf m" by (rule t(2))
  show run: "pg_ofs a = 0" "run_of a n \<inter> pages_in_use (kernel_pool (a_m s)) = {}"
    "pages_in_use (kernel_pool m) = pages_in_use (kernel_pool (a_m s)) \<union> run_of a n"
    using t(1) assms(4) by (auto simp: pool_taken_def get_pool_def plain_flags_def)
  show apart: "arena_pages c g \<inter> run_of a n = {}" if "arenas s c = Some g" for c g
    using heap_invD(4) [OF assms(1) that] run(2) by (auto simp: arena_ok_def)
  have "a \<in> run_of a n" using assms(2) by (force simp: run_of_def)
  then show "arenas s a = None"
    using apart [of a] page_in_arena heap_invD(4) [OF assms(1), of a] by (cases "arenas s a") blast+
qed

lemma no_pages:
  assumes "heap_inv s" "palloc_get_multiple (plain_flags False) n (a_m s) = Some (NULL, m)"
  shows "heap_step s (live s) (s\<lparr>a_m := m\<rparr>)"
proof (cases "n = 0")
  case True
  then have "m = a_m s" using assms(2) by (simp add: palloc_get_multiple_def)
  then show ?thesis using assms(1) heap_invD(1) by (intro same_heap_step) (auto simp: same_sizes_def)
next
  case False
  then have n: "0 < n" by simp
  note t = palloc_get_taken(1,2) [OF heap_invD(1) [OF assms(1)] n assms(2)]
  have "pages_in_use (kernel_pool m) = pages_in_use (kernel_pool (a_m s))"
    using t(1) by (simp add: pool_taken_def get_pool_def plain_flags_def)
  then show ?thesis using assms(1) t(2) by (intro same_heap_step) (simp_all add: same_sizes_def)
qed

lemma run_of_1: "run_of a 1 = {a}"
  by (simp add: run_of_def lessThan_Suc)

text \<open>A new arena: all its blocks are in the list of free blocks.\<close>

lemma new_arena_step:
  assumes "heap_inv s" "i < length (descs s)" "free_list (descs s ! i) = []"
    and "palloc_get_multiple (plain_flags False) 1 (a_m s) = Some (a, m)" "a \<noteq> NULL"
    and "s1 = set_arena a \<lparr>a_magic = ARENA_MAGIC, a_desc = Some i, free_cnt = blocks_per_arena (descs s ! i)\<rparr> (s\<lparr>a_m := m\<rparr>)"
    and "s' = upd_desc i (\<lambda>d. d\<lparr>free_list := free_list d @ map (block_at (descs s ! i) a) [0..<blocks_per_arena (descs s ! i)]\<rparr>) s1"
  shows "heap_step s (live s) s'" "free_list (descs s' ! i) \<noteq> []"
proof -
  let ?d = "descs s ! i"
  let ?bs = "map (block_at ?d a) [0..<blocks_per_arena ?d]"
  let ?h = "\<lparr>a_magic = ARENA_MAGIC, a_desc = Some i, free_cnt = blocks_per_arena ?d\<rparr>"
  note f = fresh_pages [OF assms(1) zero_less_one assms(4,5), unfolded run_of_1]
  note d = heap_invD(2) [OF assms(1,2)]
  have s': "arenas s' = (arenas s)(a \<mapsto> ?h)" "a_m s' = m"
    "\<And>j. descs s' ! j = (if j = i then ?d\<lparr>free_list := ?bs\<rparr> else descs s ! j)" "length (descs s') = length (descs s)"
    unfolding assms(7,6) using assms(2,3) by (simp_all add: upd_desc_nth)
  show "free_list (descs s' ! i) \<noteq> []" using d by (simp add: s'(3) desc_ok_def)
  have page: "pg_round_down b = a" if "b \<in> set ?bs" for b
    using that block_at_page(1) [OF d _ f(2)] by auto
  have dist: "distinct ?bs" using block_at_inj [OF d] by (simp add: distinct_map inj_on_def)
  have sizes: "same_sizes s s'" by (simp add: same_sizes_def s')
  have blocks: "blocks_in s' a ?h = set ?bs" by (auto simp: blocks_in_def s' block_at_def)
  have old: "distinct (free_list (descs s ! j)) \<and> (\<forall>b\<in>set (free_list (descs s ! j)). pg_round_down b \<noteq> a)"
    if "j < length (descs s)" for j
    using heap_invD(3) [OF assms(1) that] f(5) by (auto simp: free_ok_def)
  have filters: "filter (\<lambda>b. pg_round_down b = a) ?bs = ?bs" "filter (\<lambda>b. pg_round_down b \<noteq> a) ?bs = []"
    using page by (auto simp: filter_id_conv filter_empty_conv)
  have ok: "arena_ok s' a ?h"
    using f(2,4) assms(2,5) filters(1) by (simp add: arena_ok_def arena_pages_def free_in_def s')
  have args: "\<And>j. j < length (descs s) \<Longrightarrow> distinct (free_list (descs s' ! j)) \<and>
      filter (\<lambda>b. pg_round_down b \<noteq> a) (free_list (descs s' ! j)) = filter (\<lambda>b. pg_round_down b \<noteq> a) (free_list (descs s ! j))"
    "\<And>j b. j < length (descs s) \<Longrightarrow> b \<in> set (free_list (descs s' ! j)) \<Longrightarrow> pg_round_down b = a \<Longrightarrow>
      \<exists>h. arenas s' a = Some h \<and> a_desc h = Some j \<and> b \<in> blocks_in s' a h"
    "\<And>c g. c \<noteq> a \<Longrightarrow> arenas s c = Some g \<Longrightarrow> arena_pages c g \<inter> ({} \<union> (case arenas s' a of None \<Rightarrow> {} | Some h \<Rightarrow> arena_pages a h)) = {}"
    using old dist filters(2) assms(3) blocks f(6) by (auto simp: s' arena_pages_def split: if_splits)
  note step = heap_stepI [where Q = "{}" and a = a, OF assms(1) sizes f(1) [folded s'(2)] _ _ args(1) _ args(2,3)]
  have "heap_step s (live s') s'" by (rule step(1)) (use f(4,5) s'(1,2) ok in auto)
  moreover have "b \<in> live s' \<longleftrightarrow> b \<in> live s" for b
  proof (cases "pg_round_down b = a")
    case True
    then show ?thesis using f(5) blocks by (simp add: live_def s')
  next
    case False
    show ?thesis by (rule step(2)) (use f(4,5) s'(1,2) ok False in auto)
  qed
  then have "live s' = live s" by blast
  ultimately show "heap_step s (live s) s'" by simp
qed

lemma refill_ok:
  assumes "heap_inv s" "i < length (descs s)"
  obtains ok s' where "refill i s = Some (ok, s')" "heap_step s (live s) s'" "ok \<longrightarrow> free_list (descs s' ! i) \<noteq> []"
    "\<forall>j. d_lock (descs s' ! j) = d_lock (descs s ! j)"
proof (cases "free_list (descs s ! i) = []")
  case False
  have "heap_step s (live s) s" using assms(1) by (simp add: heap_step_def same_sizes_def)
  then show ?thesis using that [of True s] False by (simp add: refill_def)
next
  case True
  obtain a m where get: "palloc_get_multiple (plain_flags False) 1 (a_m s) = Some (a, m)"
    using palloc_get_total [OF heap_invD(1) [OF assms(1)], of "plain_flags False" 1] by (auto simp: plain_flags_def)
  show ?thesis
  proof (cases "a = NULL")
    case null: True
    then show ?thesis
      using that [of False "s\<lparr>a_m := m\<rparr>"] no_pages [OF assms(1) get [unfolded null]] True get
      by (simp add: refill_def palloc_get_page_def)
  next
    case False
    let ?n = "blocks_per_arena (descs s ! i)"
    let ?s1 = "set_arena a \<lparr>a_magic = ARENA_MAGIC, a_desc = Some i, free_cnt = ?n\<rparr> (s\<lparr>a_m := m\<rparr>)"
    let ?s2 = "upd_desc i (\<lambda>d. d\<lparr>free_list := free_list d @ map (block_at (descs s ! i) a) [0..<?n]\<rparr>) ?s1"
    note step = new_arena_step [OF assms True get False refl refl]
    have "fill_arena a i [0..<?n] ?s1 = Some ?s2"
      using False assms(2) fill_arena_eq [of ?s1 a _ i "[0..<?n]"] by (simp add: list_all_iff)
    then have "refill i s = Some (True, ?s2)" using True get False by (simp add: refill_def palloc_get_page_def Let_def)
    moreover have "d_lock (descs ?s2 ! j) = d_lock (descs s ! j)" for j by (simp add: upd_desc_nth)
    ultimately show ?thesis using that [of True ?s2] step by blast
  qed
qed

lemma free_list_arena:
  assumes "heap_inv s" "i < length (descs s)" "b \<in> set (free_list (descs s ! i))"
  obtains h where "arenas s (pg_round_down b) = Some h" "a_desc h = Some i" "b \<in> blocks_in s (pg_round_down b) h"
  using heap_invD(3) [OF assms(1,2)] assms(3) unfolding free_ok_def by blast

text \<open>A change of the number of free blocks in an arena, with the list that belongs to it.\<close>

lemma recount_step:
  assumes "heap_inv s" "i < length (descs s)" "arenas s a = Some h" "a_desc h = Some i"
    and "distinct l" "filter (\<lambda>b. pg_round_down b \<noteq> a) l = filter (\<lambda>b. pg_round_down b \<noteq> a) (free_list (descs s ! i))"
    and "\<forall>b\<in>set l. pg_round_down b = a \<longrightarrow> b \<in> blocks_in s a h" "n = length (filter (\<lambda>b. pg_round_down b = a) l)"
    and "s' = set_arena a (h\<lparr>free_cnt := n\<rparr>) (upd_desc i (\<lambda>d. d\<lparr>free_list := l\<rparr>) s)"
  shows "heap_step s (live s') s'" "\<And>b. pg_round_down b \<noteq> a \<Longrightarrow> b \<in> live s' \<longleftrightarrow> b \<in> live s"
    "\<And>b. pg_round_down b = a \<Longrightarrow> b \<in> live s' \<longleftrightarrow> b \<in> blocks_in s a h \<and> b \<notin> set l"
proof -
  let ?h = "h\<lparr>free_cnt := n\<rparr>"
  have s': "arenas s' = (arenas s)(a \<mapsto> ?h)" "a_m s' = a_m s"
    "\<And>j. descs s' ! j = (if j = i then (descs s ! i)\<lparr>free_list := l\<rparr> else descs s ! j)" "length (descs s') = length (descs s)"
    unfolding assms(9) using assms(2) by (simp_all add: upd_desc_nth)
  have sizes: "same_sizes s s'" by (simp add: same_sizes_def s')
  have blocks: "blocks_in s' a ?h = blocks_in s a h" using assms(2,4) by (intro blocks_in_same [OF sizes]) simp_all
  have wf: "machine_wf (a_m s')" using heap_invD(1) [OF assms(1)] by (simp add: s')
  have ok: "arena_ok s' a ?h"
    using heap_invD(4) [OF assms(1,3)] assms(2,4,8) by (simp add: arena_ok_def arena_pages_def free_in_def s')
  have other: "pg_round_down b \<noteq> a" if "j < length (descs s)" "j \<noteq> i" "b \<in> set (free_list (descs s ! j))" for j b
    using free_list_arena [OF assms(1) that(1,3)] that(2) assms(3,4) by (metis option.inject)
  have dist: "distinct (free_list (descs s ! j))" if "j < length (descs s)" for j
    using heap_invD(3) [OF assms(1) that] by (simp add: free_ok_def)
  have args: "\<And>j. j < length (descs s) \<Longrightarrow> distinct (free_list (descs s' ! j)) \<and>
      filter (\<lambda>b. pg_round_down b \<noteq> a) (free_list (descs s' ! j)) = filter (\<lambda>b. pg_round_down b \<noteq> a) (free_list (descs s ! j))"
    "\<And>j b. j < length (descs s) \<Longrightarrow> b \<in> set (free_list (descs s' ! j)) \<Longrightarrow> pg_round_down b = a \<Longrightarrow>
      \<exists>h. arenas s' a = Some h \<and> a_desc h = Some j \<and> b \<in> blocks_in s' a h"
    "\<And>c g. c \<noteq> a \<Longrightarrow> arenas s c = Some g \<Longrightarrow> arena_pages c g \<inter> ({} \<union> (case arenas s' a of None \<Rightarrow> {} | Some h \<Rightarrow> arena_pages a h)) = {}"
    using assms(4-7) dist other blocks heap_invD(5) [OF assms(1) _ assms(3)] by (auto simp: s' arena_pages_def split: if_splits)
  note step = heap_stepI [where Q = "{}" and a = a, OF assms(1) sizes wf _ _ args(1) _ args(2,3)]
  show "heap_step s (live s') s'" by (rule step(1)) (use s'(1,2) ok assms(3,4) in auto)
  show "b \<in> live s' \<longleftrightarrow> b \<in> live s" if "pg_round_down b \<noteq> a" for b
    by (rule step(2)) (use s'(1,2) ok assms(3,4) that in auto)
  show "b \<in> live s' \<longleftrightarrow> b \<in> blocks_in s a h \<and> b \<notin> set l" if "pg_round_down b = a" for b
    using that assms(4) blocks by (simp add: live_def s')
qed

lemma block_to_arena_list: "block_to_arena b (upd_desc i (\<lambda>d. d\<lparr>free_list := f d\<rparr>) s) = block_to_arena b s"
proof -
  have "d_block_size (descs (upd_desc i (\<lambda>d. d\<lparr>free_list := f d\<rparr>) s) ! j) = d_block_size (descs s ! j)" for j
    by (simp add: upd_desc_nth)
  then show ?thesis by (simp only: block_to_arena_def length_upd_desc)
qed

lemma take_block_ok:
  assumes "heap_inv s" "i < length (descs s)" "free_list (descs s ! i) \<noteq> []"
  obtains b s' where "take_block i s = Some (b, s')" "b \<notin> live s" "heap_step s (insert b (live s)) s'" "b \<noteq> NULL"
    "block_size b s' = Some (d_block_size (descs s ! i))" "\<forall>j. d_lock (descs s' ! j) = d_lock (descs s ! j)"
proof -
  obtain b bs where l: "free_list (descs s ! i) = b # bs" using assms(3) by (cases "free_list (descs s ! i)") auto
  obtain h where h: "arenas s (pg_round_down b) = Some h" "a_desc h = Some i" "b \<in> blocks_in s (pg_round_down b) h"
    using free_list_arena [OF assms(1,2), of b] l by auto
  let ?a = "pg_round_down b"
  let ?n = "length (filter (\<lambda>c. pg_round_down c = ?a) bs)"
  define s' where "s' = set_arena ?a (h\<lparr>free_cnt := ?n\<rparr>) (upd_desc i (\<lambda>d. d\<lparr>free_list := bs\<rparr>) s)"
  have free: "free_ok s i" using heap_invD(3) [OF assms(1,2)] .
  have cnt: "free_cnt h = Suc ?n"
    using heap_invD(4) [OF assms(1) h(1)] h(2) l by (simp add: arena_ok_def free_in_def)
  have "Suc ?n < 2 ^ 32"
    using free_in_blocks(3) [OF assms(1,2) h(1,2)] per_arena_small [OF heap_invD(2) [OF assms(1,2)]] l by (simp add: free_in_def)
  then have "(free_cnt h + 2 ^ 32 - 1) mod 2 ^ 32 = ?n" unfolding cnt by simp
  moreover have upd: "upd_desc i (\<lambda>d. d\<lparr>free_list := tl (free_list d)\<rparr>) s = upd_desc i (\<lambda>d. d\<lparr>free_list := bs\<rparr>) s"
    using l by (simp add: upd_desc_def)
  ultimately have take: "take_block i s = Some (b, s')"
    using l block_to_arena_ok [OF assms(1) h(1,3)] by (simp add: take_block_def block_to_arena_list s'_def)
  have "\<forall>c\<in>set bs. pg_round_down c = ?a \<longrightarrow> c \<in> blocks_in s ?a h"
    using free_in_blocks(1) [OF assms(1,2) h(1,2)] l by (auto simp: free_in_def)
  moreover have "distinct bs" "b \<notin> set bs" using free l by (auto simp: free_ok_def)
  ultimately have step: "heap_step s (live s') s'" "\<And>c. pg_round_down c \<noteq> ?a \<Longrightarrow> c \<in> live s' \<longleftrightarrow> c \<in> live s"
      "\<And>c. pg_round_down c = ?a \<Longrightarrow> c \<in> live s' \<longleftrightarrow> c \<in> blocks_in s ?a h \<and> c \<notin> set bs"
    using recount_step [OF assms(1,2) h(1,2), of bs ?n s'] l s'_def by simp_all
  have "c \<in> live s' \<longleftrightarrow> c \<in> insert b (live s)" for c
  proof (cases "pg_round_down c = ?a")
    case True
    then have "c \<in> live s \<longleftrightarrow> c \<in> blocks_in s ?a h \<and> c \<notin> set (b # bs)" using h(1,2) l by (simp add: live_def)
    then show ?thesis using step(3) [OF True] h(3) \<open>b \<notin> set bs\<close> by auto
  next
    case False
    then show ?thesis using step(2) [OF False] by auto
  qed
  then have live: "live s' = insert b (live s)" by blast
  have "b \<in> live s'" using live by simp
  then have "b \<in> blocks_in s' ?a (h\<lparr>free_cnt := ?n\<rparr>)" by (simp add: live_def s'_def)
  then have "block_to_arena b s' = Some (?a, h\<lparr>free_cnt := ?n\<rparr>)"
    using step(1) by (intro block_to_arena_ok) (simp_all add: heap_step_def s'_def)
  then have size: "block_size b s' = Some (d_block_size (descs s ! i))"
    using h(2) by (simp add: block_size_def s'_def upd_desc_nth)
  have "?a \<noteq> NULL" using heap_invD(4) [OF assms(1) h(1)] by (simp add: arena_ok_def)
  then have "b \<noteq> NULL" by (cases b) (simp_all add: pg_round_down_def)
  moreover have "b \<notin> live s" using h(1,2) l by (simp add: live_def)
  moreover have "d_lock (descs s' ! j) = d_lock (descs s ! j)" for j by (simp add: s'_def upd_desc_nth)
  ultimately show ?thesis using that [OF take] step(1) live size by simp
qed

lemma put_block_step:
  assumes "heap_inv s" "arenas s a = Some h" "p \<in> blocks_in s a h" "p \<in> live s" "a_desc h = Some i"
    and "s' = set_arena a (h\<lparr>free_cnt := Suc (free_cnt h)\<rparr>) (upd_desc i (\<lambda>d. d\<lparr>free_list := p # free_list d\<rparr>) s)"
  shows "heap_step s (live s - {p}) s'" "Suc (free_cnt h) \<le> blocks_per_arena (descs s ! i)"
proof -
  have ok: "arena_ok s a h" using heap_invD(4) [OF assms(1,2)] .
  then have i: "i < length (descs s)" and cnt: "free_cnt h = length (free_in s i a)" using assms(5) by (simp_all add: arena_ok_def)
  have page: "pg_round_down p = a" using blocks_in_page [OF ok _ assms(3)] heap_invD(2) [OF assms(1)] by blast
  have new: "p \<notin> set (free_list (descs s ! i))" using assms(2,4,5) page by (simp add: live_def)
  let ?l = "p # free_list (descs s ! i)"
  have free: "free_ok s i" using heap_invD(3) [OF assms(1) i] .
  have "\<forall>b\<in>set ?l. pg_round_down b = a \<longrightarrow> b \<in> blocks_in s a h"
    using free_in_blocks(1) [OF assms(1) i assms(2,5)] assms(3) by (auto simp: free_in_def)
  moreover have s': "s' = set_arena a (h\<lparr>free_cnt := Suc (free_cnt h)\<rparr>) (upd_desc i (\<lambda>d. d\<lparr>free_list := ?l\<rparr>) s)"
    unfolding assms(6) by (simp add: upd_desc_def)
  ultimately have step: "heap_step s (live s') s'" "\<And>b. pg_round_down b \<noteq> a \<Longrightarrow> b \<in> live s' \<longleftrightarrow> b \<in> live s"
      "\<And>b. pg_round_down b = a \<Longrightarrow> b \<in> live s' \<longleftrightarrow> b \<in> blocks_in s a h \<and> b \<notin> set ?l"
    using recount_step [OF assms(1) i assms(2,5), of ?l "Suc (free_cnt h)" s'] free new page cnt
    by (simp_all add: free_ok_def free_in_def)
  have "b \<in> live s' \<longleftrightarrow> b \<in> live s - {p}" for b
  proof (cases "pg_round_down b = a")
    case True
    then have "b \<in> live s \<longleftrightarrow> b \<in> blocks_in s a h \<and> b \<notin> set (free_list (descs s ! i))" using assms(2,5) by (simp add: live_def)
    then show ?thesis using step(3) [OF True] by auto
  next
    case False
    then show ?thesis using step(2) [OF False] page by auto
  qed
  then have "live s' = live s - {p}" by blast
  then show "heap_step s (live s - {p}) s'" using step(1) by simp
  have inv': "heap_inv s'" using step(1) by (simp add: heap_step_def)
  have a': "arenas s' a = Some (h\<lparr>free_cnt := Suc (free_cnt h)\<rparr>)" "i < length (descs s')"
      "a_desc (h\<lparr>free_cnt := Suc (free_cnt h)\<rparr>) = Some i"
    using i assms(5) by (simp_all add: assms(6))
  have "Suc (free_cnt h) = length (free_in s' i a)" using heap_invD(4) [OF inv' a'(1)] a'(3) by (simp add: arena_ok_def)
  also have "\<dots> \<le> blocks_per_arena (descs s' ! i)" by (rule free_in_blocks(3) [OF inv' a'(2,1,3)])
  also have "\<dots> = blocks_per_arena (descs s ! i)" using i by (simp add: assms(6) upd_desc_nth)
  finally show "Suc (free_cnt h) \<le> blocks_per_arena (descs s ! i)" .
qed

text \<open>An arena whose blocks are all free, or a big block, goes back to the page allocator.\<close>

lemma remove_arena_step:
  assumes "heap_inv s" "arenas s a = Some h" "same_sizes s s'" "arenas s' = (arenas s)(a := None)" "machine_wf (a_m s')"
    and "pages_in_use (kernel_pool (a_m s')) = pages_in_use (kernel_pool (a_m s)) - arena_pages a h"
    and "\<And>j. j < length (descs s) \<Longrightarrow> free_list (descs s' ! j) = filter (\<lambda>b. pg_round_down b \<noteq> a) (free_list (descs s ! j))"
  shows "heap_step s {b \<in> live s. pg_round_down b \<noteq> a} s'"
proof -
  have dist: "distinct (free_list (descs s ! j))" if "j < length (descs s)" for j
    using heap_invD(3) [OF assms(1) that] by (simp add: free_ok_def)
  have args: "\<And>j. j < length (descs s) \<Longrightarrow> distinct (free_list (descs s' ! j)) \<and>
      filter (\<lambda>b. pg_round_down b \<noteq> a) (free_list (descs s' ! j)) = filter (\<lambda>b. pg_round_down b \<noteq> a) (free_list (descs s ! j))"
    "\<And>j b. j < length (descs s) \<Longrightarrow> b \<in> set (free_list (descs s' ! j)) \<Longrightarrow> pg_round_down b = a \<Longrightarrow>
      \<exists>h. arenas s' a = Some h \<and> a_desc h = Some j \<and> b \<in> blocks_in s' a h"
    "\<And>c g. c \<noteq> a \<Longrightarrow> arenas s c = Some g \<Longrightarrow>
      arena_pages c g \<inter> (arena_pages a h \<union> (case arenas s' a of None \<Rightarrow> {} | Some h \<Rightarrow> arena_pages a h)) = {}"
    using dist heap_invD(5) [OF assms(1) _ assms(2)] by (auto simp: assms(4,7))
  note step = heap_stepI [where Q = "arena_pages a h" and a = a, OF assms(1,3,5) _ _ args(1) _ args(2,3)]
  have "heap_step s (live s') s'" by (rule step(1)) (use assms(4,6) in auto)
  moreover have "b \<in> live s' \<longleftrightarrow> b \<in> live s \<and> pg_round_down b \<noteq> a" for b
  proof (cases "pg_round_down b = a")
    case True
    then show ?thesis by (simp add: live_def assms(4))
  next
    case False
    have "b \<in> live s' \<longleftrightarrow> b \<in> live s" by (rule step(2)) (use assms(4,6) False in auto)
    then show ?thesis using False by simp
  qed
  then have "live s' = {b \<in> live s. pg_round_down b \<noteq> a}" by blast
  ultimately show ?thesis by simp
qed

lemma free_pages:
  assumes "heap_inv s" "arenas s a = Some h" "run_of a n = arena_pages a h" "0 < n"
  obtains m where "palloc_free_multiple a n (a_m s) = Some m" "machine_wf m"
    "pages_in_use (kernel_pool m) = pages_in_use (kernel_pool (a_m s)) - arena_pages a h"
proof -
  have "run_of a n \<subseteq> pages_in_use (get_pool (plain_flags False) (a_m s))"
    using heap_invD(4) [OF assms(1,2)] assms(3) by (simp add: arena_ok_def get_pool_def plain_flags_def)
  then obtain m where "palloc_free_multiple a n (a_m s) = Some m" "machine_wf m"
    "pages_in_use (get_pool (plain_flags False) m) = pages_in_use (get_pool (plain_flags False) (a_m s)) - run_of a n"
    by (rule palloc_free_ok [OF heap_invD(1) [OF assms(1)] assms(4)])
  then show ?thesis using that assms(3) by (simp add: get_pool_def plain_flags_def)
qed

lemma full_arena:
  assumes "heap_inv s" "arenas s a = Some h" "a_desc h = Some i" "free_cnt h = blocks_per_arena (descs s ! i)"
  shows "set (free_in s i a) = blocks_in s a h"
proof -
  have i: "i < length (descs s)" "free_cnt h = length (free_in s i a)"
    using heap_invD(4) [OF assms(1,2)] assms(3) by (simp_all add: arena_ok_def)
  note f = free_in_blocks [OF assms(1) i(1) assms(2,3)]
  have "card (blocks_in s a h) = blocks_per_arena (descs s ! i)"
    using block_at_inj [OF heap_invD(2) [OF assms(1) i(1)]] assms(3) by (simp add: blocks_in_def card_image inj_on_def)
  moreover have "finite (blocks_in s a h)" using assms(3) by (simp add: blocks_in_def)
  ultimately show ?thesis using card_subset_eq [OF _ f(1)] distinct_card [OF f(2)] i(2) assms(4) by simp
qed

lemma drop_arena_ok:
  assumes "heap_inv s" "arenas s a = Some h" "a_desc h = Some i" "free_cnt h = blocks_per_arena (descs s ! i)"
  obtains s1 m where "empty_arena a i [0..<blocks_per_arena (descs s ! i)] s = Some s1" "palloc_free_page a (a_m s1) = Some m"
    "heap_step s (live s) (s1\<lparr>a_m := m, arenas := (arenas s1)(a := None)\<rparr>)" "\<forall>j. d_lock (descs s1 ! j) = d_lock (descs s ! j)"
proof -
  let ?d = "descs s ! i"
  let ?ks = "[0..<blocks_per_arena ?d]"
  have ok: "arena_ok s a h" using heap_invD(4) [OF assms(1,2)] .
  then have i: "i < length (descs s)" "a_magic h = ARENA_MAGIC" "a \<noteq> NULL" using assms(3) by (simp_all add: arena_ok_def)
  have full: "set (free_in s i a) = blocks_in s a h" by (rule full_arena [OF assms])
  have free: "free_ok s i" using heap_invD(3) [OF assms(1) i(1)] .
  have blocks: "blocks_in s a h = block_at ?d a ` set ?ks" using assms(3) by (simp add: blocks_in_def lessThan_atLeast0)
  have all_free: "list_all (\<lambda>k. k < blocks_per_arena ?d \<and> block_at ?d a k \<in> set (free_list ?d)) ?ks"
    using full blocks by (auto simp: list_all_iff free_in_def)
  define s1 where "s1 = upd_desc i (\<lambda>d. d\<lparr>free_list := filter (\<lambda>b. b \<notin> block_at ?d a ` set ?ks) (free_list d)\<rparr>) s"
  have run: "empty_arena a i ?ks s = Some s1"
    unfolding s1_def using free heap_invD(2) [OF assms(1) i(1)]
    by (intro empty_arena_eq [OF assms(2) i(2) assms(3) i(3,1) all_free]) (simp_all add: free_ok_def)
  have list_i: "filter (\<lambda>b. b \<notin> block_at ?d a ` set ?ks) (free_list ?d) = filter (\<lambda>b. pg_round_down b \<noteq> a) (free_list ?d)"
    using full unfolding blocks [symmetric] by (intro filter_cong) (auto simp: free_in_def dest: blocks_in_page [OF ok heap_invD(2) [OF assms(1)]])
  have list_j: "pg_round_down b \<noteq> a" if "j < length (descs s)" "j \<noteq> i" "b \<in> set (free_list (descs s ! j))" for j b
    using free_list_arena [OF assms(1) that(1,3)] that(2) assms(2,3) by (metis option.inject)
  have page: "run_of a 1 = arena_pages a h" unfolding run_of_1 by (simp add: arena_pages_def assms(3))
  obtain m where m: "palloc_free_multiple a 1 (a_m s) = Some m" "machine_wf m"
      "pages_in_use (kernel_pool m) = pages_in_use (kernel_pool (a_m s)) - arena_pages a h"
    by (rule free_pages [OF assms(1,2) page zero_less_one])
  let ?s = "s1\<lparr>a_m := m, arenas := (arenas s1)(a := None)\<rparr>"
  have "heap_step s {b \<in> live s. pg_round_down b \<noteq> a} ?s"
  proof (rule remove_arena_step [OF assms(1,2)])
    show "free_list (descs ?s ! j) = filter (\<lambda>b. pg_round_down b \<noteq> a) (free_list (descs s ! j))" if "j < length (descs s)" for j
      using list_j [OF that] list_i i(1) by (auto simp: s1_def upd_desc_nth filter_id_conv)
  qed (use m(2,3) in \<open>simp_all add: s1_def same_sizes_def upd_desc_nth\<close>)
  moreover have "pg_round_down b \<noteq> a" if "b \<in> live s" for b
    using that assms(2,3) full by (auto simp: live_def free_in_def)
  then have "{b \<in> live s. pg_round_down b \<noteq> a} = live s" by blast
  moreover have "d_lock (descs s1 ! j) = d_lock (descs s ! j)" for j by (simp add: s1_def upd_desc_nth)
  ultimately show ?thesis using that [OF run] m(1) by (simp add: palloc_free_page_def s1_def)
qed

section \<open>Allocation and release\<close>

lemma malloc_big_ok:
  assumes "heap_inv s"
  obtains p s' where "malloc_big sz s = Some (p, s')" "descs s' = descs s" "p = NULL \<longrightarrow> heap_step s (live s) s'"
    "p \<noteq> NULL \<longrightarrow> p \<notin> live s \<and> heap_step s (insert p (live s)) s' \<and> block_size p s' = Some (PGSIZE * big_pages sz - arena_size)"
proof -
  let ?n = "big_pages sz"
  obtain a m where get: "palloc_get_multiple (plain_flags False) ?n (a_m s) = Some (a, m)"
    using palloc_get_total [OF heap_invD(1) [OF assms], of "plain_flags False" ?n] by (auto simp: plain_flags_def)
  show ?thesis
  proof (cases "a = NULL")
    case True
    then show ?thesis
      using that [of NULL "s\<lparr>a_m := m\<rparr>"] no_pages [OF assms get [unfolded True]] get by (simp add: malloc_big_def Let_def)
  next
    case False
    then have n: "0 < ?n" using get by (cases "?n = 0") (simp_all add: palloc_get_multiple_def)
    note f = fresh_pages [OF assms n get False]
    let ?h = "\<lparr>a_magic = ARENA_MAGIC, a_desc = None, free_cnt = ?n\<rparr>"
    let ?s = "set_arena a ?h (s\<lparr>a_m := m\<rparr>)"
    have sizes: "same_sizes s ?s" by (simp add: same_sizes_def)
    have wf: "machine_wf (a_m ?s)" using f(1) by simp
    have ok: "arena_ok ?s a ?h" using f(2,4) n False by (simp add: arena_ok_def arena_pages_def)
    have free: "distinct (free_list (descs s ! j))" "b \<in> set (free_list (descs s ! j)) \<Longrightarrow> pg_round_down b \<noteq> a"
      if "j < length (descs s)" for j b
      using heap_invD(3) [OF assms that] f(5) by (auto simp: free_ok_def)
    have apart: "arena_pages c g \<inter> ({} \<union> (case arenas ?s a of None \<Rightarrow> {} | Some h \<Rightarrow> arena_pages a h)) = {}"
      if "c \<noteq> a" "arenas s c = Some g" for c g using f(6) [OF that(2)] by (simp add: arena_pages_def)
    note step = heap_stepI [where Q = "{}" and a = a, OF assms sizes wf _ _ _ _ _ apart]
    have step1: "heap_step s (live ?s) ?s" by (rule step(1)) (use f(4,5) ok free in auto)
    have page: "pg_round_down (a + arena_size) = a"
      using round_offset [OF f(2), of arena_size] by (simp add: arena_size_def PGSIZE_def PGBITS_def)
    have "b \<in> live ?s \<longleftrightarrow> b \<in> insert (a + arena_size) (live s)" for b
    proof (cases "pg_round_down b = a")
      case True
      then show ?thesis using f(5) page by (auto simp: live_def blocks_in_def)
    next
      case False
      have "b \<in> live ?s \<longleftrightarrow> b \<in> live s" by (rule step(2)) (use f(4,5) ok free False in auto)
      then show ?thesis using False page by auto
    qed
    then have live: "live ?s = insert (a + arena_size) (live s)" by blast
    have "block_size (a + arena_size) ?s = Some (PGSIZE * ?n - arena_size)"
      using big_block_size [of ?s a ?h] step1 by (simp add: heap_step_def)
    moreover have "a + arena_size \<notin> live s" using f(5) page by (simp add: live_def)
    ultimately show ?thesis
      using that [of "a + arena_size" ?s] step1 live get False by (simp add: malloc_big_def Let_def arena_size_def)
  qed
qed

lemma lock_step:
  assumes "heap_inv s"
  shows "heap_step s (live s) (upd_desc i (\<lambda>d. d\<lparr>d_lock := l\<rparr>) s)"
  using heap_invD(1) [OF assms] by (intro same_heap_step [OF assms]) (simp_all add: same_sizes_def upd_desc_nth)

lemma heap_stepD: "heap_step s L s' \<Longrightarrow> heap_inv s'" "heap_step s L s' \<Longrightarrow> live s' = L"
    "heap_step s L s' \<Longrightarrow> length (descs s') = length (descs s)"
  by (simp_all add: heap_step_def same_sizes_def)

lemma unlock_ok:
  assumes "heap_inv s'" "i < length (descs s')" "unlocked s"
    and "\<And>j. d_lock (descs s' ! j) = d_lock (descs (upd_desc i (\<lambda>d. d\<lparr>d_lock := True\<rparr>) s) ! j)" "length (descs s') = length (descs s)"
  obtains s'' where "desc_unlock i s' = Some s''" "heap_step s' (live s') s''" "unlocked s''"
    "\<forall>b. block_size b s'' = block_size b s'"
proof -
  let ?s = "upd_desc i (\<lambda>d. d\<lparr>d_lock := False\<rparr>) s'"
  have "desc_unlock i s' = Some ?s" using assms(2,4,5) by (simp add: desc_unlock_def upd_desc_nth)
  moreover have "unlocked ?s" using assms by (simp add: unlocked_def upd_desc_nth)
  moreover have "block_size b ?s = block_size b s'" for b
  proof -
    have "d_block_size (descs ?s ! j) = d_block_size (descs s' ! j)" for j by (simp add: upd_desc_nth)
    then show ?thesis by (simp only: block_size_def block_to_arena_def length_upd_desc)
  qed
  ultimately show ?thesis using that lock_step [OF assms(1)] by blast
qed

lemma find_desc_size: "find_desc sz ds \<le> length ds \<and> (find_desc sz ds < length ds \<longrightarrow> sz \<le> d_block_size (ds ! find_desc sz ds))"
  by (induction ds) auto

lemma big_pages_fit:
  assumes "sz \<le> 2 ^ 32 - PGSIZE - arena_size"
  shows "sz + arena_size \<le> PGSIZE * big_pages sz"
proof -
  have small: "sz + arena_size + PGSIZE - 1 < 2 ^ 32" using assms by (simp add: PGSIZE_def PGBITS_def arena_size_def)
  moreover have "(sz + arena_size) mod 2 ^ 32 = sz + arena_size" using assms by (simp add: PGSIZE_def PGBITS_def arena_size_def)
  ultimately have pages: "big_pages sz = (sz + arena_size + PGSIZE - 1) div PGSIZE" by (simp add: big_pages_def)
  have "sz + arena_size + PGSIZE - 1 = PGSIZE * big_pages sz + (sz + arena_size + PGSIZE - 1) mod PGSIZE"
    unfolding pages by simp
  moreover have "(sz + arena_size + PGSIZE - 1) mod PGSIZE < PGSIZE" by simp
  ultimately show ?thesis by linarith
qed

text \<open>The size of a request wraps around: a request for all but 11 bytes of the address space is served with one page.\<close>

lemma big_pages_wraps: "big_pages (2 ^ 32 - 11) = 1"
  by (simp add: big_pages_def arena_size_def PGSIZE_def PGBITS_def)

lemma malloc_ok:
  assumes "heap_inv s" "unlocked s"
  obtains p s' where "malloc sz s = Some (p, s')" "unlocked s'" "p = NULL \<longrightarrow> heap_step s (live s) s'"
    "p \<noteq> NULL \<longrightarrow> p \<notin> live s \<and> heap_step s (insert p (live s)) s' \<and>
      (\<exists>n. block_size p s' = Some n \<and> (sz \<le> 2 ^ 32 - PGSIZE - arena_size \<longrightarrow> sz \<le> n))"
proof (cases "sz = 0")
  case True
  have "heap_step s (live s) s" using assms(1) by (simp add: heap_step_def same_sizes_def)
  then show ?thesis using that [of NULL s] True assms(2) by (simp add: malloc_def)
next
  case False
  let ?i = "find_desc sz (descs s)"
  show ?thesis
  proof (cases "?i = length (descs s)")
    case True
    obtain p s' where big: "malloc_big sz s = Some (p, s')" "descs s' = descs s" "p = NULL \<longrightarrow> heap_step s (live s) s'"
      "p \<noteq> NULL \<longrightarrow> p \<notin> live s \<and> heap_step s (insert p (live s)) s' \<and> block_size p s' = Some (PGSIZE * big_pages sz - arena_size)"
      by (rule malloc_big_ok [OF assms(1)])
    then show ?thesis
      using that [of p s'] True False assms(2) big_pages_fit [of sz] by (fastforce simp: malloc_def unlocked_def)
  next
    case small: False
    then have i: "?i < length (descs s)" "sz \<le> d_block_size (descs s ! ?i)" using find_desc_size [of sz "descs s"] by auto
    let ?s1 = "upd_desc ?i (\<lambda>d. d\<lparr>d_lock := True\<rparr>) s"
    have lock: "desc_lock ?i s = Some ?s1" using assms(2) i(1) by (simp add: desc_lock_def unlocked_def)
    note step1 = lock_step [OF assms(1), of ?i True]
    have i1: "?i < length (descs ?s1)" using i(1) by simp
    obtain ok s2 where s2: "refill ?i ?s1 = Some (ok, s2)" "heap_step ?s1 (live ?s1) s2" "ok \<longrightarrow> free_list (descs s2 ! ?i) \<noteq> []"
        "\<forall>j. d_lock (descs s2 ! j) = d_lock (descs ?s1 ! j)"
      by (rule refill_ok [OF heap_stepD(1) [OF step1] i1])
    have step2: "heap_step s (live s) s2" using heap_step_trans [OF step1] s2(2) heap_stepD(2) [OF step1] by simp
    note inv2 = heap_stepD(1) [OF step2]
    have i2: "?i < length (descs s2)" "length (descs s2) = length (descs s)" using heap_stepD(3) [OF step2] i(1) by simp_all
    show ?thesis
    proof (cases ok)
      case False
      obtain s3 where s3: "desc_unlock ?i s2 = Some s3" "heap_step s2 (live s2) s3" "unlocked s3"
        by (rule unlock_ok [OF inv2 i2(1) assms(2) spec [OF s2(4)] i2(2)])
      have "heap_step s (live s) s3" using heap_step_trans [OF step2] s3(2) heap_stepD(2) [OF step2] by simp
      then show ?thesis
        using that [of NULL s3] \<open>sz \<noteq> 0\<close> small lock s2(1) s3(1,3) False by (simp add: malloc_def Let_def)
    next
      case True
      obtain b s3 where s3: "take_block ?i s2 = Some (b, s3)" "b \<notin> live s2" "heap_step s2 (insert b (live s2)) s3" "b \<noteq> NULL"
          "block_size b s3 = Some (d_block_size (descs s2 ! ?i))" "\<forall>j. d_lock (descs s3 ! j) = d_lock (descs s2 ! j)"
        by (rule take_block_ok [OF inv2 i2(1) mp [OF s2(3) True]])
      have live2: "live s2 = live s" by (rule heap_stepD(2) [OF step2])
      have step3: "heap_step s (insert b (live s)) s3"
        using heap_step_trans [OF step2 s3(3)] s3(2) live2 by simp
      note inv3 = heap_stepD(1) [OF step3]
      have i3: "?i < length (descs s3)" "length (descs s3) = length (descs s)" using heap_stepD(3) [OF step3] i(1) by simp_all
      have locks: "d_lock (descs s3 ! j) = d_lock (descs ?s1 ! j)" for j using s3(6) s2(4) by simp
      obtain s4 where s4: "desc_unlock ?i s3 = Some s4" "heap_step s3 (live s3) s4" "unlocked s4" "\<forall>b. block_size b s4 = block_size b s3"
        by (rule unlock_ok [OF inv3 i3(1) assms(2) locks i3(2)])
      have "heap_step s (insert b (live s)) s4"
        using heap_step_trans [OF step3] s4(2) heap_stepD(2) [OF step3] by simp
      moreover have "d_block_size (descs s2 ! ?i) = d_block_size (descs s ! ?i)"
        using step2 i(1) by (simp add: heap_step_def same_sizes_def)
      ultimately show ?thesis
        using that [of b s4] \<open>sz \<noteq> 0\<close> small lock s2(1) s3(1,2,4,5) s4(1,3,4) True live2 i(2) by (simp add: malloc_def Let_def)
    qed
  qed
qed

lemma put_block_ok:
  assumes "heap_inv s" "arenas s a = Some h" "p \<in> blocks_in s a h" "p \<in> live s" "a_desc h = Some i"
  obtains s' where "put_block p a h i s = Some s'" "heap_step s (live s - {p}) s'" "\<forall>j. d_lock (descs s' ! j) = d_lock (descs s ! j)"
proof -
  have i: "i < length (descs s)" using heap_invD(4) [OF assms(1,2)] assms(5) by (simp add: arena_ok_def)
  let ?h = "h\<lparr>free_cnt := Suc (free_cnt h)\<rparr>"
  define s1 where "s1 = set_arena a ?h (upd_desc i (\<lambda>d. d\<lparr>free_list := p # free_list d\<rparr>) s)"
  note step = put_block_step [OF assms s1_def]
  note inv1 = heap_stepD(1) [OF step(1)]
  have n: "blocks_per_arena (descs s1 ! i) = blocks_per_arena (descs s ! i)" by (simp add: s1_def upd_desc_nth)
  have "Suc (free_cnt h) < 2 ^ 32" using step(2) per_arena_small [OF heap_invD(2) [OF assms(1) i]] by simp
  then have put: "put_block p a h i s = (if Suc (free_cnt h) \<ge> blocks_per_arena (descs s ! i) then do {
       ASSERT (Suc (free_cnt h) = blocks_per_arena (descs s ! i));
       t \<leftarrow> empty_arena a i [0..<blocks_per_arena (descs s ! i)] s1;
       m \<leftarrow> palloc_free_page a (a_m t);
       Some (t\<lparr>a_m := m, arenas := (arenas t)(a := None)\<rparr>) } else Some s1)"
    using n by (simp add: put_block_def s1_def Let_def)
  have locks: "d_lock (descs s1 ! j) = d_lock (descs s ! j)" for j by (simp add: s1_def upd_desc_nth)
  show ?thesis
  proof (cases "blocks_per_arena (descs s ! i) \<le> Suc (free_cnt h)")
    case False
    then show ?thesis using that [of s1] put step(1) locks by simp
  next
    case True
    then have full: "Suc (free_cnt h) = blocks_per_arena (descs s ! i)" using step(2) by simp
    have a: "arenas s1 a = Some ?h" "a_desc ?h = Some i" "free_cnt ?h = blocks_per_arena (descs s1 ! i)"
      using assms(5) full n by (simp_all add: s1_def)
    obtain t m where t: "empty_arena a i [0..<blocks_per_arena (descs s1 ! i)] s1 = Some t" "palloc_free_page a (a_m t) = Some m"
        "heap_step s1 (live s1) (t\<lparr>a_m := m, arenas := (arenas t)(a := None)\<rparr>)" "\<forall>j. d_lock (descs t ! j) = d_lock (descs s1 ! j)"
      by (rule drop_arena_ok [OF inv1 a])
    have "heap_step s (live s - {p}) (t\<lparr>a_m := m, arenas := (arenas t)(a := None)\<rparr>)"
      using heap_step_trans [OF step(1)] t(3) heap_stepD(2) [OF step(1)] by simp
    then show ?thesis
      using that [of "t\<lparr>a_m := m, arenas := (arenas t)(a := None)\<rparr>"] put full t(1,2,4) n locks by simp
  qed
qed

lemma memory_step:
  assumes "heap_inv s"
  shows "heap_step s (live s) (s\<lparr>a_m := (a_m s)\<lparr>m_mem := mem\<rparr>\<rparr>)"
  using heap_invD(1) [OF assms] by (intro same_heap_step [OF assms]) (simp_all add: same_sizes_def)

lemma free_ok_live:
  assumes "heap_inv s" "unlocked s" "p \<in> live s"
  obtains s' where "free p s = Some s'" "heap_step s (live s - {p}) s'" "unlocked s'"
proof -
  obtain a h where a: "arenas s a = Some h" "p \<in> blocks_in s a h" "pg_round_down p = a"
    "\<And>i. a_desc h = Some i \<Longrightarrow> p \<notin> set (free_list (descs s ! i))" using live_arena [OF assms(3)] by metis
  have "a \<noteq> NULL" using heap_invD(4) [OF assms(1) a(1)] by (simp add: arena_ok_def)
  then have p: "p \<noteq> NULL" using a(3) by (cases p) (auto simp: pg_round_down_def)
  note arena = block_to_arena_ok [OF assms(1) a(1,2)]
  show ?thesis
  proof (cases "a_desc h")
    case None
    then have n: "run_of a (free_cnt h) = arena_pages a h" "0 < free_cnt h"
      using heap_invD(4) [OF assms(1) a(1)] by (simp_all add: arena_pages_def arena_ok_def)
    obtain m where m: "palloc_free_multiple a (free_cnt h) (a_m s) = Some m" "machine_wf m"
        "pages_in_use (kernel_pool m) = pages_in_use (kernel_pool (a_m s)) - arena_pages a h"
      by (rule free_pages [OF assms(1) a(1) n])
    let ?s = "s\<lparr>a_m := m, arenas := (arenas s)(a := None)\<rparr>"
    have lists: "filter (\<lambda>b. pg_round_down b \<noteq> a) (free_list (descs s ! j)) = free_list (descs s ! j)" if "j < length (descs s)" for j
      using heap_invD(3) [OF assms(1) that] a(1) None by (auto simp: filter_id_conv free_ok_def)
    have "heap_step s {b \<in> live s. pg_round_down b \<noteq> a} ?s"
      by (rule remove_arena_step [OF assms(1) a(1)]) (use m(2,3) lists in \<open>simp_all add: same_sizes_def\<close>)
    moreover have "b = p" if "b \<in> live s" "pg_round_down b = a" for b
      using that a(1,2) None by (simp add: live_def blocks_in_def)
    then have "{b \<in> live s. pg_round_down b \<noteq> a} = live s - {p}" using a(3) by auto
    ultimately show ?thesis using that [of ?s] p arena None m(1) assms(2) by (simp add: free_def unlocked_def)
  next
    case (Some i)
    define s1 where "s1 = s\<lparr>a_m := (a_m s)\<lparr>m_mem := set_loop (d_block_size (descs s ! i)) (m_mem (a_m s)) p 0xcc\<rparr>\<rparr>"
    define s2 where "s2 = upd_desc i (\<lambda>d. d\<lparr>d_lock := True\<rparr>) s1"
    have i: "i < length (descs s)" using heap_invD(4) [OF assms(1) a(1)] Some by (simp add: arena_ok_def)
    have step1: "heap_step s (live s) s1" unfolding s1_def by (rule memory_step [OF assms(1)])
    note inv1 = heap_stepD(1) [OF step1] and live1 = heap_stepD(2) [OF step1]
    have step2: "heap_step s (live s) s2"
      using heap_step_trans [OF step1, of "live s1" s2] lock_step [OF inv1, of i True] live1 by (simp add: s2_def)
    note inv2 = heap_stepD(1) [OF step2] and live2 = heap_stepD(2) [OF step2]
    have "blocks_in s2 a h = blocks_in s a h"
      using step2 i Some by (intro blocks_in_same) (simp_all add: heap_step_def)
    moreover have "arenas s2 a = Some h" using a(1) by (simp add: s2_def s1_def)
    ultimately have a2: "arenas s2 a = Some h" "p \<in> blocks_in s2 a h" "p \<in> live s2" using a(2) assms(3) live2 by simp_all
    obtain s3 where s3: "put_block p a h i s2 = Some s3" "heap_step s2 (live s2 - {p}) s3" "\<forall>j. d_lock (descs s3 ! j) = d_lock (descs s2 ! j)"
      by (rule put_block_ok [OF inv2 a2 Some])
    have step3: "heap_step s (live s - {p}) s3" using heap_step_trans [OF step2 s3(2)] live2 by auto
    have un1: "unlocked s1" using assms(2) by (simp add: s1_def unlocked_def)
    have i3: "i < length (descs s3)" "length (descs s3) = length (descs s1)"
      using heap_stepD(3) [OF step3] i by (simp_all add: s1_def)
    obtain s4 where s4: "desc_unlock i s3 = Some s4" "heap_step s3 (live s3) s4" "unlocked s4"
      using unlock_ok [OF heap_stepD(1) [OF step3] i3(1) un1 _ i3(2)] s3(3) s2_def by metis
    have "heap_step s (live s - {p}) s4" using heap_step_trans [OF step3] s4(2) heap_stepD(2) [OF step3] by simp
    moreover have "free p s = Some s4"
      using p arena Some i un1 s3(1) s4(1)
      by (simp add: free_def memset_def desc_lock_def unlocked_def flip: s1_def s2_def) (simp add: s1_def)
    ultimately show ?thesis using that s4(3) by blast
  qed
qed

lemma malloc_init_ok:
  assumes "machine_wf m" "malloc_init m = Some s"
  shows "heap_inv s" "unlocked s" "live s = {}"
proof -
  have s: "a_m s = m" "arenas s = Map.empty" "init_descs 16 [] = Some (descs s)"
    using assms(2) by (auto simp: malloc_init_def elim!: bind_eq_SomeE)
  define good where "good ds \<longleftrightarrow> list_all (\<lambda>d. desc_ok d \<and> free_list d = [] \<and> \<not> d_lock d) ds" for ds
  have "init_descs n ds = Some ds' \<Longrightarrow> good ds \<Longrightarrow> good ds'" for n ds ds'
  proof (induction n ds rule: init_descs.induct)
    case (1 n ds)
    show ?case
    proof (cases "0 < n \<and> n < PGSIZE div 2")
      case True
      let ?d = "\<lparr>d_block_size = n, blocks_per_arena = (PGSIZE - arena_size) div n, free_list = [], d_lock = False\<rparr>"
      have "n \<le> PGSIZE - arena_size" using True by (simp add: PGSIZE_def PGBITS_def arena_size_def)
      then have "0 < (PGSIZE - arena_size) div n" using True by (simp add: div_greater_zero_iff)
      moreover have "(PGSIZE - arena_size) div n * n + arena_size \<le> PGSIZE"
        using div_times_less_eq_dividend [of "PGSIZE - arena_size" n] by (simp add: PGSIZE_def PGBITS_def arena_size_def)
      ultimately have "desc_ok ?d" using True by (simp add: desc_ok_def)
      then have "good (ds @ [?d])" using 1(3) by (simp add: good_def)
      moreover have "init_descs (n * 2) (ds @ [?d]) = Some ds'" using 1(2) True by (subst (asm) init_descs.simps) (auto split: if_splits)
      moreover have "ASSERT (length ds + 1 \<le> 10) = Some ()" using 1(2) True by (subst (asm) init_descs.simps) (auto split: if_splits)
      ultimately show ?thesis using 1(1) [OF True] by blast
    next
      case False
      then show ?thesis using 1(2,3) by (subst (asm) init_descs.simps) auto
    qed
  qed
  from this [OF s(3)] have "good (descs s)" by (simp add: good_def)
  then have "desc_ok (descs s ! i) \<and> free_list (descs s ! i) = [] \<and> \<not> d_lock (descs s ! i)" if "i < length (descs s)" for i
    using that by (simp add: good_def list_all_length)
  then show "heap_inv s" "unlocked s" "live s = {}"
    using assms(1) s(1,2) by (simp_all add: heap_inv_def unlocked_def live_def free_ok_def)
qed

lemma malloc_init_total: "\<exists>s. malloc_init m = Some s"
proof -
  have "\<exists>ds. init_descs 16 [] = Some ds"
    by (subst init_descs.simps, simp add: PGSIZE_def PGBITS_def)+
  then show ?thesis by (auto simp: malloc_init_def)
qed

text \<open>C40. The heap stays well formed, whatever is allocated and released and in whatever order.  A request always returns: with
  the null pointer and the blocks in use as they were, or with a block that was not in use, that does not overlap any other
  block in use, and that holds the bytes asked for, unless so many were asked for that their number wraps around.  Releasing a
  block in use succeeds and ends the use of exactly that block.  The blocks in use keep their place and size, and no lock
  stays taken.\<close>

theorem malloc_free_safe:
  assumes "heap_inv s" "unlocked s"
  shows "(\<exists>p s'. malloc sz s = Some (p, s') \<and> heap_inv s' \<and> unlocked s' \<and> (\<forall>q\<in>live s. block_bytes s' q = block_bytes s q) \<and>
      (if p = NULL then live s' = live s
       else p \<notin> live s \<and> live s' = insert p (live s) \<and> (\<forall>q\<in>live s. block_bytes s' p \<inter> block_bytes s' q = {}) \<and>
         (sz \<le> 2 ^ 32 - PGSIZE - arena_size \<longrightarrow> {p..<p + sz} \<subseteq> block_bytes s' p))) \<and>
    (\<forall>p\<in>live s. \<exists>s'. free p s = Some s' \<and> heap_inv s' \<and> unlocked s' \<and> live s' = live s - {p} \<and>
      (\<forall>q\<in>live s'. block_bytes s' q = block_bytes s q))"
proof
  obtain p s' where m: "malloc sz s = Some (p, s')" "unlocked s'" "p = NULL \<longrightarrow> heap_step s (live s) s'"
    "p \<noteq> NULL \<longrightarrow> p \<notin> live s \<and> heap_step s (insert p (live s)) s' \<and>
      (\<exists>n. block_size p s' = Some n \<and> (sz \<le> 2 ^ 32 - PGSIZE - arena_size \<longrightarrow> sz \<le> n))"
    by (rule malloc_ok [OF assms])
  have inv: "heap_inv s'" "\<forall>q\<in>live s. block_bytes s' q = block_bytes s q" using m(3,4) by (auto simp: heap_step_def)
  have "if p = NULL then live s' = live s
    else p \<notin> live s \<and> live s' = insert p (live s) \<and> (\<forall>q\<in>live s. block_bytes s' p \<inter> block_bytes s' q = {}) \<and>
      (sz \<le> 2 ^ 32 - PGSIZE - arena_size \<longrightarrow> {p..<p + sz} \<subseteq> block_bytes s' p)"
  proof (cases "p = NULL")
    case True
    then show ?thesis using m(3) by (simp add: heap_step_def)
  next
    case False
    then have live: "p \<notin> live s" "live s' = insert p (live s)" using m(4) by (simp_all add: heap_step_def)
    then have "block_bytes s' p \<inter> block_bytes s' q = {}" if "q \<in> live s" for q
      using live_disjoint [OF inv(1), of p q] that by auto
    moreover have "sz \<le> 2 ^ 32 - PGSIZE - arena_size \<longrightarrow> {p..<p + sz} \<subseteq> block_bytes s' p"
      using False m(4) by (auto simp: block_bytes_def)
    ultimately show ?thesis using False live by simp
  qed
  then show "\<exists>p s'. malloc sz s = Some (p, s') \<and> heap_inv s' \<and> unlocked s' \<and> (\<forall>q\<in>live s. block_bytes s' q = block_bytes s q) \<and>
      (if p = NULL then live s' = live s
       else p \<notin> live s \<and> live s' = insert p (live s) \<and> (\<forall>q\<in>live s. block_bytes s' p \<inter> block_bytes s' q = {}) \<and>
         (sz \<le> 2 ^ 32 - PGSIZE - arena_size \<longrightarrow> {p..<p + sz} \<subseteq> block_bytes s' p))"
    using m(1,2) inv by blast
  show "\<forall>p\<in>live s. \<exists>s'. free p s = Some s' \<and> heap_inv s' \<and> unlocked s' \<and> live s' = live s - {p} \<and>
      (\<forall>q\<in>live s'. block_bytes s' q = block_bytes s q)"
  proof
    fix p
    assume "p \<in> live s"
    then obtain s' where "free p s = Some s'" "heap_step s (live s - {p}) s'" "unlocked s'" by (rule free_ok_live [OF assms])
    then show "\<exists>s'. free p s = Some s' \<and> heap_inv s' \<and> unlocked s' \<and> live s' = live s - {p} \<and>
      (\<forall>q\<in>live s'. block_bytes s' q = block_bytes s q)" by (auto simp: heap_step_def)
  qed
qed

theorem malloc_free_safe_witness:
  "\<exists>s p s'. malloc_init sample_machine = Some s \<and> malloc 24 s = Some (p, s') \<and> heap_inv s' \<and>
    (p \<noteq> NULL \<longrightarrow> live s' = {p} \<and> {p..<p + 24} \<subseteq> block_bytes s' p)"
proof -
  obtain s where s: "malloc_init sample_machine = Some s" using malloc_init_total by blast
  note ok = malloc_init_ok [OF sample_machine_wf s]
  show ?thesis
    using malloc_free_safe [OF ok(1,2), of 24] s ok(3) by (fastforce simp: PGSIZE_def PGBITS_def arena_size_def split: if_splits)
qed

end
