(* ===== verification/Spec2Isabelle.thy ===== *)
theory Spec2Isabelle
  imports Fixed_Point Kernel_List_Sort Bitmap Kernel_Inv_Ops Arith64 Random_Gen Stdlib_Sort Intq Pagedir Hash_Table Process_Args Process_Load Syscall_Mmap Process_Wait Stdio Malloc
begin

text \<open>
  A model of the Pintos kernel of this repository (\<open>src/src/\<close>) and the theorems that make it correct: threads, synchronisation
  and interrupts, the memory allocators and page tables, virtual memory with swapping, the file system with its buffer cache,
  user processes and system calls, and the library the kernel is built on.

  \<^bold>\<open>How the parts interact.\<close>  The kernel runs on one 32-bit processor.  Threads (\<open>threads/thread.c\<close>) give it up in \<open>schedule\<close>,
  wait on semaphores, locks and condition variables (\<open>threads/synch.c\<close>) and are preempted by the timer (\<open>devices/timer.c\<close>)
  through the interrupt code (\<open>threads/interrupt.c\<close>).  Pages come from \<open>threads/palloc.c\<close>, blocks from \<open>threads/malloc.c\<close>, which
  cuts them from pages.  The page tables (\<open>userprog/pagedir.c\<close>) live in pages of the kernel pool; the frame table
  (\<open>vm/frame.c\<close>) owns the pages of the user pool and fills them with the pages that the supplemental page table (\<open>vm/page.c\<close>)
  describes, from swap (\<open>vm/swap.c\<close>) or from files.  Files are inodes (\<open>filesys/inode.c\<close>) that are read and written through the
  buffer cache (\<open>filesys/cache.c\<close>) on a block device (\<open>devices/block.c\<close>), named by directories (\<open>filesys/directory.c\<close>), on sectors
  that the free map (\<open>filesys/free-map.c\<close>) hands out.  A user process (\<open>userprog/process.c\<close>) is loaded from a file, faults its
  pages in (\<open>userprog/exception.c\<close>) and calls the kernel (\<open>userprog/syscall.c\<close>).

  \<^bold>\<open>Conventions.\<close>  A function of the source is a HOL function of the same name where that is possible.  State is passed
  explicitly, as a record per component; structures that the code shares through pointers are in heaps, maps from addresses
  (\<open>ptr\<close>, with \<open>NULL\<close> = 0) to records.  The result \<open>None\<close> says that the kernel stops: a failed \<open>ASSERT\<close>, a \<open>PANIC\<close>, a null
  pointer that is followed, memory that is touched outside its bounds.  A thread that ends inside a function is \<open>Inl\<close> with the
  state it leaves.  Machine integers are words or numbers with the wrap-around written out (\<open>mod 2 ^ 32\<close>, \<open>s32\<close>).  Loops are
  recursive functions with a termination proof; the loops whose end depends on a well-formed heap are
  \<open>partial_function (option)\<close>, where \<open>None\<close> also stands for not returning, so that a theorem that such a loop yields \<open>Some\<close> says
  that it returns.  No fuel is used.  What other code decides (the outcomes of \<open>malloc\<close> for its clients, the keys that are typed,
  what a child does during \<open>exec\<close>) is an argument or a list in the state, and the theorems hold for every value of it.

  \<^bold>\<open>Library.\<close>  \<open>Prelude\<close>: machine types and what all parts share.  \<open>Fixed_Point\<close> (\<open>threads/fixed-point.c\<close>): conversions are exact
  and round to nearest (C1, C2).  \<open>Kernel_List\<close>, \<open>Kernel_List_Refine\<close>, \<open>Kernel_List_Sort\<close> (\<open>lib/kernel/list.c\<close>): doubly linked
  lists in an explicit heap represent HOL lists; a queue is first in, first out (C3), the in-place merge sort returns and sorts
  stably (C4), ordered insertion keeps the order (C5).  The locale \<open>kqueue\<close> is the interface of a queue, \<open>list_order\<close> the contract
  of a comparison function, interpreted in \<open>Timer\<close> for the list of sleeping threads.  \<open>Bitmap\<close> (\<open>lib/kernel/bitmap.c\<close>): the first
  free run is found and flipped, for an empty run the one at the start of the search (C6), runs handed out are disjoint (C7); the locale \<open>bit_pool\<close> is what the page allocator and the
  free map rely on.  \<open>Hash_Table\<close> (\<open>lib/kernel/hash.c\<close>), with the locale \<open>hash_fns\<close> for the functions of the client, interpreted in
  \<open>Page\<close>.  \<open>Arith64\<close> (\<open>lib/arithmetic.c\<close>): 64-bit division is exact (C10, C11), remainders are cut to 32 bits (C12).
  \<open>Random_Gen\<close> (\<open>lib/random.c\<close>): C13.  \<open>Stdlib\<close>, \<open>Stdlib_Sort\<close> (\<open>lib/stdlib.c\<close>): \<open>atoi\<close>, heap sort and binary search on the
  bytes of an array (C14 to C16).  \<open>C_String\<close> (\<open>lib/string.c\<close>): C19 to C21.  \<open>Stdio\<close> (\<open>lib/stdio.c\<close>): the interpreter of formats;
  printed integers are read back, and \<open>snprintf\<close> stays in its buffer (C39).

  \<^bold>\<open>Threads.\<close>  \<open>Kernel_State\<close> holds the state that \<open>Scheduler\<close>, \<open>Synch\<close>, \<open>Thread\<close>, \<open>Timer\<close> and \<open>Interrupt\<close> share; \<open>Kernel_Run\<close>
  composes their operations to executions, in which a function that gives up the processor leaves the rest of its work as a
  continuation.  The scheduler runs the first ready thread of highest priority (C8), and the load averages of any
  sequence of updates lie between 0 and the largest number of runnable threads that one of them counts (C9).
  \<open>Kernel_Inv\<close> and \<open>Kernel_Inv_Ops\<close>: one thread runs, the ready list holds the ready threads, and a waiting thread is blocked on
  one semaphore; switching, yielding, blocking, waking and the operations of semaphores keep this, while for locks, conditions,
  \<open>thread_create\<close> and the interrupt handlers it is not proved.  \<open>Intq\<close> (\<open>devices/intq.c\<close>): a bounded
  queue between interrupt handlers and threads (C17), whose waiter is woken (C18).

  \<^bold>\<open>Memory.\<close>  \<open>Machine\<close>: bytes, words and addresses.  \<open>Palloc\<close>: pages that are handed out were free, and nothing but they
  and their pool changes (C22), and freeing them undoes
  it (C23).  \<open>Malloc\<close>: blocks in use never overlap, a request whose size does not wrap around is served with enough bytes or
  with the null pointer, and a block that is freed ends exactly its own use (C40).  \<open>Pagedir\<close>: mapping a page changes the translation of that page only (C24).  \<open>Swap\<close>: a
  page comes back from swap as it was (C30).  \<open>Page\<close> and \<open>Frame\<close>: a page that is added is found at its addresses (C31).
  \<open>Page_Store\<close>: the page tables are apart from the frames, and a page that is evicted and loaded into any frame has its bytes
  again (C32).  \<open>Vm_Tables\<close>: loading, evicting and pinning keep the tables of pages.

  \<^bold>\<open>Files.\<close>  \<open>Block\<close>: devices and roles.  \<open>Cache\<close>: reading sees what was written, whatever is evicted (C25); of the 64 blocks, the
  periodic write-back reaches only the first 32 (C26).  \<open>Inode_Rw\<close>, \<open>Inode\<close>: a file is the sequence of its bytes (C27), sectors
  are allocated from free ones, and the file of the free map, read through the cache, follows the map in memory (C28).  \<open>Directory\<close>: adding a name binds that name only (C29); the
  operations of \<open>filesys/filesys.c\<close> are composed of these.

  \<^bold>\<open>Processes.\<close>  \<open>User_Memory\<close>: the page-fault handler, and how the kernel checks, pins and touches user memory.  \<open>Process\<close>:
  \<open>process_execute\<close>, the ELF loader, \<open>start_process\<close>, exit.  \<open>Process_Args\<close>: a process starts with its words on the stack (C33).
  \<open>Process_Load\<close>: a valid segment becomes a known list of user pages (C38).  \<open>Process_Wait\<close>: \<open>process_wait\<close> and \<open>process_exit\<close> as steps
  of two threads in every order; the invariant is proved by induction over the steps (C37).  \<open>Syscall\<close>: the dispatcher and every
  call.  \<open>Syscall_Files\<close>: the table of open files stays well formed (C34) and is a map from descriptors (C35); the locale
  \<open>file_table_pred\<close> collects what every call keeps.  \<open>Syscall_Mmap\<close>: unmapping a file that fills its pages never returns (C36).

  \<^bold>\<open>Bounds.\<close>  Hypotheses of the form \<open>x < 2 ^ 32\<close> or \<open>x < 2 ^ 31\<close> say that a value has its C type; \<open>fd_counter < 2 ^ 31 - 1\<close> that a
  process has not yet opened all the files its counter can number.  The invariants (\<open>heap_inv\<close>, \<open>machine_wf\<close>, \<open>pd_wf\<close>, \<open>cache_ok\<close>,
  \<open>inode_ok\<close>, \<open>vm_ok\<close>, \<open>fds_ok\<close>) are shown to hold of concrete states in the witnesses.

  \<^bold>\<open>Simplifications.\<close>  The buffer cache, the file system and virtual memory are run by one thread at a time: a lock is a flag or
  the address of its holder, so that a path that forgets to release one, or takes one twice, shows, but two threads inside do
  not interleave.  Where the kernel keeps links inside the objects of a list, components other than \<open>Kernel_List\<close> use the list
  that the links represent.  Indices and sizes of arrays in \<open>lib/stdlib.c\<close>,
  addresses that are only compared, the product \<open>nice * 2\<close> and the bytes left in a file are computed without wrap-around, which an
  array in memory, a 32-bit address, a clamped \<open>nice\<close> and an offset that is not negative do not reach.  The shift of an \<open>int\<close> by 32 or
  more bits in \<open>write_back_all\<close>, which C leaves undefined, is the one of the x86.  Messages that are printed are left out, but for the exit lines and console output of a process.

  \<^bold>\<open>Not modelled.\<close>  The assembly files (\<open>loader.S\<close>, \<open>start.S\<close>, \<open>switch.S\<close>, \<open>intr-stubs.S\<close>) and the code that only talks to
  hardware (\<open>ide.c\<close>, \<open>serial.c\<close>, \<open>vga.c\<close>, \<open>kbd.c\<close>, \<open>pit.c\<close>, \<open>rtc.c\<close>, \<open>speaker.c\<close>, \<open>shutdown.c\<close>, \<open>gdt.c\<close>, \<open>tss.c\<close>), because their meaning is
  the effect on devices and registers that the sources do not describe; \<open>partition.c\<close> and \<open>fsutil.c\<close>, which drive the block and
  file layers from such devices; \<open>init.c\<close>, which calls the initialisers in order and reads the command line; the console and
  the debugging aids, which print; \<open>lib/ustar.c\<close>; the user library and the example and test programs, which run in user mode;
  and the utilities of the host.
\<close>

end
